(* ===== verification/Prelude.thy ===== *)
theory Prelude
  imports Main "HOL-Library.Word" "HOL-Library.Monad_Syntax"
begin

text \<open>
  Shared vocabulary of the development: the machine types of the C code, its
  byte-addressed memory, undefined behaviour as \<open>None\<close>, little-endian integers, and a small
  weakest-precondition calculus over the option monad which the component proofs use.

  Conventions used by every component:
  \<^item> a C function whose execution may touch memory returns a value of an option type, and
    \<open>None\<close> stands for undefined behaviour (a read or write outside allocated memory, a failed
    assertion, a signed overflow), never for a failure the C code reports;
  \<^item> a C function that returns 0 or 1 returns a \<open>bool\<close>; one that returns 0 or 1 and fills an
    out parameter on success returns an inner option;
  \<^item> pointers are integers, and memory maps a pointer to the byte stored there.
\<close>

unbundle bit_operations_syntax

section \<open>Machine types\<close>

type_synonym u8 = "8 word"
type_synonym u16 = "16 word"
type_synonym u32 = "32 word"
type_synonym u64 = "64 word"
type_synonym ptr = int
type_synonym mem = "ptr \<Rightarrow> u8 option"

text \<open>
  The value of a C \<open>int\<close> expression: signed overflow is undefined behaviour.
\<close>

definition c_int :: "int \<Rightarrow> int option" where
  "c_int x = (if - (2 ^ 31) \<le> x \<and> x < 2 ^ 31 then Some x else None)"

text \<open>Conversion of an integer to (signed) \<open>char\<close>, as gcc and clang define it.\<close>

definition to_char :: "int \<Rightarrow> int" where
  "to_char x = sint (word_of_int x :: u8)"

text \<open>The bytes of a string literal.\<close>

definition str :: "string \<Rightarrow> u8 list" where
  "str s = map of_char s"

abbreviation asc :: "char \<Rightarrow> int" where
  "asc c \<equiv> of_char c"

section \<open>Undefined behaviour and weakest preconditions\<close>

text \<open>
  \<open>ok f P\<close>: the computation \<open>f\<close> has no undefined behaviour and its result satisfies \<open>P\<close>.
  Rewriting with the collection below turns a \<open>do\<close> block into the conditions of its steps.
\<close>

definition ok :: "'a option \<Rightarrow> ('a \<Rightarrow> bool) \<Rightarrow> bool" where
  "ok f P \<longleftrightarrow> (case f of None \<Rightarrow> False | Some x \<Rightarrow> P x)"

named_theorems ok_simps \<open>weakest preconditions of the option monad\<close>

lemma ok_Some [ok_simps, simp]: "ok (Some x) P = P x"
  by (simp add: ok_def)

lemma ok_None [ok_simps, simp]: "ok None P = False"
  by (simp add: ok_def)

lemma ok_bind [ok_simps]: "ok (Option.bind f g) P = ok f (\<lambda>x. ok (g x) P)"
  by (cases f) simp_all

lemma ok_if [ok_simps]: "ok (if b then f else g) P = (if b then ok f P else ok g P)"
  by simp

lemma ok_split [ok_simps]: "ok (case z of (x, y) \<Rightarrow> f x y) P = (case z of (x, y) \<Rightarrow> ok (f x y) P)"
  by (cases z) simp

lemma ok_map [ok_simps]: "ok (map_option f x) P = ok x (\<lambda>y. P (f y))"
  by (cases x) simp_all

lemma ok_conseq: "ok f P \<Longrightarrow> (\<And>x. f = Some x \<Longrightarrow> P x \<Longrightarrow> Q x) \<Longrightarrow> ok f Q"
  by (cases f) simp_all

lemma ok_iff: "ok f P \<longleftrightarrow> (\<exists>x. f = Some x \<and> P x)"
  by (cases f) simp_all

lemma ok_conjI: "ok f P \<Longrightarrow> ok f Q \<Longrightarrow> ok f (\<lambda>x. P x \<and> Q x)"
  by (cases f) simp_all

lemma ok_D: "ok f P \<Longrightarrow> f = Some x \<Longrightarrow> P x"
  by simp

lemma ok_bindI: "ok f Q \<Longrightarrow> (\<And>x. f = Some x \<Longrightarrow> Q x \<Longrightarrow> ok (g x) P) \<Longrightarrow> ok (Option.bind f g) P"
  by (cases f) simp_all

lemma bind_eq_Some: "(Option.bind f g = Some y) \<longleftrightarrow> (\<exists>x. f = Some x \<and> g x = Some y)"
  by (cases f) simp_all

text \<open>The weaker judgement that says nothing when the behaviour is undefined.\<close>

definition part :: "'a option \<Rightarrow> ('a \<Rightarrow> bool) \<Rightarrow> bool" where
  "part f P \<longleftrightarrow> (case f of None \<Rightarrow> True | Some x \<Rightarrow> P x)"

lemma part_Some [simp]: "part (Some x) P = P x" and part_None [simp]: "part None P"
  by (simp_all add: part_def)

lemma part_D: "part f P \<Longrightarrow> f = Some x \<Longrightarrow> P x"
  by simp

lemma part_I: "(\<And>x. f = Some x \<Longrightarrow> P x) \<Longrightarrow> part f P"
  by (cases f) simp_all

lemma part_bindI: "part f Q \<Longrightarrow> (\<And>x. Q x \<Longrightarrow> part (g x) P) \<Longrightarrow> part (Option.bind f g) P"
  by (cases f) simp_all

lemma part_True: "part f (\<lambda>_. True)"
  by (cases f) simp_all

lemma part_bind_trivial: "(\<And>x. part (g x) P) \<Longrightarrow> part (Option.bind f g) P"
  by (cases f) simp_all

lemma c_int_ok: "- 2147483648 \<le> x \<Longrightarrow> x < 2147483648 \<Longrightarrow> c_int x = Some x"
  by (simp add: c_int_def)

section \<open>Memory\<close>

definition load :: "mem \<Rightarrow> ptr \<Rightarrow> u8 option" where
  "load m a = m a"

definition store :: "mem \<Rightarrow> ptr \<Rightarrow> u8 \<Rightarrow> mem option" where
  "store m a v = (case m a of None \<Rightarrow> None | Some _ \<Rightarrow> Some (m(a \<mapsto> v)))"

primrec loads :: "nat \<Rightarrow> mem \<Rightarrow> ptr \<Rightarrow> u8 list option" where
  "loads 0 m a = Some []"
| "loads (Suc n) m a = do { b \<leftarrow> load m a; bs \<leftarrow> loads n m (a + 1); Some (b # bs) }"

primrec stores :: "u8 list \<Rightarrow> mem \<Rightarrow> ptr \<Rightarrow> mem option" where
  "stores [] m a = Some m"
| "stores (b # bs) m a = do { m' \<leftarrow> store m a b; stores bs m' (a + 1) }"

text \<open>\<open>memcpy\<close> and \<open>memset\<close>: a negative \<open>int\<close> length becomes a huge \<open>size_t\<close>.\<close>

definition memcpy :: "mem \<Rightarrow> ptr \<Rightarrow> ptr \<Rightarrow> int \<Rightarrow> mem option" where
  "memcpy m dst src n =
     (if n < 0 then None else do { bs \<leftarrow> loads (nat n) m src; stores bs m dst })"

definition memset :: "mem \<Rightarrow> ptr \<Rightarrow> u8 \<Rightarrow> int \<Rightarrow> mem option" where
  "memset m dst c n = (if n < 0 then None else stores (replicate (nat n) c) m dst)"

definition valid :: "mem \<Rightarrow> ptr \<Rightarrow> int \<Rightarrow> bool" where
  "valid m a n \<longleftrightarrow> (\<forall>i\<in>{a..<a + n}. m i \<noteq> None)"

text \<open>The effect of a sequence of stores, and the bytes of a range.\<close>

definition putb :: "mem \<Rightarrow> ptr \<Rightarrow> u8 list \<Rightarrow> mem" where
  "putb m a bs = (\<lambda>i. if a \<le> i \<and> i < a + int (length bs) then Some (bs ! nat (i - a)) else m i)"

definition getb :: "mem \<Rightarrow> ptr \<Rightarrow> nat \<Rightarrow> u8 list" where
  "getb m a n = map (\<lambda>i. the (m (a + int i))) [0..<n]"

text \<open>A memory that holds the bytes \<open>bs\<close> at address \<open>a\<close> and nothing else.\<close>

definition mem_of :: "ptr \<Rightarrow> u8 list \<Rightarrow> mem" where
  "mem_of a bs = putb Map.empty a bs"

lemma valid_load: "valid m a n \<Longrightarrow> a \<le> i \<Longrightarrow> i < a + n \<Longrightarrow> load m i = Some (the (m i))"
  by (auto simp: valid_def load_def)

lemma valid_sub: "valid m a n \<Longrightarrow> a \<le> b \<Longrightarrow> b + k \<le> a + n \<Longrightarrow> valid m b k"
  by (auto simp: valid_def)

lemma valid_empty [simp]: "n \<le> 0 \<Longrightarrow> valid m a n"
  by (auto simp: valid_def)

lemma valid_Suc: "valid m a (int (Suc n)) \<longleftrightarrow> m a \<noteq> None \<and> valid m (a + 1) (int n)"
proof
  assume "m a \<noteq> None \<and> valid m (a + 1) (int n)"
  then have "m a \<noteq> None" and *: "\<forall>i\<in>{a + 1..<a + 1 + int n}. m i \<noteq> None"
    by (simp_all add: valid_def)
  then have "m i \<noteq> None" if "i \<in> {a..<a + int (Suc n)}" for i
    using that by (cases "i = a") auto
  then show "valid m a (int (Suc n))" by (simp add: valid_def)
qed (auto simp: valid_def)

lemma putb_Nil [simp]: "putb m a [] = m"
  by (rule ext) (auto simp: putb_def)

lemma length_getb [simp]: "length (getb m a n) = n"
  by (simp add: getb_def)

lemma getb_0 [simp]: "getb m a 0 = []"
  by (simp add: getb_def)

lemma getb_Suc: "getb m a (Suc n) = the (m a) # getb m (a + 1) n"
  by (simp add: getb_def map_upt_Suc add.assoc del: upt_Suc)

lemma nth_getb: "i < n \<Longrightarrow> getb m a n ! i = the (m (a + int i))"
  by (simp add: getb_def)

lemma getb_append: "getb m a (n + k) = getb m a n @ getb m (a + int n) k"
  by (induction n arbitrary: a) (simp_all add: getb_Suc algebra_simps)

lemma putb_Cons: "putb m a (b # bs) = putb (m(a \<mapsto> b)) (a + 1) bs"
proof
  fix i
  show "putb m a (b # bs) i = putb (m(a \<mapsto> b)) (a + 1) bs i"
  proof (cases "i = a")
    case True
    then show ?thesis by (simp add: putb_def)
  next
    case False
    then have "a \<le> i \<Longrightarrow> nat (i - a) = Suc (nat (i - (a + 1)))" by linarith
    with False show ?thesis by (auto simp: putb_def)
  qed
qed

lemma valid_upd: "valid m b n \<Longrightarrow> valid (m(a \<mapsto> v)) b n"
  by (auto simp: valid_def)

lemma valid_putb: "valid m b n \<Longrightarrow> valid (putb m a bs) b n"
  by (auto simp: valid_def putb_def)

lemma loads_valid: "valid m a (int n) \<Longrightarrow> loads n m a = Some (getb m a n)"
proof (induction n arbitrary: a)
  case 0
  then show ?case by simp
next
  case (Suc n)
  then have "m a \<noteq> None" and "valid m (a + 1) (int n)"
    by (simp_all add: valid_Suc del: of_nat_Suc)
  with Suc.IH show ?case by (auto simp: load_def getb_Suc)
qed

lemma stores_valid: "valid m a (int (length bs)) \<Longrightarrow> stores bs m a = Some (putb m a bs)"
proof (induction bs arbitrary: m a)
  case Nil
  then show ?case by simp
next
  case (Cons b bs)
  then have "m a \<noteq> None" and "valid m (a + 1) (int (length bs))"
    using valid_Suc[of m a "length bs"] by simp_all
  moreover from this have "stores bs (m(a \<mapsto> b)) (a + 1) = Some (putb (m(a \<mapsto> b)) (a + 1) bs)"
    by (intro Cons.IH valid_upd)
  ultimately show ?case by (auto simp: store_def putb_Cons)
qed

lemma loads_Some_valid: "loads n m a = Some bs \<Longrightarrow> valid m a (int n) \<and> bs = getb m a n"
proof (induction n arbitrary: a bs)
  case 0
  then show ?case by simp
next
  case (Suc n)
  then obtain b bs' where "m a = Some b" "loads n m (a + 1) = Some bs'" "bs = b # bs'"
    by (auto simp: bind_eq_Some load_def)
  with Suc.IH show ?case by (simp add: valid_Suc getb_Suc del: of_nat_Suc)
qed

lemma stores_Some_putb: "stores bs m a = Some m' \<Longrightarrow> m' = putb m a bs"
proof (induction bs arbitrary: m a)
  case Nil
  then show ?case by simp
next
  case (Cons b bs)
  then obtain m1 where "store m a b = Some m1" "stores bs m1 (a + 1) = Some m'"
    by (auto simp: bind_eq_Some)
  with Cons.IH show ?case by (auto simp: store_def putb_Cons split: option.splits)
qed

lemma getb_putb_same [simp]: "getb (putb m a bs) a (length bs) = bs"
  by (rule nth_equalityI) (simp_all add: nth_getb putb_def)

lemma getb_putb_disjoint:
  "a + int n \<le> b \<or> b + int (length bs) \<le> a \<Longrightarrow> getb (putb m b bs) a n = getb m a n"
  by (rule nth_equalityI) (auto simp: nth_getb putb_def)

lemma putb_apply_outside: "i < a \<or> a + int (length bs) \<le> i \<Longrightarrow> putb m a bs i = m i"
  by (auto simp: putb_def)

lemma putb_append: "putb m a (xs @ ys) = putb (putb m a xs) (a + int (length xs)) ys"
  by (induction xs arbitrary: m a) (simp_all add: putb_Cons algebra_simps)

lemma getb_eq_nth: "length bs = n \<Longrightarrow> (\<And>i. i < n \<Longrightarrow> m (a + int i) = Some (bs ! i)) \<Longrightarrow> getb m a n = bs"
  by (rule nth_equalityI) (simp_all add: nth_getb)

lemma valid_mem_of: "a \<le> b \<Longrightarrow> b + n \<le> a + int (length bs) \<Longrightarrow> valid (mem_of a bs) b n"
  by (auto simp: valid_def mem_of_def putb_def)

lemma memcpy_valid:
  "0 \<le> n \<Longrightarrow> valid m src n \<Longrightarrow> valid m dst n \<Longrightarrow>
     memcpy m dst src n = Some (putb m dst (getb m src (nat n)))"
  by (simp add: memcpy_def loads_valid stores_valid)

lemma memset_valid:
  "0 \<le> n \<Longrightarrow> valid m dst n \<Longrightarrow> memset m dst c n = Some (putb m dst (replicate (nat n) c))"
  by (simp add: memset_def stores_valid)

section \<open>Little-endian integers\<close>

text \<open>
  The code stores integers in host order; the targets of the library are little-endian.
\<close>

definition le_bytes :: "nat \<Rightarrow> 'a::len word \<Rightarrow> u8 list" where
  "le_bytes k w = map (\<lambda>i. ucast (drop_bit (8 * i) w)) [0..<k]"

primrec le_word :: "u8 list \<Rightarrow> 'a::len word" where
  "le_word [] = 0"
| "le_word (b # bs) = ucast b OR push_bit 8 (le_word bs)"

lemma length_le_bytes [simp]: "length (le_bytes k w) = k"
  by (simp add: le_bytes_def)

lemma bit_le_word:
  "bit (le_word bs :: 'a::len word) i \<longleftrightarrow>
     i < LENGTH('a) \<and> i div 8 < length bs \<and> bit (bs ! (i div 8)) (i mod 8)"
proof (induction bs arbitrary: i)
  case Nil
  then show ?case by simp
next
  case (Cons b bs)
  show ?case
  proof (cases "i < 8")
    case True
    then show ?thesis by (auto simp: bit_simps)
  next
    case False
    then have "i div 8 = Suc ((i - 8) div 8)" and "i mod 8 = (i - 8) mod 8" 
      by (simp_all add: le_div_geq le_mod_geq)
    moreover have "\<not> bit b i" using False bit_imp_le_length[of b i] by auto
    moreover have "bit (le_word (b # bs) :: 'a word) i \<longleftrightarrow>
        bit (ucast b :: 'a word) i \<or> i < LENGTH('a) \<and> bit (le_word bs :: 'a word) (i - 8)"
      using False by (simp add: bit_or_iff bit_push_bit_iff)
    ultimately show ?thesis
      using False Cons[of "i - 8"] unfolding bit_ucast_iff by auto
  qed
qed

lemma le_word_le_bytes:
  "LENGTH('a) \<le> 8 * k \<Longrightarrow> le_word (le_bytes k (w :: 'a::len word)) = w"
proof (rule bit_word_eqI)
  fix i assume *: "i < LENGTH('a)" "LENGTH('a) \<le> 8 * k"
  then have "i div 8 < k" by linarith
  with * show "bit (le_word (le_bytes k w) :: 'a word) i = bit w i"
    by (simp add: bit_le_word le_bytes_def bit_simps)
qed

section \<open>Words\<close>

lemma and_not_mask: "a AND NOT (mask n) = a - take_bit n a" for a :: "'a::len word"
proof -
  have "a AND NOT (mask n) = push_bit n (drop_bit n a)"
    by (rule bit_word_eqI) (auto simp: bit_simps)
  then show ?thesis using bits_ident[of n a] by (simp add: algebra_simps)
qed

lemma uint_ucast_up [simp]: "uint (ucast (x :: u8) :: u32) = uint x" "uint (ucast (x :: u8) :: u64) = uint x"
  "uint (ucast (y :: u16) :: u32) = uint y" "uint (ucast (z :: u32) :: u64) = uint z"
  by (simp_all add: uint_up_ucast is_up)

lemma unat_ucast_up [simp]: "unat (ucast (x :: u8) :: u32) = unat x" "unat (ucast (x :: u8) :: u64) = unat x"
  "unat (ucast (y :: u16) :: u32) = unat y" "unat (ucast (z :: u32) :: u64) = unat z"
  by (simp_all only: unat_eq_nat_uint uint_ucast_up)

section \<open>Lists\<close>

lemma take_Suc_nth: "i < length xs \<Longrightarrow> take (Suc i) xs = take i xs @ [xs ! i]"
  by (simp add: take_Suc_conv_app_nth)

lemma drop_eq_Cons: "i < length xs \<Longrightarrow> drop i xs = xs ! i # drop (Suc i) xs"
  by (simp add: Cons_nth_drop_Suc)

end
