(* ===== verification/Cursor.thy ===== *)
theory Cursor
  imports Prelude
begin

text \<open>
  The bounded cursor of \<open>src/src/cursor.h\<close>: every parser and serialiser of the library reads
  and writes memory through it. This theory models the cursor itself, its allocation, push,
  pull, stack and alignment operations; the variable-length integers are in \<open>Varint\<close> and
  the text scanning part of the header in \<open>Cursor_Text\<close>.

  A cursor is three pointers; its buffer is the range of memory between \<open>cstart\<close> and
  \<open>cend\<close>. Operations that write take the memory and return it changed.
\<close>

section \<open>The cursor\<close>

record cursor =
  cstart :: ptr
  cp :: ptr
  cend :: ptr

definition reset_cursor :: "cursor \<Rightarrow> cursor" where
  "reset_cursor c = c\<lparr>cp := cstart c\<rparr>"

definition wipe_cursor :: "mem \<Rightarrow> cursor \<Rightarrow> (mem \<times> cursor) option" where
  "wipe_cursor m c = do {
     let c = reset_cursor c;
     m \<leftarrow> memset m (cstart c) 0 (cend c - cstart c);
     Some (m, c) }"

definition make_cursor :: "ptr \<Rightarrow> ptr \<Rightarrow> cursor" where
  "make_cursor start end' = \<lparr>cstart = start, cp = start, cend = end'\<rparr>"

definition cursor_eof :: "cursor \<Rightarrow> bool" where
  "cursor_eof c \<longleftrightarrow> cp c = cend c"

section \<open>Allocation from a cursor\<close>

text \<open>The returned pointer is \<open>None\<close> where the C code returns \<open>NULL\<close>.\<close>

definition cursor_malloc :: "cursor \<Rightarrow> nat \<Rightarrow> ptr option \<times> cursor" where
  "cursor_malloc c sz =
     (if cp c + int sz > cend c then (None, c)
      else (Some (cp c), c\<lparr>cp := cp c + int sz\<rparr>))"

definition cursor_alloc :: "mem \<Rightarrow> cursor \<Rightarrow> nat \<Rightarrow> (ptr option \<times> mem \<times> cursor) option" where
  "cursor_alloc m c sz =
     (case cursor_malloc c sz of
        (None, c) \<Rightarrow> Some (None, m, c)
      | (Some ret, c) \<Rightarrow> do { m \<leftarrow> memset m ret 0 (int sz); Some (Some ret, m, c) })"

definition cursor_slice :: "mem \<Rightarrow> cursor \<Rightarrow> nat \<Rightarrow> (cursor option \<times> mem \<times> cursor) option" where
  "cursor_slice m c sz = do {
     (r, m, c) \<leftarrow> cursor_alloc m c sz;
     case r of
       None \<Rightarrow> Some (None, m, c)
     | Some p \<Rightarrow> Some (Some (make_cursor p (cp c)), m, c) }"

definition cursor_malloc_slice :: "cursor \<Rightarrow> nat \<Rightarrow> cursor option \<times> cursor" where
  "cursor_malloc_slice c sz =
     (case cursor_malloc c sz of
        (None, c) \<Rightarrow> (None, c)
      | (Some p, c) \<Rightarrow> (Some (make_cursor p (cp c)), c))"

definition copy_cursor :: "cursor \<Rightarrow> cursor" where
  "copy_cursor src = \<lparr>cstart = cstart src, cp = cp src, cend = cend src\<rparr>"

section \<open>Reading\<close>

definition cursor_skip :: "cursor \<Rightarrow> int \<Rightarrow> bool \<times> cursor" where
  "cursor_skip c n =
     (if cp c + n \<ge> cend c then (False, c) else (True, c\<lparr>cp := cp c + n\<rparr>))"

definition cursor_pull_byte :: "mem \<Rightarrow> cursor \<Rightarrow> (u8 option \<times> cursor) option" where
  "cursor_pull_byte m c =
     (if cp c \<ge> cend c then Some (None, c)
      else do { b \<leftarrow> load m (cp c); Some (Some b, c\<lparr>cp := cp c + 1\<rparr>) })"

definition parse_byte :: "mem \<Rightarrow> cursor \<Rightarrow> u8 option option" where
  "parse_byte m c =
     (if cp c \<ge> cend c then Some None else do { b \<leftarrow> load m (cp c); Some (Some b) })"

definition parse_char :: "mem \<Rightarrow> cursor \<Rightarrow> int \<Rightarrow> (bool \<times> cursor) option" where
  "parse_char m c x =
     (if cp c \<ge> cend c then Some (False, c)
      else do {
        b \<leftarrow> load m (cp c);
        if uint b = x then Some (True, c\<lparr>cp := cp c + 1\<rparr>) else Some (False, c) })"

definition peek_char :: "mem \<Rightarrow> cursor \<Rightarrow> int \<Rightarrow> int option" where
  "peek_char m c ind =
     (if cp c + ind < cstart c \<or> cp c + ind \<ge> cend c then Some (-1)
      else do { b \<leftarrow> load m (cp c + ind); Some (uint b) })"

text \<open>
  The loop of \<open>cursor_pull_c_str\<close>; the start of the string is set before it runs.
\<close>

function pull_c_str_loop :: "mem \<Rightarrow> cursor \<Rightarrow> (bool \<times> cursor) option" where
  "pull_c_str_loop m c =
     (if cp c < cend c then do {
        b \<leftarrow> load m (cp c);
        if b = 0 then Some (True, c\<lparr>cp := cp c + 1\<rparr>)
        else pull_c_str_loop m (c\<lparr>cp := cp c + 1\<rparr>) }
      else Some (False, c))"
  by pat_completeness auto
termination
  by (relation "measure (\<lambda>(m, c). nat (cend c - cp c))") auto

declare pull_c_str_loop.simps [simp del]

definition cursor_pull_c_str :: "mem \<Rightarrow> cursor \<Rightarrow> (ptr option \<times> cursor) option" where
  "cursor_pull_c_str m c = do {
     (r, c') \<leftarrow> pull_c_str_loop m c;
     Some (if r then Some (cp c) else None, c') }"

text \<open>
  \<open>cursor_pull\<close> copies \<open>len\<close> bytes to a destination the caller owns; the model returns them.
\<close>

definition cursor_pull :: "mem \<Rightarrow> cursor \<Rightarrow> int \<Rightarrow> (u8 list option \<times> cursor) option" where
  "cursor_pull m c len =
     (if cp c + len > cend c then Some (None, c)
      else if len < 0 then None
      else do { bs \<leftarrow> loads (nat len) m (cp c); Some (Some bs, c\<lparr>cp := cp c + len\<rparr>) })"

definition pull_data_into_cursor ::
  "mem \<Rightarrow> cursor \<Rightarrow> cursor \<Rightarrow> int \<Rightarrow> (ptr option \<times> mem \<times> cursor \<times> cursor) option" where
  "pull_data_into_cursor m c dest len =
     (if cp dest + len > cend dest then Some (None, m, c, dest)
      else do {
        (r, c) \<leftarrow> cursor_pull m c len;
        case r of
          None \<Rightarrow> Some (None, m, c, dest)
        | Some bs \<Rightarrow> do {
            m \<leftarrow> stores bs m (cp dest);
            Some (Some (cp dest), m, c, dest\<lparr>cp := cp dest + len\<rparr>) } })"

definition cursor_pull_int :: "mem \<Rightarrow> cursor \<Rightarrow> (u32 option \<times> cursor) option" where
  "cursor_pull_int m c = do {
     (r, c) \<leftarrow> cursor_pull m c 4;
     Some (map_option le_word r, c) }"

definition cursor_pull_u16 :: "mem \<Rightarrow> cursor \<Rightarrow> (u16 option \<times> cursor) option" where
  "cursor_pull_u16 m c = do {
     (r, c) \<leftarrow> cursor_pull m c 2;
     Some (map_option le_word r, c) }"

definition pull_bytes :: "cursor \<Rightarrow> int \<Rightarrow> ptr option \<times> cursor" where
  "pull_bytes c count' =
     (if cp c + count' > cend c then (None, c)
      else (Some (cp c), c\<lparr>cp := cp c + count'\<rparr>))"

section \<open>The cursor as a stack\<close>

definition cursor_dropn :: "cursor \<Rightarrow> int \<Rightarrow> int \<Rightarrow> (bool \<times> cursor) option" where
  "cursor_dropn c sz n =
     (if n = 0 then Some (True, c)
      else do {
        k \<leftarrow> c_int (sz * n);
        if cp c - k < cstart c then Some (False, c) else Some (True, c\<lparr>cp := cp c - k\<rparr>) })"

definition cursor_drop :: "cursor \<Rightarrow> int \<Rightarrow> (bool \<times> cursor) option" where
  "cursor_drop c sz = cursor_dropn c sz 1"

definition cursor_topn :: "cursor \<Rightarrow> int \<Rightarrow> int \<Rightarrow> ptr option option" where
  "cursor_topn c len n = do {
     n \<leftarrow> c_int (n + 1);
     k \<leftarrow> c_int (len * n);
     Some (if cp c - k < cstart c then None else Some (cp c - k)) }"

definition cursor_top :: "cursor \<Rightarrow> int \<Rightarrow> ptr option" where
  "cursor_top c len = (if cp c - len < cstart c then None else Some (cp c - len))"

definition cursor_top_int :: "mem \<Rightarrow> cursor \<Rightarrow> u32 option option" where
  "cursor_top_int m c =
     (case cursor_top c 4 of
        None \<Rightarrow> Some None
      | Some p \<Rightarrow> do { bs \<leftarrow> loads 4 m p; Some (Some (le_word bs)) })"

definition cursor_pop :: "mem \<Rightarrow> cursor \<Rightarrow> int \<Rightarrow> (u8 list option \<times> cursor) option" where
  "cursor_pop m c len =
     (if cp c - len < cstart c then Some (None, c)
      else if len < 0 then None
      else do {
        let c = c\<lparr>cp := cp c - len\<rparr>;
        bs \<leftarrow> loads (nat len) m (cp c);
        Some (Some bs, c) })"

section \<open>Writing\<close>

definition cursor_push_byte :: "mem \<Rightarrow> cursor \<Rightarrow> u8 \<Rightarrow> (bool \<times> mem \<times> cursor) option" where
  "cursor_push_byte m c b =
     (if cp c + 1 > cend c then Some (False, m, c)
      else do { m \<leftarrow> store m (cp c) b; Some (True, m, c\<lparr>cp := cp c + 1\<rparr>) })"

text \<open>
  \<open>cursor_push\<close>: the \<open>len\<close> bytes at \<open>data\<close> are given by value. Where \<open>data\<close> is the cursor
  position itself the copy is skipped, which leaves the same bytes in place.
\<close>

definition cursor_push :: "mem \<Rightarrow> cursor \<Rightarrow> u8 list \<Rightarrow> (bool \<times> mem \<times> cursor) option" where
  "cursor_push m c bs =
     (if cp c + int (length bs) > cend c then Some (False, m, c)
      else do {
        m \<leftarrow> stores bs m (cp c);
        Some (True, m, c\<lparr>cp := cp c + int (length bs)\<rparr>) })"

definition cursor_push_int :: "mem \<Rightarrow> cursor \<Rightarrow> u32 \<Rightarrow> (bool \<times> mem \<times> cursor) option" where
  "cursor_push_int m c i = cursor_push m c (le_bytes 4 i)"

definition cursor_push_u32 :: "mem \<Rightarrow> cursor \<Rightarrow> u32 \<Rightarrow> (bool \<times> mem \<times> cursor) option" where
  "cursor_push_u32 m c i = cursor_push m c (le_bytes 4 i)"

definition cursor_push_u16 :: "mem \<Rightarrow> cursor \<Rightarrow> u16 \<Rightarrow> (bool \<times> mem \<times> cursor) option" where
  "cursor_push_u16 m c i = cursor_push m c (le_bytes 2 i)"

definition cursor_count :: "cursor \<Rightarrow> u64 \<Rightarrow> u64 option" where
  "cursor_count c elem_size =
     (if elem_size = 0 then None else Some (word_of_int (cp c - cstart c) div elem_size))"

text \<open>
  \<open>&cursor->start[elem_size * index]\<close>: the product of an \<open>int\<close> and an \<open>unsigned int\<close> wraps at 32 bits.
\<close>

definition index_cursor :: "cursor \<Rightarrow> u32 \<Rightarrow> int \<Rightarrow> ptr option" where
  "index_cursor c index elem_size =
     (let p = cstart c + uint (word_of_int elem_size * index :: u32)
      in if p \<ge> cend c then None else Some p)"

definition push_sized_str :: "mem \<Rightarrow> cursor \<Rightarrow> u8 list \<Rightarrow> (bool \<times> mem \<times> cursor) option" where
  "push_sized_str m c s = cursor_push m c s"

definition tolower :: "u8 \<Rightarrow> u8" where
  "tolower b = (if 65 \<le> b \<and> b \<le> 90 then b + 32 else b)"

definition cursor_push_lowercase :: "mem \<Rightarrow> cursor \<Rightarrow> u8 list \<Rightarrow> (bool \<times> mem \<times> cursor) option" where
  "cursor_push_lowercase m c s =
     (if cp c + int (length s) \<ge> cend c then Some (False, m, c)
      else do {
        m \<leftarrow> stores (map tolower s) m (cp c);
        Some (True, m, c\<lparr>cp := cp c + int (length s)\<rparr>) })"

text \<open>A C string argument is the list of its bytes before the terminating NUL.\<close>

definition cursor_push_str :: "mem \<Rightarrow> cursor \<Rightarrow> u8 list \<Rightarrow> (bool \<times> mem \<times> cursor) option" where
  "cursor_push_str m c s = cursor_push m c s"

definition cursor_push_c_str :: "mem \<Rightarrow> cursor \<Rightarrow> u8 list option \<Rightarrow> (bool \<times> mem \<times> cursor) option" where
  "cursor_push_c_str m c s =
     (case s of
        None \<Rightarrow> cursor_push_byte m c 0
      | Some s \<Rightarrow> do {
          (r, m, c) \<leftarrow> cursor_push_str m c s;
          if r then cursor_push_byte m c 0 else Some (False, m, c) })"

definition cursor_remaining_capacity :: "cursor \<Rightarrow> int" where
  "cursor_remaining_capacity c = sint (word_of_int (cend c - cp c) :: u32)"

definition cursor_memset :: "mem \<Rightarrow> cursor \<Rightarrow> u8 \<Rightarrow> int \<Rightarrow> (bool \<times> mem \<times> cursor) option" where
  "cursor_memset m c b n =
     (if cp c + n \<ge> cend c then Some (False, m, c)
      else do { m \<leftarrow> memset m (cp c) b n; Some (True, m, c\<lparr>cp := cp c + n\<rparr>) })"

text \<open>
  The padding of \<open>cursor_align\<close>, in the \<open>size_t\<close> arithmetic of the code and converted to \<open>int\<close>.
\<close>

definition align_pad :: "u64 \<Rightarrow> int \<Rightarrow> int" where
  "align_pad sz bytes =
     sint (ucast (((sz + word_of_int (bytes - 1)) AND word_of_int (NOT (bytes - 1))) - sz) :: u32)"

definition cursor_align :: "mem \<Rightarrow> cursor \<Rightarrow> int \<Rightarrow> (bool \<times> mem \<times> cursor) option" where
  "cursor_align m c bytes =
     (let pad = align_pad (word_of_int (cp c - cstart c)) bytes in
      if pad > 0 then do {
        (r, m, c) \<leftarrow> cursor_memset m c 0 pad;
        if \<not> r then Some (False, m, c) else Some (True, m, c) }
      else Some (True, m, c))"

section \<open>Well-formed cursors\<close>

text \<open>
  The invariant of the cursor: the position lies in the buffer and the buffer is allocated.
  Every operation preserves it, and under it no operation has undefined behaviour.
\<close>

definition wf_cursor :: "mem \<Rightarrow> cursor \<Rightarrow> bool" where
  "wf_cursor m c \<longleftrightarrow> cstart c \<le> cp c \<and> cp c \<le> cend c \<and> valid m (cstart c) (cend c - cstart c)"

text \<open>\<open>moved c c'\<close>: the same buffer, at a later or equal position inside it.\<close>

definition moved :: "cursor \<Rightarrow> cursor \<Rightarrow> bool" where
  "moved c c' \<longleftrightarrow> cstart c' = cstart c \<and> cend c' = cend c \<and> cp c \<le> cp c' \<and> cp c' \<le> cend c"

text \<open>\<open>only_writes m m' a b\<close>: the two memories agree outside \<open>[a, b)\<close> and have the same allocation.\<close>

definition only_writes :: "mem \<Rightarrow> mem \<Rightarrow> ptr \<Rightarrow> ptr \<Rightarrow> bool" where
  "only_writes m m' a b \<longleftrightarrow>
     (\<forall>i. (i < a \<or> b \<le> i \<longrightarrow> m' i = m i) \<and> (m' i = None \<longleftrightarrow> m i = None))"

lemma wf_cursorI:
  "cstart c \<le> cp c \<Longrightarrow> cp c \<le> cend c \<Longrightarrow> valid m (cstart c) (cend c - cstart c) \<Longrightarrow> wf_cursor m c"
  by (simp add: wf_cursor_def)

lemma wf_load: "wf_cursor m c \<Longrightarrow> cstart c \<le> i \<Longrightarrow> i < cend c \<Longrightarrow> load m i = Some (the (m i))"
  by (rule valid_load) (auto simp: wf_cursor_def)

lemma wf_load_p: "wf_cursor m c \<Longrightarrow> cp c < cend c \<Longrightarrow> load m (cp c) = Some (the (m (cp c)))"
  by (rule wf_load) (auto simp: wf_cursor_def)

lemma wf_valid: "wf_cursor m c \<Longrightarrow> cstart c \<le> a \<Longrightarrow> a + n \<le> cend c \<Longrightarrow> valid m a n"
  by (rule valid_sub[of m "cstart c" "cend c - cstart c"]) (auto simp: wf_cursor_def)

lemma wf_bounds: "wf_cursor m c \<Longrightarrow> cstart c \<le> cp c \<and> cp c \<le> cend c"
  by (simp add: wf_cursor_def)

lemma wf_putb: "wf_cursor m c \<Longrightarrow> wf_cursor (putb m a bs) c"
  by (simp add: wf_cursor_def valid_putb)

lemma wf_upd_p:
  "wf_cursor m c \<Longrightarrow> cstart c \<le> q \<Longrightarrow> q \<le> cend c \<Longrightarrow> wf_cursor m (c\<lparr>cp := q\<rparr>)"
  by (simp add: wf_cursor_def)

lemma wf_moved: "wf_cursor m c \<Longrightarrow> moved c c' \<Longrightarrow> wf_cursor m c'"
  by (auto simp: wf_cursor_def moved_def)

lemma wf_make_cursor: "a \<le> b \<Longrightarrow> valid m a (b - a) \<Longrightarrow> wf_cursor m (make_cursor a b)"
  by (simp add: wf_cursor_def make_cursor_def)

lemma moved_refl [simp, intro]: "cp c \<le> cend c \<Longrightarrow> moved c c"
  by (simp add: moved_def)

lemma moved_trans [trans]: "moved c c' \<Longrightarrow> moved c' c'' \<Longrightarrow> moved c c''"
  by (auto simp: moved_def)

lemma moved_upd_p [simp]: "moved c (c\<lparr>cp := q\<rparr>) \<longleftrightarrow> cp c \<le> q \<and> q \<le> cend c"
  by (simp add: moved_def)

lemma only_writes_refl [simp, intro]: "only_writes m m a b"
  by (simp add: only_writes_def)

lemma only_writes_trans:
  "only_writes m m' a b \<Longrightarrow> only_writes m' m'' a' b' \<Longrightarrow> a0 \<le> a \<Longrightarrow> a0 \<le> a' \<Longrightarrow> b \<le> b0 \<Longrightarrow> b' \<le> b0 \<Longrightarrow>
     only_writes m m'' a0 b0"
  by (simp add: only_writes_def)

lemma only_writes_putb:
  "valid m a (int (length bs)) \<Longrightarrow> only_writes m (putb m a bs) a (a + int (length bs))"
  by (auto simp: only_writes_def putb_def valid_def)

lemma only_writes_mono: "only_writes m m' a b \<Longrightarrow> a0 \<le> a \<Longrightarrow> b \<le> b0 \<Longrightarrow> only_writes m m' a0 b0"
  by (simp add: only_writes_def)

lemma only_writes_valid: "only_writes m m' a b \<Longrightarrow> valid m' c n \<longleftrightarrow> valid m c n"
  by (simp add: only_writes_def valid_def)

lemma only_writes_getb:
  "only_writes m m' a b \<Longrightarrow> c + int n \<le> a \<or> b \<le> c \<Longrightarrow> getb m' c n = getb m c n"
  by (rule nth_equalityI) (auto simp: nth_getb only_writes_def)

lemma only_writes_wf: "only_writes m m' a b \<Longrightarrow> wf_cursor m' c \<longleftrightarrow> wf_cursor m c"
  by (simp add: wf_cursor_def only_writes_valid)

section \<open>Interfaces: encoders and decoders on a cursor\<close>

text \<open>
  \<open>cursor_writer\<close> is what a caller relies on when it pushes a value: the encoding of the value is
  appended when it fits, and otherwise the operation reports failure and has written
  nothing outside the free part of the buffer. \<open>cursor_decoder\<close> is the converse for a pull, on
  the values its encoding represents, \<open>cursor_reader\<close> adds that a pull is safe on any bytes, and
  \<open>cursor_codec\<close> combines writer and reader into the round trip.
\<close>

locale cursor_writer =
  fixes push :: "mem \<Rightarrow> cursor \<Rightarrow> 'a \<Rightarrow> (bool \<times> mem \<times> cursor) option"
    and enc :: "'a \<Rightarrow> u8 list"
  assumes push_fits:
    "wf_cursor m c \<Longrightarrow> cp c + int (length (enc x)) \<le> cend c \<Longrightarrow>
       push m c x = Some (True, putb m (cp c) (enc x), c\<lparr>cp := cp c + int (length (enc x))\<rparr>)"
    and push_full:
    "wf_cursor m c \<Longrightarrow> \<not> cp c + int (length (enc x)) \<le> cend c \<Longrightarrow>
       ok (push m c x) (\<lambda>(r, m', c'). \<not> r \<and> moved c c' \<and> only_writes m m' (cp c) (cend c))"
begin

lemma push_ok:
  assumes wf: "wf_cursor m c"
  shows "ok (push m c x) (\<lambda>(r, m', c').
           (r \<longleftrightarrow> cp c + int (length (enc x)) \<le> cend c) \<and> moved c c' \<and>
           only_writes m m' (cp c) (cend c) \<and> wf_cursor m' c')"
proof (cases "cp c + int (length (enc x)) \<le> cend c")
  case True
  have v: "valid m (cp c) (int (length (enc x)))"
    using wf True by (intro wf_valid[of m c]) (auto dest: wf_bounds)
  have "only_writes m (putb m (cp c) (enc x)) (cp c) (cend c)"
    using only_writes_putb[OF v] by (rule only_writes_mono) (use True in auto)
  moreover have "wf_cursor (putb m (cp c) (enc x)) (c\<lparr>cp := cp c + int (length (enc x))\<rparr>)"
    using wf True by (intro wf_upd_p wf_putb) (auto dest: wf_bounds)
  ultimately show ?thesis using True by (simp add: push_fits[OF wf True])
next
  case False
  show ?thesis
    by (rule ok_conseq[OF push_full[OF wf False]])
      (use wf False in \<open>auto simp: only_writes_wf dest: wf_moved\<close>)
qed

lemma push_success:
  assumes "wf_cursor m c" and "push m c x = Some (True, m', c')"
  shows "cp c + int (length (enc x)) \<le> cend c \<and> m' = putb m (cp c) (enc x) \<and>
    c' = c\<lparr>cp := cp c + int (length (enc x))\<rparr>"
proof -
  have "cp c + int (length (enc x)) \<le> cend c"
    using push_ok[OF assms(1), of x] assms(2) by simp
  with push_fits[OF assms(1) this] assms(2) show ?thesis by simp
qed

end

locale cursor_decoder =
  fixes pull :: "mem \<Rightarrow> cursor \<Rightarrow> ('a option \<times> cursor) option"
    and enc :: "'a \<Rightarrow> u8 list"
    and repr :: "'a \<Rightarrow> bool"
  assumes pull_enc:
    "wf_cursor m c \<Longrightarrow> repr x \<Longrightarrow> cp c + int (length (enc x)) \<le> cend c \<Longrightarrow>
       getb m (cp c) (length (enc x)) = enc x \<Longrightarrow>
       pull m c = Some (Some x, c\<lparr>cp := cp c + int (length (enc x))\<rparr>)"
begin

text \<open>The form of the law a chain of pulls uses: the bytes at the cursor start with the encoding.\<close>

lemma pull_prefix:
  assumes "wf_cursor m c" and "repr x" and "cp c + int (length (enc x @ rest)) \<le> cend c"
    and "getb m (cp c) (length (enc x @ rest)) = enc x @ rest"
  shows "\<exists>c'. pull m c = Some (Some x, c') \<and> c' = c\<lparr>cp := cp c + int (length (enc x))\<rparr> \<and> wf_cursor m c' \<and>
    cp c' + int (length rest) \<le> cend c' \<and> getb m (cp c') (length rest) = rest"
proof -
  have "getb m (cp c) (length (enc x)) = enc x" "getb m (cp c + int (length (enc x))) (length rest) = rest"
    using assms(4) by (simp_all add: getb_append)
  moreover have "wf_cursor m (c\<lparr>cp := cp c + int (length (enc x))\<rparr>)"
    using assms(1,3) by (intro wf_upd_p) (auto dest: wf_bounds)
  ultimately show ?thesis using assms by (simp add: pull_enc)
qed

end

locale cursor_reader = cursor_decoder pull enc repr
  for pull :: "mem \<Rightarrow> cursor \<Rightarrow> ('a option \<times> cursor) option"
    and enc :: "'a \<Rightarrow> u8 list"
    and repr :: "'a \<Rightarrow> bool" +
  assumes pull_safe: "wf_cursor m c \<Longrightarrow> ok (pull m c) (\<lambda>(r, c'). moved c c')"

locale cursor_codec = cursor_writer push enc + cursor_reader pull enc repr
  for push :: "mem \<Rightarrow> cursor \<Rightarrow> 'a \<Rightarrow> (bool \<times> mem \<times> cursor) option"
    and pull :: "mem \<Rightarrow> cursor \<Rightarrow> ('a option \<times> cursor) option"
    and enc :: "'a \<Rightarrow> u8 list"
    and repr :: "'a \<Rightarrow> bool"
begin

text \<open>What is pushed is what a later pull from the same position reads.\<close>

lemma push_pull:
  assumes wf: "wf_cursor m c" and repr: "repr x" and push: "push m c x = Some (True, m', c')"
  shows "pull m' (c'\<lparr>cp := cp c\<rparr>) = Some (Some x, c')"
proof -
  note * = push_success[OF wf push]
  have "wf_cursor m' (c'\<lparr>cp := cp c\<rparr>)"
    using wf * by (auto simp: wf_cursor_def valid_putb)
  from pull_enc[OF this repr] * show ?thesis by simp
qed

primrec push_all :: "'a list \<Rightarrow> mem \<Rightarrow> cursor \<Rightarrow> (bool \<times> mem \<times> cursor) option" where
  "push_all [] m c = Some (True, m, c)"
| "push_all (x # xs) m c = do {
     (r, m, c) \<leftarrow> push m c x;
     if r then push_all xs m c else Some (False, m, c) }"

primrec pull_all :: "nat \<Rightarrow> mem \<Rightarrow> cursor \<Rightarrow> ('a list option \<times> cursor) option" where
  "pull_all 0 m c = Some (Some [], c)"
| "pull_all (Suc n) m c = do {
     (r, c) \<leftarrow> pull m c;
     case r of
       None \<Rightarrow> Some (None, c)
     | Some x \<Rightarrow> do { (rs, c) \<leftarrow> pull_all n m c; Some (map_option ((#) x) rs, c) } }"

lemma push_all_success:
  assumes "wf_cursor m c" and "push_all xs m c = Some (True, m', c')"
  shows "m' = putb m (cp c) (concat (map enc xs)) \<and>
    c' = c\<lparr>cp := cp c + int (length (concat (map enc xs)))\<rparr> \<and> wf_cursor m' c'"
  using assms
proof (induction xs arbitrary: m c)
  case Nil
  then show ?case by simp
next
  case (Cons x xs)
  obtain m1 c1 where p: "push m c x = Some (True, m1, c1)" "push_all xs m1 c1 = Some (True, m', c')"
    using Cons.prems(2) by (auto simp: bind_eq_Some split: if_splits)
  note * = push_success[OF Cons.prems(1) p(1)]
  have "wf_cursor m1 c1" using push_ok[OF Cons.prems(1), of x] p(1) by simp
  from Cons.IH[OF this p(2)] * show ?case by (auto simp: putb_append algebra_simps)
qed

lemma pull_all_enc:
  assumes "wf_cursor m c" and "list_all repr xs"
    and "cp c + int (length (concat (map enc xs))) \<le> cend c"
    and "getb m (cp c) (length (concat (map enc xs))) = concat (map enc xs)"
  shows "pull_all (length xs) m c =
    Some (Some xs, c\<lparr>cp := cp c + int (length (concat (map enc xs)))\<rparr>)"
  using assms
proof (induction xs arbitrary: c)
  case Nil
  then show ?case by simp
next
  case (Cons x xs)
  let ?c = "c\<lparr>cp := cp c + int (length (enc x))\<rparr>"
  have "getb m (cp c) (length (enc x) + length (concat (map enc xs))) =
      enc x @ concat (map enc xs)"
    using Cons.prems(4) by simp
  then have g: "getb m (cp c) (length (enc x)) = enc x"
    "getb m (cp ?c) (length (concat (map enc xs))) = concat (map enc xs)"
    by (simp_all add: getb_append)
  have p: "pull m c = Some (Some x, ?c)"
    using Cons.prems g(1) by (intro pull_enc) auto
  have "wf_cursor m ?c"
    using Cons.prems by (intro wf_upd_p) (auto dest: wf_bounds)
  from Cons.IH[OF this] Cons.prems g(2) p show ?case by (simp add: algebra_simps)
qed

text \<open>A sequence of values is read back in order.\<close>

lemma push_all_pull_all:
  assumes wf: "wf_cursor m c" and repr: "list_all repr xs"
    and push: "push_all xs m c = Some (True, m', c')"
  shows "pull_all (length xs) m' (c'\<lparr>cp := cp c\<rparr>) = Some (Some xs, c')"
proof -
  note * = push_all_success[OF wf push]
  have "wf_cursor m' (c'\<lparr>cp := cp c\<rparr>)"
    using wf * by (auto simp: wf_cursor_def valid_putb)
  moreover have "cp c + int (length (concat (map enc xs))) \<le> cend c"
    using * by (auto simp: wf_cursor_def)
  ultimately have "pull_all (length xs) m' (c'\<lparr>cp := cp c\<rparr>) =
      Some (Some xs, c'\<lparr>cp := cp c + int (length (concat (map enc xs)))\<rparr>)"
    using pull_all_enc[of m' "c'\<lparr>cp := cp c\<rparr>" xs] repr * by simp
  with * show ?thesis by simp
qed

end

section \<open>The primitive encoders satisfy the interfaces\<close>

lemma store_wf: "wf_cursor m c \<Longrightarrow> cp c < cend c \<Longrightarrow> store m (cp c) b = Some (m(cp c \<mapsto> b))"
  using wf_load[of m c "cp c"] by (auto simp: store_def load_def wf_cursor_def split: option.splits)

lemma cursor_push_fits:
  "wf_cursor m c \<Longrightarrow> cp c + int (length bs) \<le> cend c \<Longrightarrow>
     cursor_push m c bs = Some (True, putb m (cp c) bs, c\<lparr>cp := cp c + int (length bs)\<rparr>)"
  using stores_valid[OF wf_valid, of m c "cp c" bs] wf_bounds[of m c] by (auto simp: cursor_push_def)

lemma cursor_pull_fits:
  "wf_cursor m c \<Longrightarrow> 0 \<le> n \<Longrightarrow> cp c + n \<le> cend c \<Longrightarrow>
     cursor_pull m c n = Some (Some (getb m (cp c) (nat n)), c\<lparr>cp := cp c + n\<rparr>)"
  using loads_valid[OF wf_valid, of m c "cp c" "nat n"] wf_bounds[of m c] by (auto simp: cursor_pull_def)

lemma cursor_pull_short: "\<not> cp c + n \<le> cend c \<Longrightarrow> cursor_pull m c n = Some (None, c)"
  by (simp add: cursor_pull_def)

lemma cursor_pull_moved:
  "wf_cursor m c \<Longrightarrow> 0 \<le> n \<Longrightarrow> ok (cursor_pull m c n) (\<lambda>(r, c'). moved c c')"
  by (cases "cp c + n \<le> cend c") (auto simp: cursor_pull_fits cursor_pull_short dest: wf_bounds)

interpretation bytes_writer: cursor_writer cursor_push "\<lambda>bs. bs"
  by unfold_locales
    (auto simp: cursor_push_fits, auto simp: cursor_push_def dest: wf_bounds)

interpretation byte_codec: cursor_codec cursor_push_byte cursor_pull_byte "\<lambda>b. [b]" "\<lambda>_. True"
proof unfold_locales
  fix m c and x :: u8
  assume wf: "wf_cursor m c"
  show "cp c + int (length [x]) \<le> cend c \<Longrightarrow> cursor_push_byte m c x =
      Some (True, putb m (cp c) [x], c\<lparr>cp := cp c + int (length [x])\<rparr>)"
    using wf by (simp add: cursor_push_byte_def store_wf putb_Cons)
  show "\<not> cp c + int (length [x]) \<le> cend c \<Longrightarrow> ok (cursor_push_byte m c x)
      (\<lambda>(r, m', c'). \<not> r \<and> moved c c' \<and> only_writes m m' (cp c) (cend c))"
    using wf_bounds[OF wf] by (simp add: cursor_push_byte_def)
  show "cp c + int (length [x]) \<le> cend c \<Longrightarrow> getb m (cp c) (length [x]) = [x] \<Longrightarrow>
      cursor_pull_byte m c = Some (Some x, c\<lparr>cp := cp c + int (length [x])\<rparr>)"
    using wf wf_bounds[OF wf] by (simp add: cursor_pull_byte_def wf_load getb_Suc)
  show "ok (cursor_pull_byte m c) (\<lambda>(r, c'). moved c c')"
    using wf wf_bounds[OF wf] by (auto simp: cursor_pull_byte_def wf_load)
qed

interpretation u16_codec: cursor_codec cursor_push_u16 cursor_pull_u16 "le_bytes 2" "\<lambda>_. True"
proof unfold_locales
  fix m c and x :: u16
  assume wf: "wf_cursor m c"
  show "cp c + int (length (le_bytes 2 x)) \<le> cend c \<Longrightarrow> cursor_push_u16 m c x =
      Some (True, putb m (cp c) (le_bytes 2 x), c\<lparr>cp := cp c + int (length (le_bytes 2 x))\<rparr>)"
    unfolding cursor_push_u16_def using wf by (rule bytes_writer.push_fits)
  show "\<not> cp c + int (length (le_bytes 2 x)) \<le> cend c \<Longrightarrow> ok (cursor_push_u16 m c x)
      (\<lambda>(r, m', c'). \<not> r \<and> moved c c' \<and> only_writes m m' (cp c) (cend c))"
    unfolding cursor_push_u16_def using wf by (rule bytes_writer.push_full)
  show "cp c + int (length (le_bytes 2 x)) \<le> cend c \<Longrightarrow>
      getb m (cp c) (length (le_bytes 2 x)) = le_bytes 2 x \<Longrightarrow>
      cursor_pull_u16 m c = Some (Some x, c\<lparr>cp := cp c + int (length (le_bytes 2 x))\<rparr>)"
    using cursor_pull_fits[OF wf, of 2] by (simp add: cursor_pull_u16_def le_word_le_bytes)
  show "ok (cursor_pull_u16 m c) (\<lambda>(r, c'). moved c c')"
    using cursor_pull_moved[OF wf, of 2] by (auto simp: cursor_pull_u16_def ok_simps)
qed

interpretation int_codec: cursor_codec cursor_push_int cursor_pull_int "le_bytes 4" "\<lambda>_. True"
proof unfold_locales
  fix m c and x :: u32
  assume wf: "wf_cursor m c"
  show "cp c + int (length (le_bytes 4 x)) \<le> cend c \<Longrightarrow> cursor_push_int m c x =
      Some (True, putb m (cp c) (le_bytes 4 x), c\<lparr>cp := cp c + int (length (le_bytes 4 x))\<rparr>)"
    unfolding cursor_push_int_def using wf by (rule bytes_writer.push_fits)
  show "\<not> cp c + int (length (le_bytes 4 x)) \<le> cend c \<Longrightarrow> ok (cursor_push_int m c x)
      (\<lambda>(r, m', c'). \<not> r \<and> moved c c' \<and> only_writes m m' (cp c) (cend c))"
    unfolding cursor_push_int_def using wf by (rule bytes_writer.push_full)
  show "cp c + int (length (le_bytes 4 x)) \<le> cend c \<Longrightarrow>
      getb m (cp c) (length (le_bytes 4 x)) = le_bytes 4 x \<Longrightarrow>
      cursor_pull_int m c = Some (Some x, c\<lparr>cp := cp c + int (length (le_bytes 4 x))\<rparr>)"
    using cursor_pull_fits[OF wf, of 4] by (simp add: cursor_pull_int_def le_word_le_bytes)
  show "ok (cursor_pull_int m c) (\<lambda>(r, c'). moved c c')"
    using cursor_pull_moved[OF wf, of 4] by (auto simp: cursor_pull_int_def ok_simps)
qed

text \<open>The encoding of a C string argument, with its terminating NUL.\<close>

definition enc_c_str :: "u8 list option \<Rightarrow> u8 list" where
  "enc_c_str s = (case s of None \<Rightarrow> [0] | Some s \<Rightarrow> s @ [0])"

interpretation c_str_writer: cursor_writer cursor_push_c_str enc_c_str
proof unfold_locales
  fix m c and s :: "u8 list option"
  assume wf: "wf_cursor m c"
  show "cursor_push_c_str m c s =
      Some (True, putb m (cp c) (enc_c_str s), c\<lparr>cp := cp c + int (length (enc_c_str s))\<rparr>)"
    if fits: "cp c + int (length (enc_c_str s)) \<le> cend c"
  proof (cases s)
    case None
    then show ?thesis using byte_codec.push_fits[OF wf, of 0] fits
      by (simp add: cursor_push_c_str_def enc_c_str_def)
  next
    case (Some s')
    let ?c = "c\<lparr>cp := cp c + int (length s')\<rparr>"
    have "wf_cursor (putb m (cp c) s') ?c"
      using wf fits Some by (auto simp: wf_cursor_def valid_putb enc_c_str_def)
    with Some fits show ?thesis
      by (simp add: cursor_push_c_str_def cursor_push_str_def enc_c_str_def putb_append algebra_simps
          cursor_push_fits[OF wf] byte_codec.push_fits[of "putb m (cp c) s'" ?c 0, simplified])
  qed
  show "ok (cursor_push_c_str m c s)
      (\<lambda>(r, m', c'). \<not> r \<and> moved c c' \<and> only_writes m m' (cp c) (cend c))"
    if full: "\<not> cp c + int (length (enc_c_str s)) \<le> cend c"
  proof (cases s)
    case None
    then show ?thesis using byte_codec.push_full[OF wf, of 0] full
      by (simp add: cursor_push_c_str_def enc_c_str_def)
  next
    case (Some s')
    show ?thesis
    proof (cases "cp c + int (length s') \<le> cend c")
      case True
      let ?c = "c\<lparr>cp := cp c + int (length s')\<rparr>" and ?m = "putb m (cp c) s'"
      have "only_writes m ?m (cp c) (cend c)" "moved c ?c"
        using bytes_writer.push_ok[OF wf, of s'] True by (simp_all add: cursor_push_fits[OF wf True])
      with Some full True show ?thesis
        by (simp add: cursor_push_c_str_def cursor_push_str_def enc_c_str_def
            cursor_push_fits[OF wf] cursor_push_byte_def)
    next
      case False
      with Some wf_bounds[OF wf] show ?thesis
        by (simp add: cursor_push_c_str_def cursor_push_str_def cursor_push_def)
    qed
  qed
qed

section \<open>Alignment and C strings\<close>

lemma align_pad_eq:
  assumes "k \<le> 30"
  shows "align_pad (word_of_int s) (2 ^ k) = (- s) mod 2 ^ k"
proof -
  let ?w = "word_of_int s :: u64" and ?m = "mask k :: u64"
  let ?p = "((?w + ?m) AND NOT ?m) - ?w" and ?r = "(s + (2 ^ k - 1)) mod 2 ^ k"
  have K: "(2::int) ^ k \<le> 2 ^ 30" using assms by (intro power_increasing) auto
  have m: "(word_of_int (2 ^ k - 1) :: u64) = ?m"
    by (simp add: mask_eq_exp_minus_1)
  have n: "(word_of_int (NOT (2 ^ k - 1)) :: u64) = NOT ?m"
    using m by (simp only: of_int_not_eq)
  have um: "uint ?m = 2 ^ k - 1" 
    unfolding m[symmetric] uint_word_of_int using K by (simp add: mod_pos_pos_trivial)
  have "uint (take_bit k (?w + ?m)) = take_bit k (uint (?w + ?m))"
    by (simp add: unsigned_take_bit_eq)
  also have "\<dots> = (uint ?w + (2 ^ k - 1)) mod 2 ^ 64 mod 2 ^ k"
    by (simp add: take_bit_eq_mod uint_word_ariths um)
  also have "\<dots> = (s + (2 ^ k - 1)) mod 2 ^ 64 mod 2 ^ k"
    by (simp add: uint_word_of_int mod_simps)
  also have "\<dots> = ?r" by (rule mod_mod_cancel[OF le_imp_power_dvd]) (use assms in simp)
  finally have t: "uint (take_bit k (?w + ?m)) = ?r" .
  have p: "?p = ?m - take_bit k (?w + ?m)" by (simp add: and_not_mask)
  have r: "0 \<le> ?r" "?r \<le> 2 ^ k - 1"
    using pos_mod_bound[of "2 ^ k" "s + (2 ^ k - 1)"] by simp_all
  have up: "uint ?p = 2 ^ k - 1 - ?r"
    unfolding p uint_sub_if' t um using r by simp
  also have "\<dots> = (2 ^ k - 1 - ?r) mod 2 ^ k" 
    by (rule mod_pos_pos_trivial[symmetric]) (use r in linarith)+
  also have "\<dots> = (- s) mod 2 ^ k" by (simp add: mod_simps)
  finally have up: "uint ?p = (- s) mod 2 ^ k" .
  have "uint ?p < 2 ^ 30" unfolding up using order_less_le_trans[OF pos_mod_bound K] by simp
  then have b: "- (2 ^ 31) \<le> uint ?p" "uint ?p < 2 ^ 31"
    by (simp_all add: order_trans[of _ 0])
  have "sint (ucast ?p :: u32) = signed_take_bit 31 (uint ?p)"
    by (simp add: signed_ucast_eq)
  also have "\<dots> = uint ?p" by (rule signed_take_bit_int_eq_self) (use b in simp_all)
  finally show ?thesis unfolding align_pad_def m n up .
qed

lemma cursor_memset_ok:
  assumes wf: "wf_cursor m c" and n: "0 \<le> n"
  shows "cursor_memset m c b n = Some (if cp c + n < cend c
    then (True, putb m (cp c) (replicate (nat n) b), c\<lparr>cp := cp c + n\<rparr>) else (False, m, c))"
proof (cases "cp c + n < cend c")
  case True
  have "valid m (cp c) n"
    using wf True by (intro wf_valid[of m c]) (auto dest: wf_bounds)
  with n True show ?thesis by (simp add: cursor_memset_def memset_valid)
qed (simp add: cursor_memset_def)

lemma cursor_align_pad:
  assumes "wf_cursor m c" and "align_pad (word_of_int (cp c - cstart c)) bytes = pad" and "0 \<le> pad"
  shows "cursor_align m c bytes = (if pad = 0 \<or> cp c + pad < cend c
     then Some (True, putb m (cp c) (replicate (nat pad) 0), c\<lparr>cp := cp c + pad\<rparr>)
     else Some (False, m, c))"
  using assms(3) unfolding cursor_align_def assms(2) Let_def
  by (auto simp: cursor_memset_ok[OF assms(1)])

text \<open>
  \<open>cursor_align\<close> to a power of two pads with the least number of zero bytes that makes the
  offset from the start of the buffer a multiple of the alignment, and it refuses, without
  writing, when that padding would reach the end of the buffer.
\<close>

theorem cursor_align_aligns:
  assumes "wf_cursor m c" and "k \<le> 30"
  shows "cursor_align m c (2 ^ k) =
    (let pad = (cstart c - cp c) mod 2 ^ k in
     if pad = 0 \<or> cp c + pad < cend c
     then Some (True, putb m (cp c) (replicate (nat pad) 0), c\<lparr>cp := cp c + pad\<rparr>)
     else Some (False, m, c)) \<and>
    2 ^ k dvd cp c + (cstart c - cp c) mod 2 ^ k - cstart c"
proof
  let ?pad = "(cstart c - cp c) mod 2 ^ k"
  have pad: "align_pad (word_of_int (cp c - cstart c)) (2 ^ k) = ?pad"
    using align_pad_eq[OF assms(2), of "cp c - cstart c"] by simp
  then show "cursor_align m c (2 ^ k) = (let pad = ?pad in
     if pad = 0 \<or> cp c + pad < cend c
     then Some (True, putb m (cp c) (replicate (nat pad) 0), c\<lparr>cp := cp c + pad\<rparr>)
     else Some (False, m, c))"
    unfolding Let_def by (intro cursor_align_pad[OF assms(1)]) simp_all
  have "cp c + ?pad - cstart c = - ((cstart c - cp c) - ?pad)" by simp
  then show "2 ^ k dvd cp c + ?pad - cstart c"
    by (simp only: dvd_minus_iff dvd_minus_mod)
qed

lemma pull_c_str_loop_moved:
  "wf_cursor m c \<Longrightarrow> ok (pull_c_str_loop m c) (\<lambda>(r, c'). moved c c' \<and> (r \<longrightarrow> cp c < cp c'))"
proof (induction m c rule: pull_c_str_loop.induct)
  case (1 m c)
  show ?case
  proof (cases "cp c < cend c")
    case True
    let ?c = "c\<lparr>cp := cp c + 1\<rparr>"
    have l: "load m (cp c) = Some (the (m (cp c)))"
      using 1(2) True wf_bounds by (intro wf_load[of m c]) auto
    have mv: "moved c ?c" using True by simp
    show ?thesis
    proof (cases "the (m (cp c)) = 0")
      case True
      then show ?thesis using l mv \<open>cp c < cend c\<close> by (simp add: pull_c_str_loop.simps[of m c])
    next
      case False
      have "ok (pull_c_str_loop m ?c) (\<lambda>(r, c'). moved ?c c' \<and> (r \<longrightarrow> cp ?c < cp c'))"
        using 1 True l False mv wf_moved by blast
      moreover have "pull_c_str_loop m c = pull_c_str_loop m ?c"
        using l True False by (simp add: pull_c_str_loop.simps[of m c])
      ultimately show ?thesis
        by (auto elim!: ok_conseq dest: moved_trans[OF mv])
    qed
  next
    case False
    then show ?thesis using wf_bounds[OF 1(2)] by (simp add: pull_c_str_loop.simps[of m c])
  qed
qed

text \<open>The string that starts at \<open>cp c\<close> is read to its terminator, when it is in the buffer.\<close>

lemma pull_c_str_loop_enc:
  "wf_cursor m c \<Longrightarrow> 0 \<notin> set s \<Longrightarrow> cp c + int (length s) < cend c \<Longrightarrow>
     getb m (cp c) (Suc (length s)) = s @ [0] \<Longrightarrow>
     pull_c_str_loop m c = Some (True, c\<lparr>cp := cp c + int (length s) + 1\<rparr>)"
proof (induction s arbitrary: c)
  case Nil
  then show ?case
    using wf_load[of m c "cp c"] wf_bounds[of m c]
    by (subst pull_c_str_loop.simps) (simp add: getb_Suc)
next
  case (Cons b s)
  let ?c = "c\<lparr>cp := cp c + 1\<rparr>"
  have g: "the (m (cp c)) = b" "getb m (cp ?c) (Suc (length s)) = s @ [0]"
    using Cons.prems(4) by (simp_all add: getb_Suc)
  have "wf_cursor m ?c" using Cons.prems by (intro wf_upd_p) (auto dest: wf_bounds)
  from Cons.IH[OF this _ _ g(2)] Cons.prems g(1) show ?case
    using wf_load[of m c "cp c"] wf_bounds[of m c]
    by (subst pull_c_str_loop.simps) (auto simp: algebra_simps)
qed

theorem cursor_align_aligns_witness:
  "cursor_align (mem_of 100 (replicate 16 7)) \<lparr>cstart = 100, cp = 103, cend = 116\<rparr> (2 ^ 3) =
     Some (True, putb (mem_of 100 (replicate 16 7)) 103 (replicate 5 0),
           \<lparr>cstart = 100, cp = 108, cend = 116\<rparr>)"
proof -
  let ?m = "mem_of 100 (replicate 16 7)" and ?c = "\<lparr>cstart = 100, cp = 103, cend = 116\<rparr>"
  have "wf_cursor ?m ?c" by (simp add: wf_cursor_def valid_mem_of)
  from cursor_align_aligns[OF this, of 3] show ?thesis by simp
qed

end
