(* ===== verification/Varint.thy ===== *)
theory Varint
  imports Cursor
begin

text \<open>
  The variable-length integers of \<open>src/src/cursor.h\<close> (\<open>cursor_push_varint\<close>,
  \<open>cursor_pull_varint\<close> and \<open>cursor_pull_varint_u32\<close>) and the length-prefixed strings built on
  them. \<open>cursor_push_varint\<close> returns the number of bytes it wrote or -1; callers in the code
  test the result for zero, so the models of the callers do too.
\<close>

section \<open>Operations\<close>

text \<open>One digit of the encoding: seven bits and the continuation flag.\<close>

definition varint_byte :: "u64 \<Rightarrow> u8" where
  "varint_byte n = ucast ((n AND 0x7F) OR (if n > 0x7F then 0x80 else 0))"

lemma unat_drop7: "unat (drop_bit 7 n :: u64) = unat n div 128"
proof -
  have "unat (drop_bit 7 n) = drop_bit 7 (unat n)" by (rule unat_drop_bit_eq)
  also have "\<dots> = unat n div 128" by (simp add: drop_bit_eq_div)
  finally show ?thesis .
qed

lemma drop7_zero_iff: "drop_bit 7 n = (0 :: u64) \<longleftrightarrow> unat n < 128"
  by (simp only: unat_drop7 flip: unat_eq_zero) (simp add: div_eq_0_iff)

lemma drop7_less: "drop_bit 7 n \<noteq> 0 \<Longrightarrow> unat (drop_bit 7 n :: u64) < unat n"
  unfolding drop7_zero_iff unat_drop7 by simp

function push_varint_loop :: "mem \<Rightarrow> cursor \<Rightarrow> u64 \<Rightarrow> int \<Rightarrow> (int \<times> mem \<times> cursor) option" where
  "push_varint_loop m c n len = do {
     let b = varint_byte n;
     let n = drop_bit 7 n;
     (r, m, c) \<leftarrow> cursor_push_byte m c b;
     if \<not> r then Some (-1, m, c)
     else if n \<noteq> 0 then push_varint_loop m c n (len + 1)
     else Some (len + 1, m, c) }"
  by pat_completeness auto
termination
  by (relation "measure (\<lambda>(m, c, n, len). unat n)") (auto intro: drop7_less)

declare push_varint_loop.simps [simp del]

definition cursor_push_varint :: "mem \<Rightarrow> cursor \<Rightarrow> u64 \<Rightarrow> (int \<times> mem \<times> cursor) option" where
  "cursor_push_varint m c n = push_varint_loop m c n 0"

text \<open>Returns the number of bytes read (0 for a truncated integer) and the value.\<close>

function pull_varint_loop :: "mem \<Rightarrow> cursor \<Rightarrow> nat \<Rightarrow> u64 \<Rightarrow> (int \<times> u64 \<times> cursor) option" where
  "pull_varint_loop m c i n =
     (if i < 10 then do {
        (r, c) \<leftarrow> cursor_pull_byte m c;
        case r of
          None \<Rightarrow> Some (0, n, c)
        | Some b \<Rightarrow>
            let n = n OR push_bit (i * 7) (ucast b AND 0x7F) in
            if b AND 0x80 = 0 then Some (int i + 1, n, c) else pull_varint_loop m c (i + 1) n }
      else Some (10, n, c))"
  by pat_completeness auto
termination
  by (relation "measure (\<lambda>(m, c, i, n). 10 - i)") auto

declare pull_varint_loop.simps [simp del]

definition cursor_pull_varint :: "mem \<Rightarrow> cursor \<Rightarrow> (int \<times> u64 \<times> cursor) option" where
  "cursor_pull_varint m c = pull_varint_loop m c 0 0"

definition cursor_pull_varint_u32 :: "mem \<Rightarrow> cursor \<Rightarrow> (u32 option \<times> cursor) option" where
  "cursor_pull_varint_u32 m c = do {
     (r, bigval, c) \<leftarrow> cursor_pull_varint m c;
     if r = 0 then Some (None, c)
     else if bigval > 0xFFFFFFFF then Some (None, c)
     else Some (Some (ucast bigval), c) }"

definition push_prefixed_str :: "mem \<Rightarrow> cursor \<Rightarrow> u8 list \<Rightarrow> (bool \<times> mem \<times> cursor) option" where
  "push_prefixed_str m c s = do {
     (r, m, c) \<leftarrow> cursor_push_varint m c (word_of_nat (length s));
     if r = 0 then Some (False, m, c) else push_sized_str m c s }"

definition pull_prefixed_str ::
  "mem \<Rightarrow> cursor \<Rightarrow> cursor \<Rightarrow> (ptr option \<times> mem \<times> cursor \<times> cursor) option" where
  "pull_prefixed_str m c dest_buf = do {
     (r, len, c) \<leftarrow> cursor_pull_varint m c;
     if r = 0 then Some (None, m, c, dest_buf)
     else if cp dest_buf + uint len > cend dest_buf then Some (None, m, c, dest_buf)
     else do {
       (q, m, c, dest_buf) \<leftarrow> pull_data_into_cursor m c dest_buf (sint (ucast len :: u32));
       case q of
         None \<Rightarrow> Some (None, m, c, dest_buf)
       | Some s \<Rightarrow> do {
           (r, m, dest_buf) \<leftarrow> cursor_push_byte m dest_buf 0;
           Some (if r then Some s else None, m, c, dest_buf) } } }"

section \<open>The encoding\<close>

text \<open>The reference definition of the encoding: base 128, least significant group first.\<close>

function varint_enc :: "u64 \<Rightarrow> u8 list" where
  "varint_enc n = varint_byte n # (if drop_bit 7 n \<noteq> 0 then varint_enc (drop_bit 7 n) else [])"
  by pat_completeness auto
termination
  by (relation "measure unat") (auto intro: drop7_less)

declare varint_enc.simps [simp del]

lemma varint_enc_cases:
  "varint_enc n = (if drop_bit 7 n = 0 then [varint_byte n] else varint_byte n # varint_enc (drop_bit 7 n))"
  by (subst varint_enc.simps) simp

lemma varint_enc_nonempty [simp]: "varint_enc n \<noteq> []"
  by (subst varint_enc.simps) simp

lemma and_0x80: "(x AND 0x80 = 0) \<longleftrightarrow> \<not> bit x 7" for x :: u8
proof -
  have "(0x80 :: u8) = push_bit 7 1" by simp
  then show ?thesis by (simp add: and_exp_eq_0_iff_not_bit[of x 7, simplified])
qed

lemma varint_byte_flag: "varint_byte n AND 0x80 = 0 \<longleftrightarrow> drop_bit 7 n = 0"
proof -
  have "bit (varint_byte n) 7 \<longleftrightarrow> n > 0x7F"
    by (simp add: varint_byte_def bit_ucast_iff bit_or_iff bit_and_iff)
  then show ?thesis
    unfolding and_0x80 drop7_zero_iff by (auto simp: word_less_nat_alt)
qed

lemma varint_byte_low: "(ucast (varint_byte n) AND 0x7F :: u64) = n AND 0x7F"
proof (rule bit_word_eqI)
  fix i
  have "bit (0x7F :: u64) i \<longleftrightarrow> i < 7"
    using bit_mask_iff[where 'a = u64, of 7 i] by (auto simp: mask_eq_exp_minus_1)
  moreover have "bit (0x80 :: u64) i \<longleftrightarrow> i = 7"
    using bit_exp_iff[where 'a = u64, of 7 i] by auto
  ultimately show "bit (ucast (varint_byte n) AND 0x7F :: u64) i = bit (n AND 0x7F) i"
    by (auto simp: varint_byte_def bit_ucast_iff bit_or_iff bit_and_iff)
qed

lemma length_varint_enc: "unat n < 128 ^ Suc k \<Longrightarrow> length (varint_enc n) \<le> Suc k"
proof (induction k arbitrary: n)
  case 0
  then have "drop_bit 7 n = 0" by (simp add: drop7_zero_iff)
  then show ?case by (simp add: varint_enc_cases)
next
  case (Suc k)
  have "unat (drop_bit 7 n) < 128 ^ Suc k"
    using Suc.prems by (simp only: unat_drop7 power_Suc less_mult_imp_div_less mult.commute)
  from Suc.IH[OF this] show ?case by (subst varint_enc_cases) simp
qed

lemma length_varint_enc_10: "length (varint_enc n) \<le> 10"
proof -
  have "unat n < 2 ^ 64" using unsigned_less[of n] by simp
  also have "\<dots> \<le> 128 ^ Suc 9" by simp
  finally show ?thesis using length_varint_enc[of n 9] by simp
qed

lemma varint_split: "(n AND 0x7F) OR push_bit 7 (drop_bit 7 n) = n" for n :: u64
proof (rule bit_word_eqI)
  fix i assume "i < LENGTH(64)"
  moreover have "bit (0x7F :: u64) i \<longleftrightarrow> i < 7"
    using bit_mask_iff[where 'a = u64, of 7 i] by (auto simp: mask_eq_exp_minus_1)
  ultimately show "bit ((n AND 0x7F) OR push_bit 7 (drop_bit 7 n)) i = bit n i"
    by (auto simp: bit_or_iff bit_and_iff bit_push_bit_iff bit_drop_bit_eq)
qed

section \<open>Pushing and pulling\<close>

lemma push_varint_fits:
  "wf_cursor m c \<Longrightarrow> cp c + int (length (varint_enc n)) \<le> cend c \<Longrightarrow>
     push_varint_loop m c n len = Some (len + int (length (varint_enc n)),
       putb m (cp c) (varint_enc n), c\<lparr>cp := cp c + int (length (varint_enc n))\<rparr>)"
proof (induction n arbitrary: m c len rule: varint_enc.induct)
  case (1 n)
  let ?c = "c\<lparr>cp := cp c + 1\<rparr>" and ?m = "putb m (cp c) [varint_byte n]"
  have fits: "cp c + int (length [varint_byte n]) \<le> cend c"
    using "1.prems"(2) by (subst (asm) varint_enc_cases) (auto split: if_splits)
  have p: "cursor_push_byte m c (varint_byte n) = Some (True, ?m, ?c)"
    using byte_codec.push_fits[OF "1.prems"(1) fits] by simp
  show ?case
  proof (cases "drop_bit 7 n = 0")
    case True
    then show ?thesis
      by (subst push_varint_loop.simps, subst (1 2 3) varint_enc_cases) (simp add: p Let_def)
  next
    case False
    have wf: "wf_cursor ?m ?c"
      using byte_codec.push_ok[OF "1.prems"(1), of "varint_byte n"] by (simp add: p)
    have "cp ?c + int (length (varint_enc (drop_bit 7 n))) \<le> cend ?c"
      using "1.prems"(2) False by (subst (asm) varint_enc_cases) simp
    from "1.IH"[OF False wf this, of "len + 1"] False
      putb_append[of m "cp c" "[varint_byte n]" "varint_enc (drop_bit 7 n)"]
    show ?thesis
      by (subst push_varint_loop.simps, subst (1 2 3) varint_enc_cases)
        (simp add: p algebra_simps Let_def)
  qed
qed

lemma push_varint_full:
  "wf_cursor m c \<Longrightarrow> \<not> cp c + int (length (varint_enc n)) \<le> cend c \<Longrightarrow>
     ok (push_varint_loop m c n len)
       (\<lambda>(r, m', c'). r = -1 \<and> moved c c' \<and> only_writes m m' (cp c) (cend c))"
proof (induction n arbitrary: m c len rule: varint_enc.induct)
  case (1 n)
  let ?c = "c\<lparr>cp := cp c + 1\<rparr>" and ?m = "putb m (cp c) [varint_byte n]"
  show ?case
  proof (cases "cp c + 1 \<le> cend c")
    case True
    then have fits: "cp c + int (length [varint_byte n]) \<le> cend c" by simp
    have p: "cursor_push_byte m c (varint_byte n) = Some (True, ?m, ?c)"
      using byte_codec.push_fits[OF "1.prems"(1) fits] by simp
    have w: "wf_cursor ?m ?c" "only_writes m ?m (cp c) (cend c)" "moved c ?c"
      using byte_codec.push_ok[OF "1.prems"(1), of "varint_byte n"] by (simp_all add: p)
    have ne: "drop_bit 7 n \<noteq> 0" and full: "\<not> cp ?c + int (length (varint_enc (drop_bit 7 n))) \<le> cend ?c"
      using "1.prems"(2) True by (subst (asm) varint_enc_cases, simp split: if_splits)+
    have "ok (push_varint_loop ?m ?c (drop_bit 7 n) (len + 1))
        (\<lambda>(r, m', c'). r = -1 \<and> moved ?c c' \<and> only_writes ?m m' (cp ?c) (cend ?c))"
      by (rule "1.IH"[OF ne w(1) full])
    then have "ok (push_varint_loop ?m ?c (drop_bit 7 n) (len + 1))
        (\<lambda>(r, m', c'). r = -1 \<and> moved c c' \<and> only_writes m m' (cp c) (cend c))"
      by (rule ok_conseq) (auto dest: moved_trans[OF w(3)] intro: only_writes_trans[OF w(2)])
    then show ?thesis using ne by (subst push_varint_loop.simps) (simp add: p Let_def)
  next
    case False
    then show ?thesis using wf_bounds[OF "1.prems"(1)]
      by (subst push_varint_loop.simps) (simp add: cursor_push_byte_def Let_def)
  qed
qed

lemma pull_varint_enc:
  "wf_cursor m c \<Longrightarrow> i + length (varint_enc n) \<le> 10 \<Longrightarrow>
     cp c + int (length (varint_enc n)) \<le> cend c \<Longrightarrow>
     getb m (cp c) (length (varint_enc n)) = varint_enc n \<Longrightarrow>
     pull_varint_loop m c i acc = Some (int i + int (length (varint_enc n)),
       acc OR push_bit (i * 7) n, c\<lparr>cp := cp c + int (length (varint_enc n))\<rparr>)"
proof (induction n arbitrary: c i acc rule: varint_enc.induct)
  case (1 n)
  let ?c = "c\<lparr>cp := cp c + 1\<rparr>" and ?acc = "acc OR push_bit (i * 7) (n AND 0x7F)"
  obtain rest where rest: "varint_enc n = varint_byte n # rest"
    using varint_enc_cases[of n] by (auto split: if_splits)
  have fits: "cp c + int (length [varint_byte n]) \<le> cend c"
    and byte: "getb m (cp c) (length [varint_byte n]) = [varint_byte n]"
    and more: "getb m (cp ?c) (length rest) = rest" and i: "i < 10"
    using "1.prems" by (auto simp: rest getb_Suc)
  have p: "cursor_pull_byte m c = Some (Some (varint_byte n), ?c)"
    using byte_codec.pull_enc[OF "1.prems"(1) _ fits byte] by simp
  show ?case
  proof (cases "drop_bit 7 n = 0")
    case True
    then have "rest = []" using rest by (subst (asm) varint_enc_cases) simp
    moreover have "n AND 0x7F = n" using varint_split[of n] True by simp
    ultimately show ?thesis using True i
      by (subst pull_varint_loop.simps)
        (simp add: p rest varint_byte_flag varint_byte_low Let_def)
  next
    case False
    then have r: "rest = varint_enc (drop_bit 7 n)"
      using rest by (subst (asm) varint_enc_cases) simp
    have wf: "wf_cursor m ?c"
      using "1.prems"(1) fits wf_bounds[OF "1.prems"(1)] by (intro wf_upd_p) auto
    have acc: "?acc OR push_bit ((i + 1) * 7) (drop_bit 7 n) = acc OR push_bit (i * 7) n"
      using arg_cong[OF varint_split[of n], of "push_bit (i * 7)"]
      by (simp only: push_bit_or push_bit_push_bit add_mult_distrib mult_1 or.assoc)
    have "pull_varint_loop m ?c (i + 1) ?acc = Some (int (i + 1) + int (length rest),
        ?acc OR push_bit ((i + 1) * 7) (drop_bit 7 n), ?c\<lparr>cp := cp ?c + int (length rest)\<rparr>)"
      unfolding r using "1.prems" more by (intro "1.IH"[OF False wf]) (simp_all add: rest r)
    with False i acc show ?thesis
      by (subst pull_varint_loop.simps)
        (simp add: p rest varint_byte_flag varint_byte_low Let_def algebra_simps)
  qed
qed

lemma pull_varint_safe:
  "wf_cursor m c \<Longrightarrow> i \<le> 10 \<Longrightarrow> ok (pull_varint_loop m c i n)
     (\<lambda>(r, n', c'). moved c c' \<and> 0 \<le> r \<and> r \<le> 10 \<and> (r \<noteq> 0 \<longrightarrow> cp c' = cp c + (r - int i)))"
proof (induction m c i n rule: pull_varint_loop.induct)
  case (1 m c i n)
  show ?case
  proof (cases "i < 10 \<and> cp c < cend c")
    case True
    let ?c = "c\<lparr>cp := cp c + 1\<rparr>" and ?b = "the (m (cp c))"
    let ?n = "n OR push_bit (i * 7) (ucast ?b AND 0x7F)"
    have p: "cursor_pull_byte m c = Some (Some ?b, ?c)"
      using True "1.prems"(1) wf_bounds[OF "1.prems"(1)] by (simp add: cursor_pull_byte_def wf_load)
    have mv: "moved c ?c" using True by simp
    have wf: "wf_cursor m ?c" using "1.prems"(1) mv by (rule wf_moved)
    have IH: "?b AND 0x80 \<noteq> 0 \<Longrightarrow> ok (pull_varint_loop m ?c (i + 1) ?n)
        (\<lambda>(r, n', c'). moved ?c c' \<and> 0 \<le> r \<and> r \<le> 10 \<and> (r \<noteq> 0 \<longrightarrow> cp c' = cp ?c + (r - int (i + 1))))"
      using True by (intro "1.IH"[OF _ p refl refl refl _ wf]) auto
    show ?thesis
    proof (cases "?b AND 0x80 = 0")
      case flag: True
      then show ?thesis using True p mv by (simp add: pull_varint_loop.simps[of m c] Let_def)
    next
      case False
      have "pull_varint_loop m c i n = pull_varint_loop m ?c (i + 1) ?n"
        using True False p by (simp add: pull_varint_loop.simps[of m c] Let_def)
      then show ?thesis using IH[OF False]
        by (auto elim!: ok_conseq dest: moved_trans[OF mv])
    qed
  next
    case False
    then show ?thesis using wf_bounds[OF "1.prems"(1)] "1.prems"(2)
      by (auto simp: pull_varint_loop.simps[of m c] cursor_pull_byte_def)
  qed
qed

interpretation varint_codec: cursor_codec
  "\<lambda>m c n. map_option (\<lambda>(r, m, c). (r \<noteq> -1, m, c)) (cursor_push_varint m c n)"
  "\<lambda>m c. map_option (\<lambda>(r, n, c). (if r = 0 then None else Some n, c)) (cursor_pull_varint m c)"
  varint_enc "\<lambda>_. True"
proof unfold_locales
  fix m c n
  assume wf: "wf_cursor m c"
  show "map_option (\<lambda>(r, m, c). (r \<noteq> -1, m, c)) (cursor_push_varint m c n) =
      Some (True, putb m (cp c) (varint_enc n), c\<lparr>cp := cp c + int (length (varint_enc n))\<rparr>)"
    if "cp c + int (length (varint_enc n)) \<le> cend c"
    using push_varint_fits[OF wf that, of 0] by (simp add: cursor_push_varint_def)
  show "ok (map_option (\<lambda>(r, m, c). (r \<noteq> -1, m, c)) (cursor_push_varint m c n))
      (\<lambda>(r, m', c'). \<not> r \<and> moved c c' \<and> only_writes m m' (cp c) (cend c))"
    if "\<not> cp c + int (length (varint_enc n)) \<le> cend c"
    using push_varint_full[OF wf that, of 0] unfolding cursor_push_varint_def ok_map
    by (rule ok_conseq) auto
  show "map_option (\<lambda>(r, n, c). (if r = 0 then None else Some n, c)) (cursor_pull_varint m c) =
      Some (Some n, c\<lparr>cp := cp c + int (length (varint_enc n))\<rparr>)"
    if "cp c + int (length (varint_enc n)) \<le> cend c"
      "getb m (cp c) (length (varint_enc n)) = varint_enc n"
    using pull_varint_enc[OF wf _ that, of 0 0] length_varint_enc_10[of n]
    by (simp add: cursor_pull_varint_def)
  show "ok (map_option (\<lambda>(r, n, c). (if r = 0 then None else Some n, c)) (cursor_pull_varint m c))
      (\<lambda>(r, c'). moved c c')"
    using pull_varint_safe[OF wf, of 0 0] unfolding cursor_pull_varint_def ok_map
    by (auto elim!: ok_conseq)
qed

section \<open>Properties\<close>

text \<open>
  C4 A 64-bit integer that \<open>cursor_push_varint\<close> reports as written occupies between 1 and 10
  bytes, and \<open>cursor_pull_varint\<close> from the same position returns that integer, the same byte
  count, and the cursor where the push left it.
\<close>

theorem varint_roundtrip:
  assumes wf: "wf_cursor m c" and push: "cursor_push_varint m c n = Some (r, m', c')" and "r \<noteq> -1"
  shows "1 \<le> r \<and> r \<le> 10 \<and> cursor_pull_varint m' (c'\<lparr>cp := cp c\<rparr>) = Some (r, n, c')"
proof -
  have fits: "cp c + int (length (varint_enc n)) \<le> cend c"
    using push_varint_full[OF wf, of n 0] push \<open>r \<noteq> -1\<close> by (auto simp: cursor_push_varint_def)
  then have *: "r = int (length (varint_enc n))" "m' = putb m (cp c) (varint_enc n)"
    "c' = c\<lparr>cp := cp c + int (length (varint_enc n))\<rparr>"
    using push_varint_fits[OF wf, of n 0] push by (auto simp: cursor_push_varint_def)
  have "wf_cursor m' (c'\<lparr>cp := cp c\<rparr>)" using wf * by (auto simp: wf_cursor_def valid_putb)
  from pull_varint_enc[OF this, of 0 n 0] * fits length_varint_enc_10[of n]
  have "cursor_pull_varint m' (c'\<lparr>cp := cp c\<rparr>) = Some (r, n, c')"
    by (simp add: cursor_pull_varint_def)
  moreover have "0 < length (varint_enc n)" by simp
  ultimately show ?thesis using * length_varint_enc_10[of n] by linarith
qed

theorem varint_roundtrip_witness:
  "let m = mem_of 0 (replicate 4 0); c = make_cursor 0 4 in
   \<exists>m' c'. cursor_push_varint m c 300 = Some (2, m', c') \<and> cp c' = 2 \<and>
     cursor_pull_varint m' (c'\<lparr>cp := cp c\<rparr>) = Some (2, 300, c')"
proof -
  let ?m = "mem_of 0 (replicate 4 0)" and ?c = "make_cursor 0 4"
  have wf: "wf_cursor ?m ?c" by (simp add: wf_make_cursor valid_mem_of)
  have e: "varint_enc 300 = [172, 2]"
    by (simp add: varint_enc.simps varint_byte_def)
  have p: "cursor_push_varint ?m ?c 300 = Some (2, putb ?m 0 [172, 2], ?c\<lparr>cp := 2\<rparr>)"
    using push_varint_fits[OF wf, of 300 0] by (simp add: e cursor_push_varint_def make_cursor_def)
  from varint_roundtrip[OF wf p] p show ?thesis by (simp add: Let_def)
qed

text \<open>
  \<open>cursor_pull_varint_u32\<close> accepts exactly the 32-bit values: it reads back the value of a
  varint that fits into 32 bits, and refuses any larger varint.
\<close>

theorem pull_varint_u32_range:
  assumes "wf_cursor m c" and "cp c + int (length (varint_enc n)) \<le> cend c"
    and "getb m (cp c) (length (varint_enc n)) = varint_enc n"
  shows "cursor_pull_varint_u32 m c =
    Some (if n \<le> 0xFFFFFFFF then Some (ucast n) else None, c\<lparr>cp := cp c + int (length (varint_enc n))\<rparr>)"
  using pull_varint_enc[OF assms(1) _ assms(2,3), of 0 0] length_varint_enc_10[of n]
  by (simp add: cursor_pull_varint_u32_def cursor_pull_varint_def not_less)

theorem pull_varint_u32_range_witness:
  "cursor_pull_varint_u32 (mem_of 0 [172, 2]) (make_cursor 0 2) = Some (Some 300, (make_cursor 0 2)\<lparr>cp := 2\<rparr>)"
proof -
  have e: "varint_enc 300 = [172, 2]"
    by (simp add: varint_enc.simps varint_byte_def)
  have wf: "wf_cursor (mem_of 0 [172, 2]) (make_cursor 0 2)"
    by (simp add: wf_make_cursor valid_mem_of)
  have g: "getb (mem_of 0 [172, 2]) 0 (Suc (Suc 0)) = [172, 2]"
    using getb_putb_same[of Map.empty 0 "[172, 2]"] by (simp add: mem_of_def)
  from pull_varint_u32_range[OF wf, of 300] g show ?thesis by (simp add: e make_cursor_def)
qed

lemma pull_varint_u32_safe:
  "wf_cursor m c \<Longrightarrow> ok (cursor_pull_varint_u32 m c) (\<lambda>(r, c'). moved c c' \<and> (r \<noteq> None \<longrightarrow> cp c < cp c'))"
  using pull_varint_safe[of m c 0 0]
  by (auto simp: cursor_pull_varint_u32_def cursor_pull_varint_def ok_iff)

end
