(* ===== verification/Cursor_Text.thy ===== *)
theory Cursor_Text
  imports Cursor
begin

text \<open>
  The text scanning part of \<open>src/src/cursor.h\<close>: character classes, the UTF-8 decoder and the
  loops that move a cursor to the end of a word. The content parser and the full-text index
  split note text with them.

  Arguments the code declares as \<open>char\<close> are integers converted with \<open>to_char\<close>, so the
  sign extension and the truncation of a wider argument are those of the code.
\<close>

section \<open>Matching and character classes\<close>

primrec cmp_lower :: "u8 list \<Rightarrow> mem \<Rightarrow> ptr \<Rightarrow> bool option" where
  "cmp_lower [] m a = Some True"
| "cmp_lower (b # bs) m a = do {
     x \<leftarrow> load m a;
     if tolower x \<noteq> tolower b then Some False else cmp_lower bs m (a + 1) }"

definition parse_str :: "mem \<Rightarrow> cursor \<Rightarrow> u8 list \<Rightarrow> (bool \<times> cursor) option" where
  "parse_str m c s =
     (if cp c + int (length s) \<ge> cend c then Some (False, c)
      else do {
        r \<leftarrow> cmp_lower s m (cp c);
        if \<not> r then Some (False, c) else Some (True, c\<lparr>cp := cp c + int (length s)\<rparr>) })"

definition is_whitespace :: "int \<Rightarrow> bool" where
  "is_whitespace x =
     (let c = to_char x in c = 32 \<or> c = 9 \<or> c = 10 \<or> c = 11 \<or> c = 12 \<or> c = 13)"

definition is_underscore :: "int \<Rightarrow> bool" where
  "is_underscore x \<longleftrightarrow> to_char x = 95"

definition is_utf8_byte :: "int \<Rightarrow> bool" where
  "is_utf8_byte x \<longleftrightarrow> (word_of_int x :: u8) AND 0x80 \<noteq> 0"

text \<open>The C library's \<open>ispunct\<close> in the default locale.\<close>

definition ispunct :: "u32 \<Rightarrow> bool" where
  "ispunct c \<longleftrightarrow> 33 \<le> c \<and> c \<le> 47 \<or> 58 \<le> c \<and> c \<le> 64 \<or> 91 \<le> c \<and> c \<le> 96 \<or> 123 \<le> c \<and> c \<le> 126"

definition is_punctuation :: "u32 \<Rightarrow> bool" where
  "is_punctuation codepoint =
     (if is_underscore (uint codepoint) then False
      else if codepoint \<le> 128 \<and> ispunct codepoint then True
      else if codepoint = 0x301C \<or> codepoint = 0xFF5E then False
      else codepoint = 0x00A0 \<or>
        codepoint \<ge> 0x00A1 \<and> codepoint \<le> 0x00BF \<or>
        codepoint \<ge> 0x2000 \<and> codepoint \<le> 0x206F \<or>
        codepoint \<ge> 0x20A0 \<and> codepoint \<le> 0x20CF \<or>
        codepoint \<ge> 0x2E00 \<and> codepoint \<le> 0x2E7F \<or>
        codepoint \<ge> 0x3000 \<and> codepoint \<le> 0x303F \<or>
        codepoint \<ge> 0x2FF0 \<and> codepoint \<le> 0x2FFF)"

definition is_right_boundary :: "int \<Rightarrow> bool" where
  "is_right_boundary c \<longleftrightarrow> is_whitespace c \<or> is_punctuation (word_of_int c)"

definition is_left_boundary :: "int \<Rightarrow> bool" where
  "is_left_boundary x = (let c = to_char x in is_right_boundary c \<or> is_utf8_byte c)"

definition is_alphanumeric :: "int \<Rightarrow> bool" where
  "is_alphanumeric x =
     (let c = to_char x in 65 \<le> c \<and> c \<le> 90 \<or> 97 \<le> c \<and> c \<le> 122 \<or> 48 \<le> c \<and> c \<le> 57)"

section \<open>UTF-8\<close>

text \<open>
  The continuation bytes; \<open>i\<close> counts from 0. The result is the C return value with the final
  \<open>*code_point\<close> and \<open>*utf8_length\<close>.
\<close>

primrec utf8_tail :: "nat \<Rightarrow> int \<Rightarrow> mem \<Rightarrow> cursor \<Rightarrow> u32 \<Rightarrow> u32 \<Rightarrow> (bool \<times> u32 \<times> u32) option" where
  "utf8_tail 0 i m c code_point utf8_length = Some (True, code_point, utf8_length)"
| "utf8_tail (Suc n) i m c code_point utf8_length = do {
     x \<leftarrow> peek_char m c (i + 1);
     let next_byte = to_char x;
     if next_byte = -1 then Some (False, code_point, 1)
     else if (word_of_int next_byte :: u32) AND 0xC0 \<noteq> 0x80 then Some (False, code_point, 1)
     else utf8_tail n (i + 1) m c
       (push_bit 6 code_point OR (word_of_int next_byte AND 0x3F)) utf8_length }"

definition parse_utf8_char :: "mem \<Rightarrow> cursor \<Rightarrow> u32 \<Rightarrow> u32 \<Rightarrow> (bool \<times> u32 \<times> u32) option" where
  "parse_utf8_char m c code_point utf8_length = do {
     r \<leftarrow> parse_byte m c;
     case r of
       None \<Rightarrow> Some (False, code_point, utf8_length)
     | Some first_byte \<Rightarrow>
         (if first_byte < 0x80 then Some (True, ucast first_byte, utf8_length)
          else if first_byte AND 0xE0 = 0xC0 then utf8_tail 1 0 m c (ucast (first_byte AND 0x1F)) 2
          else if first_byte AND 0xF0 = 0xE0 then utf8_tail 2 0 m c (ucast (first_byte AND 0x0F)) 3
          else if first_byte AND 0xF8 = 0xF0 then utf8_tail 3 0 m c (ucast (first_byte AND 0x07)) 4
          else Some (False, push_bit 6 (ucast (first_byte AND 0xF0)), 1)) }"

lemma utf8_tail_length:
  "utf8_tail n i m c w l = Some (r, w', l') \<Longrightarrow> l' = l \<or> l' = 1"
  by (induction n arbitrary: i w) (auto simp: bind_eq_Some Let_def split: if_splits)

lemma parse_utf8_char_length:
  "parse_utf8_char m c w 1 = Some (r, w', l) \<Longrightarrow> l \<in> {1, 2, 3, 4}"
  by (auto simp: parse_utf8_char_def bind_eq_Some simp del: utf8_tail.simps One_nat_def
      split: option.splits if_splits dest!: utf8_tail_length)

section \<open>Moving to a boundary\<close>

text \<open>
  One round of \<open>consume_until_boundary\<close>: \<open>Inl r\<close> when the loop returns \<open>r\<close>, \<open>Inr n\<close> when it
  moves on by \<open>n\<close> bytes.
\<close>

definition boundary_step :: "mem \<Rightarrow> cursor \<Rightarrow> (bool + int) option" where
  "boundary_step m cur = do {
     b \<leftarrow> load m (cp cur);
     if is_whitespace (uint b) then Some (Inl True)
     else do {
       (stop, c, len) \<leftarrow>
         (if is_utf8_byte (uint b) then do {
            (r, c, len) \<leftarrow> parse_utf8_char m cur (ucast b) 1;
            Some (\<not> r \<and> \<not> is_right_boundary (sint c), c, len) }
          else Some (False, ucast b, 1 :: u32));
       if stop then Some (Inl False)
       else if is_right_boundary (sint c) then Some (Inl True)
       else if cp cur + uint len \<le> cend cur then Some (Inr (uint len))
       else Some (Inr 1) } }"

lemma boundary_step_advances: "boundary_step m c = Some (Inr n) \<Longrightarrow> 1 \<le> n"
  by (auto simp: boundary_step_def bind_eq_Some split: if_splits dest!: parse_utf8_char_length)

function consume_until_boundary :: "mem \<Rightarrow> cursor \<Rightarrow> (bool \<times> cursor) option" where
  "consume_until_boundary m cur =
     (if cp cur < cend cur then do {
        r \<leftarrow> boundary_step m cur;
        case r of
          Inl r \<Rightarrow> Some (r, cur)
        | Inr n \<Rightarrow> consume_until_boundary m (cur\<lparr>cp := cp cur + n\<rparr>) }
      else Some (True, cur))"
  by pat_completeness auto
termination
  by (relation "measure (\<lambda>(m, c). nat (cend c - cp c))") (auto dest: boundary_step_advances)

declare consume_until_boundary.simps [simp del]

text \<open>The two loops that move while a byte class holds; \<open>got\<close> is \<open>consumedAtLeastOne\<close>.\<close>

function consume_loop :: "(int \<Rightarrow> bool) \<Rightarrow> mem \<Rightarrow> cursor \<Rightarrow> bool \<Rightarrow> bool \<Rightarrow> (bool \<times> cursor) option" where
  "consume_loop stop m cur or_end got =
     (if cp cur < cend cur then do {
        b \<leftarrow> load m (cp cur);
        if stop (uint b) then Some (got, cur)
        else consume_loop stop m (cur\<lparr>cp := cp cur + 1\<rparr>) or_end True }
      else Some (or_end, cur))"
  by pat_completeness auto
termination
  by (relation "measure (\<lambda>(s, m, c, e, g). nat (cend c - cp c))") auto

declare consume_loop.simps [simp del]

definition consume_until_whitespace :: "mem \<Rightarrow> cursor \<Rightarrow> bool \<Rightarrow> (bool \<times> cursor) option" where
  "consume_until_whitespace m cur or_end = consume_loop is_whitespace m cur or_end False"

definition consume_until_non_alphanumeric :: "mem \<Rightarrow> cursor \<Rightarrow> bool \<Rightarrow> (bool \<times> cursor) option" where
  "consume_until_non_alphanumeric m cur or_end =
     consume_loop (\<lambda>c. \<not> is_alphanumeric c) m cur or_end False"

definition consume_whitespace_or_punctuation :: "mem \<Rightarrow> cursor \<Rightarrow> cursor option" where
  "consume_whitespace_or_punctuation m cur = do {
     (r, c) \<leftarrow> consume_loop (\<lambda>c. \<not> is_right_boundary c) m cur True True;
     Some c }"

section \<open>Scanners never leave the buffer\<close>

text \<open>
  The contract every scanning operation has: on a well-formed cursor it has no undefined
  behaviour and moves the cursor forward inside its buffer. The clients of the operations
  (the content parser, the invoice decoder, the word splitter) rely on nothing else for
  their memory safety. The two rules inside the locale are the two ways the code chains a
  scanner: by continuing after it, and by going back to where it started.
\<close>

locale scanner =
  fixes scan :: "mem \<Rightarrow> cursor \<Rightarrow> (bool \<times> cursor) option"
  assumes scan_ok: "wf_cursor m c \<Longrightarrow> ok (scan m c) (\<lambda>(r, c'). moved c c')"
begin

lemma scan_then:
  assumes "wf_cursor m c" and "\<And>r c'. scan m c = Some (r, c') \<Longrightarrow> moved c c' \<Longrightarrow> wf_cursor m c' \<Longrightarrow> ok (k r c') P"
  shows "ok (Option.bind (scan m c) (\<lambda>(r, c'). k r c')) P"
  using scan_ok[OF assms(1)] assms(2) wf_moved[OF assms(1)] by (auto simp: ok_iff bind_eq_Some)

lemma scan_or_restore:
  assumes "wf_cursor m c"
  shows "ok (Option.bind (scan m c) (\<lambda>(r, c'). Some (r, if r then c' else c)))
    (\<lambda>(r, c'). moved c c' \<and> (\<not> r \<longrightarrow> c' = c))"
  by (rule scan_then[OF assms]) (use wf_bounds[OF assms] in auto)

end

lemma cmp_lower_ok: "valid m a (int (length s)) \<Longrightarrow> ok (cmp_lower s m a) (\<lambda>_. True)"
proof (induction s arbitrary: a)
  case Nil
  then show ?case by simp
next
  case (Cons b s)
  then have "m a \<noteq> None" "valid m (a + 1) (int (length s))"
    using valid_Suc[of m a "length s"] by simp_all
  with Cons.IH show ?case by (auto simp: ok_simps load_def)
qed

interpretation parse_char_scanner: scanner "\<lambda>m c. parse_char m c x"
  by unfold_locales (auto simp: parse_char_def wf_load_p not_le dest: wf_bounds)

interpretation parse_str_scanner: scanner "\<lambda>m c. parse_str m c s"
proof unfold_locales
  fix m c assume wf: "wf_cursor m c"
  show "ok (parse_str m c s) (\<lambda>(r, c'). moved c c')"
  proof (cases "cp c + int (length s) \<ge> cend c")
    case True
    then show ?thesis using wf_bounds[OF wf] by (simp add: parse_str_def)
  next
    case False
    then have "valid m (cp c) (int (length s))"
      using wf wf_bounds[OF wf] by (intro wf_valid[OF wf]) auto
    from cmp_lower_ok[OF this] False wf_bounds[OF wf] show ?thesis
      by (auto simp: parse_str_def ok_iff)
  qed
qed

lemma peek_char_ok:
  assumes "wf_cursor m c"
  shows "ok (peek_char m c ind) (\<lambda>x. -1 \<le> x \<and> x < 256)"
proof -
  have "-1 \<le> uint b \<and> uint b < 256" for b :: u8
    using uint_lt2p[of b] order_trans[OF _ uint_ge_0[of b], of "-1"] by simp
  then show ?thesis using assms by (auto simp: peek_char_def wf_load)
qed

lemma utf8_tail_ok: "wf_cursor m c \<Longrightarrow> ok (utf8_tail n i m c w l) (\<lambda>_. True)"
proof (induction n arbitrary: i w)
  case 0
  then show ?case by simp
next
  case (Suc n)
  then obtain x where "peek_char m c (i + 1) = Some x"
    using peek_char_ok[OF Suc.prems, of "i + 1"] by (auto simp: ok_iff)
  with Suc show ?case by (simp add: ok_simps Let_def)
qed

lemma parse_utf8_char_ok:
  assumes "wf_cursor m c" and "cp c < cend c"
  shows "ok (parse_utf8_char m c w 1) (\<lambda>(r, w', l). l \<in> {1, 2, 3, 4})"
proof -
  have "ok (parse_utf8_char m c w 1) (\<lambda>_. True)"
    using assms wf_bounds[OF assms(1)] utf8_tail_ok[OF assms(1)]
    by (simp add: parse_utf8_char_def parse_byte_def wf_load del: utf8_tail.simps)
  then show ?thesis by (rule ok_conseq) (auto dest: parse_utf8_char_length)
qed

lemma boundary_step_ok:
  assumes "wf_cursor m c" and "cp c < cend c"
  shows "ok (boundary_step m c) (\<lambda>r. case r of Inl _ \<Rightarrow> True | Inr n \<Rightarrow> 1 \<le> n \<and> cp c + n \<le> cend c)"
proof -
  have l: "load m (cp c) = Some (the (m (cp c)))"
    using assms wf_bounds[OF assms(1)] by (simp add: wf_load)
  obtain r w l where u: "parse_utf8_char m c (ucast (the (m (cp c)))) 1 = Some (r, w, l)" "l \<in> {1, 2, 3, 4}"
    using parse_utf8_char_ok[OF assms, of "ucast (the (m (cp c)))"] by (auto simp: ok_iff)
  have "1 \<le> uint l" using u(2) by auto
  with l u(1) assms(2) show ?thesis by (simp add: boundary_step_def)
qed

interpretation boundary_scanner: scanner consume_until_boundary
proof unfold_locales
  fix m c assume "wf_cursor m c"
  then show "ok (consume_until_boundary m c) (\<lambda>(r, c'). moved c c')"
  proof (induction m c rule: consume_until_boundary.induct)
    case (1 m c)
    show ?case
    proof (cases "cp c < cend c")
      case True
      obtain r where r: "boundary_step m c = Some r"
        "case r of Inl _ \<Rightarrow> True | Inr n \<Rightarrow> 1 \<le> n \<and> cp c + n \<le> cend c"
        using boundary_step_ok[OF "1.prems" True] by (auto simp: ok_iff)
      show ?thesis
      proof (cases r)
        case (Inl b)
        then show ?thesis using True r by (simp add: consume_until_boundary.simps[of m c])
      next
        case (Inr n)
        let ?c = "c\<lparr>cp := cp c + n\<rparr>"
        have mv: "moved c ?c" using r(2) Inr by simp
        have "ok (consume_until_boundary m ?c) (\<lambda>(r, c'). moved ?c c')"
          using "1.IH"[OF True r(1) Inr] wf_moved[OF "1.prems" mv] by blast
        moreover have "consume_until_boundary m c = consume_until_boundary m ?c"
          using True r(1) Inr by (simp add: consume_until_boundary.simps[of m c])
        ultimately show ?thesis by (auto elim!: ok_conseq dest: moved_trans[OF mv])
      qed
    next
      case False
      then show ?thesis using wf_bounds[OF "1.prems"] by (simp add: consume_until_boundary.simps[of m c])
    qed
  qed
qed

text \<open>What the two byte loops compute: the first position in the buffer where \<open>stop\<close> holds.\<close>

lemma consume_loop_spec:
  "wf_cursor m c \<Longrightarrow> ok (consume_loop stop m c or_end got) (\<lambda>(r, c').
     moved c c' \<and> (\<forall>i. cp c \<le> i \<and> i < cp c' \<longrightarrow> \<not> stop (uint (the (m i)))) \<and>
     (if cp c' < cend c then stop (uint (the (m (cp c')))) \<and> r = (got \<or> cp c < cp c') else r = or_end))"
proof (induction stop m c or_end got rule: consume_loop.induct)
  case (1 stop m c or_end got)
  show ?case
  proof (cases "cp c < cend c")
    case True
    have l: "load m (cp c) = Some (the (m (cp c)))"
      using "1.prems" True wf_bounds[OF "1.prems"] by (simp add: wf_load)
    let ?c = "c\<lparr>cp := cp c + 1\<rparr>"
    have mv: "moved c ?c" using True by simp
    show ?thesis
    proof (cases "stop (uint (the (m (cp c))))")
      case stop: True
      then show ?thesis using True l by (auto simp: consume_loop.simps[of stop m c])
    next
      case False
      note IH = "1.IH"[OF True l False wf_moved[OF "1.prems" mv]]
      have eq: "consume_loop stop m c or_end got = consume_loop stop m ?c or_end True"
        using True l False by (simp add: consume_loop.simps[of stop m c])
      have i: "cp c \<le> i \<Longrightarrow> i = cp c \<or> cp ?c \<le> i" for i by auto
      show ?thesis
        unfolding eq by (rule ok_conseq[OF IH]) (use False mv i in \<open>fastforce simp: moved_def split: if_splits\<close>)
    qed
  next
    case False
    then show ?thesis using wf_bounds[OF "1.prems"] by (auto simp: consume_loop.simps[of stop m c])
  qed
qed

interpretation whitespace_scanner: scanner "\<lambda>m c. consume_until_whitespace m c e"
  by unfold_locales
    (auto simp: consume_until_whitespace_def elim!: ok_conseq[OF consume_loop_spec])

interpretation alnum_scanner: scanner "\<lambda>m c. consume_until_non_alphanumeric m c e"
  by unfold_locales
    (auto simp: consume_until_non_alphanumeric_def elim!: ok_conseq[OF consume_loop_spec])

section \<open>Properties\<close>

text \<open>
  \<open>consume_until_whitespace\<close> returns without undefined behaviour and leaves the cursor at the
  first whitespace byte at or after its position, or at the end of the buffer when there is
  none; it reports success in the first case exactly when it moved, and \<open>or_end\<close> otherwise.
\<close>

theorem consume_until_whitespace_stops:
  assumes "wf_cursor m c"
  shows "ok (consume_until_whitespace m c or_end) (\<lambda>(r, c').
     moved c c' \<and> (\<forall>i. cp c \<le> i \<and> i < cp c' \<longrightarrow> \<not> is_whitespace (uint (the (m i)))) \<and>
     (if cp c' < cend c then is_whitespace (uint (the (m (cp c')))) \<and> r = (cp c < cp c')
      else r = or_end))"
  using consume_loop_spec[OF assms, of is_whitespace or_end False]
  unfolding consume_until_whitespace_def simp_thms .

theorem consume_until_whitespace_stops_witness:
  "wf_cursor (mem_of 0 [104, 105, 32]) (make_cursor 0 3) \<and>
   ok (consume_until_whitespace (mem_of 0 [104, 105, 32]) (make_cursor 0 3) True) (\<lambda>(r, c').
     moved (make_cursor 0 3) c')"
proof -
  let ?m = "mem_of 0 [104, 105, 32]" and ?c = "make_cursor 0 3"
  have wf: "wf_cursor ?m ?c" by (simp add: wf_make_cursor valid_mem_of)
  show ?thesis using wf ok_conseq[OF consume_until_whitespace_stops[OF wf]] by fastforce
qed

text \<open>
  The underscore exception of \<open>is_punctuation\<close> compares only the low byte of the code point:
  every code point that ends in \<open>5F\<close> is classed as no punctuation, also U+205F, which lies in
  the General Punctuation range the function lists.
\<close>

theorem is_punctuation_low_byte:
  assumes "uint codepoint mod 256 = 0x5F"
  shows "\<not> is_punctuation codepoint"
proof -
  have "uint (word_of_int (uint codepoint) :: u8) = uint (95 :: u8)"
    using assms by (simp only: uint_word_of_int) simp
  then have "(word_of_int (uint codepoint) :: u8) = 95" by (simp only: word_uint_eq_iff)
  then have "to_char (uint codepoint) = 95" by (simp only: to_char_def) simp
  then show ?thesis by (simp add: is_punctuation_def is_underscore_def)
qed

theorem is_punctuation_low_byte_witness:
  "\<not> is_punctuation 0x205F \<and> is_punctuation 0x205E \<and> is_punctuation 0x2060"
  using is_punctuation_low_byte[of "0x205F"]
  by (simp add: is_punctuation_def is_underscore_def to_char_def ispunct_def)

end
