(* ===== verification/Bech32.thy ===== *)
theory Bech32
  imports Prelude
begin

text \<open>
  The bech32 codec of \<open>src/src/bolt11/bech32.c\<close>: the checksum, encoding, decoding with a bounded
  prefix, and the conversion between groups of bits. Character arrays are lists of bytes;
  a C string is the list of its bytes before the NUL.
\<close>

section \<open>Checksum and tables\<close>

datatype bech32_encoding = BECH32_ENCODING_NONE | BECH32_ENCODING_BECH32 | BECH32_ENCODING_BECH32M

definition bech32_polymod_step :: "u32 \<Rightarrow> u32" where
  "bech32_polymod_step pre =
     (let b = ucast (drop_bit 25 pre) :: u8 in
      push_bit 5 (pre AND 0x1FFFFFF) XOR
      (- ucast (drop_bit 0 b AND 1) AND 0x3b6a57b2) XOR
      (- ucast (drop_bit 1 b AND 1) AND 0x26508e6d) XOR
      (- ucast (drop_bit 2 b AND 1) AND 0x1ea119fa) XOR
      (- ucast (drop_bit 3 b AND 1) AND 0x3d4233dd) XOR
      (- ucast (drop_bit 4 b AND 1) AND 0x2a1462b3))"

text \<open>The function asserts on any other encoding.\<close>

fun bech32_final_constant :: "bech32_encoding \<Rightarrow> u32 option" where
  "bech32_final_constant BECH32_ENCODING_BECH32 = Some 1"
| "bech32_final_constant BECH32_ENCODING_BECH32M = Some 0x2bc830a3"
| "bech32_final_constant BECH32_ENCODING_NONE = None"

definition bech32_charset :: "u8 list" where
  "bech32_charset = str ''qpzry9x8gf2tvdw0s3jn54khce6mua7l''"

definition bech32_charset_rev :: "int list" where
  "bech32_charset_rev = [
    -1, -1, -1, -1, -1, -1, -1, -1, -1, -1, -1, -1, -1, -1, -1, -1,
    -1, -1, -1, -1, -1, -1, -1, -1, -1, -1, -1, -1, -1, -1, -1, -1,
    -1, -1, -1, -1, -1, -1, -1, -1, -1, -1, -1, -1, -1, -1, -1, -1,
    15, -1, 10, 17, 21, 20, 26, 30,  7,  5, -1, -1, -1, -1, -1, -1,
    -1, 29, -1, 24, 13, 25,  9,  8, 23, -1, 18, 22, 31, 27, 19, -1,
     1,  0,  3, 16, 11, 28, 12, 14,  6,  4,  2, -1, -1, -1, -1, -1,
    -1, 29, -1, 24, 13, 25,  9,  8, 23, -1, 18, 22, 31, 27, 19, -1,
     1,  0,  3, 16, 11, 28, 12, 14,  6,  4,  2, -1, -1, -1, -1, -1]"

section \<open>Encoding\<close>

text \<open>The loop over the human-readable part that checks it and hashes its high bits.\<close>

primrec encode_hrp_high :: "u8 list \<Rightarrow> u32 \<Rightarrow> u32 option" where
  "encode_hrp_high [] chk = Some chk"
| "encode_hrp_high (h # hrp) chk =
     (let c = sint h in
      if c < 33 \<or> c > 126 then None
      else if c \<ge> 65 \<and> c \<le> 90 then None
      else encode_hrp_high hrp (bech32_polymod_step chk XOR ucast (drop_bit 5 h)))"

primrec encode_hrp_low :: "u8 list \<Rightarrow> u32 \<Rightarrow> u32" where
  "encode_hrp_low [] chk = chk"
| "encode_hrp_low (h # hrp) chk = encode_hrp_low hrp (bech32_polymod_step chk XOR ucast (h AND 0x1f))"

primrec encode_data :: "u8 list \<Rightarrow> u32 \<Rightarrow> (u8 list \<times> u32) option" where
  "encode_data [] chk = Some ([], chk)"
| "encode_data (d # ds) chk =
     (if drop_bit 5 d \<noteq> 0 then None
      else do {
        (out, chk) \<leftarrow> encode_data ds (bech32_polymod_step chk XOR ucast d);
        Some (bech32_charset ! unat d # out, chk) })"

definition checksum_chars :: "u32 \<Rightarrow> u8 list" where
  "checksum_chars chk =
     map (\<lambda>i. bech32_charset ! unat (drop_bit ((5 - i) * 5) chk AND 0x1f)) [0..<6]"

text \<open>\<open>None\<close> is the return value 0; the encoding passed in is never \<open>NONE\<close>.\<close>

definition bech32_encode :: "u8 list \<Rightarrow> u8 list \<Rightarrow> nat \<Rightarrow> bech32_encoding \<Rightarrow> u8 list option" where
  "bech32_encode hrp data max_input_len enc = do {
     chk \<leftarrow> encode_hrp_high hrp 1;
     if length hrp + 7 + length data > max_input_len then None
     else do {
       let chk = bech32_polymod_step chk;
       let chk = encode_hrp_low hrp chk;
       (out, chk) \<leftarrow> encode_data data chk;
       let chk = (bech32_polymod_step ^^ 6) chk;
       final \<leftarrow> bech32_final_constant enc;
       let chk = chk XOR final;
       Some (hrp @ [49] @ out @ checksum_chars chk) } }"

section \<open>Decoding\<close>

text \<open>
  The loop over the human-readable part: its result is \<open>None\<close> for a character out of range,
  and otherwise the checksum, the two case flags and the lower-cased prefix. The
  second component lists the characters stored so far in \<open>hrp\<close>.
\<close>

primrec decode_hrp ::
  "u8 list \<Rightarrow> u32 \<Rightarrow> bool \<Rightarrow> bool \<Rightarrow> (u32 \<times> bool \<times> bool) option \<times> u8 list" where
  "decode_hrp [] chk lower upper = (Some (chk, lower, upper), [])"
| "decode_hrp (h # hrp) chk lower upper =
     (let c = sint h in
      if c < 33 \<or> c > 126 then (None, [])
      else
        let lower' = (lower \<or> c \<ge> 97 \<and> c \<le> 122);
            upper' = (upper \<or> c \<ge> 65 \<and> c \<le> 90);
            h' = (if c \<ge> 65 \<and> c \<le> 90 then h + 32 else h);
            (r, stored) = decode_hrp hrp (bech32_polymod_step chk XOR ucast (drop_bit 5 h')) lower' upper'
        in (r, h' # stored))"

primrec decode_hrp_low :: "u8 list \<Rightarrow> u32 \<Rightarrow> u32" where
  "decode_hrp_low [] chk = chk"
| "decode_hrp_low (h # hrp) chk = decode_hrp_low hrp (bech32_polymod_step chk XOR ucast (h AND 0x1f))"

text \<open>
  The loop over the characters after the separator; all but the last six are stored in
  \<open>data\<close>. Inside the loop the number of characters still to come decides that. The first
  component is \<open>None\<close> for a character outside the alphabet; the second lists what was stored.
\<close>

primrec decode_data ::
  "u8 list \<Rightarrow> u32 \<Rightarrow> bool \<Rightarrow> bool \<Rightarrow> (u32 \<times> bool \<times> bool) option \<times> u8 list" where
  "decode_data [] chk lower upper = (Some (chk, lower, upper), [])"
| "decode_data (x # xs) chk lower upper =
     (let c = sint x;
          v = (if x AND 0x80 \<noteq> 0 then -1 else bech32_charset_rev ! unat x);
          lower = (lower \<or> c \<ge> 97 \<and> c \<le> 122);
          upper = (upper \<or> c \<ge> 65 \<and> c \<le> 90) in
      if v = -1 then (None, [])
      else
        let (r, data) = decode_data xs (bech32_polymod_step chk XOR word_of_int v) lower upper
        in (r, if length xs \<ge> 6 then word_of_int v # data else data))"

text \<open>
  The result is the encoding found, the bytes written to \<open>hrp\<close> (with the NUL once the prefix is
  complete) and the bytes written to \<open>data\<close>. The \<open>size_t\<close> subtraction that gives \<open>hrp_len\<close> wraps
  when there is no separator.
\<close>

definition bech32_decode_len :: "u8 list \<Rightarrow> int \<Rightarrow> bech32_encoding \<times> u8 list \<times> u8 list" where
  "bech32_decode_len input max_hrp_len =
     (let input_len = length input in
      if input_len < 8 then (BECH32_ENCODING_NONE, [], [])
      else
        let data_len = length (takeWhile (\<lambda>x. x \<noteq> 49) (rev input));
            hrp_len = (int input_len - (1 + int data_len)) mod 2 ^ 64
        in
        if hrp_len > max_hrp_len mod 2 ^ 64 then (BECH32_ENCODING_NONE, [], [])
        else if 1 + data_len \<ge> input_len \<or> data_len < 6 then (BECH32_ENCODING_NONE, [], [])
        else
          (case decode_hrp (take (nat hrp_len) input) 1 False False of
             (None, stored) \<Rightarrow> (BECH32_ENCODING_NONE, stored, [])
           | (Some (chk, lower, upper), stored) \<Rightarrow>
               let hrp = stored @ [0];
                   chk = bech32_polymod_step chk;
                   chk = decode_hrp_low (take (nat hrp_len) input) chk
               in
               case decode_data (drop (nat hrp_len + 1) input) chk lower upper of
                 (None, data) \<Rightarrow> (BECH32_ENCODING_NONE, hrp, data)
               | (Some (chk, lower, upper), data) \<Rightarrow>
                   if lower \<and> upper then (BECH32_ENCODING_NONE, hrp, data)
                   else if Some chk = bech32_final_constant BECH32_ENCODING_BECH32
                     then (BECH32_ENCODING_BECH32, hrp, data)
                   else if Some chk = bech32_final_constant BECH32_ENCODING_BECH32M
                     then (BECH32_ENCODING_BECH32M, hrp, data)
                   else (BECH32_ENCODING_NONE, hrp, data)))"

definition bech32_decode :: "u8 list \<Rightarrow> nat \<Rightarrow> bech32_encoding \<times> u8 list \<times> u8 list" where
  "bech32_decode input max_input_len =
     (if length input > max_input_len then (BECH32_ENCODING_NONE, [], [])
      else bech32_decode_len input 10)"

section \<open>Regrouping bits\<close>

text \<open>The inner loop of \<open>bech32_convert_bits\<close>: it emits while a whole group is available.\<close>

function emit_groups :: "nat \<Rightarrow> u32 \<Rightarrow> nat \<Rightarrow> u8 list \<times> nat" where
  "emit_groups outbits val bits =
     (if outbits \<noteq> 0 \<and> bits \<ge> outbits then
        let bits = bits - outbits;
            (out, rest) = emit_groups outbits val bits
        in (ucast (drop_bit bits val AND (push_bit outbits 1 - 1)) # out, rest)
      else ([], bits))"
  by pat_completeness auto
termination
  by (relation "measure (\<lambda>(o', v, b). b)") auto

declare emit_groups.simps [simp del]

primrec convert_loop :: "u8 list \<Rightarrow> nat \<Rightarrow> nat \<Rightarrow> u32 \<Rightarrow> nat \<Rightarrow> u8 list \<times> u32 \<times> nat" where
  "convert_loop [] outbits inbits val bits = ([], val, bits)"
| "convert_loop (x # xs) outbits inbits val bits =
     (let val = push_bit inbits val OR ucast x;
          (out, bits) = emit_groups outbits val (bits + inbits);
          (rest, val, bits) = convert_loop xs outbits inbits val bits
      in (out @ rest, val, bits))"

text \<open>
  The result is the return value with the bytes written to \<open>out\<close>; \<open>outbits\<close> is positive in
  every call.
\<close>

definition bech32_convert_bits :: "nat \<Rightarrow> u8 list \<Rightarrow> nat \<Rightarrow> bool \<Rightarrow> bool \<times> u8 list" where
  "bech32_convert_bits outbits inp inbits pad =
     (let maxv = push_bit outbits 1 - 1 :: u32;
          (out, val, bits) = convert_loop inp outbits inbits 0 0
      in if pad then
           (if bits \<noteq> 0 then (True, out @ [ucast (push_bit (outbits - bits) val AND maxv)]) else (True, out))
         else if push_bit (outbits - bits) val AND maxv \<noteq> 0 \<or> bits \<ge> inbits then (False, out)
         else (True, out))"

section \<open>Checksum and round trip\<close>

lemma neg_bit_mask: "(- ucast (drop_bit k b AND 1) AND K :: u32) = (if bit b k then K else 0)" for b :: u8
proof -
  have "drop_bit k b AND 1 = of_bool (bit b k)"
    by (simp add: and_one_eq bit_iff_odd_drop_bit mod2_eq_if)
  then show ?thesis by simp
qed

lemma polymod_alt:
  "bech32_polymod_step x = push_bit 5 (take_bit 25 x) XOR
     ((if bit x 25 then 0x3b6a57b2 else 0) XOR (if bit x 26 then 0x26508e6d else 0) XOR
      (if bit x 27 then 0x1ea119fa else 0) XOR (if bit x 28 then 0x3d4233dd else 0) XOR
      (if bit x 29 then 0x2a1462b3 else 0))"
proof -
  have "x AND 0x1FFFFFF = take_bit 25 x" by (simp add: take_bit_eq_mask mask_eq_exp_minus_1)
  then show ?thesis
    unfolding bech32_polymod_step_def Let_def neg_bit_mask
    by (simp add: bit_ucast_iff bit_drop_bit_eq xor.assoc)
qed

lemma if_xor: "(if p \<noteq> q then K else 0) = (if p then K else 0) XOR (if q then K else (0 :: u32))"
  by simp

lemma polymod_xor: "bech32_polymod_step (x XOR y) = bech32_polymod_step x XOR bech32_polymod_step y"
  by (simp only: polymod_alt take_bit_xor push_bit_xor bit_xor_iff if_xor xor.assoc xor.commute xor.left_commute)

lemma polymod_small:
  assumes "take_bit 25 x = x"
  shows "bech32_polymod_step x = push_bit 5 x"
proof -
  have "\<not> bit x k" if "25 \<le> k" for k
    using that assms by (metis bit_take_bit_iff leD)
  then show ?thesis using assms by (simp add: polymod_alt)
qed

lemma polymod_bound: "take_bit 30 (bech32_polymod_step x) = bech32_polymod_step x"
  by (simp add: polymod_alt take_bit_xor take_bit_push_bit)

lemma polymod_push:
  assumes "take_bit 5 v = v" and "k \<le> 20"
  shows "bech32_polymod_step (push_bit k v) = push_bit (k + 5) v"
proof -
  have v: "\<not> bit v i" if "5 \<le> i" for i using that assms(1) by (metis bit_take_bit_iff leD)
  have "\<not> bit (push_bit k v) n" if "25 \<le> n" for n
    using that assms(2) v[of "n - k"] by (simp add: bit_push_bit_iff)
  then have "take_bit 25 (push_bit k v) = push_bit k v"
    by (intro bit_word_eqI) (metis bit_take_bit_iff leI)
  from polymod_small[OF this] show ?thesis by (simp add: push_bit_push_bit add.commute)
qed

text \<open>Feeding the six groups of \<open>w\<close> after \<open>c\<close> adds the low 30 bits of \<open>w\<close> to the checksum.\<close>

definition group5 :: "u32 \<Rightarrow> nat \<Rightarrow> u32" where
  "group5 w i = take_bit 5 (drop_bit ((5 - i) * 5) w)"

lemma groups_xor:
  "push_bit 25 (group5 w 0) XOR push_bit 20 (group5 w 1) XOR push_bit 15 (group5 w 2) XOR
   push_bit 10 (group5 w 3) XOR push_bit 5 (group5 w 4) XOR group5 w 5 = take_bit 30 w"
proof (rule bit_word_eqI)
  fix i :: nat
  have "i < 5 \<or> 5 \<le> i \<and> i < 10 \<or> 10 \<le> i \<and> i < 15 \<or> 15 \<le> i \<and> i < 20 \<or>
      20 \<le> i \<and> i < 25 \<or> 25 \<le> i \<and> i < 30 \<or> 30 \<le> i" by linarith
  then show "bit (push_bit 25 (group5 w 0) XOR push_bit 20 (group5 w 1) XOR
      push_bit 15 (group5 w 2) XOR push_bit 10 (group5 w 3) XOR push_bit 5 (group5 w 4) XOR
      group5 w 5) i = bit (take_bit 30 w) i"
    by (elim disjE) (auto simp: group5_def bit_xor_iff bit_push_bit_iff bit_take_bit_iff bit_drop_bit_eq
        dest: bit_imp_le_length)
qed

lemma six_groups:
  "foldl (\<lambda>c v. bech32_polymod_step c XOR v) c (map (group5 w) [0..<6]) =
     (bech32_polymod_step ^^ 6) c XOR take_bit 30 w"
proof -
  have g: "take_bit 5 (group5 w i) = group5 w i" for i by (simp add: group5_def)
  have p: "bech32_polymod_step (group5 w i) = push_bit 5 (group5 w i)"
    "bech32_polymod_step (push_bit 5 (group5 w i)) = push_bit 10 (group5 w i)"
    "bech32_polymod_step (push_bit 10 (group5 w i)) = push_bit 15 (group5 w i)"
    "bech32_polymod_step (push_bit 15 (group5 w i)) = push_bit 20 (group5 w i)"
    "bech32_polymod_step (push_bit 20 (group5 w i)) = push_bit 25 (group5 w i)" for i
    using polymod_push[OF g, of 0 i] polymod_push[OF g, of 5 i] polymod_push[OF g, of 10 i]
      polymod_push[OF g, of 15 i] polymod_push[OF g, of 20 i] by simp_all
  have u: "[0..<6] = [0, 1, 2, 3, 4, 5 :: nat]" by (simp add: upt_rec)
  have f: "(h ^^ 6) x = h (h (h (h (h (h x)))))" for h :: "u32 \<Rightarrow> u32" and x
    by (simp add: eval_nat_numeral)
  show ?thesis
    unfolding groups_xor[symmetric] u f list.map foldl_Cons foldl_Nil polymod_xor p xor.assoc ..
qed


section \<open>Decoding what was encoded\<close>

lemma charset_length [simp]: "length bech32_charset = 32"
  by (simp add: bech32_charset_def str_def)

text \<open>The reverse table inverts the character set, which has no separator and no upper case.\<close>

lemma charset_table:
  "\<forall>i\<in>set [0..<32]. (let x = bech32_charset ! i in
     x AND 0x80 = 0 \<and> bech32_charset_rev ! unat x = int i \<and> x \<noteq> 49 \<and> \<not> (65 \<le> sint x \<and> sint x \<le> 90))"
  by code_simp

lemma charset_props:
  assumes "i < 32"
  shows "bech32_charset ! i AND 0x80 = 0" "bech32_charset_rev ! unat (bech32_charset ! i) = int i"
    "bech32_charset ! i \<noteq> 49" "\<not> (65 \<le> sint (bech32_charset ! i) \<and> sint (bech32_charset ! i) \<le> 90)"
  using charset_table assms by (auto simp: Let_def)

abbreviation polymod_absorb :: "u32 \<Rightarrow> u32 list \<Rightarrow> u32" where
  "polymod_absorb \<equiv> foldl (\<lambda>c v. bech32_polymod_step c XOR v)"

lemma drop5_zero_iff: "drop_bit 5 d = 0 \<longleftrightarrow> unat d < 32" for d :: u8
proof -
  have "unat (drop_bit 5 d) = unat d div 32"
    using unat_drop_bit_eq[of 5 d] by (simp add: drop_bit_eq_div)
  then show ?thesis by (simp only: div_eq_0_iff flip: unat_eq_zero) simp
qed

lemma encode_data_eq:
  "encode_data ds chk = Some (out, chk') \<longleftrightarrow>
     (\<forall>d\<in>set ds. unat d < 32) \<and> out = map (\<lambda>d. bech32_charset ! unat d) ds \<and>
     chk' = polymod_absorb chk (map ucast ds)"
  by (induction ds arbitrary: chk out) (auto simp: bind_eq_Some drop5_zero_iff)

lemma checksum_chars_eq:
  "checksum_chars chk = map (\<lambda>i. bech32_charset ! unat (group5 chk i)) [0..<6]"
proof -
  have "w AND 0x1f = take_bit 5 w" for w :: u32
    by (simp add: take_bit_eq_mask mask_eq_exp_minus_1)
  then show ?thesis by (simp add: checksum_chars_def group5_def)
qed

lemma group5_less: "unat (group5 w i) < 32"
  unfolding group5_def unsigned_take_bit_eq using take_bit_nat_less_exp[of 5] by simp

lemma decode_data_chars:
  assumes "\<forall>v\<in>set vs. v < 32"
  shows "\<exists>lower'. decode_data (map ((!) bech32_charset) vs) chk lower upper =
    (Some (polymod_absorb chk (map word_of_nat vs), lower', upper), map word_of_nat (take (length vs - 6) vs))"
  using assms
proof (induction vs arbitrary: chk lower)
  case Nil
  then show ?case by simp
next
  case (Cons v vs)
  then have v: "v < 32" and vs: "\<forall>v\<in>set vs. v < 32" by auto
  let ?x = "bech32_charset ! v"
  let ?lower = "lower \<or> sint ?x \<ge> 97 \<and> sint ?x \<le> 122"
  obtain lower' where IH: "decode_data (map ((!) bech32_charset) vs)
      (bech32_polymod_step chk XOR word_of_nat v) ?lower upper =
      (Some (polymod_absorb (bech32_polymod_step chk XOR word_of_nat v) (map word_of_nat vs), lower', upper),
        map word_of_nat (take (length vs - 6) vs))"
    using Cons.IH[OF vs] by blast
  have "length vs \<ge> 6 \<Longrightarrow> length (v # vs) - 6 = Suc (length vs - 6)" by simp
  with IH charset_props[OF v] show ?case by (auto simp: Let_def)
qed

lemma decode_hrp_encoded:
  "encode_hrp_high hrp chk = Some chk' \<Longrightarrow>
     \<exists>lower'. decode_hrp hrp chk lower upper = (Some (chk', lower', upper), hrp)"
proof (induction hrp arbitrary: chk lower)
  case Nil
  then show ?case by simp
next
  case (Cons h hrp)
  have c: "\<not> (sint h < 33 \<or> sint h > 126)" "\<not> (sint h \<ge> 65 \<and> sint h \<le> 90)"
    and e: "encode_hrp_high hrp (bech32_polymod_step chk XOR ucast (drop_bit 5 h)) = Some chk'"
    using Cons.prems by (auto simp: Let_def split: if_splits)
  obtain lower' where "decode_hrp hrp (bech32_polymod_step chk XOR ucast (drop_bit 5 h))
      (lower \<or> sint h \<ge> 97 \<and> sint h \<le> 122) upper = (Some (chk', lower', upper), hrp)"
    using Cons.IH[OF e] by blast
  with c show ?case by (auto simp: Let_def)
qed

lemma hrp_low_eq: "decode_hrp_low hrp chk = encode_hrp_low hrp chk"
  by (induction hrp arbitrary: chk) simp_all

text \<open>What \<open>bech32_encode\<close> produces, in one equation.\<close>

lemma bech32_encode_out:
  assumes "bech32_encode hrp data max_len enc = Some out"
  obtains chk0 chk1 final where "encode_hrp_high hrp 1 = Some chk0"
    and "chk1 = polymod_absorb (encode_hrp_low hrp (bech32_polymod_step chk0)) (map ucast data)"
    and "bech32_final_constant enc = Some final" and "\<forall>d\<in>set data. unat d < 32"
    and "out = hrp @ [49] @ map (\<lambda>d. bech32_charset ! unat d) data @
      checksum_chars ((bech32_polymod_step ^^ 6) chk1 XOR final)"
  using assms by (auto simp: bech32_encode_def bind_eq_Some encode_data_eq Let_def split: if_splits)

lemma final_constant_bound: "bech32_final_constant enc = Some k \<Longrightarrow> take_bit 30 k = k"
  by (cases enc) auto

lemma polymod6_bound: "take_bit 30 ((bech32_polymod_step ^^ 6) x) = (bech32_polymod_step ^^ 6) x"
  using polymod_bound by (simp add: eval_nat_numeral)

text \<open>The checksum of a correctly encoded string is the constant of its encoding.\<close>

lemma checksum_absorbed:
  assumes "bech32_final_constant enc = Some k"
  shows "polymod_absorb c (map (group5 ((bech32_polymod_step ^^ 6) c XOR k)) [0..<6]) = k"
  using final_constant_bound[OF assms]
  by (simp only: six_groups take_bit_xor polymod6_bound xor.assoc[symmetric] xor_self_eq xor.left_neutral)


lemma separator_position:
  assumes "\<forall>v\<in>set vs. v < 32"
  shows "takeWhile (\<lambda>x. x \<noteq> 49) (rev (hrp @ [49] @ map ((!) bech32_charset) vs)) =
    rev (map ((!) bech32_charset) vs)"
proof -
  have "\<forall>x\<in>set (rev (map ((!) bech32_charset) vs)). x \<noteq> 49"
    using assms charset_props(3) by auto
  then have "takeWhile (\<lambda>x. x \<noteq> 49) (rev (map ((!) bech32_charset) vs) @ 49 # rev hrp) =
      rev (map ((!) bech32_charset) vs) @ takeWhile (\<lambda>x. x \<noteq> 49) (49 # rev hrp)"
    by (intro takeWhile_append2) blast
  then show ?thesis by simp
qed

lemma decode_of_encode:
  assumes enc: "bech32_encode hrp data max_len enc = Some out"
    and hrp: "hrp \<noteq> []" "int (length hrp) \<le> max_hrp_len" "max_hrp_len < 2 ^ 31"
  shows "bech32_decode_len out max_hrp_len = (enc, hrp @ [0], data)"
proof -
  obtain chk0 chk1 final where e: "encode_hrp_high hrp 1 = Some chk0"
    "chk1 = polymod_absorb (encode_hrp_low hrp (bech32_polymod_step chk0)) (map ucast data)"
    "bech32_final_constant enc = Some final" "\<forall>d\<in>set data. unat d < 32"
    "out = hrp @ [49] @ map (\<lambda>d. bech32_charset ! unat d) data @
      checksum_chars ((bech32_polymod_step ^^ 6) chk1 XOR final)"
    using bech32_encode_out[OF enc] by blast
  define w where "w = (bech32_polymod_step ^^ 6) chk1 XOR final"
  define vs where "vs = map unat data @ map (\<lambda>i. unat (group5 w i)) [0..<6]"
  have out: "out = hrp @ [49] @ map ((!) bech32_charset) vs"
    unfolding e(5) vs_def w_def[symmetric] checksum_chars_eq by simp
  have vs: "\<forall>v\<in>set vs. v < 32" using e(4) group5_less by (auto simp: vs_def)
  have len: "length vs = length data + 6" by (simp add: vs_def)
  have absorb: "polymod_absorb (encode_hrp_low hrp (bech32_polymod_step chk0)) (map word_of_nat vs) = final"
    using checksum_absorbed[OF e(3), of chk1] by (simp add: vs_def e(2) w_def o_def)
  obtain lower where h: "decode_hrp hrp 1 False False = (Some (chk0, lower, False), hrp)"
    using decode_hrp_encoded[OF e(1)] by blast
  obtain lower' where d: "decode_data (map ((!) bech32_charset) vs)
      (encode_hrp_low hrp (bech32_polymod_step chk0)) lower False =
      (Some (final, lower', False), data)"
    using decode_data_chars[OF vs, of "encode_hrp_low hrp (bech32_polymod_step chk0)" lower False] absorb
    by (auto simp: len) (simp add: vs_def o_def)
  have n: "int (length hrp) mod 2 ^ 64 = int (length hrp)" "max_hrp_len mod 2 ^ 64 = max_hrp_len"
    using hrp by auto
  have ol: "length out = length hrp + 7 + length data" by (simp add: out len)
  have sl: "length (takeWhile (\<lambda>x. x \<noteq> 49) (rev out)) = length data + 6"
    unfolding out separator_position[OF vs] by (simp add: len)
  have hl: "(int (length out) - (1 + int (length data + 6))) mod 2 ^ 64 = int (length hrp)"
    unfolding ol using n(1) by simp
  have t: "take (length hrp) out = hrp" "drop (Suc (length hrp)) out = map ((!) bech32_charset) vs"
    by (simp_all add: out)
  have g: "\<not> length out < 8" "0 < length hrp" using ol hrp(1) by (auto simp: Suc_le_eq)
  have f: "final = 1 \<longleftrightarrow> enc = BECH32_ENCODING_BECH32" "final = 0x2bc830a3 \<longleftrightarrow> enc = BECH32_ENCODING_BECH32M"
    using e(3) by (cases enc; auto)+
  have en: "enc \<noteq> BECH32_ENCODING_NONE" using e(3) by auto
  show ?thesis
    unfolding bech32_decode_len_def Let_def sl hl n(2)
    using g hrp(2) ol h d f en by (cases enc) (simp_all add: t hrp_low_eq)
qed

text \<open>
  C5 Decoding a string that \<open>bech32_encode\<close> produced gives back the encoding variant, the prefix
  and the data groups, for every non-empty prefix within the decoder's limit.
\<close>

theorem bech32_decode_encode:
  assumes "bech32_encode hrp data max_len enc = Some out"
    and "hrp \<noteq> []" "int (length hrp) \<le> max_hrp_len" "max_hrp_len < 2 ^ 31"
  shows "bech32_decode_len out max_hrp_len = (enc, hrp @ [0], data)"
  using assms by (rule decode_of_encode)

theorem bech32_decode_encode_witness:
  "\<exists>out. bech32_encode (str ''note'') [1, 2, 31] 90 BECH32_ENCODING_BECH32 = Some out \<and>
     bech32_decode_len out 8 = (BECH32_ENCODING_BECH32, str ''note'' @ [0], [1, 2, 31])"
proof -
  have "bech32_encode (str ''note'') [1, 2, 31] 90 BECH32_ENCODING_BECH32 \<noteq> None"
    by (simp add: bech32_encode_def str_def Let_def)
  then obtain out where "bech32_encode (str ''note'') [1, 2, 31] 90 BECH32_ENCODING_BECH32 = Some out"
    by blast
  from bech32_decode_encode[OF this, of 8] this show ?thesis by (simp add: str_def)
qed


section \<open>Regrouping as a bit stream\<close>

text \<open>The low \<open>k\<close> bits of a word, most significant first.\<close>

definition bits_msb :: "nat \<Rightarrow> 'a::len word \<Rightarrow> bool list" where
  "bits_msb k w = map (bit w) (rev [0..<k])"

definition bit_stream :: "nat \<Rightarrow> u8 list \<Rightarrow> bool list" where
  "bit_stream k xs = concat (map (bits_msb k) xs)"

lemma length_bits_msb [simp]: "length (bits_msb k w) = k"
  by (simp add: bits_msb_def)

lemma bit_stream_simps [simp]:
  "bit_stream k [] = []" "bit_stream k (x # xs) = bits_msb k x @ bit_stream k xs"
  "bit_stream k (xs @ ys) = bit_stream k xs @ bit_stream k ys"
  by (simp_all add: bit_stream_def)

lemma length_bit_stream [simp]: "length (bit_stream k xs) = k * length xs"
  by (induction xs) simp_all

lemma nth_bits_msb: "i < k \<Longrightarrow> bits_msb k w ! i = bit w (k - Suc i)"
  by (simp add: bits_msb_def rev_nth)

lemma bits_msb_inject:
  fixes v w :: u8
  assumes "bits_msb 8 v = bits_msb 8 w"
  shows "v = w"
proof (rule bit_word_eqI)
  fix i assume "i < LENGTH(8)"
  then show "bit v i = bit w i"
    using arg_cong[OF assms, of "\<lambda>xs. xs ! (7 - i)"] by (simp add: nth_bits_msb)
qed

lemma bit_stream_inject:
  "bit_stream 8 xs @ p = bit_stream 8 ys @ q \<Longrightarrow> length p < 8 \<Longrightarrow> length q < 8 \<Longrightarrow> xs = ys \<and> p = q"
proof (induction xs arbitrary: ys)
  case Nil
  then show ?case by (cases ys) (auto dest!: arg_cong[of _ _ length])
next
  case (Cons x xs)
  show ?case
  proof (cases ys)
    case Nil
    with Cons.prems show ?thesis by (auto dest!: arg_cong[of _ _ length])
  next
    case (Cons y ys')
    with Cons.prems have "bits_msb 8 x = bits_msb 8 y" "bit_stream 8 xs @ p = bit_stream 8 ys' @ q"
      by simp_all
    with Cons.IH[of ys'] Cons.prems Cons show ?thesis by (simp add: bits_msb_inject)
  qed
qed

lemma group_mask: "push_bit k 1 - 1 = (mask k :: u32)"
  by (simp add: mask_eq_exp_minus_1 push_bit_eq_mult)

lemma bits_msb_group:
  assumes "o' \<le> bits" "bits \<le> 32" "o' \<le> 8"
  shows "bits_msb o' (ucast (drop_bit (bits - o') (val :: u32) AND mask o') :: u8) @ bits_msb (bits - o') val =
    bits_msb bits val"
proof (rule nth_equalityI)
  fix i assume "i < length (bits_msb o' (ucast (drop_bit (bits - o') val AND mask o') :: u8) @ bits_msb (bits - o') val)"
  then have i: "i < bits" using assms by simp
  show "(bits_msb o' (ucast (drop_bit (bits - o') val AND mask o') :: u8) @ bits_msb (bits - o') val) ! i =
      bits_msb bits val ! i"
  proof (cases "i < o'")
    case True
    have "bits - o' + (o' - Suc i) = bits - Suc i" "o' - Suc i < 8" using True assms by simp_all
    with True i assms show ?thesis
      by (simp add: nth_append nth_bits_msb bit_ucast_iff bit_and_iff bit_drop_bit_eq bit_mask_iff)
  next
    case False
    then have "bits - o' - Suc (i - o') = bits - Suc i" using assms by simp
    with False i assms show ?thesis by (simp add: nth_append nth_bits_msb)
  qed
qed (use assms in simp)

lemma emit_groups_spec:
  assumes "0 < outbits" "outbits \<le> 8"
  shows "bits \<le> 32 \<Longrightarrow> emit_groups outbits val bits = (out, rest) \<Longrightarrow>
    bit_stream outbits out @ bits_msb rest val = bits_msb bits val \<and> rest < outbits"
proof (induction bits arbitrary: out rest rule: less_induct)
  case (less bits)
  show ?case
  proof (cases "bits \<ge> outbits")
    case True
    let ?b = "bits - outbits"
    obtain out' where o: "emit_groups outbits val ?b = (out', rest)"
      "out = ucast (drop_bit ?b val AND mask outbits) # out'"
      using less.prems(2) True assms unfolding emit_groups.simps[of outbits val bits] by (auto simp: Let_def mask_eq_exp_minus_1 split: prod.splits)
    have IH: "bit_stream outbits out' @ bits_msb rest val = bits_msb ?b val \<and> rest < outbits"
      using less.IH[of ?b, OF _ _ o(1)] less.prems(1) True assms by simp
    have "bits_msb outbits (ucast (drop_bit ?b val AND mask outbits) :: u8) @ bits_msb ?b val = bits_msb bits val"
      using True assms less.prems(1) by (intro bits_msb_group) simp_all
    with IH o(2) show ?thesis by simp
  next
    case False
    then show ?thesis using less.prems(2) by (subst (asm) emit_groups.simps) auto
  qed
qed

lemma bits_msb_shift_in:
  assumes "bits + inbits \<le> 32" and "\<And>i. inbits \<le> i \<Longrightarrow> \<not> bit x i"
  shows "bits_msb (bits + inbits) (push_bit inbits val OR ucast x :: u32) =
    bits_msb bits val @ bits_msb inbits (x :: u8)"
proof (rule nth_equalityI)
  let ?v = "push_bit inbits val OR ucast x :: u32"
  fix i assume "i < length (bits_msb (bits + inbits) ?v)"
  then have i: "i < bits + inbits" by simp
  show "bits_msb (bits + inbits) ?v ! i = (bits_msb bits val @ bits_msb inbits x) ! i"
  proof (cases "i < bits")
    case True
    then have "bits + inbits - Suc i - inbits = bits - Suc i" "inbits \<le> bits + inbits - Suc i"
      "bits + inbits - Suc i < 32" using assms(1) by simp_all
    with True i assms show ?thesis
      by (simp add: nth_append nth_bits_msb bit_or_iff bit_push_bit_iff bit_ucast_iff)
  next
    case False
    then have "bits + inbits - Suc i = inbits - Suc (i - bits)" "\<not> inbits \<le> inbits - Suc (i - bits)"
      "inbits - Suc (i - bits) < 32" using i assms by simp_all
    with False i assms show ?thesis
      by (simp add: nth_append nth_bits_msb bit_or_iff bit_push_bit_iff bit_ucast_iff)
  qed
qed simp

lemma convert_loop_spec:
  assumes "0 < outbits" "outbits \<le> 8" "inbits \<le> 8"
  shows "\<forall>x\<in>set xs. \<forall>i\<ge>inbits. \<not> bit x i \<Longrightarrow> bits < outbits \<Longrightarrow>
    convert_loop xs outbits inbits val bits = (out, val', bits') \<Longrightarrow>
    bit_stream outbits out @ bits_msb bits' val' = bits_msb bits val @ bit_stream inbits xs \<and> bits' < outbits"
proof (induction xs arbitrary: val bits out)
  case Nil
  then show ?case by simp
next
  case (Cons x xs)
  let ?val = "push_bit inbits val OR ucast x"
  obtain o1 b1 o2 where e: "emit_groups outbits ?val (bits + inbits) = (o1, b1)"
    "convert_loop xs outbits inbits ?val b1 = (o2, val', bits')" "out = o1 @ o2"
    using Cons.prems(3) by (auto simp: Let_def split: prod.splits)
  have 1: "bit_stream outbits o1 @ bits_msb b1 ?val = bits_msb (bits + inbits) ?val" "b1 < outbits"
    using emit_groups_spec[OF assms(1,2) _ e(1)] Cons.prems(2) assms by auto
  have 2: "bits_msb (bits + inbits) ?val = bits_msb bits val @ bits_msb inbits x"
    using Cons.prems assms by (intro bits_msb_shift_in) auto
  have 3: "bit_stream outbits o2 @ bits_msb bits' val' = bits_msb b1 ?val @ bit_stream inbits xs" "bits' < outbits"
    using Cons.IH[OF _ 1(2) e(2)] Cons.prems(1) by auto
  show ?case using 1 2 3 e(3) by (simp add: append_assoc)
qed

text \<open>The last, incomplete group is filled with zero bits on the right.\<close>

lemma bits_msb_pad:
  assumes "bits < o'" "o' \<le> 8"
  shows "bits_msb o' (push_bit (o' - bits) (val :: u32) AND mask o') = bits_msb bits val @ replicate (o' - bits) False"
proof (rule nth_equalityI)
  let ?v = "push_bit (o' - bits) val AND mask o'"
  fix i assume "i < length (bits_msb o' ?v)"
  then have i: "i < o'" by simp
  show "bits_msb o' ?v ! i = (bits_msb bits val @ replicate (o' - bits) False) ! i"
  proof (cases "i < bits")
    case True
    then have "o' - Suc i - (o' - bits) = bits - Suc i" "o' - bits \<le> o' - Suc i" "o' - Suc i < 32" using assms by simp_all
    with True i assms show ?thesis
      by (simp add: nth_append nth_bits_msb bit_and_iff bit_mask_iff bit_push_bit_iff)
  next
    case False
    then have "\<not> o' - bits \<le> o' - Suc i" using i by simp
    with False i assms show ?thesis
      by (simp add: nth_append nth_bits_msb bit_and_iff bit_mask_iff bit_push_bit_iff)
  qed
qed (use assms in simp)

lemma bits_msb_ucast: "k \<le> 8 \<Longrightarrow> bits_msb k (ucast (v :: u32) :: u8) = bits_msb k v"
  by (rule nth_equalityI) (auto simp: nth_bits_msb bit_ucast_iff)

lemma bits_msb_zero_iff:
  assumes "o' \<le> 32"
  shows "(v :: u32) AND mask o' = 0 \<longleftrightarrow> bits_msb o' (v AND mask o') = replicate o' False"
proof
  assume *: "bits_msb o' (v AND mask o') = replicate o' False"
  show "v AND mask o' = 0"
  proof (rule bit_word_eqI)
    fix i
    have "i < o' \<Longrightarrow> \<not> bit (v AND mask o') i"
      using arg_cong[OF *, of "\<lambda>xs. xs ! (o' - Suc i)"] by (simp add: nth_bits_msb)
    then show "bit (v AND mask o') i = bit 0 i" by (auto simp: bit_and_iff bit_mask_iff)
  qed
qed (rule nth_equalityI, simp_all add: nth_bits_msb)

lemma ucast_mask_less:
  assumes "k \<le> 8"
  shows "unat (ucast ((v :: u32) AND mask k) :: u8) < 2 ^ k"
proof -
  have "(ucast (v AND mask k) :: u8) = take_bit k (ucast v)"
    using assms by (intro bit_word_eqI) (auto simp: bit_ucast_iff bit_and_iff bit_mask_iff bit_take_bit_iff)
  then show ?thesis by (simp add: unsigned_take_bit_eq)
qed

lemma emit_groups_small:
  "g \<in> set (fst (emit_groups outbits val bits)) \<Longrightarrow> outbits \<le> 8 \<Longrightarrow> unat g < 2 ^ outbits"
proof (induction bits rule: less_induct)
  case (less bits)
  show ?case
  proof (cases "outbits \<noteq> 0 \<and> outbits \<le> bits")
    case True
    with less.prems have "g = ucast (drop_bit (bits - outbits) val AND mask outbits) \<or>
        g \<in> set (fst (emit_groups outbits val (bits - outbits)))"
      by (subst (asm) emit_groups.simps) (auto simp: Let_def mask_eq_exp_minus_1 split: prod.splits)
    with True less.IH[of "bits - outbits"] less.prems show ?thesis
      by (auto simp: ucast_mask_less)
  next
    case False
    with less.prems show ?thesis by (subst (asm) emit_groups.simps) auto
  qed
qed

lemma convert_loop_small:
  "g \<in> set (fst (convert_loop xs outbits inbits val bits)) \<Longrightarrow> outbits \<le> 8 \<Longrightarrow> unat g < 2 ^ outbits"
proof (induction xs arbitrary: val bits)
  case Nil
  then show ?case by simp
next
  case (Cons x xs)
  obtain o1 b1 where e: "emit_groups outbits (push_bit inbits val OR ucast x) (bits + inbits) = (o1, b1)"
    by fastforce
  with Cons.prems(1) have "g \<in> set o1 \<or>
      g \<in> set (fst (convert_loop xs outbits inbits (push_bit inbits val OR ucast x) b1))"
    by (auto simp: Let_def split: prod.splits)
  then show ?case
    using Cons.IH Cons.prems(2) emit_groups_small[of g outbits "push_bit inbits val OR ucast x" "bits + inbits"] e by auto
qed

lemma no_high_bits: "unat (x :: u8) < 2 ^ k \<Longrightarrow> k \<le> i \<Longrightarrow> \<not> bit x i"
proof -
  assume "unat x < 2 ^ k" "k \<le> i"
  then have "take_bit k (unat x) = unat x" by (simp add: take_bit_nat_eq_self)
  then have "bit (unat x) i \<longleftrightarrow> i < k \<and> bit (unat x) i" by (metis bit_take_bit_iff)
  with \<open>k \<le> i\<close> show "\<not> bit x i" by (simp add: bit_unsigned_iff)
qed

lemma convert_bits_pad_spec:
  fixes bs :: "u8 list"
  obtains gs where "bech32_convert_bits 5 bs 8 True = (True, gs)" "\<forall>g\<in>set gs. unat g < 32"
    "\<exists>p. p < 5 \<and> bit_stream 5 gs = bit_stream 8 bs @ replicate p False"
proof -
  obtain out val bits where c: "convert_loop bs 5 8 0 0 = (out, val, bits)" by (metis prod_cases3)
  have "\<forall>x\<in>set bs. \<forall>i\<ge>8. \<not> bit x i" by (auto dest: bit_imp_le_length)
  then have s: "bit_stream 5 out @ bits_msb bits val = bit_stream 8 bs" "bits < 5"
    using convert_loop_spec[of 5 8 bs 0, OF _ _ _ _ _ c] by (auto simp: bits_msb_def)
  have small: "\<forall>g\<in>set out. unat g < 32"
    using convert_loop_small[of _ bs 5 8 0 0] c by auto
  show ?thesis
  proof (cases "bits = 0")
    case True
    with c s small show ?thesis
      by (intro that[of out]) (auto simp: bech32_convert_bits_def bits_msb_def intro!: exI[of _ 0])
  next
    case False
    let ?g = "ucast (push_bit (5 - bits) val AND mask 5) :: u8"
    have "unat ?g < 32" using ucast_mask_less[of 5 "push_bit (5 - bits) val"] by simp
    moreover have "bits_msb 5 ?g = bits_msb bits val @ replicate (5 - bits) False"
      using s(2) by (simp only: bits_msb_ucast bits_msb_pad)
    moreover have "bech32_convert_bits 5 bs 8 True = (True, out @ [?g])"
      using False c unfolding bech32_convert_bits_def group_mask by simp
    moreover have "bit_stream 5 (out @ [?g]) = bit_stream 8 bs @ replicate (5 - bits) False"
      using s(1) calculation(2) by simp
    ultimately show ?thesis
      using small False by (intro that[of "out @ [?g]"]) (auto intro!: exI[of _ "5 - bits"])
  qed
qed

lemma convert_bits_unpad_spec:
  assumes small: "\<forall>g\<in>set gs. unat g < 32"
    and stream: "bit_stream 5 gs = bit_stream 8 bs @ replicate p False" and "p < 5"
  shows "bech32_convert_bits 8 gs 5 False = (True, bs)"
proof -
  obtain out val bits where c: "convert_loop gs 8 5 0 0 = (out, val, bits)" by (metis prod_cases3)
  have "\<forall>x\<in>set gs. \<forall>i\<ge>5. \<not> bit x i"
    using small no_high_bits[of _ 5] by auto
  then have s: "bit_stream 8 out @ bits_msb bits val = bit_stream 5 gs" "bits < 8"
    using convert_loop_spec[of 8 5 gs 0, OF _ _ _ _ _ c] by (auto simp: bits_msb_def)
  then have e: "out = bs \<and> bits_msb bits val = replicate p False"
    using stream \<open>p < 5\<close> by (intro bit_stream_inject) simp_all
  then have "bits = p" by (metis length_bits_msb length_replicate)
  with s e have "bits_msb 8 (push_bit (8 - bits) val AND mask 8) = replicate 8 False"
    by (simp only: bits_msb_pad) (simp add: replicate_add[symmetric])
  then have "push_bit (8 - bits) val AND mask 8 = 0" by (subst bits_msb_zero_iff) simp_all
  then show ?thesis using c e \<open>bits = p\<close> \<open>p < 5\<close> unfolding bech32_convert_bits_def group_mask by simp
qed

text \<open>
  Regrouping: any byte sequence is converted by \<open>bech32_convert_bits\<close> from groups of eight to
  padded groups of five bits, every group fits in five bits, and the conversion back, which
  rejects non-zero padding and left-over groups, accepts them and returns exactly the original
  bytes.
\<close>

theorem convert_bits_roundtrip:
  "\<exists>gs. bech32_convert_bits 5 bs 8 True = (True, gs) \<and> list_all (\<lambda>g. unat g < 32) gs \<and>
     bech32_convert_bits 8 gs 5 False = (True, bs)"
proof -
  obtain gs p where "bech32_convert_bits 5 bs 8 True = (True, gs)" "\<forall>g\<in>set gs. unat g < 32"
    "p < 5" "bit_stream 5 gs = bit_stream 8 bs @ replicate p False"
    using convert_bits_pad_spec[of bs] by metis
  then show ?thesis using convert_bits_unpad_spec[of gs bs p] by (auto simp: list_all_iff)
qed


end
