(* ===== verification/Nostr_Bech32.thy ===== *)
theory Nostr_Bech32
  imports Cursor_Text Bech32
begin

text \<open>
  Nostr identifiers (NIP-19), \<open>src/src/nostr_bech32.c\<close>: recognising the prefix, finding the extent
  of the text, and decoding the payload, either 32 bytes or a sequence of type-length-value
  entries. The decoded object points into the buffer that holds the payload.
\<close>

section \<open>Objects\<close>

datatype nostr_bech32_type =
  NOSTR_BECH32_NOTE | NOSTR_BECH32_NPUB | NOSTR_BECH32_NPROFILE | NOSTR_BECH32_NEVENT |
  NOSTR_BECH32_NRELAY | NOSTR_BECH32_NADDR | NOSTR_BECH32_NSEC

record ndb_str_block =
  sb_str :: ptr
  sb_len :: u32

text \<open>The array of relays with its counter is the list of the entries in use.\<close>

type_synonym ndb_relays = "ndb_str_block list"

abbreviation NDB_MAX_RELAYS :: nat where "NDB_MAX_RELAYS \<equiv> 24"

record bech32_nevent =
  ne_relays :: ndb_relays
  ne_event_id :: "ptr option"
  ne_pubkey :: "ptr option"

record bech32_nprofile =
  np_relays :: ndb_relays
  np_pubkey :: "ptr option"

record bech32_naddr =
  na_relays :: ndb_relays
  na_identifier :: "ndb_str_block option"
  na_pubkey :: "ptr option"

datatype nostr_bech32 =
  Bech32_note ptr | Bech32_npub ptr | Bech32_nsec ptr | Bech32_nevent bech32_nevent |
  Bech32_nprofile bech32_nprofile | Bech32_naddr bech32_naddr | Bech32_nrelay ndb_str_block

record nostr_tlv =
  tlv_type :: u8
  tlv_len :: u8
  tlv_value :: ptr

section \<open>Type-length-value entries\<close>

definition parse_nostr_tlv :: "mem \<Rightarrow> cursor \<Rightarrow> (nostr_tlv option \<times> cursor) option" where
  "parse_nostr_tlv m cur = do {
     (ty, cur) \<leftarrow> cursor_pull_byte m cur;
     case ty of
       None \<Rightarrow> Some (None, cur)
     | Some ty \<Rightarrow>
         (if ty \<ge> 4 then Some (None, cur)
          else do {
            (len, cur) \<leftarrow> cursor_pull_byte m cur;
            case len of
              None \<Rightarrow> Some (None, cur)
            | Some len \<Rightarrow>
                (if cp cur + uint len > cend cur then Some (None, cur)
                 else Some (Some \<lparr>tlv_type = ty, tlv_len = len, tlv_value = cp cur\<rparr>,
                            cur\<lparr>cp := cp cur + uint len\<rparr>)) }) }"

definition add_relay :: "ndb_relays \<Rightarrow> nostr_tlv \<Rightarrow> bool \<times> ndb_relays" where
  "add_relay relays tlv =
     (if length relays + 1 > NDB_MAX_RELAYS then (False, relays)
      else (True, relays @ [\<lparr>sb_str = tlv_value tlv, sb_len = ucast (tlv_len tlv)\<rparr>]))"

text \<open>
  The loop the four parsers share: it reads up to \<open>n\<close> entries and handles each with the
  \<open>switch\<close> of the parser, given as \<open>step\<close>; \<open>None\<close> from \<open>step\<close> is the early \<open>return 0\<close>.
\<close>

primrec tlv_loop ::
  "nat \<Rightarrow> (nostr_tlv \<Rightarrow> 'a \<Rightarrow> 'a option) \<Rightarrow> mem \<Rightarrow> cursor \<Rightarrow> 'a \<Rightarrow> ('a option \<times> cursor) option" where
  "tlv_loop 0 step m cur obj = Some (Some obj, cur)"
| "tlv_loop (Suc n) step m cur obj = do {
     (tlv, cur) \<leftarrow> parse_nostr_tlv m cur;
     case tlv of
       None \<Rightarrow> Some (Some obj, cur)
     | Some tlv \<Rightarrow>
         (case step tlv obj of
            None \<Rightarrow> Some (None, cur)
          | Some obj \<Rightarrow> tlv_loop n step m cur obj) }"

definition nevent_step :: "nostr_tlv \<Rightarrow> bech32_nevent \<Rightarrow> bech32_nevent option" where
  "nevent_step tlv e =
     (if tlv_type tlv = 0 then
        (if tlv_len tlv \<noteq> 32 then None else Some (e\<lparr>ne_event_id := Some (tlv_value tlv)\<rparr>))
      else if tlv_type tlv = 2 then
        (if tlv_len tlv \<noteq> 32 then None else Some (e\<lparr>ne_pubkey := Some (tlv_value tlv)\<rparr>))
      else if tlv_type tlv = 1 then Some (e\<lparr>ne_relays := snd (add_relay (ne_relays e) tlv)\<rparr>)
      else Some e)"

definition naddr_step :: "nostr_tlv \<Rightarrow> bech32_naddr \<Rightarrow> bech32_naddr option" where
  "naddr_step tlv e =
     (if tlv_type tlv = 0 then
        Some (e\<lparr>na_identifier := Some \<lparr>sb_str = tlv_value tlv, sb_len = ucast (tlv_len tlv)\<rparr>\<rparr>)
      else if tlv_type tlv = 2 then
        (if tlv_len tlv \<noteq> 32 then None else Some (e\<lparr>na_pubkey := Some (tlv_value tlv)\<rparr>))
      else if tlv_type tlv = 1 then Some (e\<lparr>na_relays := snd (add_relay (na_relays e) tlv)\<rparr>)
      else Some e)"

definition nprofile_step :: "nostr_tlv \<Rightarrow> bech32_nprofile \<Rightarrow> bech32_nprofile option" where
  "nprofile_step tlv e =
     (if tlv_type tlv = 0 then
        (if tlv_len tlv \<noteq> 32 then None else Some (e\<lparr>np_pubkey := Some (tlv_value tlv)\<rparr>))
      else if tlv_type tlv = 1 then Some (e\<lparr>np_relays := snd (add_relay (np_relays e) tlv)\<rparr>)
      else Some e)"

definition nrelay_step :: "nostr_tlv \<Rightarrow> ndb_str_block option \<Rightarrow> ndb_str_block option option" where
  "nrelay_step tlv e =
     (if tlv_type tlv = 0 then Some (Some \<lparr>sb_str = tlv_value tlv, sb_len = ucast (tlv_len tlv)\<rparr>)
      else Some e)"

text \<open>The parsers succeed when the special entry was seen.\<close>

definition parse_nostr_bech32_nevent :: "mem \<Rightarrow> cursor \<Rightarrow> (bech32_nevent option \<times> cursor) option" where
  "parse_nostr_bech32_nevent m cur = do {
     (r, cur) \<leftarrow> tlv_loop 32 nevent_step m cur \<lparr>ne_relays = [], ne_event_id = None, ne_pubkey = None\<rparr>;
     case r of
       None \<Rightarrow> Some (None, cur)
     | Some e \<Rightarrow> Some (if ne_event_id e \<noteq> None then Some e else None, cur) }"

definition parse_nostr_bech32_naddr :: "mem \<Rightarrow> cursor \<Rightarrow> (bech32_naddr option \<times> cursor) option" where
  "parse_nostr_bech32_naddr m cur = do {
     (r, cur) \<leftarrow> tlv_loop 32 naddr_step m cur \<lparr>na_relays = [], na_identifier = None, na_pubkey = None\<rparr>;
     case r of
       None \<Rightarrow> Some (None, cur)
     | Some e \<Rightarrow> Some (if na_identifier e \<noteq> None then Some e else None, cur) }"

definition parse_nostr_bech32_nprofile :: "mem \<Rightarrow> cursor \<Rightarrow> (bech32_nprofile option \<times> cursor) option" where
  "parse_nostr_bech32_nprofile m cur = do {
     (r, cur) \<leftarrow> tlv_loop 32 nprofile_step m cur \<lparr>np_relays = [], np_pubkey = None\<rparr>;
     case r of
       None \<Rightarrow> Some (None, cur)
     | Some e \<Rightarrow> Some (if np_pubkey e \<noteq> None then Some e else None, cur) }"

definition parse_nostr_bech32_nrelay :: "mem \<Rightarrow> cursor \<Rightarrow> (ndb_str_block option \<times> cursor) option" where
  "parse_nostr_bech32_nrelay m cur = do {
     (r, cur) \<leftarrow> tlv_loop 32 nrelay_step m cur None;
     case r of
       None \<Rightarrow> Some (None, cur)
     | Some e \<Rightarrow> Some (e, cur) }"

definition parse_nostr_bech32_note :: "cursor \<Rightarrow> ptr option \<times> cursor" where
  "parse_nostr_bech32_note cur = pull_bytes cur 32"

definition parse_nostr_bech32_npub :: "cursor \<Rightarrow> ptr option \<times> cursor" where
  "parse_nostr_bech32_npub cur = pull_bytes cur 32"

definition parse_nostr_bech32_nsec :: "cursor \<Rightarrow> ptr option \<times> cursor" where
  "parse_nostr_bech32_nsec cur = pull_bytes cur 32"

definition parse_nostr_bech32_buffer ::
  "mem \<Rightarrow> cursor \<Rightarrow> nostr_bech32_type \<Rightarrow> (nostr_bech32 option \<times> cursor) option" where
  "parse_nostr_bech32_buffer m cur ty =
     (case ty of
        NOSTR_BECH32_NOTE \<Rightarrow> Some (apfst (map_option Bech32_note) (parse_nostr_bech32_note cur))
      | NOSTR_BECH32_NPUB \<Rightarrow> Some (apfst (map_option Bech32_npub) (parse_nostr_bech32_npub cur))
      | NOSTR_BECH32_NSEC \<Rightarrow> Some (apfst (map_option Bech32_nsec) (parse_nostr_bech32_nsec cur))
      | NOSTR_BECH32_NEVENT \<Rightarrow>
          map_option (apfst (map_option Bech32_nevent)) (parse_nostr_bech32_nevent m cur)
      | NOSTR_BECH32_NADDR \<Rightarrow>
          map_option (apfst (map_option Bech32_naddr)) (parse_nostr_bech32_naddr m cur)
      | NOSTR_BECH32_NPROFILE \<Rightarrow>
          map_option (apfst (map_option Bech32_nprofile)) (parse_nostr_bech32_nprofile m cur)
      | NOSTR_BECH32_NRELAY \<Rightarrow>
          map_option (apfst (map_option Bech32_nrelay)) (parse_nostr_bech32_nrelay m cur))"

section \<open>Identifiers in text\<close>

text \<open>
  \<open>strncmp\<close> against a literal, used as a test for equality: it reads up to and including the first
  difference.
\<close>

primrec strncmp_eq :: "u8 list \<Rightarrow> mem \<Rightarrow> ptr \<Rightarrow> bool option" where
  "strncmp_eq [] m a = Some True"
| "strncmp_eq (b # bs) m a = do {
     x \<leftarrow> load m a;
     if x \<noteq> b then Some False else strncmp_eq bs m (a + 1) }"

text \<open>The type with the length of its prefix; the inner \<open>None\<close> is the return value 0.\<close>

definition parse_nostr_bech32_type :: "mem \<Rightarrow> ptr \<Rightarrow> (nostr_bech32_type \<times> int) option option" where
  "parse_nostr_bech32_type m prefix = do {
     b \<leftarrow> strncmp_eq (str ''note'') m prefix;
     if b then Some (Some (NOSTR_BECH32_NOTE, 4)) else do {
     b \<leftarrow> strncmp_eq (str ''npub'') m prefix;
     if b then Some (Some (NOSTR_BECH32_NPUB, 4)) else do {
     b \<leftarrow> strncmp_eq (str ''nsec'') m prefix;
     if b then Some (Some (NOSTR_BECH32_NSEC, 4)) else do {
     b \<leftarrow> strncmp_eq (str ''nprofile'') m prefix;
     if b then Some (Some (NOSTR_BECH32_NPROFILE, 8)) else do {
     b \<leftarrow> strncmp_eq (str ''nevent'') m prefix;
     if b then Some (Some (NOSTR_BECH32_NEVENT, 6)) else do {
     b \<leftarrow> strncmp_eq (str ''nrelay'') m prefix;
     if b then Some (Some (NOSTR_BECH32_NRELAY, 6)) else do {
     b \<leftarrow> strncmp_eq (str ''naddr'') m prefix;
     if b then Some (Some (NOSTR_BECH32_NADDR, 5)) else Some None }}}}}}}"

definition parse_nostr_bech32_str :: "mem \<Rightarrow> cursor \<Rightarrow> (nostr_bech32_type option \<times> cursor) option" where
  "parse_nostr_bech32_str m bech32 = do {
     let start = cp bech32;
     r \<leftarrow> parse_nostr_bech32_type m (cp bech32);
     case r of
       None \<Rightarrow> Some (None, bech32\<lparr>cp := start\<rparr>)
     | Some (ty, n) \<Rightarrow> do {
         let data_start = start + n;
         (r, bech32) \<leftarrow> consume_until_non_alphanumeric m bech32 True;
         if \<not> r then Some (None, bech32\<lparr>cp := start\<rparr>)
         else if cp bech32 - data_start < 59 then Some (None, bech32\<lparr>cp := start\<rparr>)
         else Some (Some ty, bech32) } }"

text \<open>
  The whole decoder. The array \<open>prefix\<close> has \<open>MAX_PREFIX\<close> = 8 elements and the bytes the decoder
  stores there, the NUL included, must fit; the payload is written at \<open>buf\<close> whatever \<open>buflen\<close> is.
  The allocation of \<open>u5\<close> succeeds.
\<close>

definition parse_nostr_bech32 ::
  "mem \<Rightarrow> ptr \<Rightarrow> int \<Rightarrow> ptr \<Rightarrow> int \<Rightarrow> (nostr_bech32 option \<times> mem) option" where
  "parse_nostr_bech32 m buf buflen bech32_str bech32_len = do {
     let cur = make_cursor buf (buf + buflen);
     let bech32 = make_cursor bech32_str (bech32_str + bech32_len);
     let start = cp bech32;
     (ty, bech32) \<leftarrow> parse_nostr_bech32_str m bech32;
     case ty of
       None \<Rightarrow> Some (None, m)
     | Some ty \<Rightarrow>
         let parsed_len = cp bech32 - start in
         if parsed_len < 10 \<or> parsed_len > 10000 then Some (None, m)
         else do {
           text \<leftarrow> loads (nat parsed_len) m start;
           let (enc, prefix, u5) = bech32_decode_len text 8;
           if length prefix > 8 then None
           else if enc = BECH32_ENCODING_NONE then Some (None, m)
           else do {
             let (r, out) = bech32_convert_bits 8 u5 5 False;
             m \<leftarrow> stores out m (cp cur);
             if \<not> r then Some (None, m)
             else do {
               let u8 = make_cursor (cp cur) (cp cur + int (length out));
               (obj, u8) \<leftarrow> parse_nostr_bech32_buffer m u8 ty;
               Some (obj, m) } } } }"

section \<open>Decoded objects point into the buffer\<close>

definition tlv_inside :: "ptr \<Rightarrow> ptr \<Rightarrow> nostr_tlv \<Rightarrow> bool" where
  "tlv_inside a b tlv \<longleftrightarrow> a \<le> tlv_value tlv \<and> tlv_value tlv + uint (tlv_len tlv) \<le> b"

definition block_inside :: "ptr \<Rightarrow> ptr \<Rightarrow> ndb_str_block \<Rightarrow> bool" where
  "block_inside a b s \<longleftrightarrow> a \<le> sb_str s \<and> sb_str s + uint (sb_len s) \<le> b"

definition key_inside :: "ptr \<Rightarrow> ptr \<Rightarrow> ptr \<Rightarrow> bool" where
  "key_inside a b p \<longleftrightarrow> a \<le> p \<and> p + 32 \<le> b"

definition relays_inside :: "ptr \<Rightarrow> ptr \<Rightarrow> ndb_relays \<Rightarrow> bool" where
  "relays_inside a b rs \<longleftrightarrow> length rs \<le> NDB_MAX_RELAYS \<and> list_all (block_inside a b) rs"

definition nevent_inside :: "ptr \<Rightarrow> ptr \<Rightarrow> bech32_nevent \<Rightarrow> bool" where
  "nevent_inside a b e \<longleftrightarrow> relays_inside a b (ne_relays e) \<and>
     pred_option (key_inside a b) (ne_event_id e) \<and> pred_option (key_inside a b) (ne_pubkey e)"

definition naddr_inside :: "ptr \<Rightarrow> ptr \<Rightarrow> bech32_naddr \<Rightarrow> bool" where
  "naddr_inside a b e \<longleftrightarrow> relays_inside a b (na_relays e) \<and>
     pred_option (block_inside a b) (na_identifier e) \<and> pred_option (key_inside a b) (na_pubkey e)"

definition nprofile_inside :: "ptr \<Rightarrow> ptr \<Rightarrow> bech32_nprofile \<Rightarrow> bool" where
  "nprofile_inside a b e \<longleftrightarrow> relays_inside a b (np_relays e) \<and> pred_option (key_inside a b) (np_pubkey e)"

fun bech32_inside :: "ptr \<Rightarrow> ptr \<Rightarrow> nostr_bech32 \<Rightarrow> bool" where
  "bech32_inside a b (Bech32_note p) = key_inside a b p"
| "bech32_inside a b (Bech32_npub p) = key_inside a b p"
| "bech32_inside a b (Bech32_nsec p) = key_inside a b p"
| "bech32_inside a b (Bech32_nevent e) = nevent_inside a b e"
| "bech32_inside a b (Bech32_nprofile e) = nprofile_inside a b e"
| "bech32_inside a b (Bech32_naddr e) = naddr_inside a b e"
| "bech32_inside a b (Bech32_nrelay s) = block_inside a b s"

lemma pull_byte_wf:
  "wf_cursor m c \<Longrightarrow> cursor_pull_byte m c =
     Some (if cp c < cend c then (Some (the (m (cp c))), c\<lparr>cp := cp c + 1\<rparr>) else (None, c))"
  by (auto simp: cursor_pull_byte_def wf_load_p)

lemma parse_nostr_tlv_ok:
  assumes wf: "wf_cursor m c"
  shows "ok (parse_nostr_tlv m c) (\<lambda>(r, c'). moved c c' \<and> pred_option (tlv_inside (cstart c) (cend c)) r)"
proof -
  have b: "cstart c \<le> cp c" "cp c \<le> cend c" using wf_bounds[OF wf] by auto
  show ?thesis
  proof (cases "cp c < cend c")
    case True
    have "wf_cursor m (c\<lparr>cp := cp c + 1\<rparr>)" using wf b True by (intro wf_upd_p) auto
    then show ?thesis
      using wf b True by (auto simp: parse_nostr_tlv_def pull_byte_wf tlv_inside_def)
  next
    case False
    then show ?thesis using wf b by (simp add: parse_nostr_tlv_def pull_byte_wf)
  qed
qed

text \<open>
  What the loop relies on: the handler of an entry keeps an invariant of the object, given that
  the entry lies in the buffer.
\<close>

locale tlv_handler =
  fixes step :: "nostr_tlv \<Rightarrow> 'a \<Rightarrow> 'a option"
    and inv :: "ptr \<Rightarrow> ptr \<Rightarrow> 'a \<Rightarrow> bool"
  assumes step_inv: "inv a b obj \<Longrightarrow> tlv_inside a b tlv \<Longrightarrow> step tlv obj = Some obj' \<Longrightarrow> inv a b obj'"
begin

lemma tlv_loop_inv:
  "wf_cursor m c \<Longrightarrow> inv (cstart c) (cend c) obj \<Longrightarrow>
     ok (tlv_loop n step m c obj) (\<lambda>(r, c'). moved c c' \<and> pred_option (inv (cstart c) (cend c)) r)"
proof (induction n arbitrary: c obj)
  case 0
  then show ?case by (auto dest: wf_bounds)
next
  case (Suc n)
  obtain r c1 where p: "parse_nostr_tlv m c = Some (r, c1)" "moved c c1"
    "pred_option (tlv_inside (cstart c) (cend c)) r"
    using parse_nostr_tlv_ok[OF Suc.prems(1)] by (auto simp: ok_iff)
  have wf1: "wf_cursor m c1" using wf_moved[OF Suc.prems(1) p(2)] .
  have e: "cstart c1 = cstart c" "cend c1 = cend c" using p(2) by (auto simp: moved_def)
  show ?case
  proof (cases r)
    case None
    then show ?thesis using p Suc.prems by simp
  next
    case (Some tlv)
    show ?thesis
    proof (cases "step tlv obj")
      case None
      with Some p show ?thesis by simp
    next
      case s: (Some obj')
      have "inv (cstart c1) (cend c1) obj'"
        using step_inv[OF Suc.prems(2) _ s] p(3) Some e by simp
      from Suc.IH[OF wf1 this] show ?thesis
        using Some s p e by (auto simp: ok_iff dest: moved_trans)
    qed
  qed
qed

end

lemma add_relay_inside:
  "relays_inside a b rs \<Longrightarrow> tlv_inside a b tlv \<Longrightarrow> relays_inside a b (snd (add_relay rs tlv))"
  by (auto simp: add_relay_def relays_inside_def tlv_inside_def block_inside_def)

interpretation nevent: tlv_handler nevent_step nevent_inside
  by unfold_locales (auto simp: nevent_step_def nevent_inside_def add_relay_inside key_inside_def
      tlv_inside_def split: if_splits)

interpretation naddr: tlv_handler naddr_step naddr_inside
  by unfold_locales (auto simp: naddr_step_def naddr_inside_def add_relay_inside key_inside_def
      tlv_inside_def block_inside_def split: if_splits)

interpretation nprofile: tlv_handler nprofile_step nprofile_inside
  by unfold_locales (auto simp: nprofile_step_def nprofile_inside_def add_relay_inside key_inside_def
      tlv_inside_def split: if_splits)

interpretation nrelay: tlv_handler nrelay_step "\<lambda>a b. pred_option (block_inside a b)"
  by unfold_locales (auto simp: nrelay_step_def tlv_inside_def block_inside_def split: if_splits)

lemma pull_bytes_key: "wf_cursor m c \<Longrightarrow>
  (case pull_bytes c 32 of (r, c') \<Rightarrow> moved c c' \<and> pred_option (key_inside (cstart c) (cend c)) r)"
  by (auto simp: pull_bytes_def key_inside_def dest: wf_bounds)

lemma bech32_buffer_inside:
  assumes wf: "wf_cursor m c"
  shows "ok (parse_nostr_bech32_buffer m c ty)
    (\<lambda>(r, c'). moved c c' \<and> pred_option (bech32_inside (cstart c) (cend c)) r)"
proof (cases ty)
  case NOSTR_BECH32_NEVENT
  show ?thesis
    unfolding NOSTR_BECH32_NEVENT parse_nostr_bech32_buffer_def parse_nostr_bech32_nevent_def
    using nevent.tlv_loop_inv[OF wf, of "\<lparr>ne_relays = [], ne_event_id = None, ne_pubkey = None\<rparr>" 32]
    by (auto simp: ok_iff nevent_inside_def relays_inside_def split: option.splits)
next
  case NOSTR_BECH32_NADDR
  show ?thesis
    unfolding NOSTR_BECH32_NADDR parse_nostr_bech32_buffer_def parse_nostr_bech32_naddr_def
    using naddr.tlv_loop_inv[OF wf, of "\<lparr>na_relays = [], na_identifier = None, na_pubkey = None\<rparr>" 32]
    by (auto simp: ok_iff naddr_inside_def relays_inside_def split: option.splits)
next
  case NOSTR_BECH32_NPROFILE
  show ?thesis
    unfolding NOSTR_BECH32_NPROFILE parse_nostr_bech32_buffer_def parse_nostr_bech32_nprofile_def
    using nprofile.tlv_loop_inv[OF wf, of "\<lparr>np_relays = [], np_pubkey = None\<rparr>" 32]
    by (auto simp: ok_iff nprofile_inside_def relays_inside_def split: option.splits)
next
  case NOSTR_BECH32_NRELAY
  show ?thesis
    unfolding NOSTR_BECH32_NRELAY parse_nostr_bech32_buffer_def parse_nostr_bech32_nrelay_def
    using nrelay.tlv_loop_inv[OF wf, of None 32]
    by (auto simp: ok_iff option.pred_map comp_def split: option.splits)
qed (use pull_bytes_key[OF wf] in \<open>auto simp: parse_nostr_bech32_buffer_def parse_nostr_bech32_note_def
    parse_nostr_bech32_npub_def parse_nostr_bech32_nsec_def option.pred_map comp_def split: prod.splits\<close>)

text \<open>
  C8 Decoding a payload never reads outside it, whatever its bytes are, and every pointer of the
  decoded object lies in the payload: 32 bytes from an event id or key, the stated length from
  a relay or identifier, and at most 24 relays.
\<close>

theorem nostr_bech32_buffer_safe:
  assumes "wf_cursor m c"
  shows "ok (parse_nostr_bech32_buffer m c ty)
    (\<lambda>(r, c'). moved c c' \<and> pred_option (bech32_inside (cstart c) (cend c)) r)"
  using assms by (rule bech32_buffer_inside)

theorem nostr_bech32_buffer_safe_witness:
  "ok (parse_nostr_bech32_buffer (mem_of 0 [0, 2, 7, 8, 1, 200]) (make_cursor 0 6) NOSTR_BECH32_NADDR)
    (\<lambda>(r, c'). moved (make_cursor 0 6) c' \<and> pred_option (bech32_inside 0 6) r)"
proof -
  have "wf_cursor (mem_of 0 [0, 2, 7, 8, 1, 200]) (make_cursor 0 6)"
    by (simp add: wf_make_cursor valid_mem_of)
  from nostr_bech32_buffer_safe[OF this, of NOSTR_BECH32_NADDR] show ?thesis by (simp add: make_cursor_def)
qed

section \<open>Entries are read back\<close>

text \<open>The serialised form of an entry, and the effect of a handler on a sequence of entries.\<close>

definition enc_tlv :: "u8 \<times> u8 list \<Rightarrow> u8 list" where
  "enc_tlv t = fst t # word_of_nat (length (snd t)) # snd t"

definition tlv_ok :: "u8 \<times> u8 list \<Rightarrow> bool" where
  "tlv_ok t \<longleftrightarrow> fst t < 4 \<and> length (snd t) < 256"

primrec fold_tlvs :: "(nostr_tlv \<Rightarrow> 'a \<Rightarrow> 'a option) \<Rightarrow> (u8 \<times> u8 list) list \<Rightarrow> ptr \<Rightarrow> 'a \<Rightarrow> 'a option" where
  "fold_tlvs step [] a obj = Some obj"
| "fold_tlvs step (t # ts) a obj = do {
     obj \<leftarrow> step \<lparr>tlv_type = fst t, tlv_len = word_of_nat (length (snd t)), tlv_value = a + 2\<rparr> obj;
     fold_tlvs step ts (a + 2 + int (length (snd t))) obj }"

lemma parse_nostr_tlv_enc:
  assumes wf: "wf_cursor m c" and t: "tlv_ok t" and fits: "cp c + int (length (enc_tlv t)) \<le> cend c"
    and bytes: "getb m (cp c) (length (enc_tlv t)) = enc_tlv t"
  shows "parse_nostr_tlv m c = Some (Some \<lparr>tlv_type = fst t, tlv_len = word_of_nat (length (snd t)), tlv_value = cp c + 2\<rparr>,
    c\<lparr>cp := cp c + int (length (enc_tlv t))\<rparr>)"
proof -
  have u: "uint (word_of_nat (length (snd t)) :: u8) = int (length (snd t))"
    using t by (simp add: tlv_ok_def unsigned_of_nat take_bit_nat_eq_self)
  have b: "the (m (cp c)) = fst t" "the (m (cp c + 1)) = word_of_nat (length (snd t))"
    using bytes by (simp_all add: enc_tlv_def getb_Suc)
  have wf1: "wf_cursor m (c\<lparr>cp := cp c + 1\<rparr>)"
    using wf wf_bounds[OF wf] fits by (intro wf_upd_p) (auto simp: enc_tlv_def)
  show ?thesis
    using wf wf1 t fits b u
    by (simp add: parse_nostr_tlv_def pull_byte_wf enc_tlv_def tlv_ok_def add.assoc flip: not_less)
qed

lemma tlv_loop_entries:
  "wf_cursor m c \<Longrightarrow> list_all tlv_ok ts \<Longrightarrow> length ts \<le> n \<Longrightarrow>
     cend c = cp c + int (length (concat (map enc_tlv ts))) \<Longrightarrow>
     getb m (cp c) (length (concat (map enc_tlv ts))) = concat (map enc_tlv ts) \<Longrightarrow>
     ok (tlv_loop n step m c obj) (\<lambda>(r, c'). r = fold_tlvs step ts (cp c) obj)"
proof (induction ts arbitrary: c obj n)
  case Nil
  then show ?case by (cases n) (simp_all add: parse_nostr_tlv_def pull_byte_wf)
next
  case (Cons t ts)
  then obtain n' where n: "n = Suc n'" by (cases n) auto
  let ?c = "c\<lparr>cp := cp c + int (length (enc_tlv t))\<rparr>"
  have "getb m (cp c) (length (enc_tlv t) + length (concat (map enc_tlv ts))) = enc_tlv t @ concat (map enc_tlv ts)"
    using Cons.prems(5) by simp
  then have g: "getb m (cp c) (length (enc_tlv t)) = enc_tlv t"
    "getb m (cp ?c) (length (concat (map enc_tlv ts))) = concat (map enc_tlv ts)"
    by (simp_all add: getb_append)
  have p: "parse_nostr_tlv m c = Some (Some \<lparr>tlv_type = fst t, tlv_len = word_of_nat (length (snd t)), tlv_value = cp c + 2\<rparr>, ?c)"
    using Cons.prems g(1) by (intro parse_nostr_tlv_enc) auto
  have wf: "wf_cursor m ?c" using Cons.prems by (intro wf_upd_p) (auto dest: wf_bounds)
  have IH: "ok (tlv_loop n' step m ?c obj') (\<lambda>(r, c'). r = fold_tlvs step ts (cp ?c) obj')" for obj'
    using Cons.prems n g(2) by (intro Cons.IH[OF wf]) simp_all
  have e: "cp ?c = cp c + 2 + int (length (snd t))" by (simp add: enc_tlv_def)
  show ?case
    using p IH by (cases "step \<lparr>tlv_type = fst t, tlv_len = word_of_nat (length (snd t)), tlv_value = cp c + 2\<rparr> obj")
      (simp_all add: n e)
qed

text \<open>A block of relay entries is appended to the relays, at the addresses of the entries.\<close>

primrec relay_blocks :: "u8 list list \<Rightarrow> ptr \<Rightarrow> ndb_relays" where
  "relay_blocks [] a = []"
| "relay_blocks (r # rs) a = \<lparr>sb_str = a + 2, sb_len = word_of_nat (length r)\<rparr> # relay_blocks rs (a + 2 + int (length r))"

lemma length_relay_blocks [simp]: "length (relay_blocks rs a) = length rs"
  by (induction rs arbitrary: a) simp_all

lemma fold_nevent_relays:
  "length (ne_relays e) + length rs \<le> NDB_MAX_RELAYS \<Longrightarrow> \<forall>r\<in>set rs. length r < 256 \<Longrightarrow>
   fold_tlvs nevent_step (map (Pair 1) rs @ ts) a e =
     fold_tlvs nevent_step ts (a + int (length (concat (map (\<lambda>r. enc_tlv (1, r)) rs))))
       (e\<lparr>ne_relays := ne_relays e @ relay_blocks rs a\<rparr>)"
proof (induction rs arbitrary: a e)
  case Nil
  then show ?case by simp
next
  case (Cons r rs)
  have u: "(ucast (word_of_nat (length r) :: u8) :: u32) = word_of_nat (length r)"
    using Cons.prems(2) by (intro word_uint_eqI) (simp add: unsigned_of_nat take_bit_nat_eq_self)
  show ?case
    using Cons.IH[of "e\<lparr>ne_relays := ne_relays e @ [\<lparr>sb_str = a + 2, sb_len = word_of_nat (length r)\<rparr>]\<rparr>"
        "a + 2 + int (length r)"] Cons.prems u
    by (simp add: nevent_step_def add_relay_def enc_tlv_def algebra_simps)
qed

definition block_bytes :: "mem \<Rightarrow> ndb_str_block \<Rightarrow> u8 list" where
  "block_bytes m s = getb m (sb_str s) (unat (sb_len s))"

lemma getb_segment: "getb m a (length (xs @ ys)) = xs @ ys \<Longrightarrow>
  getb m a (length xs) = xs \<and> getb m (a + int (length xs)) (length ys) = ys"
  by (simp add: getb_append)

lemma getb_tlv:
  "getb m a (length (enc_tlv t)) = enc_tlv t \<Longrightarrow> getb m (a + 2) (length (snd t)) = snd t"
  by (simp add: enc_tlv_def getb_Suc add.commute)

lemma relay_blocks_bytes:
  "\<forall>r\<in>set rs. length r < 256 \<Longrightarrow>
   getb m a (length (concat (map (\<lambda>r. enc_tlv (1, r)) rs))) = concat (map (\<lambda>r. enc_tlv (1, r)) rs) \<Longrightarrow>
   map (block_bytes m) (relay_blocks rs a) = rs"
proof (induction rs arbitrary: a)
  case Nil
  then show ?case by simp
next
  case (Cons r rs)
  let ?rest = "concat (map (\<lambda>r. enc_tlv (1, r)) rs)"
  have s: "getb m a (length (enc_tlv (1, r))) = enc_tlv (1, r)"
    "getb m (a + int (length (enc_tlv (1, r)))) (length ?rest) = ?rest"
    using getb_segment[of m a "enc_tlv (1, r)" ?rest] Cons.prems(2) by simp_all
  have "getb m (a + 2) (length r) = r" using getb_tlv[OF s(1)] by simp
  moreover have "unat (word_of_nat (length r) :: u32) = length r"
    using Cons.prems(1) by (simp add: unsigned_of_nat take_bit_nat_eq_self)
  ultimately show ?case
    using Cons.IH[of "a + 2 + int (length r)"] Cons.prems(1) s(2)
    by (simp add: block_bytes_def enc_tlv_def algebra_simps)
qed



section \<open>Identifiers from text to object\<close>

fun nostr_prefix :: "nostr_bech32_type \<Rightarrow> u8 list" where
  "nostr_prefix NOSTR_BECH32_NOTE = str ''note''"
| "nostr_prefix NOSTR_BECH32_NPUB = str ''npub''"
| "nostr_prefix NOSTR_BECH32_NSEC = str ''nsec''"
| "nostr_prefix NOSTR_BECH32_NPROFILE = str ''nprofile''"
| "nostr_prefix NOSTR_BECH32_NEVENT = str ''nevent''"
| "nostr_prefix NOSTR_BECH32_NRELAY = str ''nrelay''"
| "nostr_prefix NOSTR_BECH32_NADDR = str ''naddr''"

lemma strncmp_eq_valid:
  "valid m a (int (length s)) \<Longrightarrow> strncmp_eq s m a = Some (getb m a (length s) = s)"
proof (induction s arbitrary: a)
  case Nil
  then show ?case by simp
next
  case (Cons b s)
  then have "m a \<noteq> None" "valid m (a + 1) (int (length s))"
    using valid_Suc[of m a "length s"] by simp_all
  with Cons.IH show ?case by (auto simp: load_def getb_Suc)
qed

text \<open>A comparison that fails before the end of the known bytes reads no further.\<close>

lemma strncmp_eq_append:
  "strncmp_eq (s @ t) m a = do { b \<leftarrow> strncmp_eq s m a; if b then strncmp_eq t m (a + int (length s)) else Some False }"
  by (induction s arbitrary: a) (auto simp: algebra_simps split: Option.bind_splits)

lemma parse_type_prefix:
  assumes v: "valid m a (int (length (nostr_prefix ty)))"
    and g: "getb m a (length (nostr_prefix ty)) = nostr_prefix ty"
  shows "parse_nostr_bech32_type m a = Some (Some (ty, int (length (nostr_prefix ty))))"
proof -
  let ?k = "length (nostr_prefix ty)"
  have l: "load m (a + int i) = Some (nostr_prefix ty ! i)" if "i < ?k" for i
    using valid_load[OF v, of "a + int i"] nth_getb[of i ?k m a] that g by auto
  then have l0: "0 < ?k \<Longrightarrow> load m a = Some (nostr_prefix ty ! 0)"
    and ln: "numeral i < ?k \<Longrightarrow> load m (numeral i + a) = Some (nostr_prefix ty ! numeral i)" 
    and l1: "1 < ?k \<Longrightarrow> load m (a + 1) = Some (nostr_prefix ty ! 1)" for i
    using l[of 0] l[of "numeral i"] l[of 1] by (simp_all add: add.commute)
  show ?thesis
    using l0 l1 ln[of "num.Bit0 num.One"] ln[of "num.Bit1 num.One"] ln[of "num.Bit0 (num.Bit0 num.One)"]
      ln[of "num.Bit1 (num.Bit0 num.One)"] ln[of "num.Bit0 (num.Bit1 num.One)"] ln[of "num.Bit1 (num.Bit1 num.One)"]
    by (cases ty) (simp_all add: str_def parse_nostr_bech32_type_def)
qed

lemma alnum_charset: "list_all (\<lambda>x. is_alphanumeric (uint x)) bech32_charset"
  by (simp add: bech32_charset_def str_def is_alphanumeric_def to_char_def)

lemma alnum_prefix: "list_all (\<lambda>x. is_alphanumeric (uint x)) (nostr_prefix ty)"
  by (cases ty) (simp_all add: str_def is_alphanumeric_def to_char_def)

lemma length_charset: "length bech32_charset = 32"
  by (simp add: bech32_charset_def str_def)

lemma encoded_text:
  assumes "bech32_encode (nostr_prefix ty) data max_len enc = Some out"
  shows "list_all (\<lambda>x. is_alphanumeric (uint x)) out" "length out = length (nostr_prefix ty) + 7 + length data"
    "take (length (nostr_prefix ty)) out = nostr_prefix ty" "enc \<noteq> BECH32_ENCODING_NONE"
proof -
  obtain w final where o: "out = nostr_prefix ty @ [49] @ map (\<lambda>d. bech32_charset ! unat d) data @ checksum_chars w"
    and d: "\<forall>d\<in>set data. unat d < 32" and f: "bech32_final_constant enc = Some final"
    using bech32_encode_out[OF assms] by metis
  have c: "is_alphanumeric (uint (bech32_charset ! i))" if "i < 32" for i
    using alnum_charset that length_charset by (auto simp: list_all_length)
  have 1: "list_all (\<lambda>x. is_alphanumeric (uint x)) (map (\<lambda>d. bech32_charset ! unat d) data)"
    using d c by (simp add: list_all_iff)
  have g: "unat (drop_bit k w AND 0x1f) < 32" for k
    using word_and_le1[of "drop_bit k w" "0x1f"] by (simp add: word_le_nat_alt)
  have 2: "list_all (\<lambda>x. is_alphanumeric (uint x)) (checksum_chars w)"
    unfolding checksum_chars_def list_all_iff using c[OF g] by auto
  show "list_all (\<lambda>x. is_alphanumeric (uint x)) out"
    unfolding o list_all_append using alnum_prefix 1 2 by (simp add: is_alphanumeric_def to_char_def)
  show "length out = length (nostr_prefix ty) + 7 + length data" by (simp add: o checksum_chars_def)
  show "take (length (nostr_prefix ty)) out = nostr_prefix ty" by (simp add: o)
  show "enc \<noteq> BECH32_ENCODING_NONE" using f by auto
qed

lemma parse_str_encoded:
  assumes enc: "bech32_encode (nostr_prefix ty) data max_len enc = Some out" and len: "52 \<le> length data"
    and m: "valid m s (int (length out))" "getb m s (length out) = out"
  shows "parse_nostr_bech32_str m (make_cursor s (s + int (length out))) =
    Some (Some ty, (make_cursor s (s + int (length out)))\<lparr>cp := s + int (length out)\<rparr>)"
proof -
  let ?c = "make_cursor s (s + int (length out))" and ?n = "length (nostr_prefix ty)"
  note t = encoded_text[OF enc]
  have wf: "wf_cursor m ?c" using m(1) by (simp add: wf_make_cursor)
  have "getb m s (?n + (length out - ?n)) = out" using m(2) t(2) le_add_diff_inverse[of ?n "length out"] by (simp only:)
  then have "getb m s ?n = nostr_prefix ty" using t(3) by (simp add: getb_append) (metis append_eq_conv_conj length_getb)
  moreover have "valid m s (int ?n)" using m(1) t(2) by (intro valid_sub[OF m(1)]) simp_all
  ultimately have p: "parse_nostr_bech32_type m s = Some (Some (ty, int ?n))" by (rule parse_type_prefix[rotated])
  have al: "is_alphanumeric (uint (the (m i)))" if "s \<le> i" "i < s + int (length out)" for i
  proof -
    have "out ! nat (i - s) = the (m i)"
      using that nth_getb[of "nat (i - s)" "length out" m s] m(2) by simp
    moreover have "nat (i - s) < length out" using that by linarith
    ultimately show ?thesis using t(1) by (auto simp: list_all_length)
  qed
  obtain r c' where r: "consume_until_non_alphanumeric m ?c True = Some (r, c')" "moved ?c c'"
    "if cp c' < cend ?c then \<not> is_alphanumeric (uint (the (m (cp c')))) \<and> r = (cp ?c < cp c') else r = True"
    using consume_loop_spec[OF wf, of "\<lambda>c. \<not> is_alphanumeric c" True False]
    by (auto simp: ok_iff consume_until_non_alphanumeric_def)
  have e: "cp c' = s + int (length out)"
    using r al[of "cp c'"] by (auto simp: moved_def make_cursor_def split: if_splits)
  then have c': "c' = ?c\<lparr>cp := s + int (length out)\<rparr>" using r(2) by (auto simp: moved_def)
  show ?thesis
    using p r e c' t(2) len by (simp add: parse_nostr_bech32_str_def make_cursor_def)
qed

text \<open>
  C24 Parsing any well-formed profile identifier writes outside the local array \<open>prefix\<close>: the
  array has eight elements, and the prefix \<open>nprofile\<close> with its NUL needs nine.
\<close>

theorem nprofile_prefix_overflow:
  assumes enc: "bech32_encode (nostr_prefix NOSTR_BECH32_NPROFILE) data max_len enc = Some out"
    and len: "52 \<le> length data" "length data \<le> 9000"
    and m: "valid m s (int (length out))" "getb m s (length out) = out"
  shows "parse_nostr_bech32 m buf buflen s (int (length out)) = None"
proof -
  have "bech32_decode_len out 8 = (enc, nostr_prefix NOSTR_BECH32_NPROFILE @ [0], data)"
    by (rule decode_of_encode[OF enc]) (simp_all add: str_def)
  moreover have "loads (length out) m s = Some out" using loads_valid[OF m(1)] m(2) by simp
  moreover have "10 \<le> length out" "length out \<le> 10000"
    using encoded_text(2)[OF enc] len by (simp_all add: str_def)
  ultimately show ?thesis
    using parse_str_encoded[OF enc len(1) m]
    by (simp add: parse_nostr_bech32_def Let_def make_cursor_def str_def)
qed

fun key_object :: "nostr_bech32_type \<Rightarrow> ptr \<Rightarrow> nostr_bech32" where
  "key_object NOSTR_BECH32_NOTE p = Bech32_note p"
| "key_object NOSTR_BECH32_NPUB p = Bech32_npub p"
| "key_object _ p = Bech32_nsec p"

lemma length_key_groups:
  assumes "length key = 32" and "bech32_convert_bits 5 key 8 True = (True, data)"
  shows "length data = 52"
proof -
  obtain gs p where g: "bech32_convert_bits 5 key 8 True = (True, gs)" "p < 5"
    "bit_stream 5 gs = bit_stream 8 key @ replicate p False"
    using convert_bits_pad_spec[of key] by metis
  from arg_cong[OF g(3), of length] assms g(1,2) show ?thesis by simp
qed

text \<open>
  C3 From text to key: for every 32-byte key, the \<open>note\<close>, \<open>npub\<close> or \<open>nsec\<close> identifier that encodes
  it is parsed, without undefined behaviour, to an object of that type which points at the
  start of the output buffer, and the buffer then holds exactly that key.
\<close>

theorem nostr_key_roundtrip:
  assumes ty: "ty \<in> {NOSTR_BECH32_NOTE, NOSTR_BECH32_NPUB, NOSTR_BECH32_NSEC}" and key: "length key = 32"
    and groups: "bech32_convert_bits 5 key 8 True = (True, data)"
    and enc: "bech32_encode (nostr_prefix ty) data max_len enc = Some out"
    and m: "valid m s (int (length out))" "getb m s (length out) = out" and buf: "valid m buf 32"
  shows "ok (parse_nostr_bech32 m buf buflen s (int (length out)))
    (\<lambda>(r, m'). r = Some (key_object ty buf) \<and> getb m' buf 32 = key)"
proof -
  note len = length_key_groups[OF key groups]
  obtain gs p where g: "bech32_convert_bits 5 key 8 True = (True, gs)" "\<forall>g\<in>set gs. unat g < 32" "p < 5"
    "bit_stream 5 gs = bit_stream 8 key @ replicate p False"
    using convert_bits_pad_spec[of key] by metis
  then have c: "bech32_convert_bits 8 data 5 False = (True, key)"
    using convert_bits_unpad_spec[of gs key p] groups by simp
  have d: "bech32_decode_len out 8 = (enc, nostr_prefix ty @ [0], data)"
    by (rule decode_of_encode[OF enc]) (use ty in \<open>auto simp: str_def\<close>)
  have l: "loads (length out) m s = Some out" using loads_valid[OF m(1)] m(2) by simp
  have n: "length (nostr_prefix ty) = 4" using ty by (auto simp: str_def)
  have st: "stores key m buf = Some (putb m buf key)" using stores_valid[of m buf key] buf key by simp
  have b: "parse_nostr_bech32_buffer m' (make_cursor buf (buf + 32)) ty =
      Some (Some (key_object ty buf), (make_cursor buf (buf + 32))\<lparr>cp := buf + 32\<rparr>)" for m'
    using ty by (auto simp: parse_nostr_bech32_buffer_def parse_nostr_bech32_note_def
        parse_nostr_bech32_npub_def parse_nostr_bech32_nsec_def pull_bytes_def make_cursor_def)
  have lo: "10 \<le> length out" "length out \<le> 10000"
    using encoded_text(2)[OF enc] len n by simp_all
  have "parse_nostr_bech32 m buf buflen s (int (length out)) = Some (Some (key_object ty buf), putb m buf key)"
    unfolding parse_nostr_bech32_def Let_def
    using parse_str_encoded[OF enc _ m] len encoded_text(4)[OF enc] l d c n lo st key b
    by (simp add: make_cursor_def)
  then show ?thesis using key getb_putb_same[of m buf key] by simp
qed

lemma encoded_example:
  fixes key :: "u8 list"
  assumes enc: "enc \<noteq> BECH32_ENCODING_NONE" and len: "17 + 2 * length key \<le> max_len"
  obtains data out where "bech32_convert_bits 5 key 8 True = (True, data)" "8 * length key \<le> 5 * length data"
    "length data \<le> 1 + 2 * length key" "bech32_encode (nostr_prefix ty) data max_len enc = Some out"
proof -
  obtain gs p where g: "bech32_convert_bits 5 key 8 True = (True, gs)" "\<forall>g\<in>set gs. unat g < 32" "p < 5"
    "bit_stream 5 gs = bit_stream 8 key @ replicate p False"
    using convert_bits_pad_spec[of key] by metis
  have l: "5 * length gs = 8 * length key + p" using arg_cong[OF g(4), of length] by simp
  have "\<exists>chk. encode_hrp_high (nostr_prefix ty) 1 = Some chk" by (cases ty) (simp_all add: str_def Let_def)
  moreover have "\<exists>final. bech32_final_constant enc = Some final" using enc by (cases enc) simp_all
  moreover have "length (nostr_prefix ty) \<le> 8" by (cases ty) (simp_all add: str_def)
  ultimately obtain out where "bech32_encode (nostr_prefix ty) gs max_len enc = Some out"
    using g(2,3) l len by (auto simp: bech32_encode_def encode_data_eq Let_def bind_eq_Some)
  with g l show ?thesis by (intro that[of gs out]) simp_all
qed

theorem nostr_key_roundtrip_witness:
  "\<exists>m n. ok (parse_nostr_bech32 m 1000 32 0 n)
     (\<lambda>(r, m'). r = Some (Bech32_npub 1000) \<and> getb m' 1000 32 = replicate 32 7)"
proof -
  obtain data out where e: "bech32_convert_bits 5 (replicate 32 7) 8 True = (True, data)"
    "bech32_encode (nostr_prefix NOSTR_BECH32_NPUB) data 90 BECH32_ENCODING_BECH32 = Some out"
    by (rule encoded_example[where key = "replicate 32 7" and ty = NOSTR_BECH32_NPUB
          and max_len = 90 and enc = BECH32_ENCODING_BECH32]) simp_all
  let ?m = "putb (mem_of 1000 (replicate 32 0)) 0 out"
  have "ok (parse_nostr_bech32 ?m 1000 32 0 (int (length out)))
      (\<lambda>(r, m'). r = Some (key_object NOSTR_BECH32_NPUB 1000) \<and> getb m' 1000 32 = replicate 32 7)"
  proof (rule nostr_key_roundtrip[OF _ _ e])
    show "valid ?m 0 (int (length out))" by (simp add: valid_def putb_def)
    show "valid ?m 1000 32" by (intro valid_putb valid_mem_of) simp_all
  qed simp_all
  then show ?thesis by auto
qed

theorem nprofile_prefix_overflow_witness:
  "\<exists>m n. valid m 0 n \<and> parse_nostr_bech32 m 1000 64 0 n = None"
proof -
  obtain data out where d: "8 * 34 \<le> 5 * length data" "length data \<le> 1 + 2 * 34" and e: "bech32_encode (nostr_prefix NOSTR_BECH32_NPROFILE) data 5000 BECH32_ENCODING_BECH32 = Some out"
    by (rule encoded_example[where key = "0 # 32 # replicate 32 7" and ty = NOSTR_BECH32_NPROFILE
          and max_len = 5000 and enc = BECH32_ENCODING_BECH32]) simp_all
  have l: "52 \<le> length data" "length data \<le> 9000" using d by simp_all
  have v: "valid (mem_of 0 out) 0 (int (length out))" by (rule valid_mem_of) simp_all
  have "parse_nostr_bech32 (mem_of 0 out) 1000 64 0 (int (length out)) = None"
    by (rule nprofile_prefix_overflow[OF e]) (use l v in \<open>simp_all add: mem_of_def\<close>)
  with v show ?thesis by blast
qed

end
