(* ===== verification/Blocks.thy ===== *)
theory Blocks
  imports Varint Nostr_Bech32
begin

text \<open>
  The encoded form of parsed note content, \<open>src/src/block.c\<close> and \<open>src/src/invoice.c\<close>: blocks are
  stored one after the other as varints, with text given as an offset into the content and a
  length. This theory has the readers, the two encoders shared with the content parser, and
  the iterator that clients use.
\<close>

section \<open>Blocks\<close>

datatype ndb_block_type =
  BLOCK_HASHTAG | BLOCK_TEXT | BLOCK_MENTION_INDEX | BLOCK_MENTION_BECH32 | BLOCK_URL | BLOCK_INVOICE

text \<open>The values of the enumeration; there are \<open>NDB_NUM_BLOCK_TYPES\<close> = 6 of them.\<close>

fun block_type_val :: "ndb_block_type \<Rightarrow> u64" where
  "block_type_val BLOCK_HASHTAG = 1"
| "block_type_val BLOCK_TEXT = 2"
| "block_type_val BLOCK_MENTION_INDEX = 3"
| "block_type_val BLOCK_MENTION_BECH32 = 4"
| "block_type_val BLOCK_URL = 5"
| "block_type_val BLOCK_INVOICE = 6"

definition block_type_of :: "u32 \<Rightarrow> ndb_block_type option" where
  "block_type_of i =
     (if i = 1 then Some BLOCK_HASHTAG else if i = 2 then Some BLOCK_TEXT
      else if i = 3 then Some BLOCK_MENTION_INDEX else if i = 4 then Some BLOCK_MENTION_BECH32
      else if i = 5 then Some BLOCK_URL else if i = 6 then Some BLOCK_INVOICE else None)"

fun bech32_type_val :: "nostr_bech32_type \<Rightarrow> u64" where
  "bech32_type_val NOSTR_BECH32_NOTE = 1"
| "bech32_type_val NOSTR_BECH32_NPUB = 2"
| "bech32_type_val NOSTR_BECH32_NPROFILE = 3"
| "bech32_type_val NOSTR_BECH32_NEVENT = 4"
| "bech32_type_val NOSTR_BECH32_NRELAY = 5"
| "bech32_type_val NOSTR_BECH32_NADDR = 6"
| "bech32_type_val NOSTR_BECH32_NSEC = 7"

definition bech32_type_of :: "u64 \<Rightarrow> nostr_bech32_type option" where
  "bech32_type_of i =
     (if i = 1 then Some NOSTR_BECH32_NOTE else if i = 2 then Some NOSTR_BECH32_NPUB
      else if i = 3 then Some NOSTR_BECH32_NPROFILE else if i = 4 then Some NOSTR_BECH32_NEVENT
      else if i = 5 then Some NOSTR_BECH32_NRELAY else if i = 6 then Some NOSTR_BECH32_NADDR
      else if i = 7 then Some NOSTR_BECH32_NSEC else None)"

text \<open>
  A decoded invoice; of the two description pointers only the one the encoding has is set,
  the other keeps its previous value in the code and is \<open>None\<close> here.
\<close>

record ndb_invoice =
  inv_version :: u8
  inv_amount :: u64
  inv_timestamp :: u64
  inv_expiry :: u64
  inv_description :: "ptr option"
  inv_description_hash :: "ptr option"

text \<open>The tagged union of a block; a bech32 mention and an invoice carry their text as well.\<close>

datatype ndb_block =
  Block_hashtag ndb_str_block
| Block_text ndb_str_block
| Block_url ndb_str_block
| Block_mention_index u32
| Block_mention_bech32 ndb_str_block nostr_bech32
| Block_invoice ndb_str_block ndb_invoice

text \<open>The fields of a decoded BOLT-11 invoice the encoder reads; \<open>None\<close> is \<open>NULL\<close>.\<close>

record bolt11 =
  b11_msat :: "u64 option"
  b11_timestamp :: u64
  b11_expiry :: u64
  b11_description :: "u8 list option"
  b11_description_hash :: "u8 list option"

section \<open>Text references\<close>

definition push_str_block :: "mem \<Rightarrow> cursor \<Rightarrow> ptr \<Rightarrow> ndb_str_block \<Rightarrow> (bool \<times> mem \<times> cursor) option" where
  "push_str_block m buf content block = do {
     (r, m, buf) \<leftarrow> cursor_push_varint m buf (word_of_int (sb_str block - content));
     if r = 0 then Some (False, m, buf)
     else do {
       (r, m, buf) \<leftarrow> cursor_push_varint m buf (ucast (sb_len block));
       Some (r \<noteq> 0, m, buf) } }"

definition pull_str_block :: "ptr \<Rightarrow> mem \<Rightarrow> cursor \<Rightarrow> (ndb_str_block option \<times> cursor) option" where
  "pull_str_block content m buf = do {
     (start, buf) \<leftarrow> cursor_pull_varint_u32 m buf;
     case start of
       None \<Rightarrow> Some (None, buf)
     | Some start \<Rightarrow> do {
         (len, buf) \<leftarrow> cursor_pull_varint_u32 m buf;
         Some (map_option (\<lambda>len. \<lparr>sb_str = content + uint start, sb_len = len\<rparr>) len, buf) } }"

section \<open>Invoices\<close>

definition ndb_encode_invoice :: "mem \<Rightarrow> cursor \<Rightarrow> bolt11 \<Rightarrow> (bool \<times> mem \<times> cursor) option" where
  "ndb_encode_invoice m cur invoice =
     (if b11_description invoice = None \<and> b11_description_hash invoice = None then Some (False, m, cur)
      else do {
     (r, m, cur) \<leftarrow> cursor_push_byte m cur 1;
     if \<not> r then Some (False, m, cur) else do {
     (r, m, cur) \<leftarrow> cursor_push_varint m cur (case b11_msat invoice of None \<Rightarrow> 0 | Some x \<Rightarrow> x);
     if r = 0 then Some (False, m, cur) else do {
     (r, m, cur) \<leftarrow> cursor_push_varint m cur (b11_timestamp invoice);
     if r = 0 then Some (False, m, cur) else do {
     (r, m, cur) \<leftarrow> cursor_push_varint m cur (b11_expiry invoice);
     if r = 0 then Some (False, m, cur) else
     (case b11_description invoice of
        Some d \<Rightarrow> do {
          (r, m, cur) \<leftarrow> cursor_push_byte m cur 1;
          if \<not> r then Some (False, m, cur) else cursor_push_c_str m cur (Some d) }
      | None \<Rightarrow> do {
          (r, m, cur) \<leftarrow> cursor_push_byte m cur 2;
          if \<not> r then Some (False, m, cur)
          else cursor_push m cur (take 32 (the (b11_description_hash invoice))) }) }}}})"

definition ndb_decode_invoice :: "mem \<Rightarrow> cursor \<Rightarrow> (ndb_invoice option \<times> cursor) option" where
  "ndb_decode_invoice m cur = do {
     (version, cur) \<leftarrow> cursor_pull_byte m cur;
     case version of None \<Rightarrow> Some (None, cur) | Some version \<Rightarrow> do {
     (r, amount, cur) \<leftarrow> cursor_pull_varint m cur;
     if r = 0 then Some (None, cur) else do {
     (r, timestamp, cur) \<leftarrow> cursor_pull_varint m cur;
     if r = 0 then Some (None, cur) else do {
     (r, expiry, cur) \<leftarrow> cursor_pull_varint m cur;
     if r = 0 then Some (None, cur) else do {
     (desc_type, cur) \<leftarrow> cursor_pull_byte m cur;
     case desc_type of None \<Rightarrow> Some (None, cur) | Some desc_type \<Rightarrow>
     (let inv = \<lparr>inv_version = version, inv_amount = amount, inv_timestamp = timestamp,
                 inv_expiry = expiry, inv_description = None, inv_description_hash = None\<rparr> in
      if desc_type = 1 then do {
        (d, cur) \<leftarrow> cursor_pull_c_str m cur;
        Some (map_option (\<lambda>d. inv\<lparr>inv_description := Some d\<rparr>) d, cur) }
      else if desc_type = 2 then
        (let inv = inv\<lparr>inv_description_hash := Some (cp cur)\<rparr>;
             (r, cur) = cursor_skip cur 32
         in Some (if r then Some inv else None, cur))
      else Some (None, cur)) }}}}}"

section \<open>Reading a block\<close>

definition pull_nostr_bech32_type :: "mem \<Rightarrow> cursor \<Rightarrow> (nostr_bech32_type option \<times> cursor) option" where
  "pull_nostr_bech32_type m cur = do {
     (r, inttype, cur) \<leftarrow> cursor_pull_varint m cur;
     if r = 0 then Some (None, cur) else Some (bech32_type_of inttype, cur) }"

text \<open>The payload cursor is \<open>size\<close> bytes long, also where that passes the end of the blocks.\<close>

definition pull_bech32_mention ::
  "ptr \<Rightarrow> mem \<Rightarrow> cursor \<Rightarrow> ((ndb_str_block \<times> nostr_bech32) option \<times> cursor) option" where
  "pull_bech32_mention content m cur = do {
     (s, cur) \<leftarrow> pull_str_block content m cur;
     case s of None \<Rightarrow> Some (None, cur) | Some s \<Rightarrow> do {
     (sz, cur) \<leftarrow> cursor_pull_u16 m cur;
     case sz of None \<Rightarrow> Some (None, cur) | Some sz \<Rightarrow> do {
     (ty, cur) \<leftarrow> pull_nostr_bech32_type m cur;
     case ty of None \<Rightarrow> Some (None, cur) | Some ty \<Rightarrow> do {
     let bech32 = make_cursor (cp cur) (cp cur + uint sz);
     let start = cp cur;
     (obj, bech32) \<leftarrow> parse_nostr_bech32_buffer m bech32 ty;
     case obj of None \<Rightarrow> Some (None, cur)
     | Some obj \<Rightarrow> Some (Some (s, obj), cur\<lparr>cp := start + uint sz\<rparr>) }}}}"

definition pull_invoice ::
  "ptr \<Rightarrow> mem \<Rightarrow> cursor \<Rightarrow> ((ndb_str_block \<times> ndb_invoice) option \<times> cursor) option" where
  "pull_invoice content m cur = do {
     (s, cur) \<leftarrow> pull_str_block content m cur;
     case s of None \<Rightarrow> Some (None, cur) | Some s \<Rightarrow> do {
     (inv, cur) \<leftarrow> ndb_decode_invoice m cur;
     Some (map_option (Pair s) inv, cur) }}"

definition pull_block_type :: "mem \<Rightarrow> cursor \<Rightarrow> (ndb_block_type option \<times> cursor) option" where
  "pull_block_type m cur = do {
     (itype, cur) \<leftarrow> cursor_pull_varint_u32 m cur;
     case itype of None \<Rightarrow> Some (None, cur) | Some itype \<Rightarrow> Some (block_type_of itype, cur) }"

text \<open>A failure after the tag goes back to the start of the block.\<close>

definition pull_block :: "ptr \<Rightarrow> mem \<Rightarrow> cursor \<Rightarrow> (ndb_block option \<times> cursor) option" where
  "pull_block content m cur = do {
     let start = cp cur;
     (ty, cur) \<leftarrow> pull_block_type m cur;
     case ty of None \<Rightarrow> Some (None, cur) | Some ty \<Rightarrow> do {
     (b, cur) \<leftarrow>
       (case ty of
          BLOCK_HASHTAG \<Rightarrow> map_option (apfst (map_option Block_hashtag)) (pull_str_block content m cur)
        | BLOCK_TEXT \<Rightarrow> map_option (apfst (map_option Block_text)) (pull_str_block content m cur)
        | BLOCK_URL \<Rightarrow> map_option (apfst (map_option Block_url)) (pull_str_block content m cur)
        | BLOCK_MENTION_INDEX \<Rightarrow>
            map_option (apfst (map_option Block_mention_index)) (cursor_pull_varint_u32 m cur)
        | BLOCK_MENTION_BECH32 \<Rightarrow>
            map_option (apfst (map_option (\<lambda>(s, o'). Block_mention_bech32 s o'))) (pull_bech32_mention content m cur)
        | BLOCK_INVOICE \<Rightarrow>
            map_option (apfst (map_option (\<lambda>(s, i). Block_invoice s i))) (pull_invoice content m cur));
     case b of
       None \<Rightarrow> Some (None, cur\<lparr>cp := start\<rparr>)
     | Some b \<Rightarrow> Some (Some b, cur) }}"

fun ndb_get_block_type :: "ndb_block \<Rightarrow> ndb_block_type" where
  "ndb_get_block_type (Block_hashtag _) = BLOCK_HASHTAG"
| "ndb_get_block_type (Block_text _) = BLOCK_TEXT"
| "ndb_get_block_type (Block_url _) = BLOCK_URL"
| "ndb_get_block_type (Block_mention_index _) = BLOCK_MENTION_INDEX"
| "ndb_get_block_type (Block_mention_bech32 _ _) = BLOCK_MENTION_BECH32"
| "ndb_get_block_type (Block_invoice _ _) = BLOCK_INVOICE"

fun ndb_block_str :: "ndb_block \<Rightarrow> ndb_str_block option" where
  "ndb_block_str (Block_hashtag s) = Some s"
| "ndb_block_str (Block_text s) = Some s"
| "ndb_block_str (Block_url s) = Some s"
| "ndb_block_str (Block_mention_index _) = None"
| "ndb_block_str (Block_mention_bech32 s _) = Some s"
| "ndb_block_str (Block_invoice s _) = Some s"

definition ndb_str_block_ptr :: "ndb_str_block \<Rightarrow> ptr" where
  "ndb_str_block_ptr s = sb_str s"

definition ndb_str_block_len :: "ndb_str_block \<Rightarrow> u32" where
  "ndb_str_block_len s = sb_len s"

section \<open>The header and the iterator\<close>

text \<open>
  The packed header of 24 bytes at the start of the output buffer, kept as a record of its own;
  \<open>blocks_ptr\<close> is the address of the encoded blocks, right after it.
\<close>

record ndb_blocks =
  blocks_version :: u8
  blocks_flags :: u8
  blocks_words :: u32
  num_blocks :: u32
  blocks_size :: u32
  blocks_total_size :: u32
  blocks_ptr :: ptr

definition ndb_blocks_total_size :: "ndb_blocks \<Rightarrow> u32" where
  "ndb_blocks_total_size b = blocks_total_size b"

text \<open>Whether \<open>ndb_blocks_free\<close> frees the memory: only when the caller owns it.\<close>

definition ndb_blocks_free :: "ndb_blocks \<Rightarrow> bool" where
  "ndb_blocks_free b = (if blocks_flags b AND 1 \<noteq> 1 then False else True)"

definition ndb_blocks_flags :: "ndb_blocks \<Rightarrow> int" where
  "ndb_blocks_flags b = uint (blocks_flags b)"

definition ndb_blocks_word_count :: "ndb_blocks \<Rightarrow> int" where
  "ndb_blocks_word_count b = sint (blocks_words b)"

record ndb_block_iterator =
  it_content :: ptr
  it_blocks :: ndb_blocks
  it_p :: ptr

definition ndb_blocks_iterate_start :: "ptr \<Rightarrow> ndb_blocks \<Rightarrow> ndb_block_iterator" where
  "ndb_blocks_iterate_start content blocks =
     \<lparr>it_content = content, it_blocks = blocks, it_p = blocks_ptr blocks\<rparr>"

text \<open>The loop of the code returns in its first round, so it is a conditional.\<close>

definition ndb_blocks_iterate_next ::
  "mem \<Rightarrow> ndb_block_iterator \<Rightarrow> (ndb_block option \<times> ndb_block_iterator) option" where
  "ndb_blocks_iterate_next m iter = do {
     let base = blocks_ptr (it_blocks iter);
     let cur = \<lparr>cstart = base, cp = it_p iter, cend = base + uint (blocks_size (it_blocks iter))\<rparr>;
     if cp cur < cend cur then do {
       (b, cur) \<leftarrow> pull_block (it_content iter) m cur;
       Some (b, iter\<lparr>it_p := cp cur\<rparr>) }
     else Some (None, iter) }"

section \<open>Reading back what was written\<close>

lemma ucast_u32_u64 [simp]: "(ucast (ucast (x :: u32) :: u64) :: u32) = x" "(ucast x :: u64) \<le> 0xFFFFFFFF"
proof -
  show "(ucast (ucast x :: u64) :: u32) = x" by (simp add: ucast_up_ucast_id is_up)
  have "uint (ucast x :: u64) = uint x" by (simp add: uint_up_ucast is_up)
  then show "(ucast x :: u64) \<le> 0xFFFFFFFF" using uint_lt2p[of x] by (simp add: word_le_def)
qed

interpretation u32_reader: cursor_reader cursor_pull_varint_u32 "\<lambda>x. varint_enc (ucast x)" "\<lambda>_. True"
proof unfold_locales
  fix m c and x :: u32
  assume "wf_cursor m c" "cp c + int (length (varint_enc (ucast x))) \<le> cend c"
    "getb m (cp c) (length (varint_enc (ucast x))) = varint_enc (ucast x)"
  then show "cursor_pull_varint_u32 m c = Some (Some x, c\<lparr>cp := cp c + int (length (varint_enc (ucast x)))\<rparr>)"
    using pull_varint_enc[of m c 0 "ucast x" 0] length_varint_enc_10[of "ucast x"]
    by (simp add: cursor_pull_varint_u32_def cursor_pull_varint_def leD)
next
  fix m c assume "wf_cursor m c"
  then show "ok (cursor_pull_varint_u32 m c) (\<lambda>(r, c'). moved c c')" using pull_varint_u32_safe by (fastforce elim: ok_conseq)
qed

text \<open>A text reference is the offset in the content and the length.\<close>

definition enc_str_block :: "ptr \<Rightarrow> ndb_str_block \<Rightarrow> u8 list" where
  "enc_str_block content b = varint_enc (word_of_int (sb_str b - content)) @ varint_enc (ucast (sb_len b))"

definition repr_str_block :: "ptr \<Rightarrow> ndb_str_block \<Rightarrow> bool" where
  "repr_str_block content b \<longleftrightarrow> content \<le> sb_str b \<and> sb_str b - content < 2 ^ 32"

lemma offset_u32:
  assumes "repr_str_block content b"
  obtains start :: u32 where "word_of_int (sb_str b - content) = (ucast start :: u64)" "content + uint start = sb_str b"
proof (rule that[of "word_of_int (sb_str b - content)"])
  let ?d = "sb_str b - content"
  have d: "0 \<le> ?d" "?d < 2 ^ 32" using assms by (simp_all add: repr_str_block_def)
  have u: "uint (word_of_int ?d :: u32) = ?d" "uint (word_of_int ?d :: u64) = ?d"
    unfolding uint_word_of_int using d by (simp_all add: mod_pos_pos_trivial)
  show "word_of_int ?d = (ucast (word_of_int ?d :: u32) :: u64)"
    by (rule word_uint_eqI) (simp only: uint_ucast_up u)
  show "content + uint (word_of_int ?d :: u32) = sb_str b" unfolding u by simp
qed

interpretation str_block_reader:
  cursor_reader "pull_str_block content" "enc_str_block content" "repr_str_block content" for content
proof unfold_locales
  fix m c b
  assume wf: "wf_cursor m c" and r: "repr_str_block content b"
    and b: "cp c + int (length (enc_str_block content b)) \<le> cend c"
    "getb m (cp c) (length (enc_str_block content b)) = enc_str_block content b"
  obtain start :: u32 where s: "word_of_int (sb_str b - content) = (ucast start :: u64)" "content + uint start = sb_str b"
    using offset_u32[OF r] .
  obtain c1 where c1: "cursor_pull_varint_u32 m c = Some (Some start, c1)"
    "c1 = c\<lparr>cp := cp c + int (length (varint_enc (ucast start)))\<rparr>" "wf_cursor m c1"
    "cp c1 + int (length (varint_enc (ucast (sb_len b)))) \<le> cend c1"
    "getb m (cp c1) (length (varint_enc (ucast (sb_len b)))) = varint_enc (ucast (sb_len b))"
    using u32_reader.pull_prefix[OF wf, of start "varint_enc (ucast (sb_len b))"] b
    unfolding enc_str_block_def s(1) by blast
  from u32_reader.pull_enc[OF c1(3) TrueI c1(4,5)] c1(1,2) s
  show "pull_str_block content m c = Some (Some b, c\<lparr>cp := cp c + int (length (enc_str_block content b))\<rparr>)"
    by (simp add: pull_str_block_def enc_str_block_def s(1) add.assoc)
next
  fix m c assume wf: "wf_cursor m c"
  obtain r c1 where r: "cursor_pull_varint_u32 m c = Some (r, c1)" "moved c c1"
    using u32_reader.pull_safe[OF wf] by (auto simp: ok_iff)
  obtain r2 c2 where "cursor_pull_varint_u32 m c1 = Some (r2, c2)" "moved c1 c2"
    using u32_reader.pull_safe[OF wf_moved[OF wf r(2)]] by (auto simp: ok_iff)
  with r show "ok (pull_str_block content m c) (\<lambda>(r, c'). moved c c')"
    by (auto simp: pull_str_block_def split: option.splits dest: moved_trans)
qed

lemma push_varint_ok:
  assumes wf: "wf_cursor m c"
  shows "ok (cursor_push_varint m c n) (\<lambda>(r, m', c'). r \<noteq> 0 \<and> moved c c' \<and> wf_cursor m' c' \<and>
    only_writes m m' (cp c) (cend c))"
proof (cases "cp c + int (length (varint_enc n)) \<le> cend c")
  case True
  have v: "valid m (cp c) (int (length (varint_enc n)))"
    using wf True by (intro wf_valid[of m c]) (auto dest: wf_bounds)
  have "only_writes m (putb m (cp c) (varint_enc n)) (cp c) (cend c)"
    using only_writes_putb[OF v] by (rule only_writes_mono) (use True in auto)
  moreover have "wf_cursor (putb m (cp c) (varint_enc n)) (c\<lparr>cp := cp c + int (length (varint_enc n))\<rparr>)"
    using wf True by (intro wf_upd_p wf_putb) (auto dest: wf_bounds)
  ultimately show ?thesis
    using push_varint_fits[OF wf True, of 0] True by (simp add: cursor_push_varint_def)
next
  case False
  then show ?thesis
    using push_varint_full[OF wf False, of 0] wf
    by (auto simp: cursor_push_varint_def ok_iff only_writes_wf dest: wf_moved)
qed

lemma push_str_block_ok:
  assumes wf: "wf_cursor m c"
  shows "ok (push_str_block m c content b) (\<lambda>(r, m', c'). r \<and> moved c c' \<and> wf_cursor m' c' \<and>
    only_writes m m' (cp c) (cend c))"
proof -
  obtain r1 m1 c1 where 1: "cursor_push_varint m c (word_of_int (sb_str b - content)) = Some (r1, m1, c1)"
    "r1 \<noteq> 0" "moved c c1" "wf_cursor m1 c1" "only_writes m m1 (cp c) (cend c)"
    using push_varint_ok[OF wf] by (fastforce simp: ok_iff)
  obtain r2 m2 c2 where 2: "cursor_push_varint m1 c1 (ucast (sb_len b)) = Some (r2, m2, c2)"
    "r2 \<noteq> 0" "moved c1 c2" "wf_cursor m2 c2" "only_writes m1 m2 (cp c1) (cend c1)"
    using push_varint_ok[OF 1(4)] by (fastforce simp: ok_iff)
  have "only_writes m m2 (cp c) (cend c)"
    by (rule only_writes_trans[OF 1(5) 2(5)]) (use 1(3) in \<open>auto simp: moved_def\<close>)
  with 1 2 show ?thesis by (auto simp: push_str_block_def dest: moved_trans)
qed

lemma push_str_block_fits:
  assumes wf: "wf_cursor m c" and fits: "cp c + int (length (enc_str_block content b)) \<le> cend c"
  shows "push_str_block m c content b = Some (True, putb m (cp c) (enc_str_block content b),
    c\<lparr>cp := cp c + int (length (enc_str_block content b))\<rparr>)"
proof -
  let ?e = "varint_enc (word_of_int (sb_str b - content))"
  let ?m = "putb m (cp c) ?e" and ?c = "c\<lparr>cp := cp c + int (length ?e)\<rparr>"
  have f: "cp c + int (length ?e) \<le> cend c" "cp ?c + int (length (varint_enc (ucast (sb_len b)))) \<le> cend ?c"
    using fits by (simp_all add: enc_str_block_def)
  have wf1: "wf_cursor ?m ?c" using wf f(1) by (intro wf_upd_p wf_putb) (auto dest: wf_bounds)
  show ?thesis
    using push_varint_fits[OF wf f(1), of 0] push_varint_fits[OF wf1 f(2), of 0]
    by (simp add: push_str_block_def cursor_push_varint_def enc_str_block_def putb_append add.assoc)
qed

text \<open>
  A text reference that does not fit is reported as written: \<open>push_str_block\<close> tests the result of
  \<open>cursor_push_varint\<close> for zero, but that function fails with -1. On a full buffer every call
  returns success and leaves memory and cursor as they were, so the block is lost.
\<close>

theorem push_str_block_hides_overflow:
  assumes "wf_cursor m c" and "cp c = cend c"
  shows "push_str_block m c content b = Some (True, m, c)"
proof -
  have "cursor_push_varint m c n = Some (-1, m, c)" for n
    using assms(2) by (simp add: cursor_push_varint_def push_varint_loop.simps cursor_push_byte_def)
  then show ?thesis by (simp add: push_str_block_def)
qed

theorem push_str_block_hides_overflow_witness:
  "push_str_block (mem_of 0 [7]) \<lparr>cstart = 0, cp = 1, cend = 1\<rparr> 100 \<lparr>sb_str = 105, sb_len = 3\<rparr> =
     Some (True, mem_of 0 [7], \<lparr>cstart = 0, cp = 1, cend = 1\<rparr>)"
proof -
  have "wf_cursor (mem_of 0 [7]) \<lparr>cstart = 0, cp = 1, cend = 1\<rparr>" by (simp add: wf_cursor_def valid_mem_of)
  from push_str_block_hides_overflow[OF this] show ?thesis by simp
qed

text \<open>The encoding of the blocks that hold no decoded payload.\<close>

fun enc_block :: "ptr \<Rightarrow> ndb_block \<Rightarrow> u8 list" where
  "enc_block content (Block_hashtag s) = varint_enc 1 @ enc_str_block content s"
| "enc_block content (Block_text s) = varint_enc 2 @ enc_str_block content s"
| "enc_block content (Block_url s) = varint_enc 5 @ enc_str_block content s"
| "enc_block content (Block_mention_index i) = varint_enc 3 @ varint_enc (ucast i)"
| "enc_block content _ = []"

fun plain_block :: "ptr \<Rightarrow> ndb_block \<Rightarrow> bool" where
  "plain_block content (Block_hashtag s) = repr_str_block content s"
| "plain_block content (Block_text s) = repr_str_block content s"
| "plain_block content (Block_url s) = repr_str_block content s"
| "plain_block content (Block_mention_index i) = True"
| "plain_block content _ = False"

interpretation block_type_decoder:
  cursor_decoder pull_block_type "\<lambda>ty. varint_enc (block_type_val ty)" "\<lambda>_. True"
proof unfold_locales
  fix m c ty
  assume a: "wf_cursor m c" "cp c + int (length (varint_enc (block_type_val ty))) \<le> cend c"
    "getb m (cp c) (length (varint_enc (block_type_val ty))) = varint_enc (block_type_val ty)"
  have "block_type_val ty = ucast (ucast (block_type_val ty) :: u32)" "block_type_of (ucast (block_type_val ty)) = Some ty"
    by (cases ty; simp add: block_type_of_def)+
  with u32_reader.pull_enc[of m c "ucast (block_type_val ty)"] a
  show "pull_block_type m c = Some (Some ty, c\<lparr>cp := cp c + int (length (varint_enc (block_type_val ty)))\<rparr>)"
    by (simp add: pull_block_type_def)
qed

interpretation block_decoder: cursor_decoder "pull_block content" "enc_block content" "plain_block content" for content
proof unfold_locales
  fix m c b
  assume wf: "wf_cursor m c" and r: "plain_block content b"
    and b: "cp c + int (length (enc_block content b)) \<le> cend c"
    "getb m (cp c) (length (enc_block content b)) = enc_block content b"
  obtain rest where e: "enc_block content b = varint_enc (block_type_val (ndb_get_block_type b)) @ rest"
    "rest = (case b of Block_mention_index i \<Rightarrow> varint_enc (ucast i) | _ \<Rightarrow> enc_str_block content (the (ndb_block_str b)))"
    using r by (cases b) auto
  obtain c1 where c1: "pull_block_type m c = Some (Some (ndb_get_block_type b), c1)"
    "c1 = c\<lparr>cp := cp c + int (length (varint_enc (block_type_val (ndb_get_block_type b))))\<rparr>" "wf_cursor m c1"
    "cp c1 + int (length rest) \<le> cend c1" "getb m (cp c1) (length rest) = rest"
    using block_type_decoder.pull_prefix[OF wf TrueI] b unfolding e(1) by blast
  show "pull_block content m c = Some (Some b, c\<lparr>cp := cp c + int (length (enc_block content b))\<rparr>)"
    unfolding pull_block_def e(1)
    using c1 r e(2) str_block_reader.pull_enc[OF c1(3), of content "the (ndb_block_str b)"]
      u32_reader.pull_enc[OF c1(3) TrueI]
    by (cases b) (simp_all add: add.assoc)
qed

text \<open>The iterator, called \<open>n\<close> times.\<close>

primrec iterate_blocks :: "nat \<Rightarrow> mem \<Rightarrow> ndb_block_iterator \<Rightarrow> (ndb_block option list \<times> ndb_block_iterator) option" where
  "iterate_blocks 0 m it = Some ([], it)"
| "iterate_blocks (Suc n) m it = do {
     (b, it) \<leftarrow> ndb_blocks_iterate_next m it;
     (bs, it) \<leftarrow> iterate_blocks n m it;
     Some (b # bs, it) }"

lemma enc_block_nonempty: "plain_block content b \<Longrightarrow> 0 < length (enc_block content b)"
  by (cases b) auto

lemma iterate_blocks_enc:
  assumes "list_all (plain_block (it_content it)) bs"
    and "base = blocks_ptr (it_blocks it)" and "size' = uint (blocks_size (it_blocks it))"
    and "base \<le> it_p it" and "it_p it + int (length (concat (map (enc_block (it_content it)) bs))) = base + size'"
    and "valid m base size'"
    and "getb m (it_p it) (length (concat (map (enc_block (it_content it)) bs))) = concat (map (enc_block (it_content it)) bs)"
  shows "iterate_blocks (length bs + k) m it = Some (map Some bs @ replicate k None, it\<lparr>it_p := base + size'\<rparr>)"
  using assms
proof (induction bs arbitrary: it)
  case Nil
  then show ?case by (induction k) (simp_all add: ndb_blocks_iterate_next_def Let_def)
next
  case (Cons b bs)
  let ?content = "it_content it"
  let ?c = "\<lparr>cstart = base, cp = it_p it, cend = base + size'\<rparr>"
  let ?it = "it\<lparr>it_p := it_p it + int (length (enc_block ?content b))\<rparr>"
  let ?rest = "concat (map (enc_block ?content) bs)"
  have p: "plain_block ?content b" using Cons.prems(1) by simp
  have wf: "wf_cursor m ?c" using Cons.prems by (simp add: wf_cursor_def)
  obtain c1 where c1: "pull_block ?content m ?c = Some (Some b, c1)"
    "c1 = ?c\<lparr>cp := cp ?c + int (length (enc_block ?content b))\<rparr>" "getb m (cp c1) (length ?rest) = ?rest"
    using block_decoder.pull_prefix[OF wf p, of ?rest] Cons.prems by force
  have lt: "it_p it < base + size'" using enc_block_nonempty[OF p] Cons.prems(5) by (simp del: length_greater_0_conv)
  then have n: "ndb_blocks_iterate_next m it = Some (Some b, ?it)"
    using c1(1,2) unfolding ndb_blocks_iterate_next_def Cons.prems(2,3)[symmetric] Let_def by simp
  have "iterate_blocks (length bs + k) m ?it = Some (map Some bs @ replicate k None, ?it\<lparr>it_p := base + size'\<rparr>)"
    by (rule Cons.IH) (use Cons.prems c1 in simp_all)
  with n show ?case by simp
qed



section \<open>Invoices\<close>

definition enc_invoice_head :: "bolt11 \<Rightarrow> u8 list" where
  "enc_invoice_head b = [1] @ varint_enc (case b11_msat b of None \<Rightarrow> 0 | Some x \<Rightarrow> x) @
     varint_enc (b11_timestamp b) @ varint_enc (b11_expiry b)"

fun enc_invoice_tail :: "u8 list option \<Rightarrow> u8 list option \<Rightarrow> u8 list" where
  "enc_invoice_tail (Some d) h = [1] @ d @ [0]"
| "enc_invoice_tail None (Some h) = [2] @ take 32 h"
| "enc_invoice_tail None None = []"

definition enc_invoice :: "bolt11 \<Rightarrow> u8 list" where
  "enc_invoice b = enc_invoice_head b @ enc_invoice_tail (b11_description b) (b11_description_hash b)"

lemma push_varint_step:
  assumes "wf_cursor m c" and "cp c + int (length (varint_enc n @ rest)) \<le> cend c"
  shows "\<exists>m' c'. cursor_push_varint m c n = Some (int (length (varint_enc n)), m', c') \<and> wf_cursor m' c' \<and>
    m' = putb m (cp c) (varint_enc n) \<and> c' = c\<lparr>cp := cp c + int (length (varint_enc n))\<rparr> \<and>
    cp c' + int (length rest) \<le> cend c'"
proof -
  have f: "cp c + int (length (varint_enc n)) \<le> cend c" using assms(2) by simp
  have "wf_cursor (putb m (cp c) (varint_enc n)) (c\<lparr>cp := cp c + int (length (varint_enc n))\<rparr>)"
    using assms(1) f by (intro wf_upd_p wf_putb) (auto dest: wf_bounds)
  then show ?thesis using push_varint_fits[OF assms(1) f, of 0] assms(2) by (simp add: cursor_push_varint_def)
qed

lemma push_byte_step:
  assumes "wf_cursor m c" and "cp c + int (length (b # rest)) \<le> cend c"
  shows "\<exists>m' c'. cursor_push_byte m c b = Some (True, m', c') \<and> wf_cursor m' c' \<and>
    m' = putb m (cp c) [b] \<and> c' = c\<lparr>cp := cp c + 1\<rparr> \<and> cp c' + int (length rest) \<le> cend c'"
proof -
  have "wf_cursor (putb m (cp c) [b]) (c\<lparr>cp := cp c + 1\<rparr>)"
    using assms by (intro wf_upd_p wf_putb) (auto dest: wf_bounds)
  then show ?thesis using byte_codec.push_fits[OF assms(1), of b] assms(2) by simp
qed

lemma encode_invoice_fits:
  assumes wf: "wf_cursor m c" and d: "b11_description b \<noteq> None \<or> b11_description_hash b \<noteq> None"
    and fits: "cp c + int (length (enc_invoice b)) \<le> cend c"
  shows "ndb_encode_invoice m c b =
    Some (True, putb m (cp c) (enc_invoice b), c\<lparr>cp := cp c + int (length (enc_invoice b))\<rparr>)"
proof -
  let ?tail = "enc_invoice_tail (b11_description b) (b11_description_hash b)"
  let ?amt = "case b11_msat b of None \<Rightarrow> 0 | Some x \<Rightarrow> x"
  have e: "enc_invoice b = 1 # varint_enc ?amt @ varint_enc (b11_timestamp b) @ varint_enc (b11_expiry b) @ ?tail"
    by (simp add: enc_invoice_def enc_invoice_head_def)
  obtain m1 c1 where 1: "cursor_push_byte m c 1 = Some (True, m1, c1)" "wf_cursor m1 c1"
    "m1 = putb m (cp c) [1]" "c1 = c\<lparr>cp := cp c + 1\<rparr>"
    "cp c1 + int (length (varint_enc ?amt @ varint_enc (b11_timestamp b) @ varint_enc (b11_expiry b) @ ?tail)) \<le> cend c1"
    using push_byte_step[OF wf] fits[unfolded e] by blast
  obtain m2 c2 where 2: "cursor_push_varint m1 c1 ?amt = Some (int (length (varint_enc ?amt)), m2, c2)" "wf_cursor m2 c2"
    "m2 = putb m1 (cp c1) (varint_enc ?amt)" "c2 = c1\<lparr>cp := cp c1 + int (length (varint_enc ?amt))\<rparr>"
    "cp c2 + int (length (varint_enc (b11_timestamp b) @ varint_enc (b11_expiry b) @ ?tail)) \<le> cend c2"
    using push_varint_step[OF 1(2,5)] by blast
  obtain m3 c3 where 3: "cursor_push_varint m2 c2 (b11_timestamp b) = Some (int (length (varint_enc (b11_timestamp b))), m3, c3)"
    "wf_cursor m3 c3" "m3 = putb m2 (cp c2) (varint_enc (b11_timestamp b))"
    "c3 = c2\<lparr>cp := cp c2 + int (length (varint_enc (b11_timestamp b)))\<rparr>"
    "cp c3 + int (length (varint_enc (b11_expiry b) @ ?tail)) \<le> cend c3"
    using push_varint_step[OF 2(2,5)] by blast
  obtain m4 c4 where 4: "cursor_push_varint m3 c3 (b11_expiry b) = Some (int (length (varint_enc (b11_expiry b))), m4, c4)"
    "wf_cursor m4 c4" "m4 = putb m3 (cp c3) (varint_enc (b11_expiry b))"
    "c4 = c3\<lparr>cp := cp c3 + int (length (varint_enc (b11_expiry b)))\<rparr>" "cp c4 + int (length ?tail) \<le> cend c4"
    using push_varint_step[OF 3(2,5)] by blast
  have m4: "m4 = putb m (cp c) (enc_invoice_head b)" "c4 = c\<lparr>cp := cp c + int (length (enc_invoice_head b))\<rparr>"
    by (simp_all add: 1(3,4) 2(3,4) 3(3,4) 4(3,4) enc_invoice_head_def putb_append putb_Cons add.assoc)
  have t: "(case b11_description b of
        Some d \<Rightarrow> do {
          (r, m, cur) \<leftarrow> cursor_push_byte m4 c4 1;
          if \<not> r then Some (False, m, cur) else cursor_push_c_str m cur (Some d) }
      | None \<Rightarrow> do {
          (r, m, cur) \<leftarrow> cursor_push_byte m4 c4 2;
          if \<not> r then Some (False, m, cur)
          else cursor_push m cur (take 32 (the (b11_description_hash b))) }) =
      Some (True, putb m4 (cp c4) ?tail, c4\<lparr>cp := cp c4 + int (length ?tail)\<rparr>)"
  proof (cases "b11_description b")
    case (Some d')
    then obtain m5 c5 where 5: "cursor_push_byte m4 c4 1 = Some (True, m5, c5)" "wf_cursor m5 c5"
      "m5 = putb m4 (cp c4) [1]" "c5 = c4\<lparr>cp := cp c4 + 1\<rparr>" "cp c5 + int (length (d' @ [0])) \<le> cend c5"
      using push_byte_step[OF 4(2), of 1 "d' @ [0]"] 4(5) by auto
    with c_str_writer.push_fits[OF 5(2), of "Some d'"] Some show ?thesis
      by (simp add: enc_c_str_def putb_Cons add.assoc)
  next
    case None
    then obtain h where h: "b11_description_hash b = Some h" using d by auto
    then obtain m5 c5 where 5: "cursor_push_byte m4 c4 2 = Some (True, m5, c5)" "wf_cursor m5 c5"
      "m5 = putb m4 (cp c4) [2]" "c5 = c4\<lparr>cp := cp c4 + 1\<rparr>" "cp c5 + int (length (take 32 h)) \<le> cend c5"
      using push_byte_step[OF 4(2), of 2 "take 32 h"] 4(5) None by auto
    with bytes_writer.push_fits[OF 5(2), of "take 32 h"] None h show ?thesis
      by (simp add: putb_Cons add.assoc)
  qed
  have d': "\<not> (b11_description b = None \<and> b11_description_hash b = None)" using d by blast
  have nz: "int (length (varint_enc n)) \<noteq> 0" for n by simp
  show ?thesis
    unfolding ndb_encode_invoice_def if_not_P[OF d']
    by (simp only: 1(1) 2(1) 3(1) 4(1) t bind.simps prod.case if_False not_True_eq_False nz simp_thms)
      (simp add: m4 enc_invoice_def putb_append add.assoc)
qed

lemma pull_varint_step:
  assumes "wf_cursor m c" and "cp c + int (length (varint_enc n @ rest)) \<le> cend c"
    and "getb m (cp c) (length (varint_enc n @ rest)) = varint_enc n @ rest"
  shows "\<exists>r c'. cursor_pull_varint m c = Some (r, n, c') \<and> r \<noteq> 0 \<and> c' = c\<lparr>cp := cp c + int (length (varint_enc n))\<rparr> \<and>
    wf_cursor m c' \<and> cp c' + int (length rest) \<le> cend c' \<and> getb m (cp c') (length rest) = rest"
  using varint_codec.pull_prefix[OF assms(1) TrueI assms(2,3)]
  by (auto split: if_splits)

lemma decode_invoice_head:
  assumes wf: "wf_cursor m c" and fits: "cp c + int (length (enc_invoice_head b @ rest)) \<le> cend c"
    and bytes: "getb m (cp c) (length (enc_invoice_head b @ rest)) = enc_invoice_head b @ rest"
    and amt: "amt = (case b11_msat b of None \<Rightarrow> 0 | Some x \<Rightarrow> x)"
    and c': "c' = c\<lparr>cp := cp c + int (length (enc_invoice_head b))\<rparr>"
    and iv: "iv = \<lparr>inv_version = 1, inv_amount = amt, inv_timestamp = b11_timestamp b,
       inv_expiry = b11_expiry b, inv_description = None, inv_description_hash = None\<rparr>"
  shows "ndb_decode_invoice m c = do {
     (desc_type, cur) \<leftarrow> cursor_pull_byte m c';
     case desc_type of None \<Rightarrow> Some (None, cur) | Some desc_type \<Rightarrow>
     (if desc_type = 1 then do {
        (d, cur) \<leftarrow> cursor_pull_c_str m cur;
        Some (map_option (\<lambda>d. iv\<lparr>inv_description := Some d\<rparr>) d, cur) }
      else if desc_type = 2 then
        (case cursor_skip cur 32 of (r, cur') \<Rightarrow>
          Some (if r then Some (iv\<lparr>inv_description_hash := Some (cp cur)\<rparr>) else None, cur'))
      else Some (None, cur)) }" (is "_ = ?tail")
    and "wf_cursor m c'" and "cp c' + int (length rest) \<le> cend c'" and "getb m (cp c') (length rest) = rest"
proof -
  have e: "enc_invoice_head b @ rest = [1] @ varint_enc amt @ varint_enc (b11_timestamp b) @ varint_enc (b11_expiry b) @ rest"
    by (simp add: enc_invoice_head_def amt)
  obtain c1 where 1: "cursor_pull_byte m c = Some (Some 1, c1)" "c1 = c\<lparr>cp := cp c + int (length [1::u8])\<rparr>" "wf_cursor m c1"
    "cp c1 + int (length (varint_enc amt @ varint_enc (b11_timestamp b) @ varint_enc (b11_expiry b) @ rest)) \<le> cend c1"
    "getb m (cp c1) (length (varint_enc amt @ varint_enc (b11_timestamp b) @ varint_enc (b11_expiry b) @ rest)) =
      varint_enc amt @ varint_enc (b11_timestamp b) @ varint_enc (b11_expiry b) @ rest"
    using byte_codec.pull_prefix[OF wf TrueI] fits bytes unfolding e by blast
  obtain r2 c2 where 2: "cursor_pull_varint m c1 = Some (r2, amt, c2)" "r2 \<noteq> 0"
    "c2 = c1\<lparr>cp := cp c1 + int (length (varint_enc amt))\<rparr>" "wf_cursor m c2"
    "cp c2 + int (length (varint_enc (b11_timestamp b) @ varint_enc (b11_expiry b) @ rest)) \<le> cend c2"
    "getb m (cp c2) (length (varint_enc (b11_timestamp b) @ varint_enc (b11_expiry b) @ rest)) =
      varint_enc (b11_timestamp b) @ varint_enc (b11_expiry b) @ rest"
    using pull_varint_step[OF 1(3-5)] by blast
  obtain r3 c3 where 3: "cursor_pull_varint m c2 = Some (r3, b11_timestamp b, c3)" "r3 \<noteq> 0"
    "c3 = c2\<lparr>cp := cp c2 + int (length (varint_enc (b11_timestamp b)))\<rparr>" "wf_cursor m c3"
    "cp c3 + int (length (varint_enc (b11_expiry b) @ rest)) \<le> cend c3"
    "getb m (cp c3) (length (varint_enc (b11_expiry b) @ rest)) = varint_enc (b11_expiry b) @ rest"
    using pull_varint_step[OF 2(4-6)] by blast
  obtain r4 c4 where 4: "cursor_pull_varint m c3 = Some (r4, b11_expiry b, c4)" "r4 \<noteq> 0"
    "c4 = c3\<lparr>cp := cp c3 + int (length (varint_enc (b11_expiry b)))\<rparr>" "wf_cursor m c4"
    "cp c4 + int (length rest) \<le> cend c4" "getb m (cp c4) (length rest) = rest"
    using pull_varint_step[OF 3(4-6)] by blast
  have c4: "c4 = c'" by (simp add: 1(2) 2(3) 3(3) 4(3) c' enc_invoice_head_def amt add.assoc)
  from 4(4-6) show "wf_cursor m c'" "cp c' + int (length rest) \<le> cend c'" "getb m (cp c') (length rest) = rest"
    unfolding c4 .
  show "ndb_decode_invoice m c = ?tail"
    unfolding ndb_decode_invoice_def Let_def iv
    by (simp add: 1(1) 2(1,2) 3(1,2) 4(1,2) c4)
qed



text \<open>
  An invoice that commits to a description hash cannot be read back when it is the last thing in
  the buffer: the encoder accepts the exact fit, but the decoder skips the hash with
  \<open>cursor_skip\<close>, which refuses to move the cursor to the end.
\<close>

theorem invoice_hash_at_end_unreadable:
  assumes wf: "wf_cursor m c" and d: "b11_description b = None" "b11_description_hash b = Some h" "length h = 32"
    and fits: "cp c + int (length (enc_invoice b)) = cend c"
  shows "ok (ndb_encode_invoice m c b) (\<lambda>(r, m', c'). r \<and>
    ok (ndb_decode_invoice m' (c'\<lparr>cp := cp c\<rparr>)) (\<lambda>(r, _). r = None))"
proof -
  let ?m = "putb m (cp c) (enc_invoice b)"
  have e: "enc_invoice b = enc_invoice_head b @ [2] @ h" using d by (simp add: enc_invoice_def)
  have wf': "wf_cursor ?m c" using wf by (rule wf_putb)
  define c1 where "c1 = c\<lparr>cp := cp c + int (length (enc_invoice_head b))\<rparr>"
  have f: "cp c + int (length (enc_invoice_head b @ [2] @ h)) \<le> cend c"
    "getb ?m (cp c) (length (enc_invoice_head b @ [2] @ h)) = enc_invoice_head b @ [2] @ h"
    using fits getb_putb_same[of m "cp c" "enc_invoice b"] unfolding e by simp_all
  note h = decode_invoice_head[OF wf' f refl c1_def refl]
  obtain c2 where c2: "cursor_pull_byte ?m c1 = Some (Some 2, c2)" "c2 = c1\<lparr>cp := cp c1 + int (length [2::u8])\<rparr>"
    using byte_codec.pull_prefix[OF h(2) TrueI h(3,4)] by blast
  have "cursor_skip c2 32 = (False, c2)"
    using fits d(3) by (simp add: cursor_skip_def c2(2) c1_def e)
  with h(1) c2(1) have "ok (ndb_decode_invoice ?m c) (\<lambda>(r, _). r = None)" by simp
  then show ?thesis using encode_invoice_fits[OF wf] d fits by simp
qed

theorem invoice_hash_at_end_unreadable_witness:
  "\<exists>b m c. ok (ndb_encode_invoice m c b) (\<lambda>(r, m', c'). r \<and>
    ok (ndb_decode_invoice m' (c'\<lparr>cp := cp c\<rparr>)) (\<lambda>(r, _). r = None))"
proof -
  let ?b = "\<lparr>b11_msat = None, b11_timestamp = 5, b11_expiry = 3600,
    b11_description = None, b11_description_hash = Some (replicate 32 9)\<rparr>"
  let ?n = "length (enc_invoice ?b)"
  have "wf_cursor (mem_of 0 (replicate ?n 0)) (make_cursor 0 (int ?n))" by (intro wf_make_cursor valid_mem_of) simp_all
  then have "ok (ndb_encode_invoice (mem_of 0 (replicate ?n 0)) (make_cursor 0 (int ?n)) ?b) (\<lambda>(r, m', c'). r \<and>
      ok (ndb_decode_invoice m' (c'\<lparr>cp := cp (make_cursor 0 (int ?n))\<rparr>)) (\<lambda>(r, _). r = None))"
    by (rule invoice_hash_at_end_unreadable[where h = "replicate 32 9"]) (simp_all add: make_cursor_def)
  then show ?thesis by blast
qed

text \<open>
  Reading a bech32 mention trusts the stored payload size: a buffer of seven bytes, entirely
  allocated, whose block claims a payload of 255 bytes makes \<open>pull_block\<close> read past its end.
\<close>

theorem bech32_mention_size_unchecked:
  "wf_cursor (mem_of 0 [4, 0, 1, 255, 0, 4, 1]) (make_cursor 0 7) \<and>
   pull_block 100 (mem_of 0 [4, 0, 1, 255, 0, 4, 1]) (make_cursor 0 7) = None"
proof
  let ?m = "mem_of 0 [4, 0, 1, 255, 0, 4, 1]" and ?c = "\<lambda>p. \<lparr>cstart = 0, cp = p, cend = 7\<rparr>"
  show "wf_cursor ?m (make_cursor 0 7)" by (intro wf_make_cursor valid_mem_of) simp_all
  have b: "?m 0 = Some 4" "?m 1 = Some 0" "?m 2 = Some 1" "?m 3 = Some 255" "?m 4 = Some 0" "?m 5 = Some 4"
    "?m 6 = Some 1" "?m 7 = None" by (simp_all add: mem_of_def putb_def)
  note s = cursor_pull_varint_u32_def cursor_pull_varint_def pull_varint_loop.simps cursor_pull_byte_def load_def
  have 1: "cursor_pull_varint_u32 ?m (?c 0) = Some (Some 4, ?c 1)" "cursor_pull_varint_u32 ?m (?c 1) = Some (Some 0, ?c 2)"
    "cursor_pull_varint_u32 ?m (?c 2) = Some (Some 1, ?c 3)" "cursor_pull_varint ?m (?c 5) = Some (1, 4, ?c 6)"
    by (simp_all add: s b)
  have 2: "cursor_pull_u16 ?m (?c 3) = Some (Some 255, ?c 5)"
  proof -
    have "loads (Suc (Suc 0)) ?m 3 = Some [255, 0]" by (simp add: b load_def)
    then have "loads 2 ?m 3 = Some [255, 0]" by (simp only: numeral_2_eq_2)
    then show ?thesis by (simp add: cursor_pull_u16_def cursor_pull_def)
  qed
  have 3: "parse_nostr_tlv ?m (make_cursor 6 261) = None"
    by (simp add: parse_nostr_tlv_def make_cursor_def cursor_pull_byte_def load_def b word_le_nat_alt)
  have "tlv_loop (Suc 31) nevent_step ?m (make_cursor 6 261) e = None" for e
    unfolding tlv_loop.simps 3 by simp
  then have "tlv_loop 32 nevent_step ?m (make_cursor 6 261) e = None" for e by simp
  then have "pull_bech32_mention 100 ?m (?c 1) = None"
    by (simp add: pull_bech32_mention_def pull_str_block_def 1 2 pull_nostr_bech32_type_def bech32_type_of_def
        parse_nostr_bech32_buffer_def parse_nostr_bech32_nevent_def)
  then show "pull_block 100 ?m (make_cursor 0 7) = None"
    by (simp add: pull_block_def pull_block_type_def make_cursor_def 1 block_type_of_def)
qed

end
