(* ===== verification/Bolt11.thy ===== *)
theory Bolt11
  imports Blocks
begin

text \<open>
  The invoice decoder of \<open>src/src/bolt11/bolt11.c\<close> as \<open>bolt11_decode_minimal\<close> uses it. Strings are the
  bytes before the NUL. The error string of a failure is kept as a HOL string. The running hash
  and the signature are computed for callers that check signatures; the minimal decoder drops
  both, and they are not modelled.
\<close>

section \<open>Pulling bits\<close>

text \<open>
  \<open>data\<close> is the rest of the data part and \<open>data_len\<close> the number of groups the caller may take; the
  result has the bytes written to \<open>dst\<close> and the advanced pair.
\<close>

definition pull_bits :: "u8 list \<Rightarrow> nat \<Rightarrow> nat \<Rightarrow> bool \<Rightarrow> string + u8 list \<times> u8 list \<times> nat" where
  "pull_bits data data_len nbits pad =
     (let n5 = nbits div 5;
          n5 = (if nbits mod 5 \<noteq> 0 then n5 + 1 else n5)
      in if data_len < n5 then Inl ''truncated''
         else
           let (r, dst) = bech32_convert_bits 8 (take n5 data) 5 pad in
           if \<not> r then Inl ''non-zero trailing bits''
           else Inr (dst, drop n5 data, data_len - n5))"

text \<open>
  A big-endian integer of \<open>databits\<close> bits: the bytes fill the front of an 8-byte word, and the
  shift drops the part that was not written.
\<close>

primrec be_word :: "u8 list \<Rightarrow> u64 \<Rightarrow> u64" where
  "be_word [] acc = acc"
| "be_word (b # bs) acc = be_word bs (push_bit 8 acc OR ucast b)"

definition pull_uint :: "u8 list \<Rightarrow> nat \<Rightarrow> nat \<Rightarrow> string + u64 \<times> u8 list \<times> nat" where
  "pull_uint data data_len databits =
     (if databits > 64 then Inl ''integer too large''
      else case pull_bits data data_len databits True of
        Inl err \<Rightarrow> Inl err
      | Inr (be_val, data, data_len) \<Rightarrow>
          Inr (if databits = 0 then 0
               else drop_bit (64 - databits) (be_word (take 8 (be_val @ replicate 8 0)) 0), data, data_len))"

definition pull_all :: "u8 list \<Rightarrow> nat \<Rightarrow> bool \<Rightarrow> string + u8 list \<times> u8 list \<times> nat" where
  "pull_all data data_len pad = pull_bits data data_len (data_len * 5) pad"

section \<open>UTF-8 validation\<close>

record utf8_state =
  total_len :: u16
  used_len :: u16
  utf8_c :: u32

datatype errno = E_OK | ERANGE | EFBIG | EINVAL

text \<open>The part of \<open>utf8_decode\<close> after the label \<open>finished_decoding\<close>; \<open>None\<close> is \<open>abort\<close>.\<close>

definition utf8_finished :: "utf8_state \<Rightarrow> errno option" where
  "utf8_finished s =
     (if utf8_c s = 0 \<or> utf8_c s > 0x10FFFF then Some ERANGE
      else if total_len s = 3 \<and> utf8_c s AND 0xFFFFF800 = 0x0000D800 then Some ERANGE
      else do {
        min_bits \<leftarrow> (if total_len s = 1 then Some 0 else if total_len s = 2 then Some 7
                     else if total_len s = 3 then Some 11 else if total_len s = 4 then Some 16 else None);
        Some (if drop_bit min_bits (utf8_c s) = 0 then EFBIG else E_OK) })"

text \<open>The return value with the new state, and \<open>errno\<close> where the call sets it.\<close>

definition utf8_decode :: "utf8_state \<Rightarrow> u8 \<Rightarrow> (bool \<times> errno option \<times> utf8_state) option" where
  "utf8_decode s c =
     (let bad = (\<lambda>s. Some (True, Some EINVAL, s\<lparr>total_len := used_len s\<rparr>));
          finish = (\<lambda>s. do { e \<leftarrow> utf8_finished s; Some (True, Some e, s) })
      in if used_len s = total_len s then
           (let s = s\<lparr>used_len := 1\<rparr> in
            if c AND 0x80 = 0 then
              (if c = 0 then bad s else finish (s\<lparr>total_len := 1, utf8_c := ucast c\<rparr>))
            else if c AND 0xE0 = 0xC0 then Some (False, None, s\<lparr>total_len := 2, utf8_c := ucast (c AND 0x1F)\<rparr>)
            else if c AND 0xF0 = 0xE0 then Some (False, None, s\<lparr>total_len := 3, utf8_c := ucast (c AND 0x0F)\<rparr>)
            else if c AND 0xF8 = 0xF0 then Some (False, None, s\<lparr>total_len := 4, utf8_c := ucast (c AND 0x07)\<rparr>)
            else bad s)
         else if c AND 0xC0 \<noteq> 0x80 then bad s
         else
           (let s = s\<lparr>utf8_c := push_bit 6 (utf8_c s) OR ucast (c AND 0x3F), used_len := used_len s + 1\<rparr> in
            if used_len s = total_len s then finish s else Some (False, None, s)))"

primrec utf8_check_loop :: "u8 list \<Rightarrow> utf8_state \<Rightarrow> bool \<Rightarrow> bool option" where
  "utf8_check_loop [] s need_more = Some (\<not> need_more)"
| "utf8_check_loop (b # bs) s need_more = do {
     (r, e, s) \<leftarrow> utf8_decode s b;
     if \<not> r then utf8_check_loop bs s True
     else if e \<noteq> Some E_OK then Some False
     else utf8_check_loop bs s False }"

definition utf8_check :: "u8 list \<Rightarrow> bool option" where
  "utf8_check buf = utf8_check_loop buf \<lparr>total_len = 0, used_len = 0, utf8_c = 0\<rparr> False"

text \<open>The copy of the bytes as a C string, or \<open>NULL\<close>.\<close>

definition utf8_str :: "u8 list \<Rightarrow> u8 list option option" where
  "utf8_str buf = do {
     valid \<leftarrow> utf8_check buf;
     Some (if valid then Some (takeWhile (\<lambda>b. b \<noteq> 0) buf) else None) }"

section \<open>Fields\<close>

definition unknown_field :: "u8 list \<Rightarrow> nat \<Rightarrow> string + u8 list \<times> nat" where
  "unknown_field data field_len =
     (case pull_all data field_len True of
        Inl err \<Rightarrow> Inl err
      | Inr (_, data, field_len) \<Rightarrow> Inr (data, field_len))"

text \<open>The flag and the bytes of \<open>dst\<close> when the field has the expected length.\<close>

definition pull_expected_length ::
  "u8 list \<Rightarrow> nat \<Rightarrow> nat \<Rightarrow> bool \<times> (string + u8 list option \<times> u8 list \<times> nat)" where
  "pull_expected_length data field_len expected_length =
     (if field_len \<noteq> expected_length then
        (False, case unknown_field data field_len of
                  Inl err \<Rightarrow> Inl err | Inr (data, field_len) \<Rightarrow> Inr (None, data, field_len))
      else
        (True, case pull_bits data field_len (field_len * 5) False of
                 Inl err \<Rightarrow> Inl err | Inr (dst, data, field_len) \<Rightarrow> Inr (Some dst, data, field_len)))"

text \<open>
  The field decoders return the invoice, the \<open>have_field\<close> flag and the advanced data; the outer
  \<open>None\<close> is a failed assertion, that the field was not seen before.
\<close>

definition decode_p ::
  "bolt11 \<Rightarrow> u8 list \<Rightarrow> nat \<Rightarrow> bool \<Rightarrow> (string + bolt11 \<times> bool \<times> u8 list \<times> nat) option" where
  "decode_p b11 data field_len have =
     (if have then None
      else Some (case pull_expected_length data field_len 52 of
        (_, Inl err) \<Rightarrow> Inl err
      | (have, Inr (_, data, field_len)) \<Rightarrow> Inr (b11, have, data, field_len)))"

definition decode_d ::
  "bolt11 \<Rightarrow> u8 list \<Rightarrow> nat \<Rightarrow> bool \<Rightarrow> (string + bolt11 \<times> bool \<times> u8 list \<times> nat) option" where
  "decode_d b11 data field_len have =
     (if have then None
      else case pull_all data field_len False of
        Inl err \<Rightarrow> Some (Inl err)
      | Inr (desc, data, field_len) \<Rightarrow> do {
          d \<leftarrow> utf8_str desc;
          Some (case d of
                  None \<Rightarrow> Inl ''d: invalid utf8''
                | Some d \<Rightarrow> Inr (b11\<lparr>b11_description := Some d\<rparr>, True, data, field_len)) })"

definition decode_h ::
  "bolt11 \<Rightarrow> u8 list \<Rightarrow> nat \<Rightarrow> bool \<Rightarrow> (string + bolt11 \<times> bool \<times> u8 list \<times> nat) option" where
  "decode_h b11 data field_len have =
     (if have then None
      else Some (case pull_expected_length data field_len 52 of
        (_, Inl err) \<Rightarrow> Inl err
      | (have, Inr (hash, data, field_len)) \<Rightarrow>
          Inr (if have then b11\<lparr>b11_description_hash := hash\<rparr> else b11, have, data, field_len)))"

definition decode_x ::
  "bolt11 \<Rightarrow> u8 list \<Rightarrow> nat \<Rightarrow> bool \<Rightarrow> (string + bolt11 \<times> bool \<times> u8 list \<times> nat) option" where
  "decode_x b11 data field_len have =
     (if have then None
      else Some (case pull_uint data field_len (field_len * 5) of
        Inl err \<Rightarrow> Inl (''x: '' @ err)
      | Inr (expiry, data, field_len) \<Rightarrow> Inr (b11\<lparr>b11_expiry := expiry\<rparr>, True, data, field_len)))"

definition new_bolt11 :: bolt11 where
  "new_bolt11 = \<lparr>b11_msat = None, b11_timestamp = 0, b11_expiry = 3600,
     b11_description = None, b11_description_hash = None\<rparr>"

text \<open>The table of decoders by letter; none of them allows duplicates.\<close>

definition find_decoder :: "u8 \<Rightarrow>
  (bolt11 \<Rightarrow> u8 list \<Rightarrow> nat \<Rightarrow> bool \<Rightarrow> (string + bolt11 \<times> bool \<times> u8 list \<times> nat) option) option" where
  "find_decoder c =
     (if c = of_char CHR ''p'' then Some decode_p
      else if c = of_char CHR ''d'' then Some decode_d
      else if c = of_char CHR ''h'' then Some decode_h
      else if c = of_char CHR ''x'' then Some decode_x
      else None)"

lemma pull_bits_len: "pull_bits data len n pad = Inr (dst, data', len') \<Longrightarrow> len' \<le> len"
  by (auto simp: pull_bits_def Let_def split: if_splits prod.splits)

lemma pull_uint_len: "pull_uint data len 5 = Inr (v, data', len') \<Longrightarrow> len = Suc len'"
  by (auto simp: pull_uint_def pull_bits_def Let_def split: if_splits prod.splits sum.splits)

lemma pull_uint_le: "pull_uint data len n = Inr (v, data', len') \<Longrightarrow> len' \<le> len"
  by (auto simp: pull_uint_def split: if_splits prod.splits sum.splits dest: pull_bits_len)

lemma tag_and_length_len:
  "pull_uint data len 5 = Inr (v, data1, len1) \<Longrightarrow> pull_uint data1 len1 n = Inr (w, data2, len2) \<Longrightarrow> len2 < len"
  using pull_uint_len[of data len v data1 len1] pull_uint_le[of data1 len1 n w data2 len2] by simp

text \<open>
  The loop over the tagged fields, which stops before the 104 groups of the signature. Result:
  the invoice and the flags, an error, or a failed assertion.
\<close>

function bolt11_fields ::
  "u8 list \<Rightarrow> nat \<Rightarrow> bolt11 \<Rightarrow> (nat \<Rightarrow> bool) \<Rightarrow> (string + bolt11 \<times> (nat \<Rightarrow> bool)) option" where
  "bolt11_fields data data_len b11 have_field =
     (if data_len > 104 then
        (case pull_uint data data_len 5 of
           Inl err \<Rightarrow> Some (Inl err)
         | Inr (ty, data, data_len) \<Rightarrow>
        (case pull_uint data data_len 10 of
           Inl err \<Rightarrow> Some (Inl err)
         | Inr (field_len64, data, data_len) \<Rightarrow>
             if unat field_len64 > data_len then Some (Inl ''truncated'')
             else
               let field_len = unat field_len64;
                   data_len = data_len - field_len;
                   letter = bech32_charset ! unat ty
               in (case (if have_field (unat ty) then None else find_decoder letter) of
                     None \<Rightarrow>
                       (case unknown_field data field_len of
                          Inl err \<Rightarrow> Some (Inl err)
                        | Inr (data, field_len) \<Rightarrow>
                            if field_len \<noteq> 0 then Some (Inl ''extra bytes'')
                            else bolt11_fields data data_len b11 have_field)
                   | Some decode \<Rightarrow> do {
                       r \<leftarrow> decode b11 data field_len (have_field (unat ty));
                       case r of
                         Inl problem \<Rightarrow> Some (Inl problem)
                       | Inr (b11, have, data, field_len) \<Rightarrow>
                           if field_len \<noteq> 0 then Some (Inl ''extra bytes'')
                           else bolt11_fields data data_len b11 (have_field(unat ty := have)) })))
      else Some (Inr (b11, have_field)))"
  by pat_completeness auto
termination
  by (relation "measure (\<lambda>(d, n, b, h). n)") (auto dest!: tag_and_length_len split: if_splits)

declare bolt11_fields.simps [simp del]

section \<open>Amount and prefix\<close>

definition is_digit :: "u8 \<Rightarrow> bool" where
  "is_digit c \<longleftrightarrow> 48 \<le> c \<and> c \<le> 57"

definition multipliers :: "(u8 \<times> u64) list" where
  "multipliers = [
     (of_char CHR ''m'', 10 * (1000 * 100000000) div 1000),
     (of_char CHR ''u'', 10 * (1000 * 100000000) div 1000000),
     (of_char CHR ''n'', 10 * (1000 * 100000000) div 1000000000),
     (of_char CHR ''p'', 10 * (1000 * 100000000) div 1000000000000)]"

text \<open>\<open>strtoull\<close> in base 10 on digits: the value, saturated with \<open>ERANGE\<close>, and the rest.\<close>

primrec digits_val :: "u8 list \<Rightarrow> nat \<Rightarrow> nat" where
  "digits_val [] acc = acc"
| "digits_val (d # ds) acc = digits_val ds (10 * acc + (unat d - 48))"

definition strtoull :: "u8 list \<Rightarrow> u64 \<times> bool \<times> u8 list" where
  "strtoull s =
     (let n = digits_val (takeWhile is_digit s) 0 in
      if n < 2 ^ 64 then (word_of_nat n, False, dropWhile is_digit s)
      else (- 1, True, dropWhile is_digit s))"

text \<open>\<open>amountstr\<close> starts with a digit when it is not empty.\<close>

definition decode_amount :: "u8 list \<Rightarrow> string + u64 option" where
  "decode_amount amountstr =
     (if amountstr = [] then Inr None
      else
        let (m10, amountstr) =
              (case map_of multipliers (last amountstr) of
                 None \<Rightarrow> (10 * (1000 * 100000000), amountstr)
               | Some m10 \<Rightarrow> (m10, butlast amountstr));
            (amount, erange, rest) = strtoull amountstr
        in if amount = - 1 \<and> erange then Inl ''Invalid amount''
           else if amountstr = [] \<or> rest \<noteq> [] then Inl ''Invalid amount postfix''
           else if amount * m10 mod 10 \<noteq> 0 then Inl ''Invalid sub-millisatoshi amount''
           else Inr (Some (amount * m10 div 10)))"

section \<open>The decoder\<close>

definition has_lightning_prefix :: "u8 list \<Rightarrow> bool" where
  "has_lightning_prefix s \<longleftrightarrow> take 10 s = str ''lightning:'' \<or> take 10 s = str ''LIGHTNING:''"

definition to_canonical_invstr :: "u8 list \<Rightarrow> u8 list" where
  "to_canonical_invstr s = map tolower (if has_lightning_prefix s then drop 10 s else s)"

text \<open>The prefix without its NUL, and the data.\<close>

definition bech32_decode_alloc :: "u8 list \<Rightarrow> (u8 list \<times> u8 list) option" where
  "bech32_decode_alloc s =
     (case bech32_decode s (2 ^ 64 - 1) of
        (enc, hrp, data) \<Rightarrow>
          if enc \<noteq> BECH32_ENCODING_BECH32 then None else Some (butlast hrp, data))"

definition bolt11_decode_nosig :: "u8 list \<Rightarrow> (string + bolt11) option" where
  "bolt11_decode_nosig s =
     (if length s < 8 then Some (Inl ''Bad bech32 string'')
      else case bech32_decode_alloc s of
        None \<Rightarrow> Some (Inl ''Bad bech32 string'')
      | Some (hrp, data) \<Rightarrow>
          let prefix = takeWhile (\<lambda>c. \<not> is_digit c) hrp in
          if take 2 prefix \<noteq> str ''ln'' then Some (Inl ''Prefix does not start with ln'')
          else case decode_amount (drop (length prefix) hrp) of
            Inl err \<Rightarrow> Some (Inl err)
          | Inr msat \<Rightarrow>
              (case pull_uint data (length data) 35 of
                 Inl err \<Rightarrow> Some (Inl err)
               | Inr (timestamp, data, data_len) \<Rightarrow> do {
                   r \<leftarrow> bolt11_fields data data_len
                         (new_bolt11\<lparr>b11_msat := msat, b11_timestamp := timestamp\<rparr>) (\<lambda>_. False);
                   Some (case r of
                     Inl err \<Rightarrow> Inl err
                   | Inr (b11, have_field) \<Rightarrow>
                       if \<not> have_field (nat (bech32_charset_rev ! 112)) then Inl ''No valid p field found''
                       else if \<not> have_field (nat (bech32_charset_rev ! 100)) \<and>
                               \<not> have_field (nat (bech32_charset_rev ! 104)) then
                         Inl ''must have either d or h field''
                       else Inr b11) }))"

definition bolt11_decode_minimal :: "u8 list \<Rightarrow> (string + bolt11) option" where
  "bolt11_decode_minimal s = bolt11_decode_nosig (to_canonical_invstr s)"

section \<open>Strings with a space are rejected\<close>

lemma decode_hrp_no_space: "decode_hrp hrp chk lower upper = (Some r, st) \<Longrightarrow> 32 \<notin> set hrp"
  by (induction hrp arbitrary: chk lower upper st) (auto simp: Let_def split: prod.splits if_splits)

lemma decode_data_no_space: "decode_data xs chk lower upper = (Some r, st) \<Longrightarrow> 32 \<notin> set xs"
  by (induction xs arbitrary: chk lower upper st)
    (auto simp: Let_def bech32_charset_rev_def split: prod.splits if_splits)

lemma separator_split:
  assumes "k = length (takeWhile (\<lambda>x. x \<noteq> 49) (rev s))" "1 + k < length s"
  shows "s = take (length s - Suc k) s @ [49 :: u8] @ drop (length s - k) s"
proof -
  let ?t = "takeWhile (\<lambda>x. x \<noteq> 49) (rev s)" and ?d = "dropWhile (\<lambda>x. x \<noteq> 49) (rev s)"
  have "rev s = ?t @ ?d" by simp
  then have "length ?d = length s - k" using assms(1) by (metis add_diff_cancel_left' length_append length_rev)
  then have "length ?d \<noteq> 0" using assms(2) by simp
  then have d: "?d \<noteq> []" by (simp only: length_0_conv not_False_eq_True)
  then have h: "hd ?d = 49" using hd_dropWhile[of "\<lambda>x. x \<noteq> 49" "rev s"] by simp
  have "s = rev ?d @ rev ?t" by (metis rev_append rev_rev_ident takeWhile_dropWhile_id)
  also have "rev ?d = rev (tl ?d) @ [49]" using d h by (metis list.collapse rev.simps(2))
  finally have s: "s = rev (tl ?d) @ [49] @ rev ?t" by simp
  have "length s = length (rev (tl ?d) @ [49 :: u8] @ rev ?t)" using s by (rule arg_cong)
  also have "\<dots> = length (rev (tl ?d)) + 1 + length (rev ?t)" by simp
  finally have "length s = length (rev (tl ?d)) + 1 + length (rev ?t)" .
  then have l: "length s - Suc k = length (rev (tl ?d))" "length s - k = Suc (length (rev (tl ?d)))"
    using assms(1) by simp_all
  have "take (length (rev (tl ?d))) s = rev (tl ?d)" "drop (Suc (length (rev (tl ?d)))) s = rev ?t"
    using arg_cong[OF s, of "take (length (rev (tl ?d)))"] arg_cong[OF s, of "drop (Suc (length (rev (tl ?d))))"] by simp_all
  then show ?thesis unfolding l using s by simp
qed

lemma bech32_decode_no_space:
  assumes "32 \<in> set s" and "length s < 2 ^ 64"
  shows "fst (bech32_decode_len s 10) = BECH32_ENCODING_NONE"
proof (rule ccontr)
  assume acc: "fst (bech32_decode_len s 10) \<noteq> BECH32_ENCODING_NONE"
  define k where "k = length (takeWhile (\<lambda>x. x \<noteq> 49) (rev s))"
  define n where "n = (int (length s) - (1 + int k)) mod 2 ^ 64"
  have nk: "1 + k < length s" 
    using acc unfolding bech32_decode_len_def Let_def k_def[symmetric] by (auto split: if_splits)
  then have n: "nat n = length s - Suc k" using assms(2) by (simp add: n_def)
  obtain r st where a: "decode_hrp (take (nat n) s) 1 False False = (Some r, st)"
    using acc unfolding bech32_decode_len_def Let_def k_def[symmetric] n_def[symmetric]
    by (auto split: if_splits prod.splits option.splits)
  obtain chk lower upper r2 st2 where b: "decode_data (drop (nat n + 1) s) chk lower upper = (Some r2, st2)"
    using acc unfolding bech32_decode_len_def Let_def k_def[symmetric] n_def[symmetric]
    by (auto split: if_splits prod.splits option.splits)
  have "drop (nat n + 1) s = drop (length s - k) s" using n nk by (simp add: Suc_diff_Suc)
  then have "32 \<notin> set (take (length s - Suc k) s)" "32 \<notin> set (drop (length s - k) s)"
    using decode_hrp_no_space[OF a] decode_data_no_space[OF b] n by auto
  then have "32 \<notin> set (take (length s - Suc k) s @ [49] @ drop (length s - k) s)" by simp
  then have "32 \<notin> set s" using separator_split[OF k_def nk] by metis
  with assms(1) show False by simp
qed

lemma bolt11_space_bad:
  assumes "32 \<in> set s" and "length s < 2 ^ 64"
  shows "bolt11_decode_minimal s = Some (Inl ''Bad bech32 string'')"
proof -
  define t where "t = to_canonical_invstr s"
  have "tolower 32 = 32" by (simp add: tolower_def)
  moreover have "32 \<in> set (if has_lightning_prefix s then drop 10 s else s)"
  proof (cases "has_lightning_prefix s")
    case True
    then have "32 \<notin> set (take 10 s)" by (auto simp: has_lightning_prefix_def str_def)
    with assms(1) have "32 \<in> set (drop 10 s)" by (metis Un_iff append_take_drop_id set_append)
    with True show ?thesis by simp
  qed (use assms in simp)
  ultimately have "32 \<in> set t" unfolding t_def to_canonical_invstr_def set_map by (metis imageI)
  moreover have "length t < 2 ^ 64" using assms(2) by (auto simp: t_def to_canonical_invstr_def)
  ultimately have "fst (bech32_decode_len t 10) = BECH32_ENCODING_NONE" by (rule bech32_decode_no_space)
  then have "bech32_decode_alloc t = None"
    by (auto simp: bech32_decode_alloc_def bech32_decode_def split: prod.splits)
  then show ?thesis by (simp add: bolt11_decode_minimal_def bolt11_decode_nosig_def flip: t_def)
qed

text \<open>
  An invoice string that contains a space anywhere, for instance because more text follows
  it, is rejected as a bad bech32 string.
\<close>

theorem bolt11_rejects_trailing_text:
  assumes "32 \<in> set s" and "length s < 2 ^ 64"
  shows "bolt11_decode_minimal s = Some (Inl ''Bad bech32 string'')"
  using assms by (rule bolt11_space_bad)

theorem bolt11_rejects_trailing_text_witness:
  "bolt11_decode_minimal (str ''lnbc1qqqqqqqqqq thanks'') = Some (Inl ''Bad bech32 string'')"
  by (rule bolt11_rejects_trailing_text) (simp_all add: str_def)

section \<open>Amounts\<close>

lemma digits_val_bound:
  "list_all is_digit ds \<Longrightarrow> digits_val ds acc < Suc acc * 10 ^ length ds"
proof (induction ds arbitrary: acc)
  case Nil
  then show ?case by simp
next
  case (Cons d ds)
  then have "unat d \<le> 57" by (simp add: is_digit_def word_le_nat_alt)
  then have "Suc (10 * acc + (unat d - 48)) \<le> Suc acc * 10" by simp
  then have "Suc (10 * acc + (unat d - 48)) * 10 ^ length ds \<le> Suc acc * 10 * 10 ^ length ds"
    by (rule mult_le_mono1)
  moreover have "digits_val ds (10 * acc + (unat d - 48)) < Suc (10 * acc + (unat d - 48)) * 10 ^ length ds"
    using Cons by simp
  ultimately show ?case by (simp add: algebra_simps)
qed

lemma multipliers_eq: "multipliers = [(109, 1000000000), (117, 1000000), (110, 1000), (112, 1)]"
  by (simp add: multipliers_def)

lemma amount_cases:
  assumes "decode_amount s = Inr (Some a)"
  obtains ds m10 where "list_all is_digit ds" "ds \<noteq> []" "digits_val ds 0 < 2 ^ 64"
    "s = ds \<and> m10 = 1000000000000 \<or> (\<exists>l. (l, m10) \<in> set multipliers \<and> s = ds @ [l])"
    "word_of_nat (digits_val ds 0) * m10 mod 10 = 0" "a = word_of_nat (digits_val ds 0) * m10 div 10"
proof -
  obtain m10 ds where c: "(case map_of multipliers (last s) of None \<Rightarrow> (10 * (1000 * 100000000), s) | Some m10 \<Rightarrow> (m10, butlast s)) = (m10, ds)"
    by fastforce
  obtain amount erange rest where st: "strtoull ds = (amount, erange, rest)" by (metis prod_cases3)
  have s: "s \<noteq> []" using assms by (auto simp: decode_amount_def)
  have r: "\<not> (amount = - 1 \<and> erange)" "ds \<noteq> []" "rest = []" "amount * m10 mod 10 = 0" "a = amount * m10 div 10"
    using assms s st unfolding decode_amount_def Let_def c by (auto split: if_splits)
  have d: "dropWhile is_digit ds = []" using st r(3) by (auto simp: strtoull_def Let_def split: if_splits)
  then have dig: "list_all is_digit ds" "takeWhile is_digit ds = ds"
    by (auto simp: dropWhile_eq_Nil_conv list_all_iff takeWhile_eq_all_conv)
  have a: "digits_val ds 0 < 2 ^ 64" "amount = word_of_nat (digits_val ds 0)"
    using st r(1) unfolding strtoull_def dig(2) by (auto simp: Let_def split: if_splits)
  have "s = ds \<and> m10 = 1000000000000 \<or> (\<exists>l. (l, m10) \<in> set multipliers \<and> s = ds @ [l])"
  proof (cases "map_of multipliers (last s)")
    case None
    with c show ?thesis by simp
  next
    case (Some k)
    with c have "k = m10" "butlast s = ds" by simp_all
    with map_of_SomeD[OF Some] s show ?thesis by (metis append_butlast_last_id)
  qed
  from that[OF dig(1) r(2) a(1) this] r(4,5) a(2) show ?thesis by simp
qed



text \<open>
  Without the mainnet prefix the multiplication wraps: a prefix \<open>ln\<close> followed by eight digits is
  accepted, and an amount of 92233721 bitcoin is decoded as 63145224192 millisatoshis.
\<close>

theorem invoice_amount_wraps:
  "decode_amount (str ''92233721'') = Inr (Some 63145224192)"
  by (simp add: decode_amount_def str_def multipliers_eq strtoull_def is_digit_def word_le_nat_alt)

section \<open>Descriptions and lengths\<close>

definition utf8_inv :: "utf8_state \<Rightarrow> bool" where
  "utf8_inv s \<longleftrightarrow> used_len s = total_len s \<or> total_len s \<in> {2, 3, 4}"

lemma utf8_finished_ok: "total_len s \<in> {1, 2, 3, 4} \<Longrightarrow> \<exists>e. utf8_finished s = Some e"
  by (auto simp: utf8_finished_def)

lemma utf8_decode_ok:
  assumes "utf8_inv s"
  shows "ok (utf8_decode s c) (\<lambda>(r, e, s'). utf8_inv s' \<and> (c = 0 \<longrightarrow> r \<and> e = Some EINVAL))"
proof -
  let ?s1 = "s\<lparr>used_len := 1, total_len := 1, utf8_c := ucast c\<rparr>"
  let ?s2 = "s\<lparr>utf8_c := push_bit 6 (utf8_c s) OR ucast (c AND 0x3F), used_len := used_len s + 1\<rparr>"
  obtain e1 where "utf8_finished ?s1 = Some e1" using utf8_finished_ok[of ?s1] by auto
  moreover have "used_len s \<noteq> total_len s \<Longrightarrow> \<exists>e. utf8_finished ?s2 = Some e"
    using utf8_finished_ok[of ?s2] assms by (auto simp: utf8_inv_def)
  ultimately show ?thesis
    using assms by (auto simp: utf8_decode_def utf8_inv_def Let_def)
qed

lemma utf8_check_loop_ok:
  "utf8_inv s \<Longrightarrow> ok (utf8_check_loop buf s need_more) (\<lambda>r. r \<longrightarrow> 0 \<notin> set buf)"
proof (induction buf arbitrary: s need_more)
  case Nil
  then show ?case by simp
next
  case (Cons b buf)
  obtain r e s' where d: "utf8_decode s b = Some (r, e, s')" "utf8_inv s'" "b = 0 \<longrightarrow> r \<and> e = Some EINVAL"
    using utf8_decode_ok[OF Cons.prems, of b] by (auto simp: ok_iff)
  from Cons.IH[OF d(2)] d(1,3) show ?case by (fastforce simp: ok_iff)
qed

lemma utf8_str_ok: "\<exists>r. utf8_str buf = Some r \<and> (\<forall>d. r = Some d \<longrightarrow> d = buf \<and> 0 \<notin> set d)"
  using utf8_check_loop_ok[of "\<lparr>total_len = 0, used_len = 0, utf8_c = 0\<rparr>" buf False]
  by (auto simp: utf8_str_def utf8_check_def utf8_inv_def ok_iff takeWhile_eq_all_conv dest: set_takeWhileD)

lemma emit_groups_length:
  "0 < outbits \<Longrightarrow> emit_groups outbits val bits = (out, rest) \<Longrightarrow> outbits * length out + rest = bits \<and> rest < outbits"
proof (induction bits arbitrary: out rest rule: less_induct)
  case (less bits)
  show ?case
  proof (cases "outbits \<le> bits")
    case True
    obtain out' where o: "emit_groups outbits val (bits - outbits) = (out', rest)" "length out = Suc (length out')"
      using less.prems True by (subst (asm) emit_groups.simps) (auto simp: Let_def split: prod.splits)
    have "outbits * length out' + rest = bits - outbits \<and> rest < outbits"
      using less.IH[OF _ less.prems(1) o(1)] True less.prems(1) by simp
    with True o(2) show ?thesis by (auto simp: algebra_simps)
  next
    case False
    with less.prems show ?thesis by (subst (asm) emit_groups.simps) auto
  qed
qed

lemma convert_loop_length:
  "0 < outbits \<Longrightarrow> bits < outbits \<Longrightarrow> convert_loop xs outbits inbits val bits = (out, val', bits') \<Longrightarrow>
     outbits * length out + bits' = bits + inbits * length xs \<and> bits' < outbits"
proof (induction xs arbitrary: val bits out)
  case Nil
  then show ?case by simp
next
  case (Cons x xs)
  let ?val = "push_bit inbits val OR ucast x"
  obtain o1 b1 o2 where e: "emit_groups outbits ?val (bits + inbits) = (o1, b1)"
    "convert_loop xs outbits inbits ?val b1 = (o2, val', bits')" "out = o1 @ o2"
    using Cons.prems(3) by (auto simp: Let_def split: prod.splits)
  note 1 = emit_groups_length[OF Cons.prems(1) e(1)]
  from Cons.IH[OF Cons.prems(1) _ e(2)] 1 show ?case by (simp add: e(3) algebra_simps)
qed

lemma pull_bits_spec:
  assumes "pull_bits data len (5 * n) pad = Inr (dst, data', len')" and "len \<le> length data"
  shows "n \<le> len \<and> data' = drop n data \<and> len' = len - n \<and> (\<not> pad \<longrightarrow> length dst = 5 * n div 8)"
proof -
  obtain out val bits where c: "convert_loop (take n data) 8 5 0 0 = (out, val, bits)" by (metis prod_cases3)
  have n: "n \<le> len" "data' = drop n data" "len' = len - n"
    using assms(1) by (auto simp: pull_bits_def Let_def split: if_splits prod.splits)
  moreover have "\<not> pad \<Longrightarrow> dst = out"
    using assms(1) c by (auto simp: pull_bits_def bech32_convert_bits_def Let_def split: if_splits)
  moreover have "8 * length out + bits = 5 * n \<and> bits < 8"
    using convert_loop_length[OF _ _ c] n(1) assms(2) by simp
  ultimately show ?thesis by auto
qed

section \<open>Decoded invoices\<close>

text \<open>
  What holds of an invoice while its fields are decoded: a seen \<open>d\<close> or \<open>h\<close> field (13 and 23 in the
  alphabet) has set its value, a description has no NUL and a hash has 32 bytes.
\<close>

definition bolt11_ok :: "bolt11 \<Rightarrow> (nat \<Rightarrow> bool) \<Rightarrow> bool" where
  "bolt11_ok b have_field \<longleftrightarrow>
     (have_field 13 \<longrightarrow> b11_description b \<noteq> None) \<and> (have_field 23 \<longrightarrow> b11_description_hash b \<noteq> None) \<and>
     pred_option (\<lambda>d. 0 \<notin> set d) (b11_description b) \<and> pred_option (\<lambda>h. length h = 32) (b11_description_hash b)"

text \<open>The contract of a field decoder whose letter has index \<open>k\<close>, as the loop relies on it.\<close>

locale field_decoder =
  fixes decode :: "bolt11 \<Rightarrow> u8 list \<Rightarrow> nat \<Rightarrow> bool \<Rightarrow> (string + bolt11 \<times> bool \<times> u8 list \<times> nat) option"
    and k :: nat
  assumes decode_ok: "bolt11_ok b hf \<Longrightarrow> n \<le> length data \<Longrightarrow>
    ok (decode b data n False) (\<lambda>r. \<forall>b' hv data' n'. r = Inr (b', hv, data', n') \<longrightarrow>
      bolt11_ok b' (hf(k := hv)) \<and> data' = drop n data \<and> n' = 0)"

lemma pull_all_spec:
  "pull_all data n pad = Inr (dst, data', n') \<Longrightarrow> n \<le> length data \<Longrightarrow> data' = drop n data \<and> n' = 0"
  using pull_bits_spec[of data n n pad dst data' n'] by (simp add: pull_all_def mult.commute)

lemma unknown_field_spec:
  "unknown_field data n = Inr (data', n') \<Longrightarrow> n \<le> length data \<Longrightarrow> data' = drop n data \<and> n' = 0"
  by (auto simp: unknown_field_def split: sum.splits prod.splits dest!: pull_all_spec)

lemma pull_expected_length_spec:
  "pull_expected_length data n 52 = (hv, Inr (dst, data', n')) \<Longrightarrow> n \<le> length data \<Longrightarrow>
     data' = drop n data \<and> n' = 0 \<and> (hv \<longrightarrow> (\<exists>h. dst = Some h \<and> length h = 32))"
  using pull_bits_spec[of data 52 52 False]
  by (auto simp: pull_expected_length_def split: if_splits sum.splits prod.splits dest!: unknown_field_spec)

interpretation p_field: field_decoder decode_p 1
  by unfold_locales (auto simp: decode_p_def bolt11_ok_def split: prod.splits sum.splits dest!: pull_expected_length_spec)

interpretation h_field: field_decoder decode_h 23
  by unfold_locales
    (auto simp: decode_h_def bolt11_ok_def split: prod.splits sum.splits dest!: pull_expected_length_spec)

interpretation d_field: field_decoder decode_d 13
proof unfold_locales
  fix b hf n and data :: "u8 list"
  assume b: "bolt11_ok b hf" "n \<le> length data"
  show "ok (decode_d b data n False) (\<lambda>r. \<forall>b' hv data' n'. r = Inr (b', hv, data', n') \<longrightarrow>
      bolt11_ok b' (hf(13 := hv)) \<and> data' = drop n data \<and> n' = 0)"
  proof (cases "pull_all data n False")
    case (Inl e)
    then show ?thesis by (simp add: decode_d_def)
  next
    case (Inr x)
    obtain desc data1 n1 where x: "x = (desc, data1, n1)" by (metis prod_cases3)
    obtain r where "utf8_str desc = Some r" "\<forall>d. r = Some d \<longrightarrow> d = desc \<and> 0 \<notin> set d" using utf8_str_ok by blast
    with b pull_all_spec[OF Inr[unfolded x] b(2)] show ?thesis
      by (auto simp: decode_d_def Inr x bolt11_ok_def split: option.splits)
  qed
qed

lemma pull_uint_spec:
  "pull_uint data n (5 * k) = Inr (v, data', n') \<Longrightarrow> n \<le> length data \<Longrightarrow> k \<le> n \<and> data' = drop k data \<and> n' = n - k"
  using pull_bits_spec[of data n k True] by (auto simp: pull_uint_def split: if_splits sum.splits prod.splits)

interpretation x_field: field_decoder decode_x 6
proof unfold_locales
  fix b hf n and data :: "u8 list"
  assume "bolt11_ok b hf" "n \<le> length data"
  then show "ok (decode_x b data n False) (\<lambda>r. \<forall>b' hv data' n'. r = Inr (b', hv, data', n') \<longrightarrow>
      bolt11_ok b' (hf(6 := hv)) \<and> data' = drop n data \<and> n' = 0)"
    using pull_uint_spec[of data n n]
    by (auto simp: decode_x_def bolt11_ok_def mult.commute split: sum.splits prod.splits)
qed

lemma charset_letters:
  assumes "i < 32"
  shows "(bech32_charset ! i = 112) = (i = 1)" "(bech32_charset ! i = 100) = (i = 13)"
    "(bech32_charset ! i = 104) = (i = 23)" "(bech32_charset ! i = 120) = (i = 6)"
proof -
  have "list_all (\<lambda>i. ((bech32_charset ! i = 112) = (i = 1)) \<and> ((bech32_charset ! i = 100) = (i = 13)) \<and>
      ((bech32_charset ! i = 104) = (i = 23)) \<and> ((bech32_charset ! i = 120) = (i = 6))) [0..<32]"
    by (simp add: bech32_charset_def str_def upt_rec[of _ 32])
  moreover have "i \<in> set [0..<32]" using assms by simp
  ultimately show "(bech32_charset ! i = 112) = (i = 1)" "(bech32_charset ! i = 100) = (i = 13)"
    "(bech32_charset ! i = 104) = (i = 23)" "(bech32_charset ! i = 120) = (i = 6)"
    unfolding list_all_iff by blast+
qed

lemma find_decoder_ok:
  assumes "i < 32" and "find_decoder (bech32_charset ! i) = Some decode"
  shows "field_decoder decode i"
  using assms p_field.field_decoder_axioms d_field.field_decoder_axioms
    h_field.field_decoder_axioms x_field.field_decoder_axioms
  by (auto simp: find_decoder_def charset_letters split: if_splits)

lemma pull_uint_5_bound: "pull_uint data n 5 = Inr (v, data', n') \<Longrightarrow> unat v < 32"
proof -
  assume "pull_uint data n 5 = Inr (v, data', n')"
  then obtain w :: u64 where "v = drop_bit 59 w" by (auto simp: pull_uint_def split: if_splits sum.splits prod.splits)
  moreover have "unat w < 2 ^ 64" using unsigned_less[of w] by simp
  ultimately show ?thesis by (simp only: unat_drop_bit_eq) (simp add: drop_bit_eq_div)
qed

lemma bolt11_fields_ok:
  "data_len \<le> length data \<Longrightarrow> bolt11_ok b11 hf \<Longrightarrow>
     ok (bolt11_fields data data_len b11 hf) (\<lambda>r. \<forall>b h. r = Inr (b, h) \<longrightarrow> bolt11_ok b h)"
proof (induction data_len arbitrary: data b11 hf rule: less_induct)
  case (less n)
  show ?case
  proof (cases "n > 104")
    case False
    then show ?thesis using less.prems(2) by (simp add: bolt11_fields.simps[of data n])
  next
    case True
    show ?thesis
    proof (cases "pull_uint data n 5")
      case (Inl e)
      then show ?thesis using True by (simp add: bolt11_fields.simps[of data n])
    next
      case tag: (Inr x)
      obtain ty d1 n1 where x: "x = (ty, d1, n1)" by (metis prod_cases3)
      have 1: "d1 = drop 1 data" "n1 = n - 1" "unat ty < 32"
        using pull_uint_spec[of data n 1 ty d1 n1] tag x less.prems(1) pull_uint_5_bound by auto
      show ?thesis
      proof (cases "pull_uint d1 n1 10")
        case (Inl e)
        then show ?thesis using True tag x by (simp add: bolt11_fields.simps[of data n])
      next
        case flen: (Inr y)
        obtain fl d2 n2 where y: "y = (fl, d2, n2)" by (metis prod_cases3)
        have 2: "d2 = drop 2 d1" "n2 = n1 - 2" "2 \<le> n1"
          using pull_uint_spec[of d1 n1 2 fl d2 n2] flen y 1 less.prems(1) by auto
        define k where "k = unat fl"
        have lt: "n2 - k < n" "k \<le> n2 \<Longrightarrow> k \<le> length d2" "k \<le> n2 \<Longrightarrow> n2 - k \<le> length (drop k d2)"
          using 1 2 True less.prems(1) by auto
        note step = bolt11_fields.simps[of data n b11 hf] True tag x flen y
        show ?thesis
        proof (cases "k > n2")
          case True
          then show ?thesis using step by (simp add: k_def)
        next
          case le: False
          show ?thesis
          proof (cases "if hf (unat ty) then None else find_decoder (bech32_charset ! unat ty)")
            case None
            show ?thesis
            proof (cases "unknown_field d2 k")
              case (Inl e)
              then show ?thesis using step le None by (simp add: k_def)
            next
              case (Inr z)
              then obtain d3 where "unknown_field d2 k = Inr (d3, 0)" "d3 = drop k d2"
                using unknown_field_spec[of d2 k] lt le by (cases z) fastforce
              then show ?thesis using step le None less.IH[OF lt(1) _ less.prems(2)] lt(3) by (simp add: k_def Let_def)
            qed
          next
            case (Some decode)
            then have f: "\<not> hf (unat ty)" "field_decoder decode (unat ty)"
              using find_decoder_ok[OF 1(3)] by (auto split: if_splits)
            obtain r where r: "decode b11 d2 k False = Some r" "\<forall>b' hv data' n'. r = Inr (b', hv, data', n') \<longrightarrow>
                bolt11_ok b' (hf(unat ty := hv)) \<and> data' = drop k d2 \<and> n' = 0"
              using field_decoder.decode_ok[OF f(2) less.prems(2) lt(2)] le by (auto simp: ok_iff)
            show ?thesis
            proof (cases r)
              case (Inl e)
              then show ?thesis using step le Some f(1) r(1) by (simp add: k_def)
            next
              case (Inr z)
              then obtain b' hv where z: "r = Inr (b', hv, drop k d2, 0)" "bolt11_ok b' (hf(unat ty := hv))"
                using r(2) by (metis prod_cases4)
              then show ?thesis
                using step le Some f(1) r(1) less.IH[OF lt(1) _ z(2), of "drop k d2"] lt(3)
                by (simp add: k_def Let_def fun_upd_def)
            qed
          qed
        qed
      qed
    qed
  qed
qed

lemma bolt11_decode_ok:
  "ok (bolt11_decode_minimal s) (\<lambda>r. case r of Inl _ \<Rightarrow> True | Inr b \<Rightarrow>
     (b11_description b \<noteq> None \<or> b11_description_hash b \<noteq> None) \<and>
     pred_option (\<lambda>d. 0 \<notin> set d) (b11_description b) \<and> pred_option (\<lambda>h. length h = 32) (b11_description_hash b))"
proof -
  define t where "t = to_canonical_invstr s"
  have rev: "nat (bech32_charset_rev ! 112) = 1" "nat (bech32_charset_rev ! 100) = 13" "nat (bech32_charset_rev ! 104) = 23"
    by (simp_all add: bech32_charset_rev_def)
  have f: "ok (bolt11_fields d n (new_bolt11\<lparr>b11_msat := a, b11_timestamp := ts\<rparr>) (\<lambda>_. False))
      (\<lambda>r. \<forall>b h. r = Inr (b, h) \<longrightarrow> bolt11_ok b h)" if "n \<le> length d" for d n a ts
    by (rule bolt11_fields_ok[OF that]) (simp add: bolt11_ok_def new_bolt11_def)
  show ?thesis
  proof (cases "bech32_decode_alloc t")
    case None
    then show ?thesis by (simp add: bolt11_decode_minimal_def bolt11_decode_nosig_def flip: t_def)
  next
    case (Some hd')
    obtain hrp data where hd: "hd' = (hrp, data)" by fastforce
    show ?thesis
    proof (cases "decode_amount (drop (length (takeWhile (\<lambda>c. \<not> is_digit c) hrp)) hrp)")
      case (Inl e)
      then show ?thesis
        using Some hd by (simp add: bolt11_decode_minimal_def bolt11_decode_nosig_def Let_def flip: t_def)
    next
      case msat: (Inr a)
      show ?thesis
      proof (cases "pull_uint data (length data) 35")
        case (Inl e)
        then show ?thesis
          using Some hd msat by (simp add: bolt11_decode_minimal_def bolt11_decode_nosig_def Let_def flip: t_def)
      next
        case (Inr x)
        obtain ts d n where x: "x = (ts, d, n)" by (metis prod_cases3)
        have "n \<le> length d" using pull_uint_spec[of data "length data" 7 ts d n] Inr x by auto
        from f[OF this, where a = a and ts = ts] obtain r where r: "bolt11_fields d n (new_bolt11\<lparr>b11_msat := a, b11_timestamp := ts\<rparr>) (\<lambda>_. False) = Some r"
          "\<forall>b h. r = Inr (b, h) \<longrightarrow> bolt11_ok b h"
          unfolding ok_iff by blast
        with Some hd msat Inr x show ?thesis
          by (cases r) (auto simp: bolt11_decode_minimal_def bolt11_decode_nosig_def Let_def rev bolt11_ok_def
              simp flip: t_def)
      qed
    qed
  qed
qed

text \<open>
  C10 The invoice decoder always returns: no assertion fails and \<open>abort\<close> is not reached, whatever the
  string. An invoice it accepts has a description or a description hash, the description has
  no NUL byte and the hash has 32 bytes, which is what \<open>ndb_encode_invoice\<close> relies on.
\<close>

theorem bolt11_decode_total:
  "ok (bolt11_decode_minimal s) (\<lambda>r. case r of Inl _ \<Rightarrow> True | Inr b \<Rightarrow>
     \<not> (b11_description b = None \<and> b11_description_hash b = None) \<and>
     pred_option (\<lambda>d. 0 \<notin> set d) (b11_description b) \<and> pred_option (\<lambda>h. length h = 32) (b11_description_hash b))"
  using bolt11_decode_ok[of s] by (simp only: de_Morgan_conj)

end
