(* ===== verification/Content_Parser.thy ===== *)
theory Content_Parser
  imports Bolt11
begin

text \<open>
  The note content parser, \<open>src/src/content_parser.c\<close>: it scans the text of a note for hashtags,
  indexed mentions, links, invoices and nostr identifiers and writes the blocks, with the
  text between them, to an output buffer. The buffer and the content live in one memory.
\<close>

section \<open>Mentions and hashtags\<close>

text \<open>What the scanners hand to \<open>push_block\<close>: a block of a type with a text, or an index.\<close>

datatype parsed_block = Parsed_str ndb_block_type ndb_str_block | Parsed_index u32

record ndb_content_parser =
  p_buffer :: cursor
  p_content :: cursor
  p_blocks :: ndb_blocks

definition text_block :: "ptr \<Rightarrow> ptr \<Rightarrow> ndb_str_block" where
  "text_block start end' = \<lparr>sb_str = start, sb_len = word_of_int (end' - start)\<rparr>"

definition parse_digit :: "mem \<Rightarrow> cursor \<Rightarrow> (int option \<times> cursor) option" where
  "parse_digit m cur = do {
     c \<leftarrow> peek_char m cur 0;
     if c = -1 then Some (None, cur)
     else
       let c = c - 48 in
       if c \<ge> 0 \<and> c \<le> 9 then Some (Some c, cur\<lparr>cp := cp cur + 1\<rparr>) else Some (None, cur) }"

text \<open>Using the second digit when only the third was read would read an uninitialised variable.\<close>

definition parse_mention_index :: "mem \<Rightarrow> cursor \<Rightarrow> (parsed_block option \<times> cursor) option" where
  "parse_mention_index m cur = do {
     let start = cp cur;
     (r, cur) \<leftarrow> parse_str m cur (str ''#['');
     if \<not> r then Some (None, cur) else do {
     (d1, cur) \<leftarrow> parse_digit m cur;
     case d1 of None \<Rightarrow> Some (None, cur\<lparr>cp := start\<rparr>) | Some d1 \<Rightarrow> do {
     let ind = d1;
     (d2, cur) \<leftarrow> parse_digit m cur;
     let ind = (case d2 of None \<Rightarrow> ind | Some d2 \<Rightarrow> d1 * 10 + d2);
     (d3, cur) \<leftarrow> parse_digit m cur;
     ind \<leftarrow> (case d3 of
               None \<Rightarrow> Some ind
             | Some d3 \<Rightarrow> do { d2 \<leftarrow> d2; Some (d1 * 100 + d2 * 10 + d3) });
     (r, cur) \<leftarrow> parse_char m cur (asc CHR '']'');
     if \<not> r then Some (None, cur\<lparr>cp := start\<rparr>)
     else Some (Some (Parsed_index (word_of_int ind)), cur) }}}"

definition parse_hashtag :: "mem \<Rightarrow> cursor \<Rightarrow> (parsed_block option \<times> cursor) option" where
  "parse_hashtag m cur = do {
     let start = cp cur;
     (r, cur) \<leftarrow> parse_char m cur (asc CHR ''#'');
     if \<not> r then Some (None, cur) else do {
     c \<leftarrow> peek_char m cur 0;
     if c = -1 \<or> is_whitespace c \<or> c = asc CHR ''#'' then Some (None, cur\<lparr>cp := start\<rparr>)
     else do {
       (r, cur) \<leftarrow> consume_until_boundary m cur;
       Some (Some (Parsed_str BLOCK_HASHTAG (text_block (start + 1) (cp cur))), cur) }}}"

definition parse_invoice :: "mem \<Rightarrow> cursor \<Rightarrow> (parsed_block option \<times> cursor) option" where
  "parse_invoice m cur = do {
     (r, cur) \<leftarrow> parse_str m cur (str ''lightning:'');
     let start = cp cur;
     (r, cur) \<leftarrow> parse_str m cur (str ''lnbc'');
     if \<not> r then Some (None, cur) else do {
     (r, cur) \<leftarrow> consume_until_whitespace m cur True;
     if \<not> r then Some (None, cur\<lparr>cp := start\<rparr>)
     else
       let end' = cp cur in
       Some (Some (Parsed_str BLOCK_INVOICE (text_block start end')), cur\<lparr>cp := end'\<rparr>) }}"

definition parse_mention_bech32 :: "mem \<Rightarrow> cursor \<Rightarrow> (parsed_block option \<times> cursor) option" where
  "parse_mention_bech32 m cur = do {
     let start = cp cur;
     (r, cur) \<leftarrow> parse_char m cur (asc CHR ''@'');
     (r, cur) \<leftarrow> parse_str m cur (str ''nostr:'');
     let s = cp cur;
     (ty, cur) \<leftarrow> parse_nostr_bech32_str m cur;
     case ty of
       None \<Rightarrow> Some (None, cur\<lparr>cp := start\<rparr>)
     | Some ty \<Rightarrow> Some (Some (Parsed_str BLOCK_MENTION_BECH32 (text_block s (cp cur))), cur) }"

section \<open>Links\<close>

definition next_char_is_whitespace :: "mem \<Rightarrow> ptr \<Rightarrow> ptr \<Rightarrow> bool option" where
  "next_char_is_whitespace m cur end' =
     (let next = cur + 1 in
      if next > end' then Some False
      else if next = end' then Some True
      else do { b \<leftarrow> load m next; Some (is_whitespace (uint b)) })"

definition char_disallowed_at_end_url :: "int \<Rightarrow> bool" where
  "char_disallowed_at_end_url x = (let c = to_char x in c = asc CHR ''.'' \<or> c = asc CHR '','')"

definition is_final_url_char :: "mem \<Rightarrow> ptr \<Rightarrow> ptr \<Rightarrow> bool option" where
  "is_final_url_char m cur end' = do {
     b \<leftarrow> load m cur;
     if is_whitespace (uint b) then Some True
     else do {
       n \<leftarrow> next_char_is_whitespace m cur end';
       if n then Some (char_disallowed_at_end_url (uint b)) else Some False } }"

text \<open>The loops over a part of a link: they move to the first position where \<open>stop\<close> holds.\<close>

function url_scan :: "(mem \<Rightarrow> ptr \<Rightarrow> ptr \<Rightarrow> bool option) \<Rightarrow> mem \<Rightarrow> cursor \<Rightarrow> cursor option" where
  "url_scan stop m cur =
     (if cp cur < cend cur then do {
        b \<leftarrow> stop m (cp cur) (cend cur);
        if b then Some cur else url_scan stop m (cur\<lparr>cp := cp cur + 1\<rparr>) }
      else Some cur)"
  by pat_completeness auto
termination
  by (relation "measure (\<lambda>(s, m, c). nat (cend c - cp c))") auto

declare url_scan.simps [simp del]

definition consume_until_end_url :: "mem \<Rightarrow> cursor \<Rightarrow> bool \<Rightarrow> (bool \<times> cursor) option" where
  "consume_until_end_url m cur or_end = do {
     let start = cp cur;
     cur \<leftarrow> url_scan is_final_url_char m cur;
     Some (if cp cur < cend cur then cp cur \<noteq> start else or_end, cur) }"

definition consume_url_fragment :: "mem \<Rightarrow> cursor \<Rightarrow> (bool \<times> cursor) option" where
  "consume_url_fragment m cur = do {
     c \<leftarrow> peek_char m cur 0;
     if c < 0 then Some (True, cur)
     else if c \<noteq> asc CHR ''#'' \<and> c \<noteq> asc CHR ''?'' then Some (True, cur)
     else consume_until_end_url m (cur\<lparr>cp := cp cur + 1\<rparr>) True }"

definition url_path_stop :: "mem \<Rightarrow> ptr \<Rightarrow> ptr \<Rightarrow> bool option" where
  "url_path_stop m a end' = do {
     b \<leftarrow> load m a;
     if uint b = asc CHR ''?'' \<or> uint b = asc CHR ''#'' then Some True else is_final_url_char m a end' }"

definition consume_url_path :: "mem \<Rightarrow> cursor \<Rightarrow> (bool \<times> cursor) option" where
  "consume_url_path m cur = do {
     c \<leftarrow> peek_char m cur 0;
     if c < 0 then Some (True, cur)
     else if c \<noteq> asc CHR ''/'' then Some (True, cur)
     else do { cur \<leftarrow> url_scan url_path_stop m cur; Some (True, cur) } }"

definition url_host_stop :: "mem \<Rightarrow> ptr \<Rightarrow> ptr \<Rightarrow> bool option" where
  "url_host_stop m a end' = do {
     b \<leftarrow> load m a;
     if is_alphanumeric (uint b) \<or> uint b = asc CHR ''.'' \<or> uint b = asc CHR ''-'' then is_final_url_char m a end'
     else Some True }"

definition consume_url_host :: "mem \<Rightarrow> cursor \<Rightarrow> (bool \<times> cursor) option" where
  "consume_url_host m cur = do {
     cur' \<leftarrow> url_scan url_host_stop m cur;
     let count = cp cur' - cp cur;
     Some (count \<noteq> 0, cur') }"

text \<open>The scheme: \<open>http\<close>, an optional \<open>s\<close>, and the separator.\<close>

definition parse_url_scheme :: "mem \<Rightarrow> cursor \<Rightarrow> (bool \<times> cursor) option" where
  "parse_url_scheme m cur = do {
     let start = cp cur;
     (r, cur) \<leftarrow> parse_str m cur (str ''http'');
     if \<not> r then Some (False, cur) else do {
     (s, cur) \<leftarrow> parse_char m cur (asc CHR ''s'');
     (s, cur) \<leftarrow> (if s then Some (True, cur) else parse_char m cur (asc CHR ''S''));
     (r, cur) \<leftarrow> (if s then parse_str m cur (str ''://'') else parse_str m cur (str ''://''));
     if \<not> r then Some (False, cur\<lparr>cp := start\<rparr>) else Some (True, cur) }}"

text \<open>A link in parentheses does not include the closing one.\<close>

definition smart_parens :: "mem \<Rightarrow> cursor \<Rightarrow> ptr \<Rightarrow> cursor option" where
  "smart_parens m cur start =
     (if start - 1 \<ge> cstart cur \<and> start < cend cur then do {
        b \<leftarrow> load m (start - 1);
        if uint b = asc CHR ''('' \<and> cp cur - 1 < cend cur then do {
          b \<leftarrow> load m (cp cur - 1);
          Some (if uint b = asc CHR '')'' then cur\<lparr>cp := cp cur - 1\<rparr> else cur) }
        else Some cur }
      else Some cur)"

definition parse_url :: "mem \<Rightarrow> cursor \<Rightarrow> (parsed_block option \<times> cursor) option" where
  "parse_url m cur = do {
     let start = cp cur;
     (r, cur) \<leftarrow> parse_url_scheme m cur;
     if \<not> r then Some (None, cur) else do {
     let host = cp cur;
     (r, cur) \<leftarrow> consume_url_host m cur;
     if \<not> r then Some (None, cur\<lparr>cp := start\<rparr>) else do {
     let host_len = cp cur - host;
     let path_cur = copy_cursor cur;
     let (_, path_cur) = cursor_skip path_cur 1;
     (r, cur) \<leftarrow> consume_url_path m cur;
     if \<not> r then Some (None, cur\<lparr>cp := start\<rparr>) else do {
     (r, cur) \<leftarrow> consume_url_fragment m cur;
     if \<not> r then Some (None, cur\<lparr>cp := start\<rparr>) else do {
     cur \<leftarrow> smart_parens m cur start;
     let s = cp path_cur;
     damus \<leftarrow> (if host_len = 8 then strncmp_eq (str ''damus.io'') m host else Some False);
     (ty, path_cur) \<leftarrow> (if damus then parse_nostr_bech32_str m path_cur else Some (None, path_cur));
     if ty \<noteq> None then Some (Some (Parsed_str BLOCK_MENTION_BECH32 (text_block s (cp path_cur))), cur)
     else Some (Some (Parsed_str BLOCK_URL (text_block start (cp cur))), cur) }}}}}"

section \<open>Writing blocks\<close>

text \<open>The bytes of a C string: \<open>None\<close> where reading leaves the memory or never finds the NUL.\<close>

partial_function (option) c_string :: "mem \<Rightarrow> ptr \<Rightarrow> u8 list option" where
  "c_string m a = do {
     b \<leftarrow> load m a;
     if b = 0 then Some [] else do { s \<leftarrow> c_string m (a + 1); Some (b # s) } }"

text \<open>
  The payload is decoded in two slices of the output buffer, the groups of five bits in the
  second; the result stays in the first and its size is filled in afterwards.
\<close>

definition push_bech32_mention ::
  "mem \<Rightarrow> ndb_content_parser \<Rightarrow> ndb_str_block \<Rightarrow> (bool \<times> mem \<times> ndb_content_parser) option" where
  "push_bech32_mention m p bech32 = do {
     let start = cp (p_buffer p);
     let fail = (\<lambda>m. Some (False, m, p\<lparr>p_buffer := (p_buffer p)\<lparr>cp := start\<rparr>\<rparr>));
     r \<leftarrow> parse_nostr_bech32_type m (sb_str bech32);
     case r of None \<Rightarrow> fail m | Some (ty, _) \<Rightarrow> do {
     (r, m, buf) \<leftarrow> push_str_block m (p_buffer p) (cstart (p_content p)) bech32;
     if \<not> r then fail m else do {
     let u8_size = cp buf;
     let (r, buf) = cursor_skip buf 2;
     if \<not> r then fail m else do {
     (r, m, buf) \<leftarrow> cursor_push_varint m buf (bech32_type_val ty);
     if r = 0 then fail m else do {
     let (u8, buf) = cursor_malloc_slice buf (unat (sb_len bech32));
     case u8 of None \<Rightarrow> fail m | Some u8 \<Rightarrow> do {
     let (u5, buf) = cursor_malloc_slice buf (unat (sb_len bech32));
     case u5 of None \<Rightarrow> fail m | Some u5 \<Rightarrow> do {
     text \<leftarrow> loads (unat (sb_len bech32)) m (sb_str bech32);
     let (enc, prefix, groups) = bech32_decode_len text 8;
     if length prefix > 9 then None else do {
     m \<leftarrow> stores groups m (cp u5);
     if enc = BECH32_ENCODING_NONE then fail m else do {
     let (r, out) = bech32_convert_bits 8 groups 5 False;
     m \<leftarrow> stores out m (cp u8);
     if \<not> r then fail m
     else
       let buf = buf\<lparr>cp := cp u8 + int (length out)\<rparr> in
       if length out > 65535 then fail m
       else do {
         m \<leftarrow> stores (le_bytes 2 (word_of_nat (length out) :: u16)) m u8_size;
         Some (True, m, p\<lparr>p_buffer := buf\<rparr>) } }}}}}}}}}"

definition push_invoice_str ::
  "mem \<Rightarrow> ndb_content_parser \<Rightarrow> ndb_str_block \<Rightarrow> (bool \<times> mem \<times> ndb_content_parser) option" where
  "push_invoice_str m p s = do {
     text \<leftarrow> c_string m (sb_str s);
     b \<leftarrow> bolt11_decode_minimal text;
     case b of
       Inl _ \<Rightarrow> Some (False, m, p)
     | Inr bolt11 \<Rightarrow> do {
         let start = cp (p_buffer p);
         (r, m, buf) \<leftarrow> push_str_block m (p_buffer p) (cstart (p_content p)) s;
         if \<not> r then Some (False, m, p\<lparr>p_buffer := buf\<rparr>) else do {
         (r, m, buf) \<leftarrow> ndb_encode_invoice m buf bolt11;
         if \<not> r then Some (False, m, p\<lparr>p_buffer := buf\<lparr>cp := start\<rparr>\<rparr>)
         else Some (True, m, p\<lparr>p_buffer := buf\<rparr>) } } }"

text \<open>
  \<open>push_block\<close> and \<open>add_text_block\<close> call each other: a mention or an invoice that cannot be decoded is
  stored as text. A failure of the nested call goes to the label \<open>fail\<close>.
\<close>

definition count_block :: "ndb_content_parser \<Rightarrow> ndb_content_parser" where
  "count_block p = p\<lparr>p_blocks := (p_blocks p)\<lparr>num_blocks := num_blocks (p_blocks p) + 1\<rparr>\<rparr>"

definition set_buffer_p :: "ptr \<Rightarrow> ndb_content_parser \<Rightarrow> ndb_content_parser" where
  "set_buffer_p a p = p\<lparr>p_buffer := (p_buffer p)\<lparr>cp := a\<rparr>\<rparr>"

function push_block :: "mem \<Rightarrow> ndb_content_parser \<Rightarrow> parsed_block \<Rightarrow> (bool \<times> mem \<times> ndb_content_parser) option"
  and add_text_block :: "mem \<Rightarrow> ndb_content_parser \<Rightarrow> ptr \<Rightarrow> ptr \<Rightarrow> (bool \<times> mem \<times> ndb_content_parser) option" where
  "push_block m p block = do {
     let start = cp (p_buffer p);
     (r, m, buf) \<leftarrow> cursor_push_varint m (p_buffer p)
       (case block of Parsed_str ty _ \<Rightarrow> block_type_val ty | Parsed_index _ \<Rightarrow> block_type_val BLOCK_MENTION_INDEX);
     let p = p\<lparr>p_buffer := buf\<rparr>;
     if r = 0 then Some (False, m, p)
     else do {
       (r, m, p) \<leftarrow>
         (case block of
            Parsed_index i \<Rightarrow> do {
              (r, m, buf) \<leftarrow> cursor_push_varint m (p_buffer p) (ucast i);
              Some (r \<noteq> 0, m, p\<lparr>p_buffer := buf\<rparr>) }
          | Parsed_str ty s \<Rightarrow>
              if ty = BLOCK_MENTION_BECH32 then do {
                (r, m, p) \<leftarrow> push_bech32_mention m p s;
                if r then Some (True, m, p)
                else add_text_block m (set_buffer_p start p) (sb_str s) (sb_str s + uint (sb_len s)) }
              else if ty = BLOCK_INVOICE then do {
                (r, m, p) \<leftarrow> push_invoice_str m p s;
                if r then Some (True, m, p)
                else add_text_block m (set_buffer_p start p) (sb_str s) (sb_str s + uint (sb_len s)) }
              else do {
                (r, m, buf) \<leftarrow> push_str_block m (p_buffer p) (cstart (p_content p)) s;
                Some (r, m, p\<lparr>p_buffer := buf\<rparr>) });
       if r then Some (True, m, count_block p) else Some (False, m, set_buffer_p start p) } }"
| "add_text_block m p start end' =
     (if start = end' then Some (True, m, p)
      else push_block m p (Parsed_str BLOCK_TEXT (text_block start end')))"
  by pat_completeness auto
termination
  by (relation "measure (case_sum
        (\<lambda>(m, p, b). case b of Parsed_str BLOCK_TEXT _ \<Rightarrow> 0 | _ \<Rightarrow> 2) (\<lambda>_. 1))") (auto split: parsed_block.splits)

declare push_block.simps [simp del] add_text_block.simps [simp del]

definition add_text_then_block ::
  "mem \<Rightarrow> ndb_content_parser \<Rightarrow> parsed_block \<Rightarrow> ptr \<Rightarrow> ptr \<Rightarrow> (bool \<times> mem \<times> ndb_content_parser \<times> ptr) option" where
  "add_text_then_block m p block start pre_mention = do {
     (r, m, p) \<leftarrow> add_text_block m p start pre_mention;
     if \<not> r then Some (False, m, p, start)
     else do {
       let start = cp (p_content p);
       (r, m, p) \<leftarrow> push_block m p block;
       Some (r, m, p, start) } }"

section \<open>The main loop\<close>

text \<open>
  The tests of one position: the scanners the first character selects, in the order of the code.
  A scanner that fails may leave the cursor behind an optional prefix it consumed.
\<close>

definition or_scan ::
  "bool \<Rightarrow> (mem \<Rightarrow> cursor \<Rightarrow> (parsed_block option \<times> cursor) option) \<Rightarrow>
   mem \<Rightarrow> parsed_block option \<times> cursor \<Rightarrow> (parsed_block option \<times> cursor) option" where
  "or_scan selected scan m st =
     (case st of
        (Some b, cur) \<Rightarrow> Some (Some b, cur)
      | (None, cur) \<Rightarrow> if selected then scan m cur else Some (None, cur))"

definition scan_mention :: "mem \<Rightarrow> cursor \<Rightarrow> int \<Rightarrow> (parsed_block option \<times> cursor) option" where
  "scan_mention m cur c = do {
     st \<leftarrow> or_scan (c = asc CHR ''#'') parse_mention_index m (None, cur);
     st \<leftarrow> or_scan (c = asc CHR ''#'') parse_hashtag m st;
     st \<leftarrow> or_scan (c = asc CHR ''h'' \<or> c = asc CHR ''H'') parse_url m st;
     st \<leftarrow> or_scan (c = asc CHR ''l'' \<or> c = asc CHR ''L'') parse_invoice m st;
     or_scan (c = asc CHR ''n'' \<or> c = asc CHR ''@'') parse_mention_bech32 m st }"

text \<open>One round: \<open>Inl\<close> the state when the function returns 0, \<open>Inr\<close> the state for the next round.\<close>

definition content_step ::
  "mem \<Rightarrow> ndb_content_parser \<Rightarrow> ptr \<Rightarrow>
   (mem \<times> ndb_content_parser + mem \<times> ndb_content_parser \<times> ptr) option" where
  "content_step m p start = do {
     prev \<leftarrow> peek_char m (p_content p) (-1);
     c \<leftarrow> peek_char m (p_content p) 0;
     let p = (if is_whitespace prev \<and> \<not> is_whitespace c
              then p\<lparr>p_blocks := (p_blocks p)\<lparr>blocks_words := blocks_words (p_blocks p) + 1\<rparr>\<rparr> else p);
     let pre_mention = cp (p_content p);
     (b, cur) \<leftarrow>
       (if prev = -1 \<or> is_left_boundary prev \<or> c = asc CHR ''#'' then scan_mention m (p_content p) c
        else Some (None, p_content p));
     let p = p\<lparr>p_content := cur\<rparr>;
     case b of
       Some block \<Rightarrow> do {
         (r, m, p, start) \<leftarrow> add_text_then_block m p block start pre_mention;
         Some (if r then Inr (m, p, start) else Inl (m, p)) }
     | None \<Rightarrow> Some (Inr (m, p\<lparr>p_content := cur\<lparr>cp := cp cur + 1\<rparr>\<rparr>, start)) }"

section \<open>Progress\<close>

text \<open>Every scanner keeps the buffer and does not move backwards; one that finds a block moves on.\<close>

definition fwd :: "cursor \<Rightarrow> cursor \<Rightarrow> bool" where
  "fwd c c' \<longleftrightarrow> cstart c' = cstart c \<and> cend c' = cend c \<and> cp c \<le> cp c'"

definition found_fwd :: "cursor \<Rightarrow> 'a option \<times> cursor \<Rightarrow> bool" where
  "found_fwd c = (\<lambda>(b, c'). fwd c c' \<and> (b \<noteq> None \<longrightarrow> cp c < cp c'))"

lemma fwd_refl [simp, intro]: "fwd c c"
  by (simp add: fwd_def)

lemma fwd_trans: "fwd c c' \<Longrightarrow> fwd c' c'' \<Longrightarrow> fwd c c''"
  by (auto simp: fwd_def)

lemma fwd_upd [simp]: "fwd c (c'\<lparr>cp := q\<rparr>) \<longleftrightarrow> cstart c' = cstart c \<and> cend c' = cend c \<and> cp c \<le> q"
  by (simp add: fwd_def)

lemma parse_char_fwd: "parse_char m c x = Some (r, c') \<Longrightarrow> fwd c c' \<and> (r \<longrightarrow> cp c < cp c')"
  by (auto simp: parse_char_def bind_eq_Some split: if_splits)

lemma parse_str_fwd: "parse_str m c s = Some (r, c') \<Longrightarrow> fwd c c' \<and> (r \<longrightarrow> cp c' = cp c + int (length s))"
  by (auto simp: parse_str_def bind_eq_Some split: if_splits)

lemma parse_digit_fwd: "parse_digit m c = Some (r, c') \<Longrightarrow> fwd c c'"
  by (auto simp: parse_digit_def bind_eq_Some Let_def split: if_splits)

lemma consume_until_boundary_fwd: "consume_until_boundary m c = Some (r, c') \<Longrightarrow> fwd c c'"
proof (induction m c arbitrary: r c' rule: consume_until_boundary.induct)
  case (1 m c)
  show ?case
  proof (cases "cp c < cend c")
    case True
    then obtain s where s: "boundary_step m c = Some s"
      using "1.prems" by (subst (asm) consume_until_boundary.simps) (auto simp: bind_eq_Some)
    show ?thesis
    proof (cases s)
      case (Inl b)
      then show ?thesis using "1.prems" True s by (simp add: consume_until_boundary.simps[of m c])
    next
      case (Inr n)
      then have "consume_until_boundary m (c\<lparr>cp := cp c + n\<rparr>) = Some (r, c')"
        using "1.prems" True s by (simp add: consume_until_boundary.simps[of m c])
      then have "fwd (c\<lparr>cp := cp c + n\<rparr>) c'" using "1.IH"[OF True s Inr] by blast
      moreover have "1 \<le> n" using boundary_step_advances s Inr by blast
      ultimately show ?thesis by (auto simp: fwd_def)
    qed
  next
    case False
    then show ?thesis using "1.prems" by (simp add: consume_until_boundary.simps[of m c])
  qed
qed

lemma consume_loop_fwd: "consume_loop stop m c e g = Some (r, c') \<Longrightarrow> fwd c c'"
proof (induction stop m c e g arbitrary: r c' rule: consume_loop.induct)
  case (1 stop m c e g)
  show ?case
  proof (cases "cp c < cend c")
    case True
    then obtain b where b: "load m (cp c) = Some b"
      using "1.prems" by (subst (asm) consume_loop.simps) (auto simp: bind_eq_Some)
    show ?thesis
    proof (cases "stop (uint b)")
      case True
      then show ?thesis using "1.prems" \<open>cp c < cend c\<close> b by (simp add: consume_loop.simps[of stop m c])
    next
      case False
      then have "consume_loop stop m (c\<lparr>cp := cp c + 1\<rparr>) e True = Some (r, c')"
        using "1.prems" True b by (simp add: consume_loop.simps[of stop m c])
      from "1.IH"[OF True b False this] show ?thesis by (auto simp: fwd_def)
    qed
  next
    case False
    then show ?thesis using "1.prems" by (simp add: consume_loop.simps[of stop m c])
  qed
qed

lemma url_scan_fwd: "url_scan stop m c = Some c' \<Longrightarrow> fwd c c'"
proof (induction stop m c arbitrary: c' rule: url_scan.induct)
  case (1 stop m c)
  show ?case
  proof (cases "cp c < cend c")
    case True
    then obtain b where b: "stop m (cp c) (cend c) = Some b"
      using "1.prems" by (subst (asm) url_scan.simps) (auto simp: bind_eq_Some)
    show ?thesis
    proof (cases b)
      case True
      then show ?thesis using "1.prems" \<open>cp c < cend c\<close> b by (simp add: url_scan.simps[of stop m c])
    next
      case False
      then have "url_scan stop m (c\<lparr>cp := cp c + 1\<rparr>) = Some c'"
        using "1.prems" True b by (simp add: url_scan.simps[of stop m c])
      from "1.IH"[OF True b False this] show ?thesis by (auto simp: fwd_def)
    qed
  next
    case False
    then show ?thesis using "1.prems" by (simp add: url_scan.simps[of stop m c])
  qed
qed

lemma parse_type_length: "parse_nostr_bech32_type m a = Some (Some (ty, n)) \<Longrightarrow> 4 \<le> n"
  by (auto simp: parse_nostr_bech32_type_def bind_eq_Some split: if_splits)

lemma fwd_parts:
  "part (parse_char m c x) (\<lambda>(r, c'). fwd c c' \<and> (r \<longrightarrow> cp c < cp c'))"
  "part (parse_str m c s) (\<lambda>(r, c'). fwd c c' \<and> (r \<longrightarrow> cp c' = cp c + int (length s)))"
  "part (parse_digit m c) (\<lambda>(r, c'). fwd c c')"
  "part (consume_until_boundary m c) (\<lambda>(r, c'). fwd c c')"
  "part (consume_until_whitespace m c e) (\<lambda>(r, c'). fwd c c')"
  "part (consume_until_non_alphanumeric m c e) (\<lambda>(r, c'). fwd c c')"
  "part (url_scan stop m c) (fwd c)"
  "part (parse_nostr_bech32_type m a) (\<lambda>r. \<forall>ty n. r = Some (ty, n) \<longrightarrow> 4 \<le> n)"
  "part (peek_char m c i) (\<lambda>_. True)"
  "part (case d of None \<Rightarrow> Some k | Some d \<Rightarrow> f d) (\<lambda>_. True)"
  "part (if b then strncmp_eq lit m a else Some False) (\<lambda>_. True)"
  "part (if b then parse_nostr_bech32_str m c else Some (None, c)) (\<lambda>_. True)"
  "part (strncmp_eq lit m a) (\<lambda>_. True)"
  "part (parse_nostr_bech32_str m c) (\<lambda>_. True)"
  "part (cursor_push_varint m c n) (\<lambda>_. True)"
  "part (push_str_block m c a sb) (\<lambda>_. True)"
  by (auto intro!: part_True part_I dest: parse_char_fwd parse_str_fwd parse_digit_fwd consume_until_boundary_fwd
      consume_loop_fwd url_scan_fwd parse_type_length
      simp: consume_until_whitespace_def consume_until_non_alphanumeric_def)

lemma parse_nostr_bech32_str_fwd: "part (parse_nostr_bech32_str m c) (found_fwd c)"
  unfolding parse_nostr_bech32_str_def Let_def
  by (rule part_bindI[OF fwd_parts(8)])
    (auto simp: found_fwd_def split: option.splits intro!: part_bindI[OF fwd_parts(6)], auto simp: fwd_def)

lemma parse_mention_index_fwd: "part (parse_mention_index m c) (found_fwd c)"
  unfolding parse_mention_index_def Let_def
  by (rule part_bindI[OF fwd_parts(2)])
    (auto simp: found_fwd_def str_def split: option.splits
      intro!: part_bindI[OF fwd_parts(1)] part_bindI[OF fwd_parts(3)] part_bindI[OF fwd_parts(10)], auto simp: fwd_def)

lemma parse_hashtag_fwd: "part (parse_hashtag m c) (found_fwd c)"
  unfolding parse_hashtag_def Let_def
  by (rule part_bindI[OF fwd_parts(1)])
    (auto simp: found_fwd_def intro!: part_bindI[OF fwd_parts(9)] part_bindI[OF fwd_parts(4)], auto simp: fwd_def)

lemma parse_invoice_fwd: "part (parse_invoice m c) (found_fwd c)"
  unfolding parse_invoice_def Let_def
  by (rule part_bindI[OF fwd_parts(2)])
    (auto simp: found_fwd_def str_def intro!: part_bindI[OF fwd_parts(2)] part_bindI[OF fwd_parts(5)],
      auto simp: fwd_def)

lemma parse_mention_bech32_fwd: "part (parse_mention_bech32 m c) (found_fwd c)"
  unfolding parse_mention_bech32_def Let_def
  by (rule part_bindI[OF fwd_parts(1)])
    (auto simp: found_fwd_def split: option.splits
      intro!: part_bindI[OF fwd_parts(2)] part_bindI[OF parse_nostr_bech32_str_fwd], auto simp: fwd_def)

lemma url_parts_fwd:
  "part (consume_url_host m c) (\<lambda>(r, c'). fwd c c')"
  "part (consume_url_path m c) (\<lambda>(r, c'). fwd c c')"
  "part (consume_url_fragment m c) (\<lambda>(r, c'). fwd c c')"
  unfolding consume_url_host_def consume_url_path_def consume_url_fragment_def consume_until_end_url_def Let_def
  by (auto intro!: part_bindI[OF fwd_parts(7)] part_bindI[OF fwd_parts(9)], auto simp: fwd_def)

lemma parse_url_scheme_fwd: "part (parse_url_scheme m c) (\<lambda>(r, c'). fwd c c' \<and> (r \<longrightarrow> cp c + 7 \<le> cp c'))"
  unfolding parse_url_scheme_def Let_def if_cancel
  by (rule part_bindI[OF fwd_parts(2)])
    (auto simp: str_def intro!: part_bindI[OF fwd_parts(1)] part_bindI[OF fwd_parts(2)], auto simp: fwd_def)

lemma smart_parens_fwd:
  "part (smart_parens m c s) (\<lambda>c'. cstart c' = cstart c \<and> cend c' = cend c \<and> cp c - 1 \<le> cp c' \<and> cp c' \<le> cp c)"
  by (rule part_I) (auto simp: smart_parens_def bind_eq_Some split: if_splits)

lemma parse_url_fwd: "part (parse_url m c) (found_fwd c)"
  unfolding parse_url_def Let_def
  by (rule part_bindI[OF parse_url_scheme_fwd])
    (auto simp: found_fwd_def split: prod.splits
      intro!: part_bindI[OF url_parts_fwd(1)] part_bindI[OF url_parts_fwd(2)] part_bindI[OF url_parts_fwd(3)]
        part_bindI[OF smart_parens_fwd] part_bindI[OF fwd_parts(11)] part_bindI[OF fwd_parts(12)]
        part_bindI[OF fwd_parts(13)] part_bindI[OF fwd_parts(14)], auto simp: fwd_def)

text \<open>The part of the contract of a scanner that the termination of the main loop rests on.\<close>

locale progressing =
  fixes scan :: "mem \<Rightarrow> cursor \<Rightarrow> (parsed_block option \<times> cursor) option"
  assumes scan_fwd: "part (scan m c) (found_fwd c)"
begin

lemma or_scan_fwd:
  assumes "found_fwd c st"
  shows "part (or_scan sel scan m st) (found_fwd c)"
proof (cases "fst st = None \<and> sel")
  case True
  have "found_fwd (snd st) r \<Longrightarrow> found_fwd c r" for r :: "parsed_block option \<times> cursor"
    using assms True by (cases st; cases r) (auto simp: found_fwd_def fwd_def)
  with scan_fwd[of m "snd st"] True show ?thesis
    by (cases st) (auto simp: or_scan_def part_def split: option.splits)
next
  case False
  then show ?thesis using assms by (cases st) (auto simp: or_scan_def split: option.splits)
qed

end

interpretation mention_index: progressing parse_mention_index by unfold_locales (rule parse_mention_index_fwd)
interpretation hashtag: progressing parse_hashtag by unfold_locales (rule parse_hashtag_fwd)
interpretation url: progressing parse_url by unfold_locales (rule parse_url_fwd)
interpretation invoice: progressing parse_invoice by unfold_locales (rule parse_invoice_fwd)
interpretation mention_bech32: progressing parse_mention_bech32 by unfold_locales (rule parse_mention_bech32_fwd)

lemma scan_mention_fwd: "part (scan_mention m c x) (found_fwd c)"
  unfolding scan_mention_def
  by (intro part_bindI[OF mention_index.or_scan_fwd] part_bindI[OF hashtag.or_scan_fwd] part_bindI[OF url.or_scan_fwd]
      part_bindI[OF invoice.or_scan_fwd] mention_bech32.or_scan_fwd) (simp_all add: found_fwd_def)

text \<open>Writing blocks does not move in the content.\<close>

lemma push_bech32_mention_content: "part (push_bech32_mention m p s) (\<lambda>(r, m', p'). p_content p' = p_content p)"
  unfolding push_bech32_mention_def Let_def
  by (auto intro!: part_bind_trivial split: option.splits prod.splits)

lemma push_invoice_str_content: "part (push_invoice_str m p s) (\<lambda>(r, m', p'). p_content p' = p_content p)"
  unfolding push_invoice_str_def Let_def
  by (auto intro!: part_bind_trivial split: sum.splits)

lemma set_buffer_p_content [simp]: "p_content (set_buffer_p a p) = p_content p" "p_content (count_block p) = p_content p"
  by (simp_all add: set_buffer_p_def count_block_def)

lemma push_text_content:
  "part (push_block m p (Parsed_str BLOCK_TEXT s)) (\<lambda>(r, m', p'). p_content p' = p_content p)"
  unfolding push_block.simps[of m p] Let_def
  by (auto intro!: part_bindI[OF fwd_parts(15)] part_bindI[OF fwd_parts(16)])

lemma add_text_block_content: "part (add_text_block m p a b) (\<lambda>(r, m', p'). p_content p' = p_content p)"
  unfolding add_text_block.simps[of m p] by (auto intro: push_text_content)

lemma add_text_block_content':
  "p_content q = p_content p \<Longrightarrow> part (add_text_block m q a b) (\<lambda>(r, m', p'). p_content p' = p_content p)"
  using add_text_block_content[of m q a b] by simp

lemma push_block_content: "part (push_block m p b) (\<lambda>(r, m', p'). p_content p' = p_content p)"
  unfolding push_block.simps[of m p] Let_def
  by (rule part_bindI[OF fwd_parts(15)], clarsimp, rule part_bindI[where Q = "\<lambda>(r, m', p'). p_content p' = p_content p"])
    (auto intro!: part_bindI[OF push_bech32_mention_content] part_bindI[OF push_invoice_str_content]
      part_bindI[OF fwd_parts(15)] part_bindI[OF fwd_parts(16)] add_text_block_content' split: parsed_block.splits)

lemma add_text_then_block_content:
  "part (add_text_then_block m p b s e) (\<lambda>(r, m', p', s'). p_content p' = p_content p)"
  unfolding add_text_then_block_def Let_def
  by (rule part_bindI[OF add_text_block_content])
    (auto intro!: part_bindI[OF push_block_content])

lemma content_step_advances:
  "part (content_step m p start) (\<lambda>r. \<forall>m' p' start'. r = Inr (m', p', start') \<longrightarrow>
     cend (p_content p') = cend (p_content p) \<and> cp (p_content p) < cp (p_content p'))"
  unfolding content_step_def Let_def
  by (rule part_bindI[OF fwd_parts(9)], rule part_bindI[OF fwd_parts(9)],
      rule part_bindI[where Q = "found_fwd (p_content p)"])
    (auto intro!: part_bindI[OF add_text_then_block_content] scan_mention_fwd split: option.splits,
      auto simp: found_fwd_def fwd_def)

section \<open>The parser\<close>

function content_loop ::
  "mem \<Rightarrow> ndb_content_parser \<Rightarrow> ptr \<Rightarrow> (bool \<times> mem \<times> ndb_content_parser \<times> ptr) option" where
  "content_loop m p start =
     (if cp (p_content p) < cend (p_content p) then do {
        r \<leftarrow> content_step m p start;
        case r of
          Inl (m, p) \<Rightarrow> Some (False, m, p, start)
        | Inr (m, p, start) \<Rightarrow> content_loop m p start }
      else Some (True, m, p, start))"
  by pat_completeness auto
termination
  by (relation "measure (\<lambda>(m, p, s). nat (cend (p_content p) - cp (p_content p)))")
    (auto dest!: part_D[OF content_step_advances])

declare content_loop.simps [simp del]

text \<open>
  The header is the record returned with the result; \<open>None\<close> when the buffer is too small for
  it. The assertion after the alignment is part of the model.
\<close>

definition ndb_parse_content ::
  "mem \<Rightarrow> ptr \<Rightarrow> int \<Rightarrow> ptr \<Rightarrow> int \<Rightarrow> (bool \<times> mem \<times> ndb_blocks option) option" where
  "ndb_parse_content m buf buf_size content content_len =
     (if buf_size < 24 then Some (False, m, None)
      else do {
        let blocks_start = buf + 24;
        let blocks = \<lparr>blocks_version = 1, blocks_flags = 0, blocks_words = 0, num_blocks = 0,
                      blocks_size = 0, blocks_total_size = 0, blocks_ptr = blocks_start\<rparr>;
        let p = \<lparr>p_buffer = (make_cursor buf (buf + buf_size))\<lparr>cp := buf + 24\<rparr>,
                 p_content = make_cursor content (content + content_len), p_blocks = blocks\<rparr>;
        (r, m, p, start) \<leftarrow> content_loop m p (cp (p_content p));
        if \<not> r then Some (False, m, Some (p_blocks p)) else do {
        (r, m, p) \<leftarrow>
          (if cp (p_content p) - start > 0 then add_text_block m p start (cp (p_content p))
           else Some (True, m, p));
        if \<not> r then Some (False, m, Some (p_blocks p)) else do {
        let b = (p_blocks p)\<lparr>blocks_size := word_of_int (cp (p_buffer p) - blocks_start)\<rparr>;
        (r, m, buffer) \<leftarrow> cursor_align m (p_buffer p) 8;
        if \<not> r then Some (False, m, Some b)
        else if (cp buffer - cstart buffer) mod 8 \<noteq> 0 then None
        else Some (True, m, Some (b\<lparr>blocks_total_size := word_of_int (cp buffer - cstart buffer)\<rparr>)) }}})"

section \<open>Memory safety\<close>

text \<open>
  The situation the parser runs in: well-formed cursors, disjoint buffer and content, and a NUL
  after the content, as in a stored note.
\<close>

definition parser_wf :: "mem \<Rightarrow> ndb_content_parser \<Rightarrow> bool" where
  "parser_wf m p \<longleftrightarrow> wf_cursor m (p_buffer p) \<and> wf_cursor m (p_content p) \<and>
     (cend (p_buffer p) \<le> cstart (p_content p) \<or> cend (p_content p) < cstart (p_buffer p)) \<and>
     m (cend (p_content p)) = Some 0"

text \<open>A scanned block lies in the content.\<close>

fun block_in :: "cursor \<Rightarrow> parsed_block \<Rightarrow> bool" where
  "block_in c (Parsed_str ty s) = (cstart c \<le> sb_str s \<and> sb_str s + uint (sb_len s) \<le> cend c)"
| "block_in c (Parsed_index i) = True"

definition text_wf :: "mem \<Rightarrow> cursor \<Rightarrow> bool" where
  "text_wf m c \<longleftrightarrow> wf_cursor m c \<and> m (cend c) = Some 0"

lemma text_wf_moved: "text_wf m c \<Longrightarrow> moved c c' \<Longrightarrow> text_wf m c'"
  by (auto simp: text_wf_def moved_def wf_cursor_def)

lemma uint_word_of_int_le: "0 \<le> x \<Longrightarrow> uint (word_of_int x :: 'a::len word) \<le> x"
  by (simp add: uint_word_of_int zmod_le_nonneg_dividend)

lemma block_in_text:
  "cstart c \<le> a \<Longrightarrow> a \<le> b \<Longrightarrow> b \<le> cend c \<Longrightarrow> block_in c (Parsed_str ty (text_block a b))"
  using uint_word_of_int_le[of "b - a", where 'a = 32] by (simp add: text_block_def)

text \<open>A comparison with a literal that has no NUL stops at the end of the content.\<close>

lemma strncmp_eq_text:
  "text_wf m c \<Longrightarrow> cstart c \<le> a \<Longrightarrow> a \<le> cend c \<Longrightarrow> 0 \<notin> set s \<Longrightarrow> ok (strncmp_eq s m a) (\<lambda>_. True)"
proof (induction s arbitrary: a)
  case Nil
  then show ?case by simp
next
  case (Cons b s)
  show ?case
  proof (cases "a < cend c")
    case True
    then have "load m a = Some (the (m a))" using Cons.prems by (intro wf_load[of m c]) (auto simp: text_wf_def)
    with Cons.IH[of "a + 1"] Cons.prems True show ?thesis by (simp add: ok_simps)
  next
    case False
    then have "load m a = Some 0" using Cons.prems by (simp add: load_def text_wf_def)
    with Cons.prems show ?thesis by simp
  qed
qed

lemma parse_type_text:
  assumes "text_wf m c" "cstart c \<le> a" "a \<le> cend c"
  shows "ok (parse_nostr_bech32_type m a) (\<lambda>r. \<forall>ty n. r = Some (ty, n) \<longrightarrow> 4 \<le> n)"
proof -
  note s = strncmp_eq_text[OF assms]
  have z: "0 \<notin> set (str ''note'')" "0 \<notin> set (str ''npub'')" "0 \<notin> set (str ''nsec'')" "0 \<notin> set (str ''nprofile'')"
    "0 \<notin> set (str ''nevent'')" "0 \<notin> set (str ''nrelay'')" "0 \<notin> set (str ''naddr'')"
    by (simp_all add: str_def)
  have "ok (parse_nostr_bech32_type m a) (\<lambda>_. True)"
    unfolding parse_nostr_bech32_type_def by (auto simp: z intro!: ok_bindI[OF s])
  then show ?thesis by (rule ok_conseq) (auto dest: parse_type_length)
qed

text \<open>
  The safety contract of the scanners: with well-formed text they have no undefined behaviour,
  stay in the content, what they find lies in it, and without a result there is text left.
\<close>

definition found_in :: "cursor \<Rightarrow> parsed_block option \<times> cursor \<Rightarrow> bool" where
  "found_in c = (\<lambda>(b, c'). moved c c' \<and> pred_option (block_in c) b \<and>
     (b = None \<longrightarrow> cp c < cend c \<longrightarrow> cp c' < cend c))"

locale block_scanner = progressing scan
  for scan :: "mem \<Rightarrow> cursor \<Rightarrow> (parsed_block option \<times> cursor) option" +
  assumes scan_safe: "text_wf m c \<Longrightarrow> ok (scan m c) (found_in c)"
begin

lemma or_scan_safe:
  assumes "text_wf m c" and "found_in c st"
  shows "ok (or_scan sel scan m st) (found_in c)"
proof (cases "fst st = None \<and> sel")
  case True
  have mv: "moved c (snd st)" using assms(2) by (auto simp: found_in_def split: prod.splits)
  then have e: "cstart (snd st) = cstart c" "cend (snd st) = cend c" by (auto simp: moved_def)
  have "block_in (snd st) = block_in c" using e by (intro ext) (metis block_in.simps parsed_block.exhaust)
  then have "found_in (snd st) r \<Longrightarrow> found_in c r" for r
    using mv e True assms(2) by (auto simp: found_in_def dest: moved_trans split: prod.splits)
  with scan_safe[OF text_wf_moved[OF assms(1) mv]] True show ?thesis
    by (cases st) (auto simp: or_scan_def ok_iff split: option.splits)
next
  case False
  then show ?thesis using assms(2) by (cases st) (auto simp: or_scan_def split: option.splits)
qed

end

lemma parse_char_fail: "parse_char m c x = Some (False, c') \<Longrightarrow> c' = c"
  by (auto simp: parse_char_def bind_eq_Some split: if_splits)

lemma parse_str_left: "parse_str m c s = Some (r, c') \<Longrightarrow> (\<not> r \<longrightarrow> c' = c) \<and> (cp c < cend c \<longrightarrow> cp c' < cend c)"
  by (auto simp: parse_str_def bind_eq_Some split: if_splits)

lemma scan_ok_moved:
  assumes "text_wf m c"
  shows "ok (parse_char m c x) (\<lambda>(r, c'). moved c c' \<and> text_wf m c' \<and> fwd c c' \<and> (r \<longrightarrow> cp c < cp c') \<and> (\<not> r \<longrightarrow> c' = c))"
    "ok (parse_str m c s) (\<lambda>(r, c'). moved c c' \<and> text_wf m c' \<and> (r \<longrightarrow> cp c' = cp c + int (length s)) \<and>
      (\<not> r \<longrightarrow> c' = c) \<and> (cp c < cend c \<longrightarrow> cp c' < cend c))"
    "ok (consume_until_boundary m c) (\<lambda>(r, c'). moved c c' \<and> text_wf m c')"
    "ok (consume_until_whitespace m c e) (\<lambda>(r, c'). moved c c' \<and> text_wf m c')"
    "ok (consume_until_non_alphanumeric m c e) (\<lambda>(r, c'). moved c c' \<and> text_wf m c')"
    "ok (peek_char m c i) (\<lambda>x. -1 \<le> x \<and> x < 256 \<and> (i = 0 \<longrightarrow> (x = -1) = (cp c = cend c)))"
proof -
  have wf: "wf_cursor m c" using assms by (simp add: text_wf_def)
  note mv = text_wf_moved[OF assms]
  show "ok (parse_char m c x) (\<lambda>(r, c'). moved c c' \<and> text_wf m c' \<and> fwd c c' \<and> (r \<longrightarrow> cp c < cp c') \<and> (\<not> r \<longrightarrow> c' = c))"
    by (rule ok_conseq[OF parse_char_scanner.scan_ok[OF wf]]) (auto dest: mv parse_char_fwd parse_char_fail)
  show "ok (parse_str m c s) (\<lambda>(r, c'). moved c c' \<and> text_wf m c' \<and> (r \<longrightarrow> cp c' = cp c + int (length s)) \<and>
      (\<not> r \<longrightarrow> c' = c) \<and> (cp c < cend c \<longrightarrow> cp c' < cend c))"
    by (rule ok_conseq[OF parse_str_scanner.scan_ok[OF wf]]) (auto dest: mv parse_str_fwd parse_str_left)
  show "ok (consume_until_boundary m c) (\<lambda>(r, c'). moved c c' \<and> text_wf m c')"
    by (rule ok_conseq[OF boundary_scanner.scan_ok[OF wf]]) (auto dest: mv)
  show "ok (consume_until_whitespace m c e) (\<lambda>(r, c'). moved c c' \<and> text_wf m c')"
    by (rule ok_conseq[OF whitespace_scanner.scan_ok[OF wf]]) (auto dest: mv)
  show "ok (consume_until_non_alphanumeric m c e) (\<lambda>(r, c'). moved c c' \<and> text_wf m c')"
    by (rule ok_conseq[OF alnum_scanner.scan_ok[OF wf]]) (auto dest: mv)
  show "ok (peek_char m c i) (\<lambda>x. -1 \<le> x \<and> x < 256 \<and> (i = 0 \<longrightarrow> (x = -1) = (cp c = cend c)))"
  proof (rule ok_conseq[OF peek_char_ok[OF wf]])
    fix x assume "peek_char m c i = Some x" "-1 \<le> x \<and> x < 256"
    moreover have "uint b \<noteq> -1" for b :: u8 using uint_ge_0[of b] by linarith
    ultimately show "-1 \<le> x \<and> x < 256 \<and> (i = 0 \<longrightarrow> (x = -1) = (cp c = cend c))"
      using wf_bounds[OF wf] by (auto simp: peek_char_def bind_eq_Some split: if_splits)
  qed
qed

lemma parse_nostr_bech32_str_ok:
  assumes "text_wf m c"
  shows "ok (parse_nostr_bech32_str m c) (\<lambda>(ty, c'). moved c c' \<and> text_wf m c')"
proof -
  have b: "cstart c \<le> cp c" "cp c \<le> cend c" using assms by (auto simp: text_wf_def dest: wf_bounds)
  have r: "moved c c' \<Longrightarrow> c'\<lparr>cp := cp c\<rparr> = c" for c' by (simp add: moved_def)
  show ?thesis
    unfolding parse_nostr_bech32_str_def Let_def
    by (rule ok_bindI[OF parse_type_text[OF assms b]])
      (auto simp: r assms b split: option.splits intro!: ok_bindI[OF scan_ok_moved(5)[OF assms]])
qed

lemma parse_digit_ok:
  assumes "text_wf m c"
  shows "ok (parse_digit m c) (\<lambda>(d, c'). moved c c' \<and> text_wf m c' \<and> (d = None \<longrightarrow> c' = c))"
proof -
  have b: "cp c \<le> cend c" using assms by (auto simp: text_wf_def dest: wf_bounds)
  have mv: "text_wf m (c\<lparr>cp := cp c + 1\<rparr>)" if "cp c \<noteq> cend c"
    using that b by (intro text_wf_moved[OF assms]) simp
  show ?thesis
    unfolding parse_digit_def Let_def
    by (rule ok_bindI[OF scan_ok_moved(6)[OF assms]]) (use b mv assms in auto)
qed

lemma restore: "moved c c' \<Longrightarrow> c'\<lparr>cp := cp c\<rparr> = c"
  by (simp add: moved_def)

lemma text_wf_bounds: "text_wf m c \<Longrightarrow> cstart c \<le> cp c \<and> cp c \<le> cend c"
  by (auto simp: text_wf_def dest: wf_bounds)

lemma parse_mention_index_safe:
  assumes wf: "text_wf m c"
  shows "ok (parse_mention_index m c) (found_in c)"
proof -
  have b: "cp c \<le> cend c" using text_wf_bounds[OF wf] by simp
  obtain r c1 where 1: "parse_str m c (str ''#['') = Some (r, c1)" "moved c c1" "text_wf m c1" "\<not> r \<longrightarrow> c1 = c"
    using scan_ok_moved(2)[OF wf, of "str ''#[''"] by (auto simp: ok_iff)
  obtain d1 c2 where 2: "parse_digit m c1 = Some (d1, c2)" "moved c1 c2" "text_wf m c2"
    using parse_digit_ok[OF 1(3)] by (auto simp: ok_iff)
  obtain d2 c3 where 3: "parse_digit m c2 = Some (d2, c3)" "moved c2 c3" "text_wf m c3" "d2 = None \<longrightarrow> c3 = c2"
    using parse_digit_ok[OF 2(3)] by (auto simp: ok_iff)
  obtain d3 c4 where 4: "parse_digit m c3 = Some (d3, c4)" "moved c3 c4" "text_wf m c4"
    using parse_digit_ok[OF 3(3)] by (auto simp: ok_iff)
  obtain r5 c5 where 5: "parse_char m c4 93 = Some (r5, c5)" "moved c4 c5"
    using scan_ok_moved(1)[OF 4(3), of 93] by (auto simp: ok_iff)
  have mv: "moved c c2" "moved c c5" using 1 2 3 4 5 moved_trans by blast+
  have "d2 = None \<Longrightarrow> d3 = None" using 3 4 by auto
  then show ?thesis
    using 1(1,2,4) 2(1) 3(1) 4(1) 5(1) mv b restore[OF mv(1)] restore[OF mv(2)]
    by (cases d1; cases d2; cases d3) (simp_all add: parse_mention_index_def found_in_def Let_def)
qed

lemma parse_hashtag_safe:
  assumes wf: "text_wf m c"
  shows "ok (parse_hashtag m c) (found_in c)"
proof -
  note b = text_wf_bounds[OF wf]
  obtain r c1 where 1: "parse_char m c 35 = Some (r, c1)" "moved c c1" "text_wf m c1" "r \<longrightarrow> cp c < cp c1" "\<not> r \<longrightarrow> c1 = c"
    using scan_ok_moved(1)[OF wf, of 35] by (auto simp: ok_iff)
  obtain x where 2: "peek_char m c1 0 = Some x" using scan_ok_moved(6)[OF 1(3)] by (auto simp: ok_iff)
  obtain r2 c2 where 3: "consume_until_boundary m c1 = Some (r2, c2)" "moved c1 c2"
    using scan_ok_moved(3)[OF 1(3)] by (auto simp: ok_iff)
  have mv: "moved c c2" using moved_trans[OF 1(2) 3(2)] .
  have "r \<Longrightarrow> block_in c (Parsed_str BLOCK_HASHTAG (text_block (cp c + 1) (cp c2)))"
    using b 1(4) 3(2) mv by (intro block_in_text) (auto simp: moved_def)
  then show ?thesis
    using 1 2 3(1) mv b restore[OF 1(2)] by (simp add: parse_hashtag_def found_in_def Let_def)
qed

lemma parse_invoice_safe:
  assumes wf: "text_wf m c"
  shows "ok (parse_invoice m c) (found_in c)"
proof -
  obtain r c1 where 1: "parse_str m c (str ''lightning:'') = Some (r, c1)" "moved c c1" "text_wf m c1" "cp c < cend c \<longrightarrow> cp c1 < cend c"
    using scan_ok_moved(2)[OF wf, of "str ''lightning:''"] by (auto simp: ok_iff)
  obtain r2 c2 where 2: "parse_str m c1 (str ''lnbc'') = Some (r2, c2)" "moved c1 c2" "text_wf m c2" "cp c1 < cend c1 \<longrightarrow> cp c2 < cend c1"
    using scan_ok_moved(2)[OF 1(3), of "str ''lnbc''"] by (auto simp: ok_iff)
  obtain r3 c3 where 3: "consume_until_whitespace m c2 True = Some (r3, c3)" "moved c2 c3"
    using scan_ok_moved(4)[OF 2(3), of True] by (auto simp: ok_iff)
  have mv: "moved c1 c3" "moved c c2" "moved c c3" using 1 2 3 moved_trans by blast+
  have "block_in c (Parsed_str BLOCK_INVOICE (text_block (cp c1) (cp c3)))"
    using text_wf_bounds[OF wf] 1(2) mv by (intro block_in_text) (auto simp: moved_def)
  moreover have "c3\<lparr>cp := cp c3\<rparr> = c3" by simp
  ultimately show ?thesis
    using 1 2(1,4) 3(1) mv restore[OF mv(1)] by (auto simp: parse_invoice_def moved_def found_in_def Let_def)
qed

lemma parse_mention_bech32_safe:
  assumes wf: "text_wf m c"
  shows "ok (parse_mention_bech32 m c) (found_in c)"
proof -
  obtain r c1 where 1: "parse_char m c 64 = Some (r, c1)" "moved c c1" "text_wf m c1"
    using scan_ok_moved(1)[OF wf, of 64] by (auto simp: ok_iff)
  obtain r2 c2 where 2: "parse_str m c1 (str ''nostr:'') = Some (r2, c2)" "moved c1 c2" "text_wf m c2"
    using scan_ok_moved(2)[OF 1(3), of "str ''nostr:''"] by (auto simp: ok_iff)
  obtain ty c3 where 3: "parse_nostr_bech32_str m c2 = Some (ty, c3)" "moved c2 c3"
    using parse_nostr_bech32_str_ok[OF 2(3)] by (auto simp: ok_iff)
  have mv: "moved c c2" "moved c c3" using 1 2 3 moved_trans by blast+
  have "block_in c (Parsed_str BLOCK_MENTION_BECH32 (text_block (cp c2) (cp c3)))"
    using text_wf_bounds[OF wf] mv 3(2) by (intro block_in_text) (auto simp: moved_def)
  then show ?thesis
    using 1(1) 2(1) 3(1) mv restore[OF mv(2)] text_wf_bounds[OF wf]
    by (cases ty) (simp_all add: parse_mention_bech32_def found_in_def Let_def)
qed

section \<open>Safety of links\<close>

lemma text_load: "text_wf m c \<Longrightarrow> cstart c \<le> i \<Longrightarrow> i < cend c \<Longrightarrow> load m i = Some (the (m i))"
  by (rule wf_load) (auto simp: text_wf_def)

definition stop_ok :: "(mem \<Rightarrow> ptr \<Rightarrow> ptr \<Rightarrow> bool option) \<Rightarrow> bool" where
  "stop_ok stop \<longleftrightarrow> (\<forall>m c a. text_wf m c \<longrightarrow> cstart c \<le> a \<longrightarrow> a < cend c \<longrightarrow> stop m a (cend c) \<noteq> None)"

lemma is_final_url_char_ok: "stop_ok is_final_url_char"
  unfolding stop_ok_def is_final_url_char_def next_char_is_whitespace_def by (auto simp: text_load Let_def)

lemma url_stops_ok: "stop_ok url_path_stop" "stop_ok url_host_stop"
  using is_final_url_char_ok unfolding stop_ok_def url_path_stop_def url_host_stop_def
  by (auto simp: text_load)

lemma url_scan_ok: "stop_ok stop \<Longrightarrow> text_wf m c \<Longrightarrow> ok (url_scan stop m c) (\<lambda>c'. moved c c' \<and> text_wf m c')"
proof (induction stop m c rule: url_scan.induct)
  case (1 stop m c)
  note b = text_wf_bounds[OF "1.prems"(2)]
  show ?case
  proof (cases "cp c < cend c")
    case True
    have "stop m (cp c) (cend c) \<noteq> None" using "1.prems" True b unfolding stop_ok_def by blast
    then obtain x where x: "stop m (cp c) (cend c) = Some x" by blast
    show ?thesis
    proof (cases x)
      case True
      then show ?thesis using x b "1.prems"(2) \<open>cp c < cend c\<close> by (simp add: url_scan.simps[of stop m c])
    next
      case False
      have mv: "moved c (c\<lparr>cp := cp c + 1\<rparr>)" using True by simp
      from "1.IH"[OF True x False "1.prems"(1) text_wf_moved[OF "1.prems"(2) mv]]
      have "ok (url_scan stop m (c\<lparr>cp := cp c + 1\<rparr>)) (\<lambda>c'. moved c c' \<and> text_wf m c')"
        by (rule ok_conseq) (auto dest: moved_trans[OF mv])
      then show ?thesis using True x False by (simp add: url_scan.simps[of stop m c])
    qed
  next
    case False
    then show ?thesis using b "1.prems"(2) by (simp add: url_scan.simps[of stop m c])
  qed
qed

lemma url_parts_ok:
  assumes wf: "text_wf m c"
  shows "ok (consume_url_host m c) (\<lambda>(r, c'). moved c c' \<and> text_wf m c')"
    "ok (consume_url_path m c) (\<lambda>(r, c'). moved c c' \<and> text_wf m c')"
    "ok (consume_url_fragment m c) (\<lambda>(r, c'). moved c c' \<and> text_wf m c')"
proof -
  note b = text_wf_bounds[OF wf]
  obtain x where x: "peek_char m c 0 = Some x" "(x = -1) = (cp c = cend c)" 
    using scan_ok_moved(6)[OF wf, of 0] by (auto simp: ok_iff)
  show "ok (consume_url_host m c) (\<lambda>(r, c'). moved c c' \<and> text_wf m c')"
    using url_scan_ok[OF url_stops_ok(2) wf] by (auto simp: consume_url_host_def ok_iff)
  show "ok (consume_url_path m c) (\<lambda>(r, c'). moved c c' \<and> text_wf m c')"
    using url_scan_ok[OF url_stops_ok(1) wf] x b wf by (auto simp: consume_url_path_def ok_iff)
  let ?c = "c\<lparr>cp := cp c + 1\<rparr>"
  have s: "ok (consume_until_end_url m ?c True) (\<lambda>(r, c'). moved c c' \<and> text_wf m c')" if "x \<noteq> -1"
  proof -
    have mv: "moved c ?c" using that x b by simp
    have "ok (url_scan is_final_url_char m ?c) (\<lambda>c'. moved ?c c' \<and> text_wf m c')"
      by (rule url_scan_ok[OF is_final_url_char_ok text_wf_moved[OF wf mv]])
    then show ?thesis using moved_trans[OF mv] by (auto simp: consume_until_end_url_def ok_iff Let_def)
  qed
  show "ok (consume_url_fragment m c) (\<lambda>(r, c'). moved c c' \<and> text_wf m c')"
    using x(1) s b wf by (auto simp: consume_url_fragment_def)
qed

lemma parse_url_scheme_ok:
  assumes wf: "text_wf m c"
  shows "ok (parse_url_scheme m c) (\<lambda>(r, c'). moved c c' \<and> text_wf m c' \<and> (r \<longrightarrow> cp c + 7 \<le> cp c') \<and> (\<not> r \<longrightarrow> c' = c))"
proof -
  obtain r c1 where 1: "parse_str m c (str ''http'') = Some (r, c1)" "moved c c1" "text_wf m c1" "\<not> r \<longrightarrow> c1 = c"
    using scan_ok_moved(2)[OF wf, of "str ''http''"] by (auto simp: ok_iff)
  obtain s c2 where 2: "parse_char m c1 115 = Some (s, c2)" "moved c1 c2" "text_wf m c2"
    using scan_ok_moved(1)[OF 1(3), of 115] by (auto simp: ok_iff)
  obtain s2 c3 where 3: "(if s then Some (True, c2) else parse_char m c2 83) = Some (s2, c3)" "moved c2 c3" "text_wf m c3"
    using scan_ok_moved(1)[OF 2(3), of 83] text_wf_bounds[OF 2(3)] 2(3) by (cases s) (auto simp: ok_iff)
  obtain r4 c4 where 4: "parse_str m c3 (str ''://'') = Some (r4, c4)" "moved c3 c4" "text_wf m c4"
    using scan_ok_moved(2)[OF 3(3), of "str ''://''"] by (auto simp: ok_iff)
  have mv: "moved c c1" "moved c c4" using 1 2 3 4 moved_trans by blast+
  have "ok (parse_url_scheme m c) (\<lambda>(r, c'). moved c c' \<and> text_wf m c' \<and> (\<not> r \<longrightarrow> c' = c))"
    unfolding parse_url_scheme_def Let_def if_cancel
    using 1 2 3 4 mv restore[OF mv(2)] text_wf_bounds[OF wf] wf by (cases s) simp_all
  then show ?thesis
    by (rule ok_conseq) (use parse_url_scheme_fwd[of m c] in auto)
qed

lemma smart_parens_ok:
  assumes wf: "text_wf m c" and "cstart c \<le> s" "s < cp c"
  shows "ok (smart_parens m c s) (\<lambda>c'. cstart c' = cstart c \<and> cend c' = cend c \<and> cp c - 1 \<le> cp c' \<and> cp c' \<le> cp c)"
  using assms text_wf_bounds[OF wf] by (auto simp: smart_parens_def text_load[OF wf])

lemma parse_url_safe:
  assumes wf: "text_wf m c"
  shows "ok (parse_url m c) (found_in c)"
proof -
  note b = text_wf_bounds[OF wf]
  obtain r c1 where 1: "parse_url_scheme m c = Some (r, c1)" "moved c c1" "text_wf m c1" "r \<longrightarrow> cp c + 7 \<le> cp c1" "\<not> r \<longrightarrow> c1 = c"
    using parse_url_scheme_ok[OF wf] by (auto simp: ok_iff)
  obtain r2 c2 where 2: "consume_url_host m c1 = Some (r2, c2)" "moved c1 c2" "text_wf m c2"
    using url_parts_ok(1)[OF 1(3)] by (auto simp: ok_iff)
  obtain r3 c3 where 3: "consume_url_path m c2 = Some (r3, c3)" "moved c2 c3" "text_wf m c3"
    using url_parts_ok(2)[OF 2(3)] by (auto simp: ok_iff)
  obtain r4 c4 where 4: "consume_url_fragment m c3 = Some (r4, c4)" "moved c3 c4" "text_wf m c4"
    using url_parts_ok(3)[OF 3(3)] by (auto simp: ok_iff)
  obtain q pc where q: "cursor_skip (copy_cursor c2) 1 = (q, pc)" by fastforce
  have pc: "moved c2 pc" using q text_wf_bounds[OF 2(3)]
    by (auto simp: cursor_skip_def copy_cursor_def moved_def split: if_splits)
  have wfp: "text_wf m pc" using text_wf_moved[OF 2(3) pc] .
  obtain ty pc' where 5: "parse_nostr_bech32_str m pc = Some (ty, pc')" "moved pc pc'"
    using parse_nostr_bech32_str_ok[OF wfp] by (auto simp: ok_iff)
  obtain dm where dm: "strncmp_eq (str ''damus.io'') m (cp c1) = Some dm"
    using strncmp_eq_text[OF 1(3), of "cp c1" "str ''damus.io''"] text_wf_bounds[OF 1(3)] by (auto simp: ok_iff str_def)
  have mv: "moved c c2" "moved c c3" "moved c c4" "moved c pc" "moved c pc'"
    using 1(2) 2(2) 3(2) 4(2) 5(2) pc moved_trans by blast+
  show ?thesis
  proof (cases r)
    case True
    have p4: "cp c + 7 \<le> cp c4" using True 1(4) 2(2) 3(2) 4(2) by (auto simp: moved_def)
    obtain c5 where 6: "smart_parens m c4 (cp c) = Some c5" "cstart c5 = cstart c4" "cend c5 = cend c4"
      "cp c4 - 1 \<le> cp c5" "cp c5 \<le> cp c4"
      using smart_parens_ok[OF 4(3), of "cp c"] p4 b mv(3) by (auto simp: ok_iff moved_def)
    have mv5: "moved c c5" using 6 p4 mv(3) by (auto simp: moved_def)
    have "block_in c (Parsed_str BLOCK_URL (text_block (cp c) (cp c5)))"
      by (rule block_in_text) (use b mv5 in \<open>auto simp: moved_def\<close>)
    moreover have "block_in c (Parsed_str BLOCK_MENTION_BECH32 (text_block (cp pc) (cp pc')))"
      by (rule block_in_text) (use b mv(4,5) 5(2) in \<open>auto simp: moved_def\<close>)
    ultimately show ?thesis
      using True 1(1) 2(1) 3(1) 4(1) 5(1) 6(1) dm q mv mv5 restore[OF mv(1)] restore[OF mv(2)] restore[OF mv(3)] b
      by (cases ty) (auto simp: parse_url_def found_in_def Let_def)
  next
    case False
    then show ?thesis using 1 by (simp add: parse_url_def found_in_def)
  qed
qed

interpretation mention_index_safe: block_scanner parse_mention_index by unfold_locales (rule parse_mention_index_safe)
interpretation hashtag_safe: block_scanner parse_hashtag by unfold_locales (rule parse_hashtag_safe)
interpretation url_safe: block_scanner parse_url by unfold_locales (rule parse_url_safe)
interpretation invoice_safe: block_scanner parse_invoice by unfold_locales (rule parse_invoice_safe)
interpretation mention_bech32_safe: block_scanner parse_mention_bech32 by unfold_locales (rule parse_mention_bech32_safe)

lemma scan_mention_safe:
  assumes "text_wf m c"
  shows "ok (scan_mention m c x) (found_in c)"
  unfolding scan_mention_def
  by (intro ok_bindI[OF mention_index_safe.or_scan_safe[OF assms]] ok_bindI[OF hashtag_safe.or_scan_safe[OF assms]]
      ok_bindI[OF url_safe.or_scan_safe[OF assms]] ok_bindI[OF invoice_safe.or_scan_safe[OF assms]]
      mention_bech32_safe.or_scan_safe[OF assms])
    (use text_wf_bounds[OF assms] in \<open>simp_all add: found_in_def\<close>)

section \<open>Safety of writing\<close>

text \<open>An operation on the output cursor moved forward and wrote only to the free part of the buffer.\<close>

definition wr :: "mem \<Rightarrow> cursor \<Rightarrow> mem \<Rightarrow> cursor \<Rightarrow> bool" where
  "wr m c m' c' \<longleftrightarrow> moved c c' \<and> only_writes m m' (cp c) (cend c) \<and> wf_cursor m' c'"

lemma wr_refl: "wf_cursor m c \<Longrightarrow> wr m c m c"
  by (auto simp: wr_def dest: wf_bounds)

lemma wr_trans: "wr m c m1 c1 \<Longrightarrow> wr m1 c1 m2 c2 \<Longrightarrow> wr m c m2 c2"
  unfolding wr_def using moved_trans[of c c1 c2]
  by (auto intro: only_writes_trans[of m m1 "cp c" "cend c" m2 "cp c1" "cend c1"] simp: moved_def)

lemma wr_wf: "wr m c m' c' \<Longrightarrow> wf_cursor m' c'"
  by (simp add: wr_def)

lemma wr_restore: "wr m c m' c' \<Longrightarrow> wf_cursor m c \<Longrightarrow> c'\<lparr>cp := cp c\<rparr> = c \<and> wr m c m' c"
  by (auto simp: wr_def moved_def wf_cursor_def)

lemma wr_stores:
  assumes "wf_cursor m c" "cp c \<le> a" "a + int (length bs) \<le> cend c"
  shows "ok (stores bs m a) (\<lambda>m'. only_writes m m' (cp c) (cend c))"
proof -
  have v: "valid m a (int (length bs))" using assms wf_bounds[OF assms(1)] by (intro wf_valid[of m c]) auto
  have "only_writes m (putb m a bs) (cp c) (cend c)"
    using only_writes_putb[OF v] by (rule only_writes_mono) (use assms in auto)
  then show ?thesis by (simp add: stores_valid[OF v])
qed

lemma wr_push:
  assumes "wf_cursor m c"
  shows "ok (cursor_push_varint m c n) (\<lambda>(r, m', c'). r \<noteq> 0 \<and> wr m c m' c')"
    "ok (push_str_block m c a b) (\<lambda>(r, m', c'). r \<and> wr m c m' c')"
    "ok (cursor_push_byte m c x) (\<lambda>(r, m', c'). wr m c m' c')"
    "ok (cursor_push m c bs) (\<lambda>(r, m', c'). wr m c m' c')"
    "ok (cursor_push_c_str m c s) (\<lambda>(r, m', c'). wr m c m' c')"
  by (rule ok_conseq[OF push_varint_ok[OF assms]] ok_conseq[OF push_str_block_ok[OF assms]]
      ok_conseq[OF byte_codec.push_ok[OF assms]] ok_conseq[OF bytes_writer.push_ok[OF assms]]
      ok_conseq[OF c_str_writer.push_ok[OF assms]]; auto simp: wr_def)+

lemma encode_invoice_wr:
  assumes wf: "wf_cursor m c"
  shows "ok (ndb_encode_invoice m c b) (\<lambda>(r, m', c'). wr m c m' c')"
proof (cases "b11_description b = None \<and> b11_description_hash b = None")
  case True
  then show ?thesis using wr_refl[OF wf] by (simp add: ndb_encode_invoice_def)
next
  case False
  obtain r1 m1 c1 where 1: "cursor_push_byte m c 1 = Some (r1, m1, c1)" "wr m c m1 c1"
    using wr_push(3)[OF wf, of 1] by (auto simp: ok_iff)
  obtain r2 m2 c2 where 2: "cursor_push_varint m1 c1 (case b11_msat b of None \<Rightarrow> 0 | Some x \<Rightarrow> x) = Some (r2, m2, c2)" "wr m1 c1 m2 c2"
    using wr_push(1)[OF wr_wf[OF 1(2)]] by (fastforce simp: ok_iff)
  obtain r3 m3 c3 where 3: "cursor_push_varint m2 c2 (b11_timestamp b) = Some (r3, m3, c3)" "wr m2 c2 m3 c3"
    using wr_push(1)[OF wr_wf[OF 2(2)]] by (fastforce simp: ok_iff)
  obtain r4 m4 c4 where 4: "cursor_push_varint m3 c3 (b11_expiry b) = Some (r4, m4, c4)" "wr m3 c3 m4 c4"
    using wr_push(1)[OF wr_wf[OF 3(2)]] by (fastforce simp: ok_iff)
  obtain r5 m5 c5 where 5: "cursor_push_byte m4 c4 (if b11_description b = None then 2 else 1) = Some (r5, m5, c5)" "wr m4 c4 m5 c5"
    using wr_push(3)[OF wr_wf[OF 4(2)]] by (fastforce simp: ok_iff)
  have w: "wr m c m1 c1" "wr m c m2 c2" "wr m c m3 c3" "wr m c m4 c4" "wr m c m5 c5"
    using 1(2) 2(2) 3(2) 4(2) 5(2) wr_trans by blast+
  have t: "wr m5 c5 m' c' \<Longrightarrow> wr m c m' c'" for m' c' using w(5) wr_trans by blast
  have e: "ok (cursor_push_c_str m5 c5 s) (\<lambda>(r, m', c'). wr m c m' c')"
    "ok (cursor_push m5 c5 bs) (\<lambda>(r, m', c'). wr m c m' c')" for s bs
    by (rule ok_conseq[OF wr_push(5)[OF wr_wf[OF 5(2)]]], use t in auto,
        rule ok_conseq[OF wr_push(4)[OF wr_wf[OF 5(2)]]], use t in auto)
  show ?thesis
    unfolding ndb_encode_invoice_def if_not_P[OF False]
    using 1(1) 2(1) 3(1) 4(1) 5(1) w e by (cases "b11_description b") simp_all
qed

lemma decode_hrp_stored: "decode_hrp hrp chk l u = (r, st) \<Longrightarrow> length st \<le> length hrp"
  by (induction hrp arbitrary: chk l u st) (auto simp: Let_def split: prod.splits if_splits)

lemma decode_data_stored: "decode_data xs chk l u = (r, st) \<Longrightarrow> length st \<le> length xs"
  by (induction xs arbitrary: chk l u st) (fastforce simp: Let_def split: prod.splits if_splits)+

lemma decode_len_bounds:
  assumes "bech32_decode_len text 8 = (enc, prefix, groups)"
  shows "length prefix \<le> 9" "length groups \<le> length text"
proof -
  define k where "k = length (takeWhile (\<lambda>x. x \<noteq> 49) (rev text))"
  define n where "n = (int (length text) - (1 + int k)) mod 2 ^ 64"
  have h: "length st \<le> 8" if "decode_hrp (take (nat n) text) 1 False False = (r, st)" "n \<le> 8" for r st
    using decode_hrp_stored[OF that(1)] that(2) nat_mono[OF that(2)] by simp
  have d: "length st \<le> length text" if "decode_data (drop (nat n + 1) text) chk l u = (r, st)" for chk l u r st
    using decode_data_stored[OF that] by simp
  note u = assms[unfolded bech32_decode_len_def Let_def, folded k_def, folded n_def]
  show "length prefix \<le> 9"
    using u by (auto split: if_splits prod.splits option.splits dest!: h)
  show "length groups \<le> length text"
    using u by (auto split: if_splits prod.splits option.splits dest!: d[simplified])
qed

lemma convert_bits_shrinks:
  assumes "bech32_convert_bits 8 groups 5 False = (r, out)"
  shows "8 * length out \<le> 5 * length groups"
proof -
  obtain o' v b where c: "convert_loop groups 8 5 0 0 = (o', v, b)" by (metis prod_cases3)
  then have "out = o'" using assms by (auto simp: bech32_convert_bits_def Let_def split: if_splits)
  with convert_loop_length[OF _ _ c] show ?thesis by simp
qed

text \<open>The effect of a write on the parser.\<close>

definition wrote :: "mem \<Rightarrow> ndb_content_parser \<Rightarrow> mem \<Rightarrow> ndb_content_parser \<Rightarrow> bool" where
  "wrote m p m' p' \<longleftrightarrow> p_content p' = p_content p \<and> wr m (p_buffer p) m' (p_buffer p') \<and>
     blocks_ptr (p_blocks p') = blocks_ptr (p_blocks p)"

lemma only_writes_outside: "only_writes m m' a b \<Longrightarrow> i < a \<or> b \<le> i \<Longrightarrow> m' i = m i"
  unfolding only_writes_def by blast

lemma wrote_wf:
  assumes wf: "parser_wf m p" and "wrote m p m' p'"
  shows "parser_wf m' p'"
proof -
  have w: "moved (p_buffer p) (p_buffer p')" "only_writes m m' (cp (p_buffer p)) (cend (p_buffer p))"
    "wf_cursor m' (p_buffer p')" "p_content p' = p_content p"
    using assms(2) by (auto simp: wrote_def wr_def)
  have b: "cstart (p_buffer p) \<le> cp (p_buffer p)" "cp (p_buffer p) \<le> cend (p_buffer p)"
    using wf by (auto simp: parser_wf_def dest: wf_bounds)
  have c: "cstart (p_content p) \<le> cend (p_content p)" using wf by (auto simp: parser_wf_def dest!: wf_bounds)
  have "m' (cend (p_content p)) = m (cend (p_content p))"
    using wf b c by (intro only_writes_outside[OF w(2)]) (auto simp: parser_wf_def)
  with w wf show ?thesis by (simp add: parser_wf_def only_writes_wf[OF w(2)] moved_def)
qed

lemma wrote_trans: "wrote m p m1 p1 \<Longrightarrow> wrote m1 p1 m2 p2 \<Longrightarrow> wrote m p m2 p2"
  by (auto simp: wrote_def intro: wr_trans)

lemma wrote_refl: "parser_wf m p \<Longrightarrow> wrote m p m p"
  by (simp add: wrote_def wr_refl parser_wf_def)

lemma parser_text_wf: "parser_wf m p \<Longrightarrow> text_wf m (p_content p)"
  by (simp add: parser_wf_def text_wf_def)

lemma c_string_text:
  "text_wf m c \<Longrightarrow> cstart c \<le> a \<Longrightarrow> a \<le> cend c \<Longrightarrow> \<exists>s. c_string m a = Some s \<and> int (length s) \<le> cend c - a"
proof (induction "nat (cend c - a)" arbitrary: a)
  case 0
  then have "a = cend c" by simp
  then show ?case using "0.prems"(1) by (subst c_string.simps) (auto simp: load_def text_wf_def)
next
  case (Suc n)
  then have lt: "a < cend c" by simp
  then have l: "load m a = Some (the (m a))" using Suc.prems by (intro text_load) auto
  show ?case
  proof (cases "the (m a) = 0")
    case True
    then show ?thesis using l lt by (subst c_string.simps) simp
  next
    case False
    have "n = nat (cend c - (a + 1))" using Suc.hyps(2) by simp
    then obtain s where "c_string m (a + 1) = Some s" "int (length s) \<le> cend c - (a + 1)"
      using Suc.hyps(1)[of "a + 1"] Suc.prems lt by auto
    then show ?thesis using l False by (subst c_string.simps) simp
  qed
qed

lemma push_invoice_str_safe:
  assumes wf: "parser_wf m p" and s: "cstart (p_content p) \<le> sb_str s" "sb_str s \<le> cend (p_content p)"
  shows "ok (push_invoice_str m p s) (\<lambda>(r, m', p'). wrote m p m' p')"
proof -
  obtain t where t: "c_string m (sb_str s) = Some t"
    using c_string_text[OF parser_text_wf[OF wf] s] by blast
  obtain b where b: "bolt11_decode_minimal t = Some b" using bolt11_decode_ok[of t] by (auto simp: ok_iff)
  have wfb: "wf_cursor m (p_buffer p)" using wf by (simp add: parser_wf_def)
  obtain m1 c1 where 1: "push_str_block m (p_buffer p) (cstart (p_content p)) s = Some (True, m1, c1)" "wr m (p_buffer p) m1 c1"
    using wr_push(2)[OF wfb] by (fastforce simp: ok_iff)
  have 2: "ok (ndb_encode_invoice m1 c1 i) (\<lambda>(r, m', c'). wr m (p_buffer p) m' c')" for i
    by (rule ok_conseq[OF encode_invoice_wr[OF wr_wf[OF 1(2)]]]) (auto intro: wr_trans[OF 1(2)])
  show ?thesis
  proof (cases b)
    case (Inl e)
    then show ?thesis using t b wrote_refl[OF wf] by (simp add: push_invoice_str_def)
  next
    case (Inr i)
    obtain r m2 c2 where "ndb_encode_invoice m1 c1 i = Some (r, m2, c2)" "wr m (p_buffer p) m2 c2"
      using 2[of i] by (auto simp: ok_iff)
    then show ?thesis
      using t b Inr 1(1) wr_restore[OF _ wfb] by (auto simp: push_invoice_str_def wrote_def Let_def)
  qed
qed

lemma skip_wr:
  assumes "wf_cursor m c" and "cursor_skip c 2 = (r, c')"
  shows "wr m c m c'" and "r \<Longrightarrow> c' = c\<lparr>cp := cp c + 2\<rparr> \<and> cp c + 2 < cend c"
  using assms wf_bounds[OF assms(1)] by (auto simp: cursor_skip_def wr_def wf_cursor_def moved_def split: if_splits)

lemma slice_wr:
  assumes "wf_cursor m c" and "cursor_malloc_slice c n = (s, c')"
  shows "wr m c m c'" and "s = Some u \<Longrightarrow> cp u = cp c \<and> c' = c\<lparr>cp := cp c + int n\<rparr> \<and> cp c + int n \<le> cend c"
  using assms wf_bounds[OF assms(1)]
  by (auto simp: cursor_malloc_slice_def cursor_malloc_def make_cursor_def wr_def wf_cursor_def moved_def split: if_splits)

lemma wr_writes: "wr m c m1 c1 \<Longrightarrow> only_writes m1 m2 (cp c) (cend c) \<Longrightarrow> wr m c m2 c1"
  unfolding wr_def by (auto intro: only_writes_trans simp: only_writes_wf)

text \<open>Storing inside the part of the buffer that was free at the start.\<close>

lemma wr_then_stores:
  assumes "wf_cursor m c" and "wr m c m1 c1" "cp c \<le> a" "a + int (length bs) \<le> cend c"
  shows "ok (stores bs m1 a) (\<lambda>m2. wr m c m2 c1)"
proof -
  have "wf_cursor m1 c" using assms(1,2) by (auto simp: wr_def only_writes_wf)
  from wr_stores[OF this assms(3,4)] show ?thesis by (rule ok_conseq) (rule wr_writes[OF assms(2)])
qed

lemma push_bech32_mention_safe:
  assumes wf: "parser_wf m p" and s: "cstart (p_content p) \<le> sb_str s" "sb_str s + uint (sb_len s) \<le> cend (p_content p)"
  shows "ok (push_bech32_mention m p s) (\<lambda>(r, m', p'). wrote m p m' p')"
proof -
  let ?b = "p_buffer p" and ?n = "unat (sb_len s)"
  have wfb: "wf_cursor m ?b" using wf by (simp add: parser_wf_def)
  have sl: "sb_str s \<le> cend (p_content p)" using s(2) by (meson add_increasing2 dual_order.trans uint_ge_0 order_refl)
  have fail: "wr m ?b m' c' \<Longrightarrow> wrote m p m' (p\<lparr>p_buffer := ?b\<lparr>cp := cp ?b\<rparr>\<rparr>)" for m' c'
    using wr_restore[OF _ wfb, of m' c'] by (simp add: wrote_def)
  obtain r0 where 0: "parse_nostr_bech32_type m (sb_str s) = Some r0"
    using parse_type_text[OF parser_text_wf[OF wf] s(1) sl] by (auto simp: ok_iff)
  obtain m1 c1 where 1: "push_str_block m ?b (cstart (p_content p)) s = Some (True, m1, c1)" "wr m ?b m1 c1"
    using wr_push(2)[OF wfb] by (fastforce simp: ok_iff)
  obtain r2 c2 where 2: "cursor_skip c1 2 = (r2, c2)" by fastforce
  note w2 = wr_trans[OF 1(2) skip_wr(1)[OF wr_wf[OF 1(2)] 2]]
  note e2 = skip_wr(2)[OF wr_wf[OF 1(2)] 2]
  show ?thesis
  proof (cases "r0 \<noteq> None \<and> r2")
    case False
    then show ?thesis
      using 0 1(1) 2 wrote_refl[OF wf] fail[OF 1(2)] fail[OF wr_refl[OF wfb]]
      by (cases r0) (auto simp: push_bech32_mention_def Let_def)
  next
    case True
    then obtain ty n0 where r0: "r0 = Some (ty, n0)" and r2 by auto
    obtain r3 m3 c3 where 3: "cursor_push_varint m1 c2 (bech32_type_val ty) = Some (r3, m3, c3)" "r3 \<noteq> 0" "wr m1 c2 m3 c3"
      using wr_push(1)[OF wr_wf[OF w2], of "bech32_type_val ty"] by (auto simp: ok_iff)
    note w3 = wr_trans[OF w2 3(3)]
    obtain u8 c4 where 4: "cursor_malloc_slice c3 ?n = (u8, c4)" by fastforce
    note w4 = wr_trans[OF w3 slice_wr(1)[OF wr_wf[OF w3] 4]]
    obtain u5 c5 where 5: "cursor_malloc_slice c4 ?n = (u5, c5)" by fastforce
    note w5 = wr_trans[OF w4 slice_wr(1)[OF wr_wf[OF w4] 5]]
    show ?thesis
    proof (cases "u8 = None \<or> u5 = None")
      case True
      then show ?thesis
        using 0 r0 1(1) 2 \<open>r2\<close> 3(1,2) 4 5 fail[OF w3] by (cases u8; cases u5) (auto simp: push_bech32_mention_def Let_def)
    next
      case False
      then obtain a8 a5 where u: "u8 = Some a8" "u5 = Some a5" by auto
      have p8: "cp a8 = cp c3" "c4 = c3\<lparr>cp := cp c3 + int ?n\<rparr>" using slice_wr(2)[OF wr_wf[OF w3] 4 u(1)] by auto
      have p5: "cp a5 = cp c3 + int ?n" "cp c3 + int ?n + int ?n \<le> cend c3"
        using slice_wr(2)[OF wr_wf[OF w4] 5 u(2)] p8(2) by auto
      have b3: "cp ?b \<le> cp c3" "cend c3 = cend ?b" "cp ?b \<le> cp c1" "cp c1 + 2 \<le> cend ?b" "cp c1 + 2 \<le> cp c3"
        using w3 1(2) e2[OF \<open>r2\<close>] 3(3) by (auto simp: wr_def moved_def)
      have v: "valid m3 (sb_str s) (int ?n)"
      proof -
        have "valid m (sb_str s) (int ?n)"
          using wf s by (intro wf_valid[of m "p_content p"]) (auto simp: parser_wf_def)
        then show ?thesis using w3 by (auto simp: wr_def only_writes_valid)
      qed
      then have l: "loads ?n m3 (sb_str s) = Some (getb m3 (sb_str s) ?n)" by (rule loads_valid)
      obtain enc prefix groups where d: "bech32_decode_len (getb m3 (sb_str s) ?n) 8 = (enc, prefix, groups)"
        by (metis prod_cases3)
      note db = decode_len_bounds[OF d, simplified]
      have "cp ?b \<le> cp a5" "cp a5 + int (length groups) \<le> cend ?b" using db(2) p5 b3 by linarith+
      from wr_then_stores[OF wfb w5 this] obtain m6 where 6: "stores groups m3 (cp a5) = Some m6" "wr m ?b m6 c5"
        by (auto simp: ok_iff)
      obtain r7 out where c: "bech32_convert_bits 8 groups 5 False = (r7, out)" by fastforce
      have ol: "length out \<le> ?n" using convert_bits_shrinks[OF c] db(2) by simp
      have b8: "cp ?b \<le> cp a8" "cp a8 + int (length out) \<le> cend ?b" using ol p5 p8 b3 by linarith+
      from wr_then_stores[OF wfb 6(2) this] obtain m7 where 7: "stores out m6 (cp a8) = Some m7" "wr m ?b m7 c5"
        by (auto simp: ok_iff)
      obtain m8 where 8: "stores (le_bytes 2 (word_of_nat (length out) :: u16)) m7 (cp c1) = Some m8" "wr m ?b m8 c5"
        using wr_then_stores[OF wfb 7(2), of "cp c1" "le_bytes 2 (word_of_nat (length out) :: u16)"] b3
        by (auto simp: ok_iff)
      have "wr m ?b m8 (c5\<lparr>cp := cp a8 + int (length out)\<rparr>)"
        using 8(2) b8 wf_bounds[OF wfb] by (auto simp: wr_def moved_def wf_cursor_def)
      then show ?thesis
        using 0 r0 1(1) 2 \<open>r2\<close> 3(1,2) 4 5 u l d db(1) 6(1) c 7(1) 8(1) fail[OF 6(2)] fail[OF 7(2)]
        by (auto simp: push_bech32_mention_def Let_def wrote_def)
    qed
  qed
qed

lemma wrote_count [simp]: "wrote m p m' (count_block p') = wrote m p m' p'"
  by (simp add: wrote_def count_block_def)

lemma wrote_restore: "parser_wf m p \<Longrightarrow> wrote m p m' p' \<Longrightarrow> wrote m p m' (set_buffer_p (cp (p_buffer p)) p')"
  using wr_restore[of m "p_buffer p" m' "p_buffer p'"] by (simp add: wrote_def set_buffer_p_def parser_wf_def)

lemma push_text_safe:
  assumes wf: "parser_wf m p"
  shows "ok (push_block m p (Parsed_str BLOCK_TEXT s)) (\<lambda>(r, m', p'). wrote m p m' p')"
proof -
  have wfb: "wf_cursor m (p_buffer p)" using wf by (simp add: parser_wf_def)
  obtain r1 m1 c1 where 1: "cursor_push_varint m (p_buffer p) 2 = Some (r1, m1, c1)" "r1 \<noteq> 0" "wr m (p_buffer p) m1 c1"
    using wr_push(1)[OF wfb, of 2] by (auto simp: ok_iff)
  obtain m2 c2 where 2: "push_str_block m1 c1 (cstart (p_content p)) s = Some (True, m2, c2)" "wr m1 c1 m2 c2"
    using wr_push(2)[OF wr_wf[OF 1(3)]] by (fastforce simp: ok_iff)
  show ?thesis
    using 1(1,2) 2(1) wr_trans[OF 1(3) 2(2)] by (simp add: push_block.simps[of m p] Let_def) (simp add: wrote_def)
qed

lemma add_text_block_safe:
  "parser_wf m p \<Longrightarrow> ok (add_text_block m p a b) (\<lambda>(r, m', p'). wrote m p m' p')"
  using push_text_safe[of m p] by (simp add: add_text_block.simps[of m p] wrote_refl)

lemma add_text_block_after:
  assumes wf: "parser_wf m p" and w: "wrote m p m1 p1"
  shows "ok (add_text_block m1 (set_buffer_p (cp (p_buffer p)) p1) a b) (\<lambda>(r, m', p'). wrote m p m' p')"
proof -
  note w1 = wrote_restore[OF wf w]
  show ?thesis
    by (rule ok_conseq[OF add_text_block_safe[OF wrote_wf[OF wf w1]]]) (auto intro: wrote_trans[OF w1])
qed

lemma push_block_safe:
  assumes wf: "parser_wf m p" and b: "block_in (p_content p) b"
  shows "ok (push_block m p b) (\<lambda>(r, m', p'). wrote m p m' p')"
proof -
  let ?tag = "case b of Parsed_str ty _ \<Rightarrow> block_type_val ty | Parsed_index _ \<Rightarrow> block_type_val BLOCK_MENTION_INDEX"
  have wfb: "wf_cursor m (p_buffer p)" using wf by (simp add: parser_wf_def)
  obtain r1 m1 c1 where 1: "cursor_push_varint m (p_buffer p) ?tag = Some (r1, m1, c1)" "r1 \<noteq> 0" "wr m (p_buffer p) m1 c1"
    using wr_push(1)[OF wfb, of ?tag] by (auto simp: ok_iff)
  let ?p1 = "p\<lparr>p_buffer := c1\<rparr>"
  have w1: "wrote m p m1 ?p1" using 1(3) by (simp add: wrote_def)
  note wf1 = wrote_wf[OF wf w1]
  let ?body = "case b of
            Parsed_index i \<Rightarrow> do {
              (r, m, buf) \<leftarrow> cursor_push_varint m1 (p_buffer ?p1) (ucast i);
              Some (r \<noteq> 0, m, ?p1\<lparr>p_buffer := buf\<rparr>) }
          | Parsed_str ty s \<Rightarrow>
              if ty = BLOCK_MENTION_BECH32 then do {
                (r, m, p') \<leftarrow> push_bech32_mention m1 ?p1 s;
                if r then Some (True, m, p')
                else add_text_block m (set_buffer_p (cp (p_buffer p)) p') (sb_str s) (sb_str s + uint (sb_len s)) }
              else if ty = BLOCK_INVOICE then do {
                (r, m, p') \<leftarrow> push_invoice_str m1 ?p1 s;
                if r then Some (True, m, p')
                else add_text_block m (set_buffer_p (cp (p_buffer p)) p') (sb_str s) (sb_str s + uint (sb_len s)) }
              else do {
                (r, m, buf) \<leftarrow> push_str_block m1 (p_buffer ?p1) (cstart (p_content ?p1)) s;
                Some (r, m, ?p1\<lparr>p_buffer := buf\<rparr>) }"
  have "ok ?body (\<lambda>(r, m', p'). wrote m p m' p')"
  proof (cases b)
    case (Parsed_index i)
    show ?thesis unfolding Parsed_index
      by (simp, rule ok_bindI[OF wr_push(1)[OF wr_wf[OF 1(3)]]]) (auto simp: wrote_def intro: wr_trans[OF 1(3)])
  next
    case (Parsed_str ty s)
    have in': "cstart (p_content ?p1) \<le> sb_str s" "sb_str s + uint (sb_len s) \<le> cend (p_content ?p1)"
      "sb_str s \<le> cend (p_content ?p1)"
      using b Parsed_str by (auto intro: order_trans[OF _ order_trans[OF add_increasing2[OF uint_ge_0 order_refl]]])
    have t: "wrote m1 ?p1 m' p' \<Longrightarrow> wrote m p m' p'" for m' p' by (rule wrote_trans[OF w1])
    consider "ty = BLOCK_MENTION_BECH32" | "ty = BLOCK_INVOICE" | "ty \<noteq> BLOCK_MENTION_BECH32" "ty \<noteq> BLOCK_INVOICE" by blast
    then show ?thesis
    proof cases
      case 1
      show ?thesis unfolding Parsed_str 1
        by (simp, rule ok_bindI[OF push_bech32_mention_safe[OF wf1 in'(1,2)]])
          (auto intro: t add_text_block_after[OF wf t])
    next
      case 2
      show ?thesis unfolding Parsed_str 2
        by (simp, rule ok_bindI[OF push_invoice_str_safe[OF wf1 in'(1,3)]])
          (auto intro: t add_text_block_after[OF wf t])
    next
      case 3
      then show ?thesis unfolding Parsed_str
        by (simp, intro ok_bindI[OF wr_push(2)[OF wr_wf[OF \<open>wr m (p_buffer p) m1 c1\<close>]]])
          (auto simp: wrote_def intro: wr_trans[OF \<open>wr m (p_buffer p) m1 c1\<close>])
    qed
  qed
  then obtain r m2 p2 where 2: "?body = Some (r, m2, p2)" "wrote m p m2 p2" by (auto simp: ok_iff)
  have "push_block m p b = Some (if r then (True, m2, count_block p2) else (False, m2, set_buffer_p (cp (p_buffer p)) p2))"
    unfolding push_block.simps[of m p] Let_def 1(1) by (simp only: bind.simps prod.case 1(2) if_False 2(1)) simp
  then show ?thesis using 2(2) wrote_restore[OF wf 2(2)] by simp
qed

section \<open>Safety of the parser\<close>

definition stepped :: "mem \<Rightarrow> ndb_content_parser \<Rightarrow> mem \<Rightarrow> ndb_content_parser \<Rightarrow> bool" where
  "stepped m p m' p' \<longleftrightarrow> wr m (p_buffer p) m' (p_buffer p') \<and> moved (p_content p) (p_content p') \<and> parser_wf m' p' \<and>
     blocks_ptr (p_blocks p') = blocks_ptr (p_blocks p)"

lemma parser_wf_content:
  "parser_wf m p \<Longrightarrow> moved (p_content p) c \<Longrightarrow> parser_wf m (p\<lparr>p_content := c, p_blocks := b\<rparr>)"
  by (auto simp: parser_wf_def moved_def wf_cursor_def)

lemma stepped_wrote:
  assumes "parser_wf m p" "moved (p_content p) c" "wrote m (p\<lparr>p_content := c, p_blocks := b\<rparr>) m' p'"
    and "blocks_ptr b = blocks_ptr (p_blocks p)"
  shows "stepped m p m' p'"
  using assms wrote_wf[OF parser_wf_content[OF assms(1,2)] assms(3)] by (simp add: stepped_def wrote_def)

lemma stepped_trans: "stepped m p m1 p1 \<Longrightarrow> stepped m1 p1 m2 p2 \<Longrightarrow> stepped m p m2 p2"
  unfolding stepped_def by (auto intro: wr_trans moved_trans)

lemma block_in_moved: "moved c c' \<Longrightarrow> block_in c' = block_in c"
proof (rule ext)
  fix b assume "moved c c'" then show "block_in c' b = block_in c b" by (cases b) (simp_all add: moved_def)
qed

lemma add_text_then_block_safe:
  assumes wf: "parser_wf m p" and b: "block_in (p_content p) b"
  shows "ok (add_text_then_block m p b s e) (\<lambda>(r, m', p', s'). wrote m p m' p')"
  unfolding add_text_then_block_def Let_def
proof (rule ok_bindI[OF add_text_block_safe[OF wf]], clarsimp)
  fix r m1 p1 assume w: "wrote m p m1 p1"
  then have "block_in (p_content p1) b" using b by (simp add: wrote_def)
  from push_block_safe[OF wrote_wf[OF wf w] this]
  show "ok (push_block m1 p1 b \<bind> (\<lambda>(r, m, p). Some (r, m, p, cp (p_content p1)))) (\<lambda>(r, m', p', s'). wrote m p m' p')"
    by (rule ok_bindI) (auto intro: wrote_trans[OF w])
qed

lemma content_step_safe:
  assumes wf: "parser_wf m p" and lt: "cp (p_content p) < cend (p_content p)"
  shows "ok (content_step m p start) (\<lambda>r. case r of Inl (m', p') \<Rightarrow> stepped m p m' p' | Inr (m', p', s') \<Rightarrow> stepped m p m' p')"
proof -
  let ?c = "p_content p"
  note tw = parser_text_wf[OF wf]
  obtain prev x where x: "peek_char m ?c (-1) = Some prev" "peek_char m ?c 0 = Some x"
    using scan_ok_moved(6)[OF tw, of "-1"] scan_ok_moved(6)[OF tw, of 0] by (auto simp: ok_iff)
  define bl where "bl = (if is_whitespace prev \<and> \<not> is_whitespace x
    then (p_blocks p)\<lparr>blocks_words := blocks_words (p_blocks p) + 1\<rparr> else p_blocks p)"
  have p': "(if is_whitespace prev \<and> \<not> is_whitespace x
      then p\<lparr>p_blocks := (p_blocks p)\<lparr>blocks_words := blocks_words (p_blocks p) + 1\<rparr>\<rparr> else p) = p\<lparr>p_blocks := bl\<rparr>"
    by (simp add: bl_def)
  have blp: "blocks_ptr bl = blocks_ptr (p_blocks p)" by (simp add: bl_def)
  have "found_in ?c (None, ?c)" using text_wf_bounds[OF tw] by (simp add: found_in_def)
  then have "ok (if prev = -1 \<or> is_left_boundary prev \<or> x = asc CHR ''#'' then scan_mention m ?c x
      else Some (None, ?c)) (found_in ?c)"
    using scan_mention_safe[OF tw, of x] by (simp only: ok_simps split: if_split) simp
  then obtain b cur where s: "(if prev = -1 \<or> is_left_boundary prev \<or> x = asc CHR ''#'' then scan_mention m ?c x
      else Some (None, ?c)) = Some (b, cur)" "moved ?c cur" "pred_option (block_in ?c) b" "b = None \<longrightarrow> cp cur < cend ?c"
    using lt by (auto simp: ok_iff found_in_def)
  let ?p = "p\<lparr>p_content := cur, p_blocks := bl\<rparr>"
  have e: "p\<lparr>p_blocks := bl\<rparr>\<lparr>p_content := cur\<rparr> = ?p" by simp
  have bi: "block_in ?c = block_in cur" using block_in_moved[OF s(2)] by simp
  have pc: "p_content (p\<lparr>p_blocks := bl\<rparr>) = ?c" by simp
  have eq: "content_step m p start = (case b of
       Some block \<Rightarrow> do {
         (r, m, p, start) \<leftarrow> add_text_then_block m ?p block start (cp ?c);
         Some (if r then Inr (m, p, start) else Inl (m, p)) }
     | None \<Rightarrow> Some (Inr (m, p\<lparr>p_content := cur\<lparr>cp := cp cur + 1\<rparr>, p_blocks := bl\<rparr>, start)))"
    unfolding content_step_def by (simp only: Let_def x bind.simps p' pc s(1) prod.case) (cases b, simp_all add: e)
  show ?thesis
  proof (cases b)
    case (Some blk)
    have "ok (add_text_then_block m ?p blk start (cp ?c)) (\<lambda>(r, m', p', s'). wrote m ?p m' p')"
      using s(3) Some bi by (intro add_text_then_block_safe parser_wf_content[OF wf s(2)]) simp
    then show ?thesis
      using Some stepped_wrote[OF wf s(2) _ blp] unfolding eq by (auto simp: ok_iff split: if_splits)
  next
    case None
    let ?cur = "cur\<lparr>cp := cp cur + 1\<rparr>"
    have mv: "moved ?c ?cur" using s(2,4) None by (auto simp: moved_def)
    have "stepped m p m (p\<lparr>p_content := ?cur, p_blocks := bl\<rparr>)"
      using parser_wf_content[OF wf mv] mv wf by (simp add: stepped_def wr_refl parser_wf_def blp)
    then show ?thesis using None unfolding eq by simp
  qed
qed

lemma stepped_refl: "parser_wf m p \<Longrightarrow> stepped m p m p"
  by (auto simp: stepped_def parser_wf_def wr_refl dest: wf_bounds)

lemma content_loop_safe:
  "parser_wf m p \<Longrightarrow> ok (content_loop m p s) (\<lambda>(r, m', p', s'). stepped m p m' p')"
proof (induction m p s rule: content_loop.induct)
  case (1 m p s)
  show ?case
  proof (cases "cp (p_content p) < cend (p_content p)")
    case True
    from content_step_safe[OF "1.prems" True, of s] obtain r where r: "content_step m p s = Some r"
      "case r of Inl (m', p') \<Rightarrow> stepped m p m' p' | Inr (m', p', s') \<Rightarrow> stepped m p m' p'"
      by (auto simp: ok_iff)
    show ?thesis
    proof (cases r)
      case (Inl a)
      then show ?thesis using True r by (cases a) (simp add: content_loop.simps[of m p s])
    next
      case (Inr a)
      obtain m1 p1 s1 where a: "a = (m1, p1, s1)" by (cases a)
      have st: "stepped m p m1 p1" using r Inr a by simp
      then have wf1: "parser_wf m1 p1" by (simp add: stepped_def)
      have "ok (content_loop m1 p1 s1) (\<lambda>(r, m', p', s'). stepped m p m' p')"
        by (rule ok_conseq[OF "1.IH"[OF True r(1) Inr a[symmetric] refl wf1]]) (auto intro: stepped_trans[OF st])
      then show ?thesis using True r(1) Inr a by (simp add: content_loop.simps[of m p s])
    qed
  next
    case False
    then show ?thesis using stepped_refl[OF "1.prems"] by (simp add: content_loop.simps[of m p s])
  qed
qed

lemma loop_then_text_safe:
  assumes "parser_wf m p" "content_loop m p s = Some (r, m1, p1, s1)"
  shows "ok (if cp (p_content p1) - s1 > 0 then add_text_block m1 p1 s1 (cp (p_content p1)) else Some (True, m1, p1))
    (\<lambda>(r, m', p'). stepped m p m' p')"
proof -
  have st: "stepped m p m1 p1" using content_loop_safe[OF assms(1), of s] assms(2) by simp
  then have wf1: "parser_wf m1 p1" by (simp add: stepped_def)
  have "wrote m1 p1 m2 p2 \<Longrightarrow> stepped m p m2 p2" for m2 p2
    using wrote_wf[OF wf1, of m2 p2] st by (auto simp: stepped_def wrote_def intro: wr_trans)
  then show ?thesis using st by (auto intro: ok_conseq[OF add_text_block_safe[OF wf1]])
qed

lemma cursor_align_8:
  assumes wf: "wf_cursor m c"
  obtains "cursor_align m c 8 = Some (False, m, c)" "cend c < cp c + 8"
  | m' c' where "cursor_align m c 8 = Some (True, m', c')" "wr m c m' c'"
      "8 dvd cp c' - cstart c" "cp c' < cp c + 8"
proof -
  let ?pad = "(cstart c - cp c) mod 8"
  have pad: "align_pad (word_of_int (cp c - cstart c)) 8 = ?pad"
    using align_pad_eq[of 3 "cp c - cstart c"] by simp
  note e = cursor_align_pad[OF wf pad]
  note b = wf_bounds[OF wf]
  show ?thesis
  proof (cases "?pad = 0 \<or> cp c + ?pad < cend c")
    case True
    have v: "valid m (cp c) (int (length (replicate (nat ?pad) (0 :: u8))))"
      using True b by (intro wf_valid[OF wf]) auto
    have "only_writes m (putb m (cp c) (replicate (nat ?pad) 0)) (cp c) (cend c)"
      using only_writes_putb[OF v] by (rule only_writes_mono) (use True b in auto)
    moreover from this have "wf_cursor (putb m (cp c) (replicate (nat ?pad) 0)) (c\<lparr>cp := cp c + ?pad\<rparr>)"
      using wf True b by (auto simp: wf_cursor_def dest: only_writes_valid)
    moreover have "8 dvd cp c + ?pad - cstart c"
      using dvd_minus_mod[of 8 "cstart c - cp c"] by (simp add: dvd_diff_commute algebra_simps)
    ultimately show ?thesis using True e b that(2) by (auto simp: wr_def)
  qed (use e that(1) pos_mod_bound[of 8 "cstart c - cp c"] in auto)
qed

lemma parse_content_ok:
  assumes "valid m buf buf_size" and "buf_size < 2 ^ 31" and "valid m content (len + 1)"
    and "0 \<le> len" and "m (content + len) = Some 0"
    and "buf + buf_size \<le> content \<or> content + len < buf"
  shows "ok (ndb_parse_content m buf buf_size content len) (\<lambda>(r, m', b).
    only_writes m m' (buf + 24) (buf + buf_size) \<and>
    (r \<longrightarrow> (\<exists>bl. b = Some bl \<and> blocks_ptr bl = buf + 24 \<and>
       24 + uint (blocks_size bl) \<le> uint (blocks_total_size bl) \<and>
       uint (blocks_total_size bl) < 24 + uint (blocks_size bl) + 8 \<and>
       uint (blocks_total_size bl) \<le> buf_size \<and> 8 dvd uint (blocks_total_size bl))))"
proof (cases "buf_size < 24")
  case True
  then show ?thesis by (simp add: ndb_parse_content_def)
next
  case False
  define p where "p = \<lparr>p_buffer = (make_cursor buf (buf + buf_size))\<lparr>cp := buf + 24\<rparr>,
    p_content = make_cursor content (content + len),
    p_blocks = \<lparr>blocks_version = 1, blocks_flags = 0, blocks_words = 0, num_blocks = 0,
                      blocks_size = 0, blocks_total_size = 0, blocks_ptr = buf + 24\<rparr>\<rparr>"
  have pf: "cstart (p_buffer p) = buf" "cp (p_buffer p) = buf + 24" "cend (p_buffer p) = buf + buf_size"
    by (simp_all add: p_def make_cursor_def)
  have wf: "parser_wf m p"
    using assms False by (auto simp: p_def parser_wf_def wf_cursor_def make_cursor_def valid_def)
  note loop = content_loop_safe[OF wf, of "cp (p_content p)"]
  obtain r1 m1 p1 s1 where 1: "content_loop m p (cp (p_content p)) = Some (r1, m1, p1, s1)" "stepped m p m1 p1"
    using loop by (auto simp: ok_iff)
  obtain r2 m2 p2 where 2: "(if cp (p_content p1) - s1 > 0 then add_text_block m1 p1 s1 (cp (p_content p1))
      else Some (True, m1, p1)) = Some (r2, m2, p2)" "stepped m p m2 p2"
    using loop_then_text_safe[OF wf 1(1)] by (auto simp: ok_iff)
  have ptr: "blocks_ptr (p_blocks p2) = buf + 24" using 2(2) by (simp add: stepped_def p_def)
  have w: "only_writes m m1 (buf + 24) (buf + buf_size)" "only_writes m m2 (buf + 24) (buf + buf_size)"
    "moved (p_buffer p) (p_buffer p2)" "wf_cursor m2 (p_buffer p2)"
    using 1(2) 2(2) pf by (auto simp: stepped_def wr_def)
  have u: "uint (word_of_int x :: u32) = x" if "0 \<le> x" "x \<le> buf_size" for x
    using that assms(2) by (simp add: uint_word_of_int)
  show ?thesis
  proof (rule cursor_align_8[OF w(4)])
    assume "cursor_align m2 (p_buffer p2) 8 = Some (False, m2, p_buffer p2)"
    then show ?thesis using False 1(1) 2(1) w unfolding ndb_parse_content_def p_def[symmetric] Let_def
      by (simp add: p_def[symmetric])
  next
    fix m3 c3 assume a: "cursor_align m2 (p_buffer p2) 8 = Some (True, m3, c3)" "wr m2 (p_buffer p2) m3 c3"
      "8 dvd cp c3 - cstart (p_buffer p2)" "cp c3 < cp (p_buffer p2) + 8"
    have b: "buf + 24 \<le> cp (p_buffer p2)" "cp (p_buffer p2) \<le> cp c3" "cp c3 \<le> buf + buf_size" "cstart c3 = buf"
      "cstart (p_buffer p2) = buf" using w(3) a(2) pf by (auto simp: wr_def moved_def)
    have "only_writes m m3 (buf + 24) (buf + buf_size)"
      using a(2) w(2,3) b(1) pf by (auto simp: wr_def moved_def intro: only_writes_trans)
    moreover have "(cp c3 - cstart c3) mod 8 = 0" using a(3) b by (simp add: dvd_eq_mod_eq_0)
    moreover have "uint (word_of_int (cp c3) - word_of_int buf :: u32) = cp c3 - buf"
      "uint (word_of_int (cp (p_buffer p2)) - (word_of_int buf + 24) :: u32) = cp (p_buffer p2) - (buf + 24)"
      using u[of "cp c3 - buf"] u[of "cp (p_buffer p2) - (buf + 24)"] b by simp_all
    ultimately show ?thesis using False 1(1) 2(1) w a b ptr unfolding ndb_parse_content_def p_def[symmetric] Let_def
      by (simp add: p_def[symmetric])
  qed
qed

text \<open>
  C1 \<open>ndb_parse_content\<close> is memory safe and terminates for every content followed by a NUL, every output
  buffer and every content, and it writes only to the output buffer. When it succeeds, the
  blocks lie behind the header and inside the buffer, \<open>blocks_size\<close> and \<open>total_size\<close> are not truncated,
  and \<open>total_size\<close> is a multiple of eight that covers the header and the blocks.
\<close>

theorem parse_content_safe:
  assumes "valid m buf buf_size" and "buf_size < 2 ^ 31" and "valid m content (len + 1)"
    and "0 \<le> len" and "m (content + len) = Some 0"
    and "buf + buf_size \<le> content \<or> content + len < buf"
  shows "ok (ndb_parse_content m buf buf_size content len) (\<lambda>(r, m', b).
    only_writes m m' (buf + 24) (buf + buf_size) \<and>
    (r \<longrightarrow> (\<exists>bl. b = Some bl \<and> blocks_ptr bl = buf + 24 \<and>
       24 + uint (blocks_size bl) \<le> uint (blocks_total_size bl) \<and>
       uint (blocks_total_size bl) < 24 + uint (blocks_size bl) + 8 \<and>
       uint (blocks_total_size bl) \<le> buf_size \<and> 8 dvd uint (blocks_total_size bl))))"
  using assms by (rule parse_content_ok)

section \<open>Content without mentions\<close>

definition scan_triggers :: "u8 list" where
  "scan_triggers = str ''#hHlLn@''"

lemma scan_mention_plain: "b \<notin> set scan_triggers \<Longrightarrow> scan_mention m cur (uint b) = Some (None, cur)"
proof -
  assume b: "b \<notin> set scan_triggers"
  have "uint b \<noteq> k" if "b \<noteq> word_of_int k" for k using that by (metis word_of_int_uint)
  then show ?thesis using b by (simp add: scan_mention_def or_scan_def scan_triggers_def str_def)
qed

lemma content_loop_plain:
  "text_wf m (p_content p) \<Longrightarrow>
   (\<And>i. cp (p_content p) \<le> i \<Longrightarrow> i < cend (p_content p) \<Longrightarrow> the (m i) \<notin> set scan_triggers) \<Longrightarrow>
   \<exists>w. content_loop m p s = Some (True, m, p\<lparr>p_content := (p_content p)\<lparr>cp := cend (p_content p)\<rparr>,
     p_blocks := (p_blocks p)\<lparr>blocks_words := w\<rparr>\<rparr>, s)"
proof (induction m p s rule: content_loop.induct)
  case (1 m p s)
  let ?c = "p_content p"
  note b = text_wf_bounds[OF "1.prems"(1)]
  show ?case
  proof (cases "cp ?c < cend ?c")
    case True
    obtain prev where pr: "peek_char m ?c (-1) = Some prev"
      using scan_ok_moved(6)[OF "1.prems"(1), of "-1"] by (auto simp: ok_iff)
    have x: "peek_char m ?c 0 = Some (uint (the (m (cp ?c))))"
      using True b by (simp add: peek_char_def text_load[OF "1.prems"(1)])
    have s: "scan_mention m ?c (uint (the (m (cp ?c)))) = Some (None, ?c)"
      using True by (intro scan_mention_plain "1.prems"(2)) simp_all
    define w where "w = blocks_words (p_blocks p) + (if is_whitespace prev \<and> \<not> is_whitespace (uint (the (m (cp ?c)))) then 1 else 0)"
    have p': "(if is_whitespace prev \<and> \<not> is_whitespace (uint (the (m (cp ?c))))
        then p\<lparr>p_blocks := (p_blocks p)\<lparr>blocks_words := blocks_words (p_blocks p) + 1\<rparr>\<rparr> else p) =
        p\<lparr>p_blocks := (p_blocks p)\<lparr>blocks_words := w\<rparr>\<rparr>" (is "_ = ?q")
      by (simp add: w_def)
    have pc: "p_content ?q = ?c" by simp
    have st: "content_step m p s = Some (Inr (m, p\<lparr>p_content := ?c\<lparr>cp := cp ?c + 1\<rparr>,
        p_blocks := (p_blocks p)\<lparr>blocks_words := w\<rparr>\<rparr>, s))"
      unfolding content_step_def by (simp only: Let_def pr x bind.simps p' pc s if_cancel prod.case) simp
    let ?p = "p\<lparr>p_content := ?c\<lparr>cp := cp ?c + 1\<rparr>, p_blocks := (p_blocks p)\<lparr>blocks_words := w\<rparr>\<rparr>"
    have wf: "text_wf m (p_content ?p)" using True by (simp add: text_wf_moved[OF "1.prems"(1)])
    have "\<exists>w. content_loop m ?p s = Some (True, m, ?p\<lparr>p_content := (p_content ?p)\<lparr>cp := cend (p_content ?p)\<rparr>,
       p_blocks := (p_blocks ?p)\<lparr>blocks_words := w\<rparr>\<rparr>, s)"
      using "1.prems"(2) by (intro "1.IH"[OF True st refl refl refl wf]) simp
    then show ?thesis using True st by (simp add: content_loop.simps[of m p s])
  next
    case False
    then show ?thesis
      using b by (intro exI[of _ "blocks_words (p_blocks p)"]) (simp add: content_loop.simps[of m p s])
  qed
qed


lemma push_text_fits:
  assumes wf: "wf_cursor m (p_buffer p)" and s: "e = enc_block (cstart (p_content p)) (Block_text s)"
    and fits: "cp (p_buffer p) + int (length e) \<le> cend (p_buffer p)"
  shows "push_block m p (Parsed_str BLOCK_TEXT s) = Some (True, putb m (cp (p_buffer p)) e,
    count_block (p\<lparr>p_buffer := (p_buffer p)\<lparr>cp := cp (p_buffer p) + int (length e)\<rparr>\<rparr>))"
proof -
  have e: "e = varint_enc 2 @ enc_str_block (cstart (p_content p)) s" using s by simp
  obtain m1 c1 where 1: "cursor_push_varint m (p_buffer p) 2 = Some (int (length (varint_enc 2)), m1, c1)" "wf_cursor m1 c1"
    "m1 = putb m (cp (p_buffer p)) (varint_enc 2)" "c1 = (p_buffer p)\<lparr>cp := cp (p_buffer p) + int (length (varint_enc 2))\<rparr>"
    "cp c1 + int (length (enc_str_block (cstart (p_content p)) s)) \<le> cend c1"
    using push_varint_step[OF wf fits[unfolded e]] by blast
  have "varint_enc 2 \<noteq> []" using varint_enc.simps[of 2] by auto
  then show ?thesis
    using 1(1) push_str_block_fits[OF 1(2,5)] unfolding e
    by (simp add: push_block.simps[of m p] Let_def) (simp add: 1(3,4) putb_append algebra_simps)
qed


lemma text_block_inv: "text_block (sb_str s) (sb_str s + uint (sb_len s)) = s"
  by (simp add: text_block_def)

lemma count_block_num: "num_blocks (p_blocks (count_block p)) = num_blocks (p_blocks p) + 1"
  "p_buffer (count_block p) = p_buffer p" "p_content (count_block p) = p_content p"
  "blocks_ptr (p_blocks (count_block p)) = blocks_ptr (p_blocks p)"
  by (simp_all add: count_block_def)

lemma enc_text_bounds:
  assumes "e = enc_block content (Block_text s)"
  shows "0 < length e" "length e \<le> 30"
  using assms length_varint_enc_10[of 2] length_varint_enc_10[of "word_of_int (sb_str s - content)"]
    length_varint_enc_10[of "ucast (sb_len s)"] varint_enc.simps[of 2]
  by (auto simp: enc_str_block_def)

text \<open>
  C7 A content with no character that starts a mention is stored as one text block: the parser
  succeeds when the buffer has room for it, counts one block, and the iterator reads back the
  whole content as text and then stops.
\<close>

theorem plain_content_one_text_block:
  assumes "valid m buf buf_size" and "buf_size < 2 ^ 31" and "64 \<le> buf_size"
    and "valid m content (len + 1)" and "0 < len" and "len < 2 ^ 31" and "m (content + len) = Some 0"
    and "buf + buf_size \<le> content \<or> content + len < buf"
    and plain: "\<And>i. content \<le> i \<Longrightarrow> i < content + len \<Longrightarrow> the (m i) \<notin> set scan_triggers"
  shows "ok (ndb_parse_content m buf buf_size content len) (\<lambda>(r, m', b). r \<and> (\<exists>bl it. b = Some bl \<and>
    num_blocks bl = 1 \<and> iterate_blocks 2 m' (ndb_blocks_iterate_start content bl) =
      Some ([Some (Block_text \<lparr>sb_str = content, sb_len = word_of_int len\<rparr>), None], it)))"
proof -
  define p where "p = \<lparr>p_buffer = (make_cursor buf (buf + buf_size))\<lparr>cp := buf + 24\<rparr>,
    p_content = make_cursor content (content + len),
    p_blocks = \<lparr>blocks_version = 1, blocks_flags = 0, blocks_words = 0, num_blocks = 0,
                      blocks_size = 0, blocks_total_size = 0, blocks_ptr = buf + 24\<rparr>\<rparr>"
  have wf: "parser_wf m p"
    using assms by (auto simp: p_def parser_wf_def wf_cursor_def make_cursor_def valid_def)
  define s where "s = text_block content (content + len)"
  have s: "s = \<lparr>sb_str = content, sb_len = word_of_int len\<rparr>" by (simp add: s_def text_block_def)
  define e where "e = enc_block content (Block_text s)"
  note eb = enc_text_bounds[OF e_def]
  have pc: "cp (p_content p) = content" "cend (p_content p) = content + len" "cstart (p_content p) = content"
    "p_buffer p = \<lparr>cstart = buf, cp = buf + 24, cend = buf + buf_size\<rparr>"
    by (simp_all add: p_def make_cursor_def)
  obtain w where loop: "content_loop m p content = Some (True, m, p\<lparr>p_content := (p_content p)\<lparr>cp := cend (p_content p)\<rparr>,
     p_blocks := (p_blocks p)\<lparr>blocks_words := w\<rparr>\<rparr>, content)" (is "_ = Some (True, m, ?p1, _)")
    using content_loop_plain[OF parser_text_wf[OF wf], of content] plain pc by force
  have pb: "p_buffer ?p1 = p_buffer p" "p_content ?p1 = (p_content p)\<lparr>cp := content + len\<rparr>" by (simp_all add: pc)
  let ?m2 = "putb m (buf + 24) e" and ?c = "\<lparr>cstart = buf, cp = buf + 24 + int (length e), cend = buf + buf_size\<rparr>"
  let ?p2 = "count_block (?p1\<lparr>p_buffer := ?c\<rparr>)"
  have tx: "add_text_block m ?p1 content (content + len) = Some (True, ?m2, ?p2)"
    using push_text_fits[of m ?p1 e s] wf eb e_def assms(3,5) unfolding pb pc
    by (simp add: add_text_block.simps s_def[symmetric] parser_wf_def pc)
  have wfc: "wf_cursor ?m2 ?c" using assms(1,3) eb by (simp add: wf_cursor_def valid_putb)
  show ?thesis
  proof (rule cursor_align_8[OF wfc])
    assume "cend ?c < cp ?c + 8"
    then show ?thesis using eb assms(3) by simp
  next
    fix m3 c3 assume a: "cursor_align ?m2 ?c 8 = Some (True, m3, c3)" "wr ?m2 ?c m3 c3" "8 dvd cp c3 - cstart ?c"
    define bl where "bl = (p_blocks ?p2)\<lparr>blocks_size := word_of_int (int (length e)),
      blocks_total_size := word_of_int (cp c3 - cstart c3)\<rparr>"
    have bl: "blocks_ptr bl = buf + 24" "num_blocks bl = 1" "uint (blocks_size bl) = int (length e)"
      using eb by (simp_all add: bl_def count_block_def p_def uint_word_of_int unsigned_of_nat take_bit_nat_eq_self)
    have cs: "cstart c3 = buf" using a(2) by (simp add: wr_def moved_def)
    have run: "ndb_parse_content m buf buf_size content len = Some (True, m3, Some bl)"
      using assms(3,5) loop tx a(1,3) cs unfolding ndb_parse_content_def p_def[symmetric] Let_def
      by (simp add: p_def[symmetric] pc count_block_num) (simp add: bl_def cs count_block_def)
    let ?it = "ndb_blocks_iterate_start content bl"
    have it: "it_content ?it = content" "it_blocks ?it = bl" "it_p ?it = buf + 24"
      by (simp_all add: ndb_blocks_iterate_start_def bl)
    have "getb m3 (buf + 24) (length e) = e" "valid m3 buf buf_size"
      using a(2) only_writes_getb[of ?m2 m3 "cp ?c" "cend ?c" "buf + 24" "length e"] only_writes_valid[of ?m2 m3] assms(1)
      by (auto simp: wr_def valid_putb)
    moreover have "repr_str_block content s" by (simp add: s repr_str_block_def)
    ultimately have "iterate_blocks (length [Block_text s] + 1) m3 ?it =
        Some (map Some [Block_text s] @ replicate 1 None, ?it\<lparr>it_p := (buf + 24) + int (length e)\<rparr>)"
      using assms(3) eb by (intro iterate_blocks_enc)
        (auto simp: it bl e_def[symmetric] intro: valid_sub simp del: enc_block.simps)
    then show ?thesis using run bl(2) by (simp add: s eval_nat_numeral)
  qed
qed

lemma c_string_cong:
  "c_string m a = Some t \<Longrightarrow> (\<And>i. a \<le> i \<Longrightarrow> i \<le> a + int (length t) \<Longrightarrow> m' i = m i) \<Longrightarrow> c_string m' a = Some t"
proof (induction t arbitrary: a)
  case Nil
  then have "load m' a = load m a" by (simp add: load_def)
  with Nil show ?case by (simp add: c_string.simps[of m] c_string.simps[of m'] bind_eq_Some split: if_splits)
next
  case (Cons b t)
  have l: "load m' a = load m a" using Cons.prems(2)[of a] by (simp add: load_def)
  from Cons.prems(1) have "load m a = Some b" "b \<noteq> 0" "c_string m (a + 1) = Some t"
    by (auto simp: c_string.simps[of m a] bind_eq_Some split: if_splits)
  moreover have "c_string m' (a + 1) = Some t"
    by (rule Cons.IH[OF \<open>c_string m (a + 1) = Some t\<close>]) (use Cons.prems(2) in simp)
  ultimately show ?case using l by (simp add: c_string.simps[of m'])
qed


lemma gm_memory:
  defines "m \<equiv> mem_of 0 (str ''gm'' @ replicate 100 0)"
  shows "valid m 3 64" "valid m 0 3" "m 2 = Some 0" "0 \<le> i \<Longrightarrow> i < 2 \<Longrightarrow> the (m i) \<notin> set scan_triggers"
proof -
  show "valid m 3 64" "valid m 0 3" unfolding m_def by (simp_all add: valid_mem_of str_def)
  show "m 2 = Some 0" by (simp add: m_def mem_of_def putb_def str_def)
  assume "0 \<le> i" "i < 2" then have "i = 0 \<or> i = 1" by auto
  then show "the (m i) \<notin> set scan_triggers" by (auto simp: m_def mem_of_def putb_def str_def scan_triggers_def)
qed

theorem plain_content_one_text_block_witness:
  "ok (ndb_parse_content (mem_of 0 (str ''gm'' @ replicate 100 0)) 3 64 0 2) (\<lambda>(r, m', b). r \<and> (\<exists>bl it. b = Some bl \<and>
    num_blocks bl = 1 \<and> iterate_blocks 2 m' (ndb_blocks_iterate_start 0 bl) =
      Some ([Some (Block_text \<lparr>sb_str = 0, sb_len = word_of_int 2\<rparr>), None], it)))"
  by (rule plain_content_one_text_block) (use gm_memory in simp_all)

theorem parse_content_safe_witness:
  "ok (ndb_parse_content (mem_of 0 (str ''gm'' @ replicate 100 0)) 3 64 0 2) (\<lambda>(r, m', b).
    only_writes (mem_of 0 (str ''gm'' @ replicate 100 0)) m' (3 + 24) (3 + 64) \<and>
    (r \<longrightarrow> (\<exists>bl. b = Some bl \<and> blocks_ptr bl = 3 + 24 \<and>
       24 + uint (blocks_size bl) \<le> uint (blocks_total_size bl) \<and>
       uint (blocks_total_size bl) < 24 + uint (blocks_size bl) + 8 \<and>
       uint (blocks_total_size bl) \<le> 64 \<and> 8 dvd uint (blocks_total_size bl))))"
  by (rule parse_content_safe) (use gm_memory in simp_all)

text \<open>
  When an invoice cannot be decoded, which by the string it is given is the case for every invoice
  followed by a space somewhere in the rest of the note, \<open>push_block\<close> stores its text instead, and counts two blocks
  for the one it stored: the nested call for the text counts as well.
\<close>

theorem failed_invoice_counts_twice:
  assumes wf: "parser_wf m p" and s: "c_string m (sb_str s) = Some t" "32 \<in> set t" "length t < 2 ^ 64"
    and in': "cstart (p_content p) \<le> sb_str s" "sb_str s \<le> cend (p_content p)" "sb_len s \<noteq> 0"
    and room: "cp (p_buffer p) + 40 \<le> cend (p_buffer p)"
  shows "ok (push_block m p (Parsed_str BLOCK_INVOICE s)) (\<lambda>(r, m', p'). r \<and>
    num_blocks (p_blocks p') = num_blocks (p_blocks p) + 2 \<and>
    (let e = enc_block (cstart (p_content p)) (Block_text s) in
     cp (p_buffer p') = cp (p_buffer p) + int (length e) \<and> getb m' (cp (p_buffer p)) (length e) = e))"
proof -
  define e where "e = enc_block (cstart (p_content p)) (Block_text s)"
  note eb = enc_text_bounds[OF e_def]
  have wfb: "wf_cursor m (p_buffer p)" using wf by (simp add: parser_wf_def)
  obtain r1 m1 c1 where 1: "cursor_push_varint m (p_buffer p) 6 = Some (r1, m1, c1)" "r1 \<noteq> 0" "wr m (p_buffer p) m1 c1"
    using wr_push(1)[OF wfb, of 6] by (auto simp: ok_iff)
  have w1: "wrote m p m1 (p\<lparr>p_buffer := c1\<rparr>)" using 1(3) by (simp add: wrote_def)
  have r: "c1\<lparr>cp := cp (p_buffer p)\<rparr> = p_buffer p" using 1(3) by (simp add: wr_def moved_def)
  have wfb1: "wf_cursor m1 (p_buffer p)" using wr_restore[OF 1(3) wfb] by (simp add: wr_def)
  have "int (length t) \<le> cend (p_content p) - sb_str s" using c_string_text[OF parser_text_wf[OF wf] in'(1,2)] s(1) by auto
  then have "c_string m1 (sb_str s) = Some t"
    using in' wf 1(3) wf_bounds[OF wfb]
    by (intro c_string_cong[OF s(1)] only_writes_outside[of m m1 "cp (p_buffer p)" "cend (p_buffer p)"])
      (auto simp: wr_def parser_wf_def)
  then have iv: "push_invoice_str m1 (p\<lparr>p_buffer := c1\<rparr>) s = Some (False, m1, p\<lparr>p_buffer := c1\<rparr>)"
    using bolt11_space_bad[OF s(2,3)] by (simp add: push_invoice_str_def)
  have "uint (sb_len s) \<noteq> 0" using in'(3) by (simp add: unsigned_eq_0_iff)
  then have "add_text_block m1 p (sb_str s) (sb_str s + uint (sb_len s)) = Some (True, putb m1 (cp (p_buffer p)) e,
      count_block (p\<lparr>p_buffer := (p_buffer p)\<lparr>cp := cp (p_buffer p) + int (length e)\<rparr>\<rparr>))"
    using push_text_fits[OF wfb1 e_def] room eb by (simp add: add_text_block.simps text_block_inv)
  then have "push_block m p (Parsed_str BLOCK_INVOICE s) = Some (True, putb m1 (cp (p_buffer p)) e,
      count_block (count_block (p\<lparr>p_buffer := (p_buffer p)\<lparr>cp := cp (p_buffer p) + int (length e)\<rparr>\<rparr>)))"
    using 1(1,2) iv r by (simp add: push_block.simps[of m p] Let_def set_buffer_p_def)
  then show ?thesis by (simp add: e_def[symmetric] count_block_num Let_def del: enc_block.simps)
qed


lemma c_string_putb: "0 \<notin> set t \<Longrightarrow> c_string (putb m a (t @ 0 # r)) a = Some t"
proof (induction t arbitrary: m a)
  case Nil
  have "load (putb m a (0 # r)) a = Some 0" by (simp add: load_def putb_def)
  then show ?case by (simp add: c_string.simps[of "putb m a (0 # r)"])
next
  case (Cons b t)
  have "load (putb m a ((b # t) @ 0 # r)) a = Some b" by (simp add: load_def putb_def)
  moreover have "c_string (putb m a ((b # t) @ 0 # r)) (a + 1) = Some t"
    unfolding append_Cons putb_Cons by (rule Cons.IH) (use Cons.prems in simp)
  ultimately show ?case using Cons.prems by (simp add: c_string.simps[of _ a])
qed

theorem failed_invoice_counts_twice_witness:
  "\<exists>m p s. num_blocks (p_blocks p) = 0 \<and> getb m (sb_str s) 7 = str ''lnbc1 x'' \<and>
    ok (push_block m p (Parsed_str BLOCK_INVOICE s)) (\<lambda>(r, m', p'). r \<and> num_blocks (p_blocks p') = 2)"
proof -
  define m where "m = mem_of 0 (str ''lnbc1 x'' @ 0 # replicate 100 0)"
  define p where "p = \<lparr>p_buffer = make_cursor 20 80, p_content = make_cursor 0 7,
    p_blocks = \<lparr>blocks_version = 1, blocks_flags = 0, blocks_words = 0, num_blocks = 0,
                blocks_size = 0, blocks_total_size = 0, blocks_ptr = 20\<rparr>\<rparr>"
  define s where "s = text_block 0 5"
  have wf: "parser_wf m p"
    unfolding parser_wf_def p_def m_def
    by (auto simp: str_def make_cursor_def intro!: wf_cursorI valid_mem_of) (simp add: mem_of_def putb_def)
  have "c_string m (sb_str s) = Some (str ''lnbc1 x'')"
    unfolding m_def mem_of_def s_def text_block_def ndb_str_block.simps by (rule c_string_putb) (simp add: str_def)
  from failed_invoice_counts_twice[OF wf this]
  have "ok (push_block m p (Parsed_str BLOCK_INVOICE s)) (\<lambda>(r, m', p'). r \<and> num_blocks (p_blocks p') = 2)"
    by (auto simp: str_def p_def s_def text_block_def make_cursor_def ok_iff Let_def)
  moreover have "getb m (sb_str s) 7 = str ''lnbc1 x''"
    by (simp add: m_def mem_of_def s_def text_block_def str_def eval_nat_numeral getb_Suc putb_def)
  ultimately show ?thesis by (intro exI[of _ m] exI[of _ p] exI[of _ s]) (simp add: p_def)
qed

end
