(* ===== verification/Queue.thy ===== *)
theory Queue
  imports Prelude
begin

text \<open>
  The bounded queue between the threads, \<open>src/src/protected_queue.h\<close>;
  the thread pool built on it is in \<open>Threadpool\<close>. The queue is a ring of fixed-size elements in a byte buffer. Every
  operation holds the mutex from its first to its last access, so it is one atomic function
  on the queue; a thread that waits on the condition variable is a result of its own.
\<close>

section \<open>C arithmetic on the counters\<close>

definition int_of_size :: "u64 \<Rightarrow> int" where
  "int_of_size x = sint (ucast x :: u32)"

definition c_rem :: "int \<Rightarrow> int \<Rightarrow> int option" where
  "c_rem x y = (if y = 0 then None else Some (sgn x * (\<bar>x\<bar> mod \<bar>y\<bar>)))"

definition buf_write :: "u8 list \<Rightarrow> int \<Rightarrow> u8 list \<Rightarrow> int \<Rightarrow> u8 list option" where
  "buf_write buf off data n =
     (if 0 \<le> off \<and> 0 \<le> n \<and> off + n \<le> int (length buf) \<and> n \<le> int (length data)
      then Some (take (nat off) buf @ take (nat n) data @ drop (nat (off + n)) buf) else None)"

definition buf_read :: "u8 list \<Rightarrow> int \<Rightarrow> int \<Rightarrow> u8 list option" where
  "buf_read buf off n =
     (if 0 \<le> off \<and> 0 \<le> n \<and> off + n \<le> int (length buf) then Some (take (nat n) (drop (nat off) buf)) else None)"

section \<open>The queue\<close>

record prot_queue =
  q_buf :: "u8 list"
  q_buflen :: u64
  q_head :: int
  q_tail :: int
  q_count :: int
  q_elem_size :: int

text \<open>The assertion that the elements fit the buffer aborts the program.\<close>

definition prot_queue_init :: "u8 list \<Rightarrow> u64 \<Rightarrow> int \<Rightarrow> prot_queue option" where
  "prot_queue_init buf buflen elem_size =
     (if buflen = 0 then None
      else if elem_size = 0 then None
      else if buflen mod word_of_int elem_size \<noteq> 0 then None
      else Some \<lparr>q_buf = buf, q_buflen = buflen, q_head = 0, q_tail = 0, q_count = 0, q_elem_size = elem_size\<rparr>)"

definition prot_queue_capacity :: "prot_queue \<Rightarrow> u64 option" where
  "prot_queue_capacity q =
     (if q_elem_size q = 0 then None else Some (q_buflen q div word_of_int (q_elem_size q)))"

definition prot_queue_empty :: "prot_queue \<Rightarrow> bool" where
  "prot_queue_empty q \<longleftrightarrow> q_count q = 0"

definition prot_queue_push :: "prot_queue \<Rightarrow> u8 list \<Rightarrow> (bool \<times> prot_queue) option" where
  "prot_queue_push q data = do {
     cap \<leftarrow> map_option int_of_size (prot_queue_capacity q);
     if q_count q = cap then Some (False, q)
     else do {
       off \<leftarrow> c_int (q_tail q * q_elem_size q);
       buf \<leftarrow> buf_write (q_buf q) off data (q_elem_size q);
       t \<leftarrow> c_int (q_tail q + 1);
       t \<leftarrow> c_rem t cap;
       n \<leftarrow> c_int (q_count q + 1);
       Some (True, q\<lparr>q_buf := buf, q_tail := t, q_count := n\<rparr>) } }"

definition prot_queue_push_all :: "prot_queue \<Rightarrow> u8 list \<Rightarrow> int \<Rightarrow> (int \<times> prot_queue) option" where
  "prot_queue_push_all q data count = do {
     cap \<leftarrow> map_option int_of_size (prot_queue_capacity q);
     n \<leftarrow> c_int (q_count q + count);
     if n > cap then Some (0, q)
     else do {
       let first_copy_count = min count (cap - q_tail q);
       let second_copy_count = count - first_copy_count;
       off \<leftarrow> c_int (q_tail q * q_elem_size q);
       len \<leftarrow> c_int (first_copy_count * q_elem_size q);
       buf \<leftarrow> buf_write (q_buf q) off data len;
       t \<leftarrow> c_int (q_tail q + first_copy_count);
       t \<leftarrow> c_rem t cap;
       (buf, t) \<leftarrow>
         (if second_copy_count > 0 then do {
            off \<leftarrow> c_int (t * q_elem_size q);
            len2 \<leftarrow> c_int (second_copy_count * q_elem_size q);
            buf \<leftarrow> buf_write buf off (drop (nat len) data) len2;
            t \<leftarrow> c_int (t + second_copy_count);
            t \<leftarrow> c_rem t cap;
            Some (buf, t) }
          else Some (buf, t));
       Some (count, q\<lparr>q_buf := buf, q_tail := t, q_count := n\<rparr>) } }"

text \<open>What both forms of \<open>pop_all\<close> do with a queue that is not empty: the elements up to the end of the buffer.\<close>

definition prot_queue_pop_items :: "prot_queue \<Rightarrow> int \<Rightarrow> (int \<times> u8 list \<times> prot_queue) option" where
  "prot_queue_pop_items q max_items = do {
     cap \<leftarrow> prot_queue_capacity q;
     off \<leftarrow> c_int (q_head q * q_elem_size q);
     let items_until_end = int_of_size ((q_buflen q - word_of_int off) div word_of_int (q_elem_size q));
     let items_to_pop = min (q_count q) max_items;
     let items_to_pop = min items_to_pop items_until_end;
     len \<leftarrow> c_int (items_to_pop * q_elem_size q);
     data \<leftarrow> buf_read (q_buf q) off len;
     h \<leftarrow> c_int (q_head q + items_to_pop);
     Some (items_to_pop, data, q\<lparr>q_head := int_of_size (word_of_int h mod cap), q_count := q_count q - items_to_pop\<rparr>) }"

definition prot_queue_try_pop_all :: "prot_queue \<Rightarrow> int \<Rightarrow> (int \<times> u8 list \<times> prot_queue) option" where
  "prot_queue_try_pop_all q max_items =
     (if q_count q = 0 then Some (0, [], q) else prot_queue_pop_items q max_items)"

text \<open>A call on an empty queue waits: the inner \<open>None\<close>; the caller is run again after a push.\<close>

definition prot_queue_pop_all :: "prot_queue \<Rightarrow> int \<Rightarrow> (int \<times> u8 list \<times> prot_queue) option option" where
  "prot_queue_pop_all q max_items =
     (if q_count q = 0 then Some None else map_option Some (prot_queue_pop_items q max_items))"

definition prot_queue_pop :: "prot_queue \<Rightarrow> (u8 list \<times> prot_queue) option option" where
  "prot_queue_pop q =
     (if q_count q = 0 then Some None
      else do {
        cap \<leftarrow> prot_queue_capacity q;
        off \<leftarrow> c_int (q_head q * q_elem_size q);
        data \<leftarrow> buf_read (q_buf q) off (q_elem_size q);
        h \<leftarrow> c_int (q_head q + 1);
        Some (Some (data, q\<lparr>q_head := int_of_size (word_of_int h mod cap), q_count := q_count q - 1\<rparr>)) })"

section \<open>The invariant and the abstract queue\<close>

text \<open>The ring in slots of one element, and its contents from the head.\<close>

definition chunk :: "nat \<Rightarrow> u8 list \<Rightarrow> nat \<Rightarrow> u8 list" where
  "chunk es d i = take es (drop (i * es) d)"

definition chunks :: "nat \<Rightarrow> u8 list \<Rightarrow> nat \<Rightarrow> u8 list list" where
  "chunks es d n = map (chunk es d) [0..<n]"

definition q_es :: "prot_queue \<Rightarrow> nat" where
  "q_es q = nat (q_elem_size q)"

definition q_cap :: "prot_queue \<Rightarrow> nat" where
  "q_cap q = length (q_buf q) div q_es q"

definition queue_items :: "prot_queue \<Rightarrow> u8 list list" where
  "queue_items q = map (\<lambda>i. chunk (q_es q) (q_buf q) ((nat (q_head q) + i) mod q_cap q)) [0..<nat (q_count q)]"

definition queue_wf :: "prot_queue \<Rightarrow> bool" where
  "queue_wf q \<longleftrightarrow> 0 < q_elem_size q \<and> q_buflen q = word_of_nat (length (q_buf q)) \<and> length (q_buf q) < 2 ^ 31 \<and>
     length (q_buf q) = q_cap q * q_es q \<and> 0 < q_cap q \<and>
     0 \<le> q_head q \<and> q_head q < int (q_cap q) \<and> 0 \<le> q_count q \<and> q_count q \<le> int (q_cap q) \<and>
     q_tail q = (q_head q + q_count q) mod int (q_cap q)"

lemma length_queue_items [simp]: "length (queue_items q) = nat (q_count q)"
  by (simp add: queue_items_def)

lemma int_of_size_nat: "n < 2 ^ 31 \<Longrightarrow> int_of_size (word_of_nat n) = int n"
proof -
  assume n: "n < 2 ^ 31"
  have "(ucast (word_of_nat n :: u64) :: u32) = word_of_nat n"
    by (simp add: ucast_eq uint_nat unat_of_nat take_bit_nat_eq_self)
      (use n in \<open>simp add: unat_of_nat take_bit_nat_eq_self\<close>)
  moreover have "sint (word_of_nat n :: u32) = int n"
    using n by (simp add: signed_of_nat signed_take_bit_int_eq_self)
  ultimately show ?thesis by (simp add: int_of_size_def)
qed

lemma word_of_nat_div: "a < 2 ^ 64 \<Longrightarrow> b < 2 ^ 64 \<Longrightarrow> (word_of_nat a :: u64) div word_of_nat b = word_of_nat (a div b)"
  by (simp add: word_div_def uint_nat unat_of_nat take_bit_nat_eq_self flip: zdiv_int)

lemma word_of_nat_mod: "a < 2 ^ 64 \<Longrightarrow> b < 2 ^ 64 \<Longrightarrow> (word_of_nat a :: u64) mod word_of_nat b = word_of_nat (a mod b)"
  by (simp add: word_mod_def uint_nat unat_of_nat take_bit_nat_eq_self flip: zmod_int)

lemma c_rem_nat: "0 \<le> x \<Longrightarrow> 0 < y \<Longrightarrow> c_rem x y = Some (x mod y)"
  by (cases "x = 0") (simp_all add: c_rem_def)

lemma queue_bounds:
  assumes "queue_wf q"
  shows "q_cap q < 2 ^ 31" "q_es q < 2 ^ 31" "0 < q_es q" "int (q_es q) = q_elem_size q"
    "i \<le> q_cap q \<Longrightarrow> i * q_es q \<le> length (q_buf q)" "i \<le> q_cap q \<Longrightarrow> i * q_es q < 2 ^ 31"
proof -
  have l: "length (q_buf q) = q_cap q * q_es q" "length (q_buf q) < 2 ^ 31" and pos: "0 < q_cap q" "0 < q_elem_size q"
    using assms by (simp_all add: queue_wf_def)
  show es: "0 < q_es q" "int (q_es q) = q_elem_size q" using pos by (simp_all add: q_es_def)
  have "q_cap q \<le> q_cap q * q_es q" "q_es q \<le> q_cap q * q_es q" using es pos by simp_all
  then show "q_cap q < 2 ^ 31" "q_es q < 2 ^ 31" using l by linarith+
  show "i \<le> q_cap q \<Longrightarrow> i * q_es q \<le> length (q_buf q)" unfolding l(1) by (rule mult_le_mono1)
  then show "i \<le> q_cap q \<Longrightarrow> i * q_es q < 2 ^ 31" using l(2) by linarith
qed

lemma capacity_eq:
  assumes "queue_wf q"
  shows "prot_queue_capacity q = Some (word_of_nat (q_cap q))"
proof -
  have "(word_of_int (q_elem_size q) :: u64) = word_of_nat (q_es q)"
    by (simp flip: queue_bounds(4)[OF assms])
  moreover have "(word_of_nat (length (q_buf q)) :: u64) div word_of_nat (q_es q) = word_of_nat (q_cap q)"
    unfolding q_cap_def by (rule word_of_nat_div) (use assms queue_bounds(2)[OF assms] in \<open>simp_all add: queue_wf_def\<close>)
  ultimately show ?thesis using assms by (auto simp: prot_queue_capacity_def queue_wf_def)
qed

lemma chunk_write:
  assumes "es > 0" "t + k \<le> cap" "length buf = cap * es" "length data = k * es" "i < cap"
  shows "chunk es (take (t * es) buf @ data @ drop ((t + k) * es) buf) i =
    (if t \<le> i \<and> i < t + k then chunk es data (i - t) else chunk es buf i)"
proof -
  have tl: "t * es \<le> length buf" "(t + k) * es \<le> length buf" using assms by simp_all
  consider "i < t" | "t \<le> i" "i < t + k" | "t + k \<le> i" by linarith
  then show ?thesis
  proof cases
    case 1
    then have "i * es + es \<le> t * es" using mult_le_mono1[of "Suc i" t es] by simp
    then show ?thesis using 1 tl by (simp add: chunk_def take_drop min_def)
  next
    case 2
    then have "Suc (i - t) \<le> k" by simp
    then have "(i - t) * es + es \<le> k * es" using mult_le_mono1[of "Suc (i - t)" k es] by simp
    moreover have "i * es - t * es = (i - t) * es" by (simp add: diff_mult_distrib)
    moreover have "t * es \<le> i * es" using 2 by simp
    ultimately show ?thesis using 2 tl assms(4) by (simp add: chunk_def)
  next
    case 3
    then have le: "(t + k) * es \<le> i * es" by (rule mult_le_mono1)
    have "t * es + k * es \<le> i * es" using le by (simp add: algebra_simps)
    then show ?thesis using 3 tl assms(4) by (simp add: chunk_def algebra_simps)
  qed
qed

section \<open>Contiguous writes and reads of the ring\<close>

lemma length_chunks [simp]: "length (chunks es d n) = n"
  by (simp add: chunks_def)

lemma nth_chunks [simp]: "i < n \<Longrightarrow> chunks es d n ! i = chunk es d i"
  by (simp add: chunks_def)

lemma chunks_take: "chunks es (take (k * es) d) k = chunks es d k"
proof (rule nth_equalityI)
  fix i assume "i < length (chunks es (take (k * es) d) k)"
  then have "i < k" by simp
  then have "i * es + es \<le> k * es" using mult_le_mono1[of "Suc i" k es] by simp
  then show "chunks es (take (k * es) d) k ! i = chunks es d k ! i"
    using \<open>i < k\<close> by (simp add: chunk_def drop_take min_def)
qed simp

lemma chunks_split: "chunks es d (a + b) = chunks es d a @ chunks es (drop (a * es) d) b"
  by (rule nth_equalityI) (auto simp: nth_append chunk_def algebra_simps)

lemma wrap_mod: "x < 2 * c \<Longrightarrow> x mod c = (if x < c then x else x - c)" for x c :: nat
  by (auto simp: mod_if[of x])

lemma queue_ring:
  assumes "queue_wf q"
  obtains h c where "q_head q = int h" "q_count q = int c" "h < q_cap q" "c \<le> q_cap q"
    "q_tail q = int ((h + c) mod q_cap q)"
  using assms that[of "nat (q_head q)" "nat (q_count q)"]
  by (auto simp: queue_wf_def nat_less_iff zmod_int)

lemma enqueue_run:
  assumes wf: "queue_wf q" and t: "q_tail q = int t" and k: "q_count q + int k \<le> int (q_cap q)" "t + k \<le> q_cap q"
    and d: "length data = k * q_es q"
    and q': "q' = q\<lparr>q_buf := take (t * q_es q) (q_buf q) @ data @ drop ((t + k) * q_es q) (q_buf q),
       q_tail := int ((t + k) mod q_cap q), q_count := q_count q + int k\<rparr>"
  shows "queue_wf q'" "queue_items q' = queue_items q @ chunks (q_es q) data k" "q_cap q' = q_cap q" "q_es q' = q_es q"
proof -
  obtain h c where hc: "q_head q = int h" "q_count q = int c" "h < q_cap q" "c \<le> q_cap q"
    "q_tail q = int ((h + c) mod q_cap q)" by (rule queue_ring[OF wf])
  have t': "t = (h + c) mod q_cap q" using t hc(5) by simp
  have b: "length (q_buf q) = q_cap q * q_es q" using wf by (simp add: queue_wf_def)
  have tk: "t * q_es q \<le> q_cap q * q_es q" "(t + k) * q_es q \<le> q_cap q * q_es q"
    using k(2) by (intro mult_le_mono1; linarith)+
  have len: "length (q_buf q') = length (q_buf q)"
    using tk d by (simp add: q' b) (simp add: algebra_simps)
  show es: "q_es q' = q_es q" by (simp add: q' q_es_def)
  show cap: "q_cap q' = q_cap q" by (simp add: q_cap_def len es)
  have "((t + k) mod q_cap q) = (h + (c + k)) mod q_cap q" by (simp add: t' mod_simps ac_simps)
  then show "queue_wf q'"
    using wf k(1) hc by (simp add: queue_wf_def cap es len) (simp add: q' zmod_int)
  have ck: "c + k \<le> q_cap q" using k(1) hc(2) by simp
  show "queue_items q' = queue_items q @ chunks (q_es q) data k"
  proof (rule nth_equalityI)
    show l: "length (queue_items q') = length (queue_items q @ chunks (q_es q) data k)" by (simp add: q' hc)
    fix i assume "i < length (queue_items q')"
    then have i: "i < c + k" using l hc(2) by simp
    have pos: "(h + i) mod q_cap q < q_cap q" using hc(3) by simp
    have "queue_items q' ! i = chunk (q_es q) (q_buf q') ((h + i) mod q_cap q)"
      using i hc by (simp add: queue_items_def cap es) (simp add: q' hc)
    also have "\<dots> = (if t \<le> (h + i) mod q_cap q \<and> (h + i) mod q_cap q < t + k
        then chunk (q_es q) data ((h + i) mod q_cap q - t) else chunk (q_es q) (q_buf q) ((h + i) mod q_cap q))"
      using chunk_write[OF queue_bounds(3)[OF wf] k(2) b d pos] by (simp add: q')
    also have "\<dots> = (queue_items q @ chunks (q_es q) data k) ! i"
    proof (cases "i < c")
      case True
      then have "\<not> (t \<le> (h + i) mod q_cap q \<and> (h + i) mod q_cap q < t + k)"
        using hc ck k(2) unfolding t' by (auto simp: wrap_mod split: if_splits)
      then show ?thesis using True hc by (auto simp: nth_append queue_items_def)
    next
      case False
      then obtain j where j: "i = c + j" "j < k" using i by (metis le_Suc_ex nat_add_left_cancel_less not_less)
      then have "(h + i) mod q_cap q = t + j" using hc ck k(2) unfolding t' by (auto simp: wrap_mod split: if_splits)
      then show ?thesis using j hc by (simp add: nth_append)
    qed
    finally show "queue_items q' ! i = (queue_items q @ chunks (q_es q) data k) ! i" .
  qed
qed

lemma dequeue_run:
  assumes wf: "queue_wf q" and h: "q_head q = int h" and k: "int k \<le> q_count q" "h + k \<le> q_cap q"
    and q': "q' = q\<lparr>q_head := int ((h + k) mod q_cap q), q_count := q_count q - int k\<rparr>"
  shows "queue_wf q'" "queue_items q = chunks (q_es q) (drop (h * q_es q) (q_buf q)) k @ queue_items q'"
    "q_cap q' = q_cap q" "q_es q' = q_es q"
proof -
  obtain c where hc: "q_count q = int c" "c \<le> q_cap q" "h < q_cap q" "q_tail q = int ((h + c) mod q_cap q)"
    using queue_ring[OF wf] h by (metis of_nat_eq_iff)
  show es: "q_es q' = q_es q" and cap: "q_cap q' = q_cap q" by (simp_all add: q' q_es_def q_cap_def)
  have kc: "k \<le> c" using k(1) hc(1) by simp
  have "(h + c) mod q_cap q = ((h + k) mod q_cap q + (c - k)) mod q_cap q"
    using kc mod_add_left_eq[of "h + k" "q_cap q" "c - k"] by simp
  then show "queue_wf q'"
    using wf hc kc by (simp add: queue_wf_def cap es) (simp add: q' zmod_int of_nat_diff add_diff_eq)
  show "queue_items q = chunks (q_es q) (drop (h * q_es q) (q_buf q)) k @ queue_items q'"
  proof (rule nth_equalityI)
    show l: "length (queue_items q) = length (chunks (q_es q) (drop (h * q_es q) (q_buf q)) k @ queue_items q')"
      using kc by (simp add: q' hc)
    fix i assume "i < length (queue_items q)"
    then have i: "i < c" using hc by simp
    then have "queue_items q ! i = chunk (q_es q) (q_buf q) ((h + i) mod q_cap q)" using hc h by (simp add: queue_items_def)
    also have "\<dots> = (chunks (q_es q) (drop (h * q_es q) (q_buf q)) k @ queue_items q') ! i"
    proof (cases "i < k")
      case True
      then show ?thesis using k(2) by (simp add: nth_append chunk_def add_mult_distrib add.commute)
    next
      case False
      have "(h + i) mod q_cap q = ((h + k) mod q_cap q + (i - k)) mod q_cap q"
        using False mod_add_left_eq[of "h + k" "q_cap q" "i - k"] by simp
      then show ?thesis using False i kc hc by (simp add: nth_append queue_items_def cap es) (simp add: q' hc of_nat_diff)
    qed
    finally show "queue_items q ! i = (chunks (q_es q) (drop (h * q_es q) (q_buf q)) k @ queue_items q') ! i" .
  qed
qed

section \<open>The operations on the abstract queue\<close>

definition same_shape :: "prot_queue \<Rightarrow> prot_queue \<Rightarrow> bool" where
  "same_shape q q' \<longleftrightarrow> queue_wf q' \<and> q_cap q' = q_cap q \<and> q_es q' = q_es q"

lemma same_shape_refl [simp]: "same_shape q q \<longleftrightarrow> queue_wf q"
  by (simp add: same_shape_def)

lemma same_shape_trans: "same_shape q q1 \<Longrightarrow> same_shape q1 q2 \<Longrightarrow> same_shape q q2"
  by (simp add: same_shape_def)

lemma int_of_cap: "queue_wf q \<Longrightarrow> int_of_size (word_of_nat (q_cap q)) = int (q_cap q)"
  using queue_bounds(1) int_of_size_nat by blast

lemma c_int_slots:
  assumes "queue_wf q" "i \<le> q_cap q"
  shows "c_int (int i * q_elem_size q) = Some (int (i * q_es q))"
proof -
  have e: "int i * q_elem_size q = int (i * q_es q)" by (simp flip: queue_bounds(4)[OF assms(1)])
  have "int (i * q_es q) < 2147483648" using queue_bounds(6)[OF assms] by (simp del: of_nat_mult)
  then show ?thesis unfolding e by (intro c_int_ok) (simp_all del: of_nat_mult)
qed

lemma c_int_elem: "queue_wf q \<Longrightarrow> c_int (q_elem_size q) = Some (int (q_es q))"
  using c_int_slots[of q 1] by (auto simp: queue_wf_def)

lemma buf_write_slots:
  assumes wf: "queue_wf q" and "t + k \<le> q_cap q" "k * q_es q \<le> length data"
  shows "buf_write (q_buf q) (int (t * q_es q)) data (int (k * q_es q)) =
    Some (take (t * q_es q) (q_buf q) @ take (k * q_es q) data @ drop ((t + k) * q_es q) (q_buf q))"
proof -
  have "nat (int (t * q_es q) + int (k * q_es q)) = (t + k) * q_es q"
    unfolding of_nat_add[symmetric] nat_int by (simp add: algebra_simps)
  moreover have "int (t * q_es q) + int (k * q_es q) \<le> int (length (q_buf q))"
    using queue_bounds(5)[OF wf assms(2)] unfolding of_nat_add[symmetric] of_nat_le_iff by (simp add: algebra_simps)
  ultimately show ?thesis using assms(3) by (simp add: buf_write_def del: of_nat_mult)
qed

lemma c_rem_cap: "queue_wf q \<Longrightarrow> c_rem (int a + int b) (int (q_cap q)) = Some (int ((a + b) mod q_cap q))"
  by (simp add: c_rem_nat zmod_int queue_wf_def)

lemma push_spec:
  assumes wf: "queue_wf q" and d: "q_es q \<le> length data"
  shows "ok (prot_queue_push q data) (\<lambda>(r, q'). same_shape q q' \<and> r = (length (queue_items q) < q_cap q) \<and>
    queue_items q' = queue_items q @ (if r then [take (q_es q) data] else []))"
proof -
  obtain h c where hc: "q_head q = int h" "q_count q = int c" "h < q_cap q" "c \<le> q_cap q"
    "q_tail q = int ((h + c) mod q_cap q)" by (rule queue_ring[OF wf])
  then obtain t where t: "q_tail q = int t" "t < q_cap q" by simp
  show ?thesis
  proof (cases "c = q_cap q")
    case True
    then show ?thesis using wf hc by (simp add: prot_queue_push_def capacity_eq[OF wf] int_of_cap[OF wf])
  next
    case False
    note cb = queue_bounds(1)[OF wf]
    define q' where "q' = q\<lparr>q_buf := take (t * q_es q) (q_buf q) @ take (1 * q_es q) data @ drop ((t + 1) * q_es q) (q_buf q),
       q_tail := int ((t + 1) mod q_cap q), q_count := q_count q + int 1\<rparr>"
    have tk: "q_count q + int 1 \<le> int (q_cap q)" "t + 1 \<le> q_cap q" "length (take (1 * q_es q) data) = 1 * q_es q"
      using False hc(2,4) d t(2) by simp_all
    note e = enqueue_run[OF wf t(1) tk q'_def]
    have a: "c_int (int t * q_elem_size q) = Some (int (t * q_es q))" using t by (intro c_int_slots[OF wf]) simp
    have w: "buf_write (q_buf q) (int (t * q_es q)) data (q_elem_size q) =
      Some (take (t * q_es q) (q_buf q) @ take (1 * q_es q) data @ drop ((t + 1) * q_es q) (q_buf q))"
      using buf_write_slots[OF wf tk(2)] d queue_bounds(4)[OF wf] by simp
    have r: "c_int (int t + 1) = Some (int t + int 1)" "c_int (int c + 1) = Some (int c + int 1)"
      using t cb hc False by (simp_all add: c_int_ok)
    have "prot_queue_push q data = Some (True, q')"
      using False unfolding prot_queue_push_def capacity_eq[OF wf] t(1) hc(2) option.map int_of_cap[OF wf]
      by (simp only: bind.simps a w r c_rem_cap[OF wf] of_nat_eq_iff if_False q'_def hc(2))
    moreover have "chunks (q_es q) (take (1 * q_es q) data) 1 = [take (q_es q) data]" by (simp add: chunks_def chunk_def)
    ultimately show ?thesis using e False hc by (simp add: same_shape_def)
  qed
qed

lemma pop_items_spec:
  assumes wf: "queue_wf q" and c0: "q_count q \<noteq> 0"
  shows "ok (prot_queue_pop_items q (int mx)) (\<lambda>(n, data, q'). same_shape q q' \<and>
    queue_items q = chunks (q_es q) data (nat n) @ queue_items q' \<and> 0 \<le> n \<and> n \<le> int mx \<and> (0 < mx \<longrightarrow> 0 < n) \<and>
    length data = nat n * q_es q)"
proof -
  obtain h c where hc: "q_head q = int h" "q_count q = int c" "h < q_cap q" "c \<le> q_cap q" by (rule queue_ring[OF wf])
  note cb = queue_bounds(1)[OF wf] and es = queue_bounds(2,3)[OF wf]
  have b: "length (q_buf q) = q_cap q * q_es q" "length (q_buf q) < 2 ^ 31" "q_buflen q = word_of_nat (length (q_buf q))"
    using wf by (simp_all add: queue_wf_def)
  define k where "k = min (min c mx) (q_cap q - h)"
  have hk: "h + k \<le> q_cap q" and kc: "k \<le> c" "int k \<le> q_count q" using hc by (auto simp: k_def)
  have off: "c_int (int h * q_elem_size q) = Some (int (h * q_es q))" using hc by (intro c_int_slots[OF wf]) simp
  have "(q_buflen q - word_of_int (int (h * q_es q))) = (word_of_nat ((q_cap q - h) * q_es q) :: u64)"
    unfolding b(3) b(1) diff_mult_distrib using hc(3) by (simp add: of_nat_diff)
  moreover have "(q_cap q - h) * q_es q < 2 ^ 31"
    by (rule queue_bounds(6)[OF wf]) simp
  moreover from this have "(word_of_nat ((q_cap q - h) * q_es q) :: u64) div word_of_nat (q_es q) = word_of_nat (q_cap q - h)"
    using es word_of_nat_div[of "(q_cap q - h) * q_es q" "q_es q"] by simp
  ultimately have "(q_buflen q - word_of_int (int (h * q_es q))) div word_of_int (q_elem_size q) = word_of_nat (q_cap q - h)"
    by (simp only: of_int_of_nat_eq flip: queue_bounds(4)[OF wf])
  then have ue: "int_of_size ((q_buflen q - word_of_int (int (h * q_es q))) div word_of_int (q_elem_size q)) = int (q_cap q - h)"
    using cb by (simp add: int_of_size_nat)
  have m: "min (min (int c) (int mx)) (int (q_cap q - h)) = int k" by (simp add: k_def)
  have len: "c_int (int k * q_elem_size q) = Some (int (k * q_es q))" using hk by (intro c_int_slots[OF wf]) simp
  have rd: "buf_read (q_buf q) (int (h * q_es q)) (int (k * q_es q)) = Some (take (k * q_es q) (drop (h * q_es q) (q_buf q)))"
    using mult_le_mono1[OF hk, of "q_es q"] unfolding buf_read_def of_nat_add[symmetric] of_nat_le_iff nat_int b(1)
    by (simp add: algebra_simps)
  have hd: "int_of_size (word_of_int (int h + int k) mod word_of_nat (q_cap q)) = int ((h + k) mod q_cap q)"
    using cb hk hc(3) word_of_nat_mod[of "h + k" "q_cap q"] by (simp add: int_of_size_nat order.strict_trans[OF mod_less_divisor])
  define q' where "q' = q\<lparr>q_head := int ((h + k) mod q_cap q), q_count := q_count q - int k\<rparr>"
  note d = dequeue_run[OF wf hc(1) kc(2) hk q'_def]
  have "prot_queue_pop_items q (int mx) = Some (int k, take (k * q_es q) (drop (h * q_es q) (q_buf q)), q')"
    using hk cb unfolding prot_queue_pop_items_def capacity_eq[OF wf] hc(1,2)
    by (simp only: bind.simps off Let_def ue m len rd) (simp add: c_int_ok hd[simplified] q'_def hc)
  moreover have "length (take (k * q_es q) (drop (h * q_es q) (q_buf q))) = k * q_es q"
    using mult_le_mono1[OF hk, of "q_es q"] by (simp add: b(1) algebra_simps)
  moreover have "k \<le> mx" "0 < mx \<longrightarrow> 0 < k" using c0 hc by (auto simp: k_def)
  ultimately show ?thesis using d(1,3,4) unfolding d(2) by (simp add: same_shape_def chunks_take)
qed

lemma push_all_spec:
  assumes wf: "queue_wf q" and d: "k * q_es q \<le> length data" and ov: "q_count q + int k < 2 ^ 31"
  shows "ok (prot_queue_push_all q data (int k)) (\<lambda>(r, q'). same_shape q q' \<and>
    r = (if length (queue_items q) + k \<le> q_cap q then int k else 0) \<and>
    queue_items q' = queue_items q @ chunks (q_es q) data (nat r))"
proof -
  obtain h c where hc: "q_head q = int h" "q_count q = int c" "h < q_cap q" "c \<le> q_cap q"
    "q_tail q = int ((h + c) mod q_cap q)" by (rule queue_ring[OF wf])
  then obtain t where t: "q_tail q = int t" "t < q_cap q" by simp
  note cb = queue_bounds(1)[OF wf]
  have n: "c_int (int c + int k) = Some (int (c + k))" using ov hc(2) by (simp add: c_int_ok)
  show ?thesis
  proof (cases "c + k \<le> q_cap q")
    case False
    then show ?thesis using n wf hc
      by (simp add: prot_queue_push_all_def capacity_eq[OF wf] int_of_cap[OF wf]) (simp add: chunks_def)
  next
    case True
    define a b where "a = min k (q_cap q - t)" and "b = k - a"
    have ab: "k = a + b" "t + a \<le> q_cap q" "c + a \<le> q_cap q" using t(2) True by (auto simp: a_def b_def)
    have ge: "a * q_es q \<le> length data" "b * q_es q \<le> length (drop (a * q_es q) data)"
      using d by (simp_all add: ab(1) algebra_simps)
    define q1 where "q1 = q\<lparr>q_buf := take (t * q_es q) (q_buf q) @ take (a * q_es q) data @ drop ((t + a) * q_es q) (q_buf q),
       q_tail := int ((t + a) mod q_cap q), q_count := q_count q + int a\<rparr>"
    have "q_count q + int a \<le> int (q_cap q)" "length (take (a * q_es q) data) = a * q_es q"
      using ab hc ge by simp_all
    note e1 = enqueue_run[OF wf t(1) this(1) ab(2) this(2) q1_def]
    have w1: "buf_write (q_buf q) (int (t * q_es q)) data (int (a * q_es q)) = Some (q_buf q1)"
      using buf_write_slots[OF wf ab(2) ge(1)] by (simp add: q1_def)
    have i: "c_int (int t * q_elem_size q) = Some (int (t * q_es q))" "c_int (int a * q_elem_size q) = Some (int (a * q_es q))"
      using t ab(2) by (intro c_int_slots[OF wf]; simp)+
    have ta: "c_int (int t + int a) = Some (int t + int a)" using ab(2) cb by (simp add: c_int_ok)
    have ma: "min (int k) (int (q_cap q) - int t) = int a" "int k - int a = int b"
      using t(2) ab(1) unfolding a_def by (auto simp: min_def)
    show ?thesis
    proof (cases "b = 0")
      case True
      then have nb: "(0 < int b) = False" and ka: "c + k = c + a" using ab(1) by simp_all
      have nc: "(int (q_cap q) < int (c + k)) = False" using \<open>c + k \<le> q_cap q\<close> by simp
      have "prot_queue_push_all q data (int k) = Some (int k, q1)"
        unfolding prot_queue_push_all_def capacity_eq[OF wf] t(1) hc(2) option.map int_of_cap[OF wf]
        by (simp only: bind.simps n nc if_False Let_def ma i w1 ta c_rem_cap[OF wf] nb prod.case) (simp add: q1_def hc ka del: of_nat_add)
      then show ?thesis using e1 True ab(1) hc(2) \<open>c + k \<le> q_cap q\<close> by (auto simp: same_shape_def chunks_take)
    next
      case False
      then have "t + a = q_cap q" using t(2) unfolding b_def a_def by linarith
      then have z: "(t + a) mod q_cap q = 0" by simp
      have bb: "0 + b \<le> q_cap q" using True ab(1) by simp
      define q2 where "q2 = q1\<lparr>q_buf := take (0 * q_es q1) (q_buf q1) @ take (b * q_es q) (drop (a * q_es q) data) @ drop ((0 + b) * q_es q1) (q_buf q1),
         q_tail := int ((0 + b) mod q_cap q1), q_count := q_count q1 + int b\<rparr>"
      have "q_tail q1 = int 0" "q_count q1 + int b \<le> int (q_cap q1)" "0 + b \<le> q_cap q1"
        "length (take (b * q_es q) (drop (a * q_es q) data)) = b * q_es q1"
        using z ge bb True ab e1 hc by (simp_all add: q1_def)
      note e2 = enqueue_run[OF e1(1) this(1-4) q2_def]
      have w2: "buf_write (q_buf q1) (int (0 * q_es q)) (drop (nat (int (a * q_es q))) data) (int (b * q_es q)) = Some (q_buf q2)"
        using buf_write_slots[OF e1(1), of 0 b "drop (a * q_es q) data"] bb ge(2) e1 unfolding nat_int by (simp add: q2_def)
      have i2: "c_int (int 0 * q_elem_size q) = Some (int (0 * q_es q))" "c_int (int b * q_elem_size q) = Some (int (b * q_es q))"
        using bb by (intro c_int_slots[OF wf]; simp)+
      have i3: "c_int (int 0 + int b) = Some (int 0 + int b)" using bb cb by (simp add: c_int_ok)
      have f: "q_head q2 = q_head q" "q_buflen q2 = q_buflen q" "q_elem_size q2 = q_elem_size q" "q_count q2 = int (c + k)"
        by (simp_all add: q2_def q1_def hc ab(1))
      have ft: "q_tail q2 = int ((0 + b) mod q_cap q)" by (simp add: q2_def e1(3))
      have q2eq: "q\<lparr>q_buf := q_buf q2, q_tail := int ((0 + b) mod q_cap q), q_count := int (c + k)\<rparr> = q2"
        by (rule prot_queue.equality) (simp_all add: f ft)
      have nb: "(0 < int b) = True" and nc: "(int (q_cap q) < int (c + k)) = False" using False True by simp_all
      have "prot_queue_push_all q data (int k) = Some (int k, q2)"
        unfolding prot_queue_push_all_def capacity_eq[OF wf] t(1) hc(2) option.map int_of_cap[OF wf]
        by (simp only: bind.simps n nc nb Let_def ma i w1 ta c_rem_cap[OF wf] z i2 i3 w2 if_True if_False prod.case)
          (simp only: q2eq)
      then show ?thesis using e1 e2 True ab(1) hc
        by (simp add: same_shape_def chunks_take chunks_split nat_int_add)
    qed
  qed
qed

lemma pop_spec:
  assumes wf: "queue_wf q" and c0: "q_count q \<noteq> 0"
  shows "ok (prot_queue_pop q) (\<lambda>r. \<exists>d q'. r = Some (d, q') \<and> same_shape q q' \<and> queue_items q = d # queue_items q' \<and> length d = q_es q)"
proof -
  obtain h c where hc: "q_head q = int h" "q_count q = int c" "h < q_cap q" "c \<le> q_cap q" by (rule queue_ring[OF wf])
  note cb = queue_bounds(1)[OF wf]
  have b: "length (q_buf q) = q_cap q * q_es q" using wf by (simp add: queue_wf_def)
  have hk: "h + 1 \<le> q_cap q" and kc: "int 1 \<le> q_count q" using hc c0 by auto
  have off: "c_int (int h * q_elem_size q) = Some (int (h * q_es q))" using hc by (intro c_int_slots[OF wf]) simp
  have le: "h * q_es q + q_es q \<le> length (q_buf q)" using mult_le_mono1[OF hk, of "q_es q"] by (simp add: b)
  then have rd: "buf_read (q_buf q) (int (h * q_es q)) (q_elem_size q) = Some (chunk (q_es q) (q_buf q) h)"
    unfolding buf_read_def queue_bounds(4)[OF wf, symmetric] of_nat_add[symmetric] of_nat_le_iff nat_int
    by (simp add: chunk_def)
  have "word_of_int (int h + 1) = (word_of_nat (h + 1) :: u64)" by (simp add: add.commute)
  then have hd: "int_of_size (word_of_int (int h + 1) mod word_of_nat (q_cap q)) = int ((h + 1) mod q_cap q)"
    using cb hk hc(3) word_of_nat_mod[of "h + 1" "q_cap q"]
    by (simp only:) (simp add: int_of_size_nat order.strict_trans[OF mod_less_divisor])
  define q' where "q' = q\<lparr>q_head := int ((h + 1) mod q_cap q), q_count := q_count q - int 1\<rparr>"
  note d = dequeue_run[OF wf hc(1) kc hk q'_def]
  have "prot_queue_pop q = Some (Some (chunk (q_es q) (q_buf q) h, q'))"
    using hk cb c0 hc(2) unfolding prot_queue_pop_def capacity_eq[OF wf] hc(1)
    by (simp only: bind.simps off rd if_False) (simp add: c_int_ok hd[simplified] q'_def)
  moreover have "chunks (q_es q) (drop (h * q_es q) (q_buf q)) 1 = [chunk (q_es q) (q_buf q) h]"
    by (simp add: chunks_def chunk_def)
  moreover have "length (chunk (q_es q) (q_buf q) h) = q_es q" using le by (simp add: chunk_def)
  ultimately show ?thesis using d(1,3,4) unfolding d(2) by (simp add: same_shape_def)
qed

section \<open>The interface of the queue\<close>

text \<open>
  What the threads rely on: an accepted element goes to the back, a full queue refuses without
  changing, and a read of a queue that is not empty takes at least one element from the front.
\<close>

primrec drain :: "('q \<Rightarrow> ('e list \<times> 'q) option) \<Rightarrow> nat \<Rightarrow> 'q \<Rightarrow> ('e list \<times> 'q) option" where
  "drain deq 0 q = Some ([], q)"
| "drain deq (Suc n) q = do {
     (xs, q) \<leftarrow> deq q;
     (ys, q) \<leftarrow> drain deq n q;
     Some (xs @ ys, q) }"

locale bounded_fifo =
  fixes wf :: "'q \<Rightarrow> bool" and items :: "'q \<Rightarrow> 'e list" and cap :: "'q \<Rightarrow> nat" and fits :: "'q \<Rightarrow> 'e \<Rightarrow> bool"
    and enq :: "'q \<Rightarrow> 'e \<Rightarrow> (bool \<times> 'q) option" and deq :: "'q \<Rightarrow> ('e list \<times> 'q) option"
  assumes enq_law: "wf q \<Longrightarrow> fits q e \<Longrightarrow> ok (enq q e) (\<lambda>(r, q'). wf q' \<and> cap q' = cap q \<and> fits q' = fits q \<and>
      r = (length (items q) < cap q) \<and> items q' = items q @ (if r then [e] else []))"
    and deq_law: "wf q \<Longrightarrow> ok (deq q) (\<lambda>(xs, q'). wf q' \<and> cap q' = cap q \<and> fits q' = fits q \<and>
      items q = xs @ items q' \<and> (items q \<noteq> [] \<longrightarrow> xs \<noteq> []))"
begin

lemma enq_room:
  assumes "wf q" "fits q e" "length (items q) < cap q"
  obtains q' where "enq q e = Some (True, q')" "wf q'" "cap q' = cap q" "fits q' = fits q" "items q' = items q @ [e]"
  using enq_law[OF assms(1,2)] assms(3) by (auto simp: ok_iff)

lemma enq_full:
  assumes "wf q" "fits q e" "cap q \<le> length (items q)"
  obtains q' where "enq q e = Some (False, q')" "wf q'" "cap q' = cap q" "fits q' = fits q" "items q' = items q"
  using enq_law[OF assms(1,2)] assms(3) by (auto simp: ok_iff)

lemma drain_all:
  "wf q \<Longrightarrow> length (items q) \<le> n \<Longrightarrow> ok (drain deq n q) (\<lambda>(xs, q'). xs = items q \<and> wf q' \<and> items q' = [])"
proof (induction n arbitrary: q)
  case 0
  then show ?case by simp
next
  case (Suc n)
  obtain xs q1 where 1: "deq q = Some (xs, q1)" "wf q1" "items q = xs @ items q1" "items q \<noteq> [] \<longrightarrow> xs \<noteq> []"
    using deq_law[OF Suc.prems(1)] by (auto simp: ok_iff)
  have "length (items q1) \<le> n" using 1(3,4) Suc.prems(2) by (cases "items q = []"; cases xs) auto
  from Suc.IH[OF 1(2) this] show ?case using 1 by (auto simp: ok_iff)
qed

end

text \<open>The consumer's call: \<open>prot_queue_try_pop_all\<close>, with its output cut into elements.\<close>

definition pop_elems :: "int \<Rightarrow> prot_queue \<Rightarrow> (u8 list list \<times> prot_queue) option" where
  "pop_elems max_items q = do {
     (n, data, q') \<leftarrow> prot_queue_try_pop_all q max_items;
     Some (chunks (q_es q) data (nat n), q') }"

lemma pop_elems_spec:
  assumes "queue_wf q"
  shows "ok (pop_elems (int mx) q) (\<lambda>(xs, q'). same_shape q q' \<and> queue_items q = xs @ queue_items q' \<and>
    length xs \<le> mx \<and> (0 < mx \<longrightarrow> queue_items q \<noteq> [] \<longrightarrow> xs \<noteq> []))"
proof (cases "q_count q = 0")
  case True
  then have "queue_items q = []" by (simp add: queue_items_def)
  then show ?thesis using True assms by (simp add: pop_elems_def prot_queue_try_pop_all_def chunks_def)
next
  case False
  show ?thesis unfolding pop_elems_def prot_queue_try_pop_all_def using False
    by (simp, intro ok_bindI[OF pop_items_spec[OF assms False]]) (auto simp: chunks_def)
qed

definition elem_fits :: "prot_queue \<Rightarrow> u8 list \<Rightarrow> bool" where
  "elem_fits q e \<longleftrightarrow> length e = q_es q"

interpretation pq: bounded_fifo queue_wf queue_items q_cap elem_fits prot_queue_push "pop_elems (int (Suc n))" for n
proof unfold_locales
  fix q e assume "queue_wf q" "elem_fits q e"
  then show "ok (prot_queue_push q e) (\<lambda>(r, q'). queue_wf q' \<and> q_cap q' = q_cap q \<and> elem_fits q' = elem_fits q \<and>
      r = (length (queue_items q) < q_cap q) \<and> queue_items q' = queue_items q @ (if r then [e] else []))"
    using push_spec[of q e] by (auto simp: elem_fits_def same_shape_def ok_iff fun_eq_iff)
next
  fix q n assume "queue_wf q"
  from pop_elems_spec[OF this, of "Suc n"]
  show "ok (pop_elems (int (Suc n)) q) (\<lambda>(xs, q'). queue_wf q' \<and> q_cap q' = q_cap q \<and> elem_fits q' = elem_fits q \<and>
      queue_items q = xs @ queue_items q' \<and> (queue_items q \<noteq> [] \<longrightarrow> xs \<noteq> []))"
    by (rule ok_conseq) (auto simp: elem_fits_def same_shape_def fun_eq_iff)
qed

section \<open>Every interleaving is first in, first out\<close>

text \<open>
  The threads' calls in any order: \<open>queue_run q xs ys q'\<close> when some sequence of calls leads from \<open>q\<close> to
  \<open>q'\<close>, with \<open>xs\<close> the elements whose push succeeded and \<open>ys\<close> the elements popped, in order.
\<close>

inductive queue_run :: "prot_queue \<Rightarrow> u8 list list \<Rightarrow> u8 list list \<Rightarrow> prot_queue \<Rightarrow> bool" where
  start: "queue_run q [] [] q"
| push: "queue_run q xs ys q1 \<Longrightarrow> length e = q_es q1 \<Longrightarrow> prot_queue_push q1 e = Some (r, q2) \<Longrightarrow>
    queue_run q (xs @ (if r then [e] else [])) ys q2"
| push_all: "queue_run q xs ys q1 \<Longrightarrow> length data = k * q_es q1 \<Longrightarrow> q_count q1 + int k < 2 ^ 31 \<Longrightarrow>
    prot_queue_push_all q1 data (int k) = Some (r, q2) \<Longrightarrow>
    queue_run q (xs @ chunks (q_es q1) data (nat r)) ys q2"
| try_pop_all: "queue_run q xs ys q1 \<Longrightarrow> prot_queue_try_pop_all q1 (int mx) = Some (r, data, q2) \<Longrightarrow>
    queue_run q xs (ys @ chunks (q_es q1) data (nat r)) q2"
| pop_all: "queue_run q xs ys q1 \<Longrightarrow> prot_queue_pop_all q1 (int mx) = Some (Some (r, data, q2)) \<Longrightarrow>
    queue_run q xs (ys @ chunks (q_es q1) data (nat r)) q2"
| pop: "queue_run q xs ys q1 \<Longrightarrow> prot_queue_pop q1 = Some (Some (data, q2)) \<Longrightarrow> queue_run q xs (ys @ [data]) q2"

lemma queue_run_items:
  "queue_run q xs ys q' \<Longrightarrow> queue_wf q \<Longrightarrow> same_shape q q' \<and> queue_items q @ xs = ys @ queue_items q'"
proof (induction rule: queue_run.induct)
  case (start q)
  then show ?case by simp
next
  case (push q xs ys q1 e r q2)
  then have "queue_wf q1" by (simp add: same_shape_def)
  from ok_D[OF push_spec[OF this, of e] push.hyps(3)] push show ?case
    by (auto simp: same_shape_def split: if_splits)
next
  case (push_all q xs ys q1 data k r q2)
  then have "queue_wf q1" by (simp add: same_shape_def)
  from ok_D[OF push_all_spec[OF this, of k data] push_all.hyps(4)] push_all show ?case
    by (auto simp: same_shape_def)
next
  case (try_pop_all q xs ys q1 mx r data q2)
  then have wf: "queue_wf q1" by (simp add: same_shape_def)
  have "pop_elems (int mx) q1 = Some (chunks (q_es q1) data (nat r), q2)" using try_pop_all.hyps(2) by (simp add: pop_elems_def)
  from ok_D[OF pop_elems_spec[OF wf] this] try_pop_all show ?case by (auto simp: same_shape_def)
next
  case (pop_all q xs ys q1 mx r data q2)
  then have wf: "queue_wf q1" by (simp add: same_shape_def)
  have n: "q_count q1 \<noteq> 0" and r: "prot_queue_pop_items q1 (int mx) = Some (r, data, q2)"
    using pop_all.hyps(2) by (auto simp: prot_queue_pop_all_def split: if_splits)
  from ok_D[OF pop_items_spec[OF wf n] r] pop_all show ?case by (auto simp: same_shape_def)
next
  case (pop q xs ys q1 data q2)
  then have wf: "queue_wf q1" by (simp add: same_shape_def)
  have n: "q_count q1 \<noteq> 0" using pop.hyps(2) by (auto simp: prot_queue_pop_def split: if_splits)
  from ok_D[OF pop_spec[OF wf n] pop.hyps(2)] pop show ?case by (auto simp: same_shape_def)
qed

lemma init_wf:
  assumes "0 < es" "0 < n" "es * n < 2 ^ 31" "length buf = es * n"
  shows "ok (prot_queue_init buf (word_of_nat (es * n)) (int es)) (\<lambda>q. queue_wf q \<and> queue_items q = [] \<and> q_cap q = n \<and> q_es q = es)"
proof -
  have "es \<le> es * n" using assms by simp
  then have b: "es < 2 ^ 64" "es * n < 2 ^ 64"
    using assms(3) power_strict_increasing[of 31 64 "2 :: nat"] by (linarith | simp)+
  have "(word_of_nat (es * n) :: u64) mod word_of_nat es = 0" using word_of_nat_mod[OF b(2,1)] by simp
  moreover have "(word_of_nat (es * n) :: u64) \<noteq> 0" using assms b by (simp only: word_of_nat_eq_0_iff) (auto dest: nat_dvd_not_less)
  ultimately show ?thesis
    using assms by (simp add: prot_queue_init_def queue_wf_def queue_items_def q_cap_def q_es_def del: of_nat_mult) 
qed


text \<open>
  C2 The queue is first in, first out under every interleaving of its operations: from a fresh
  queue, whatever sequence of calls the threads make, the elements accepted so far are the
  elements handed out so far followed by those still in the ring, and the ring never
  holds more than its capacity.
\<close>

theorem queue_fifo:
  assumes "0 < es" "0 < n" "es * n < 2 ^ 31" "length buf = es * n"
    and "prot_queue_init buf (word_of_nat (es * n)) (int es) = Some q0" and "queue_run q0 xs ys q"
  shows "xs = ys @ queue_items q \<and> length (queue_items q) \<le> n \<and> queue_wf q"
proof -
  have q0: "queue_wf q0" "queue_items q0 = []" "q_cap q0 = n"
    using init_wf[OF assms(1-4)] assms(5) by simp_all
  from queue_run_items[OF assms(6) q0(1)] q0 show ?thesis by (auto simp: same_shape_def queue_wf_def nat_le_iff)
qed

theorem queue_fifo_witness:
  "\<exists>q0 q. prot_queue_init [0, 0, 0, 0] 4 2 = Some q0 \<and> queue_run q0 [[1, 2], [3, 4], [5, 6]] [[1, 2]] q \<and>
     [[1, 2], [3, 4], [5, 6]] = [[1, 2]] @ queue_items q"
proof -
  define q where "q = (\<lambda>buf h t c. \<lparr>q_buf = buf, q_buflen = 4, q_head = h, q_tail = t, q_count = c, q_elem_size = 2\<rparr>)"
  note d = prot_queue_push_def prot_queue_pop_def prot_queue_capacity_def int_of_size_def buf_write_def buf_read_def
    c_rem_def c_int_def q_def q_es_def
  have i: "prot_queue_init [0, 0, 0, 0] 4 2 = Some (q [0, 0, 0, 0] 0 0 0)" by (simp add: prot_queue_init_def q_def)
  have r1: "prot_queue_push (q [0, 0, 0, 0] 0 0 0) [1, 2] = Some (True, q [1, 2, 0, 0] 0 1 1)" by (simp add: d)
  have r2: "prot_queue_push (q [1, 2, 0, 0] 0 1 1) [3, 4] = Some (True, q [1, 2, 3, 4] 0 0 2)" by (simp add: d)
  have r3: "prot_queue_pop (q [1, 2, 3, 4] 0 0 2) = Some (Some ([1, 2], q [1, 2, 3, 4] 1 0 1))" by (simp add: d)
  have r4: "prot_queue_push (q [1, 2, 3, 4] 1 0 1) [5, 6] = Some (True, q [5, 6, 3, 4] 1 1 2)" by (simp add: d)
  have es: "length [a, b :: u8] = q_es (q buf h t c)" for a b buf h t c by (simp add: q_def q_es_def)
  have "queue_run (q [0, 0, 0, 0] 0 0 0) [[1, 2], [3, 4]] [] (q [1, 2, 3, 4] 0 0 2)"
    using queue_run.push[OF queue_run.push[OF queue_run.start es r1] es r2] by simp
  then have run: "queue_run (q [0, 0, 0, 0] 0 0 0) [[1, 2], [3, 4], [5, 6]] [[1, 2]] (q [5, 6, 3, 4] 1 1 2)"
    using queue_run.push[OF queue_run.pop[OF _ r3] es r4] by force
  from queue_fifo[of 2 2 "[0, 0, 0, 0]", OF _ _ _ _ _ run] i
  have "[[1, 2], [3, 4], [5, 6]] = [[1, 2]] @ queue_items (q [5, 6, 3, 4] 1 1 2)" by simp
  with i run show ?thesis by blast
qed

text \<open>
  C13 A consumer that polls the inbox gets everything in order: although one call of
  \<open>prot_queue_try_pop_all\<close> stops at the end of the buffer, as many calls as there are elements
  return all of them, oldest first, and leave the queue empty.
\<close>

theorem queue_drains:
  assumes "queue_wf q" and "length (queue_items q) \<le> calls"
  shows "ok (drain (pop_elems (int (Suc n))) calls q) (\<lambda>(xs, q'). xs = queue_items q \<and> queue_wf q' \<and> queue_items q' = [])"
  using assms by (rule pq.drain_all)

theorem queue_drains_witness:
  "ok (drain (pop_elems 8) 2 \<lparr>q_buf = [5, 6, 3, 4], q_buflen = 4, q_head = 1, q_tail = 1, q_count = 2, q_elem_size = 2\<rparr>)
     (\<lambda>(xs, q'). xs = [[3, 4], [5, 6]] \<and> queue_wf q' \<and> queue_items q' = [])"
proof -
  let ?q = "\<lparr>q_buf = [5, 6, 3, 4], q_buflen = 4, q_head = 1, q_tail = 1, q_count = 2, q_elem_size = 2\<rparr>"
  have "queue_items ?q = [[3, 4], [5, 6]]" by (simp add: queue_items_def chunk_def q_cap_def q_es_def upt_rec)
  moreover have "queue_wf ?q" by (simp add: queue_wf_def q_cap_def q_es_def)
  ultimately show ?thesis using queue_drains[of ?q 2 7] by simp
qed

end
