(* ===== verification/Threadpool.thy ===== *)
theory Threadpool
  imports Queue
begin

text \<open>
  The thread pool of \<open>src/src/threadpool.h\<close>: worker threads with one inbox each, round-robin
  dispatch, and shutdown. The threads themselves (what a worker does with its messages) and the operating
  system calls that create and join them are outside the model; allocation and thread
  creation are arguments that say which calls succeed.
\<close>

section \<open>The pool\<close>

record thread =
  inbox :: prot_queue
  quit_pushed :: "bool option"

record threadpool =
  num_threads :: int
  pool :: "thread list"
  next_thread :: int
  quit_msg :: "u8 list"

text \<open>
  One round of the initialisation loop and the loop; \<open>qmem i\<close> is the memory \<open>malloc\<close> returns for the
  inbox of thread \<open>i\<close> and \<open>create i\<close> whether its thread starts. The threads set up so far
  are kept when a later one fails.
\<close>

fun init_threads ::
  "nat \<Rightarrow> nat \<Rightarrow> int \<Rightarrow> int \<Rightarrow> (nat \<Rightarrow> u8 list option) \<Rightarrow> (nat \<Rightarrow> bool) \<Rightarrow> thread list \<Rightarrow> (bool \<times> thread list) option" where
  "init_threads 0 i es ne qmem create ts = Some (True, ts)"
| "init_threads (Suc n) i es ne qmem create ts = do {
     bytes \<leftarrow> c_int (es * ne);
     case qmem i of
       None \<Rightarrow> Some (False, ts)
     | Some m \<Rightarrow> do {
         q \<leftarrow> prot_queue_init m (word_of_int bytes) es;
         let ts = ts @ [\<lparr>inbox = q, quit_pushed = None\<rparr>];
         if \<not> create i then Some (False, ts) else init_threads n (Suc i) es ne qmem create ts } }"

definition threadpool_init ::
  "int \<Rightarrow> int \<Rightarrow> int \<Rightarrow> u8 list \<Rightarrow> bool \<Rightarrow> (nat \<Rightarrow> u8 list option) \<Rightarrow> (nat \<Rightarrow> bool) \<Rightarrow> (bool \<times> threadpool option) option" where
  "threadpool_init n_threads es ne quit pool_alloc qmem create =
     (if n_threads \<le> 0 then Some (False, None)
      else if \<not> pool_alloc then Some (False, None)
      else do {
        (r, ts) \<leftarrow> init_threads (nat n_threads) 0 es ne qmem create [];
        Some (r, Some \<lparr>num_threads = n_threads, pool = ts, next_thread = -1, quit_msg = quit\<rparr>) })"

text \<open>The index of the next thread, which must lie in the pool.\<close>

definition threadpool_next_thread :: "threadpool \<Rightarrow> (nat \<times> threadpool) option" where
  "threadpool_next_thread tp = do {
     n \<leftarrow> c_int (next_thread tp + 1);
     n \<leftarrow> c_rem n (num_threads tp);
     if 0 \<le> n \<and> n < int (length (pool tp)) then Some (nat n, tp\<lparr>next_thread := n\<rparr>) else None }"

definition set_inbox :: "threadpool \<Rightarrow> nat \<Rightarrow> prot_queue \<Rightarrow> threadpool" where
  "set_inbox tp i q = tp\<lparr>pool := (pool tp)[i := (pool tp ! i)\<lparr>inbox := q\<rparr>]\<rparr>"

definition threadpool_dispatch :: "threadpool \<Rightarrow> u8 list \<Rightarrow> (bool \<times> threadpool) option" where
  "threadpool_dispatch tp msg = do {
     (i, tp) \<leftarrow> threadpool_next_thread tp;
     (r, q) \<leftarrow> prot_queue_push (inbox (pool tp ! i)) msg;
     Some (r, set_inbox tp i q) }"

text \<open>The loop stops pushing at the first inbox that is full.\<close>

fun dispatch_loop :: "nat \<Rightarrow> nat \<Rightarrow> bool \<Rightarrow> threadpool \<Rightarrow> u8 list \<Rightarrow> (bool \<times> threadpool) option" where
  "dispatch_loop 0 i ok' tp msg = Some (ok', tp)"
| "dispatch_loop (Suc n) i ok' tp msg =
     (if \<not> ok' then dispatch_loop n (Suc i) False tp msg
      else if i < length (pool tp) then do {
        (r, q) \<leftarrow> prot_queue_push (inbox (pool tp ! i)) msg;
        dispatch_loop n (Suc i) r (set_inbox tp i q) msg }
      else None)"

definition threadpool_dispatch_all_threads :: "threadpool \<Rightarrow> u8 list \<Rightarrow> (bool \<times> threadpool) option" where
  "threadpool_dispatch_all_threads tp msg = dispatch_loop (nat (num_threads tp)) 0 True tp msg"

definition threadpool_dispatch_all :: "threadpool \<Rightarrow> u8 list \<Rightarrow> int \<Rightarrow> (int \<times> threadpool) option" where
  "threadpool_dispatch_all tp msgs num_msgs = do {
     (i, tp) \<leftarrow> threadpool_next_thread tp;
     (r, q) \<leftarrow> prot_queue_push_all (inbox (pool tp ! i)) msgs num_msgs;
     Some (r, set_inbox tp i q) }"

text \<open>
  Shutdown: every inbox gets the quit message, then every thread is joined, or terminated when
  its inbox had no room for the message; the queues are freed after that.
\<close>

datatype thread_end = Finished | Terminated

fun push_quit :: "thread list \<Rightarrow> u8 list \<Rightarrow> thread list option" where
  "push_quit [] msg = Some []"
| "push_quit (t # ts) msg = do {
     (r, q) \<leftarrow> prot_queue_push (inbox t) msg;
     ts \<leftarrow> push_quit ts msg;
     Some (t\<lparr>inbox := q, quit_pushed := Some r\<rparr> # ts) }"

definition threadpool_destroy :: "threadpool \<Rightarrow> (thread_end list \<times> thread list) option" where
  "threadpool_destroy tp =
     (if num_threads tp \<noteq> int (length (pool tp)) then None
      else do {
        ts \<leftarrow> push_quit (pool tp) (quit_msg tp);
        Some (map (\<lambda>t. if quit_pushed t = Some True then Finished else Terminated) ts, ts) })"

section \<open>Round-robin dispatch\<close>

definition pool_wf :: "nat \<Rightarrow> threadpool \<Rightarrow> bool" where
  "pool_wf es tp \<longleftrightarrow> num_threads tp = int (length (pool tp)) \<and> 0 < num_threads tp \<and> num_threads tp < 2 ^ 31 \<and>
     - 1 \<le> next_thread tp \<and> next_thread tp < num_threads tp \<and>
     (\<forall>t\<in>set (pool tp). queue_wf (inbox t) \<and> q_es (inbox t) = es)"

definition inbox_items :: "threadpool \<Rightarrow> nat \<Rightarrow> u8 list list" where
  "inbox_items tp i = queue_items (inbox (pool tp ! i))"

definition inbox_room :: "threadpool \<Rightarrow> nat \<Rightarrow> nat" where
  "inbox_room tp i = q_cap (inbox (pool tp ! i)) - length (inbox_items tp i)"

definition next_index :: "threadpool \<Rightarrow> nat" where
  "next_index tp = nat (next_thread tp + 1) mod length (pool tp)"

lemma set_inbox_simps [simp]:
  "length (pool (set_inbox tp i q)) = length (pool tp)" "num_threads (set_inbox tp i q) = num_threads tp"
  "next_thread (set_inbox tp i q) = next_thread tp"
  "i < length (pool tp) \<Longrightarrow> inbox (pool (set_inbox tp i q) ! j) = (if j = i then q else inbox (pool tp ! j))"
  by (auto simp: set_inbox_def nth_list_update)

lemma set_inbox_wf:
  assumes "pool_wf es tp" "i < length (pool tp)" "queue_wf q" "q_es q = es"
  shows "pool_wf es (set_inbox tp i q)"
proof -
  have "\<forall>t\<in>set ((pool tp)[i := (pool tp ! i)\<lparr>inbox := q\<rparr>]). queue_wf (inbox t) \<and> q_es (inbox t) = es"
    using assms set_update_subset_insert[of "pool tp" i] by (fastforce simp: pool_wf_def)
  then show ?thesis using assms by (auto simp: pool_wf_def set_inbox_def)
qed

lemma next_thread_eq:
  assumes "pool_wf es tp"
  shows "threadpool_next_thread tp = Some (next_index tp, tp\<lparr>next_thread := int (next_index tp)\<rparr>)"
    "next_index tp < length (pool tp)" "pool_wf es (tp\<lparr>next_thread := int (next_index tp)\<rparr>)"
proof -
  have n: "num_threads tp = int (length (pool tp))" "0 < length (pool tp)" "length (pool tp) < 2 ^ 31"
    "0 \<le> next_thread tp + 1" "next_thread tp + 1 \<le> int (length (pool tp))"
    using assms by (auto simp: pool_wf_def)
  show l: "next_index tp < length (pool tp)" using n(2) by (simp add: next_index_def)
  have c: "c_int (next_thread tp + 1) = Some (next_thread tp + 1)" using n by (intro c_int_ok) simp_all
  have i: "int (next_index tp) = (next_thread tp + 1) mod num_threads tp"
    using n by (simp add: next_index_def zmod_int)
  show "threadpool_next_thread tp = Some (next_index tp, tp\<lparr>next_thread := int (next_index tp)\<rparr>)"
    using n l c_rem_nat[of "next_thread tp + 1" "num_threads tp"]
    by (simp add: threadpool_next_thread_def c i[symmetric, unfolded n(1)])
  show "pool_wf es (tp\<lparr>next_thread := int (next_index tp)\<rparr>)" using assms l by (auto simp: pool_wf_def)
qed


text \<open>The steps from thread \<open>a\<close> to thread \<open>j\<close> in a ring of \<open>n\<close> threads.\<close>

definition ring_dist :: "nat \<Rightarrow> nat \<Rightarrow> nat \<Rightarrow> nat" where
  "ring_dist n a j = (if a \<le> j then j - a else j + n - a)"

lemma dispatch_spec:
  assumes wf: "pool_wf es tp" and m: "length msg = es"
  shows "ok (threadpool_dispatch tp msg) (\<lambda>(r, tp'). pool_wf es tp' \<and> length (pool tp') = length (pool tp) \<and>
    next_index tp' = (next_index tp + 1) mod length (pool tp) \<and> r = (0 < inbox_room tp (next_index tp)) \<and>
    (\<forall>j. inbox_items tp' j = inbox_items tp j @ (if j = next_index tp \<and> r then [msg] else [])) \<and>
    (\<forall>j. j \<noteq> next_index tp \<longrightarrow> inbox_room tp' j = inbox_room tp j))"
proof -
  note n = next_thread_eq[OF wf]
  let ?i = "next_index tp" and ?tp = "tp\<lparr>next_thread := int (next_index tp)\<rparr>"
  have q: "queue_wf (inbox (pool tp ! ?i))" "q_es (inbox (pool tp ! ?i)) = es" using wf n(2) by (auto simp: pool_wf_def)
  then have "elem_fits (inbox (pool tp ! ?i)) msg" using m by (simp add: elem_fits_def)
  note l = pq.enq_law[OF q(1) this]
  from l obtain r q' where r: "prot_queue_push (inbox (pool tp ! ?i)) msg = Some (r, q')" "queue_wf q'"
    "elem_fits q' = elem_fits (inbox (pool tp ! ?i))" "r = (length (inbox_items tp ?i) < q_cap (inbox (pool tp ! ?i)))"
    "queue_items q' = inbox_items tp ?i @ (if r then [msg] else [])" by (auto simp: ok_iff inbox_items_def)
  have "q_es q' = es" using fun_cong[OF r(3), of msg] q(2) m by (simp add: elem_fits_def)
  then have "pool_wf es (set_inbox ?tp ?i q')" using n r(2) by (intro set_inbox_wf) simp_all
  moreover have "next_index (set_inbox ?tp ?i q') = (?i + 1) mod length (pool tp)"
    by (simp add: next_index_def[of "set_inbox ?tp ?i q'"] nat_add_distrib)
  moreover have "r = (0 < inbox_room tp ?i)" using r(4) by (auto simp: inbox_room_def)
  ultimately show ?thesis using n r(1,5)
    by (simp add: threadpool_dispatch_def) (simp add: inbox_items_def inbox_room_def)
qed

primrec dispatch_list :: "threadpool \<Rightarrow> u8 list list \<Rightarrow> (bool list \<times> threadpool) option" where
  "dispatch_list tp [] = Some ([], tp)"
| "dispatch_list tp (m # ms) = do {
     (r, tp) \<leftarrow> threadpool_dispatch tp m;
     (rs, tp) \<leftarrow> dispatch_list tp ms;
     Some (r # rs, tp) }"

lemma dispatch_list_spec:
  assumes "pool_wf es tp" and "\<forall>m\<in>set ms. length m = es" and "length ms \<le> length (pool tp)"
    and "\<forall>j<length (pool tp). ring_dist (length (pool tp)) (next_index tp) j < length ms \<longrightarrow> 0 < inbox_room tp j"
  shows "ok (dispatch_list tp ms) (\<lambda>(rs, tp'). rs = replicate (length ms) True \<and> pool_wf es tp' \<and>
    (\<forall>j<length (pool tp). inbox_items tp' j = inbox_items tp j @
       (let d = ring_dist (length (pool tp)) (next_index tp) j in if d < length ms then [ms ! d] else [])))"
  using assms
proof (induction ms arbitrary: tp)
  case Nil
  then show ?case by simp
next
  case (Cons m ms)
  let ?n = "length (pool tp)" and ?i = "next_index tp"
  have i: "?i < ?n" by (rule next_thread_eq(2)[OF Cons.prems(1)])
  have room: "0 < inbox_room tp ?i" using Cons.prems(4) i by (auto simp: ring_dist_def)
  from dispatch_spec[OF Cons.prems(1), of m] Cons.prems(2) room
  obtain tp1 where 1: "threadpool_dispatch tp m = Some (True, tp1)" "pool_wf es tp1" "length (pool tp1) = ?n"
    "next_index tp1 = (?i + 1) mod ?n" "\<And>j. inbox_items tp1 j = inbox_items tp j @ (if j = ?i then [m] else [])"
    "\<And>j. j \<noteq> ?i \<Longrightarrow> inbox_room tp1 j = inbox_room tp j" by (auto simp: ok_iff)
  have i1: "next_index tp1 = (if ?i + 1 = ?n then 0 else ?i + 1)" using 1(4) i by auto
  have d: "ring_dist ?n ?i j = (if j = ?i then 0 else Suc (ring_dist ?n (next_index tp1) j))"
    "j = ?i \<Longrightarrow> ring_dist ?n (next_index tp1) j = ?n - 1" if "j < ?n" for j
    using that i by (auto simp: ring_dist_def i1)
  have "\<forall>j<length (pool tp1). ring_dist (length (pool tp1)) (next_index tp1) j < length ms \<longrightarrow> 0 < inbox_room tp1 j"
  proof (intro allI impI)
    fix j assume j: "j < length (pool tp1)" "ring_dist (length (pool tp1)) (next_index tp1) j < length ms"
    then have "j \<noteq> ?i" using d(2)[of j] Cons.prems(3) 1(3) by auto
    then show "0 < inbox_room tp1 j" using Cons.prems(4) j d(1)[of j] 1(3) 1(6)[of j] by simp
  qed
  from Cons.IH[OF 1(2) _ _ this] Cons.prems(2,3) 1(3)
  obtain tp2 where 2: "dispatch_list tp1 ms = Some (replicate (length ms) True, tp2)" "pool_wf es tp2"
    "\<And>j. j < ?n \<Longrightarrow> inbox_items tp2 j = inbox_items tp1 j @
       (let d = ring_dist ?n (next_index tp1) j in if d < length ms then [ms ! d] else [])" by (auto simp: ok_iff)
  have "inbox_items tp2 j = inbox_items tp j @
       (let d = ring_dist ?n ?i j in if d < length (m # ms) then [(m # ms) ! d] else [])" if "j < ?n" for j
    using 2(3)[OF that] 1(5)[of j] d[OF that] Cons.prems(3) by (auto simp: Let_def)
  then show ?case using 1(1) 2(1,2) by simp
qed

text \<open>
  C14 Dispatch is round robin: when as many messages are dispatched as there are threads and every
  inbox has room, every dispatch succeeds and every thread gets exactly one of them, in the order of
  the threads starting after the one used last.
\<close>

theorem dispatch_round_robin:
  assumes "pool_wf es tp" and "\<forall>m\<in>set ms. length m = es" and "length ms = length (pool tp)"
    and "\<forall>j<length (pool tp). 0 < inbox_room tp j"
  shows "ok (dispatch_list tp ms) (\<lambda>(rs, tp'). rs = replicate (length ms) True \<and>
    (\<forall>j<length (pool tp). inbox_items tp' j =
       inbox_items tp j @ [ms ! ring_dist (length (pool tp)) (next_index tp) j]))"
proof -
  have i: "next_index tp < length (pool tp)" by (rule next_thread_eq(2)[OF assms(1)])
  have "ring_dist (length (pool tp)) (next_index tp) j < length ms" if "j < length (pool tp)" for j
    using that i assms(3) by (auto simp: ring_dist_def)
  then show ?thesis using dispatch_list_spec[OF assms(1,2)] assms(3,4) by (auto simp: ok_iff Let_def)
qed


section \<open>Initialisation, broadcast and shutdown\<close>

lemma init_threads_spec:
  assumes "0 < es" "0 < ne" "es * ne < 2 ^ 31" and "\<forall>j. create j" and "\<forall>j. \<exists>m. qmem j = Some m \<and> length m = es * ne"
  shows "ok (init_threads n i (int es) (int ne) qmem create ts) (\<lambda>(r, ts'). r \<and> length ts' = length ts + n \<and>
    (\<forall>t\<in>set ts'. t \<in> set ts \<or> queue_wf (inbox t) \<and> q_es (inbox t) = es \<and> q_cap (inbox t) = ne \<and> queue_items (inbox t) = []))"
proof (induction n arbitrary: i ts)
  case 0
  then show ?case by simp
next
  case (Suc n)
  obtain m where m: "qmem i = Some m" "length m = es * ne" using assms(5) by blast
  obtain q where q: "prot_queue_init m (word_of_nat (es * ne)) (int es) = Some q" "queue_wf q" "queue_items q = []"
    "q_cap q = ne" "q_es q = es" using init_wf[OF assms(1-3) m(2)] by (auto simp: ok_iff)
  have b: "c_int (int es * int ne) = Some (int (es * ne))"
    using assms(3) unfolding of_nat_mult[symmetric] by (intro c_int_ok) (simp_all del: of_nat_mult)
  let ?ts = "ts @ [\<lparr>inbox = q, quit_pushed = None\<rparr>]"
  have "init_threads (Suc n) i (int es) (int ne) qmem create ts = init_threads n (Suc i) (int es) (int ne) qmem create ?ts"
    using assms(4) unfolding init_threads.simps b bind.simps of_int_of_nat_eq m(1) option.case q(1) Let_def by simp
  then show ?case by (simp only:) (rule ok_conseq[OF Suc.IH[of "Suc i" ?ts]], use q in force)
qed

lemma init_ready:
  assumes "0 < n" "n < 2 ^ 31" "0 < es" "0 < ne" "es * ne < 2 ^ 31"
    and "\<forall>j. create j" and "\<forall>j. \<exists>m. qmem j = Some m \<and> length m = es * ne"
  shows "ok (threadpool_init (int n) (int es) (int ne) quit True qmem create) (\<lambda>(r, tp). r \<and>
    (\<exists>p. tp = Some p \<and> pool_wf es p \<and> length (pool p) = n \<and>
       (\<forall>j<n. inbox_items p j = [] \<and> inbox_room p j = ne)))"
proof -
  obtain ts where ts: "init_threads n 0 (int es) (int ne) qmem create [] = Some (True, ts)" "length ts = n"
    "\<And>t. t \<in> set ts \<Longrightarrow> queue_wf (inbox t) \<and> q_es (inbox t) = es \<and> q_cap (inbox t) = ne \<and> queue_items (inbox t) = []"
    using init_threads_spec[OF assms(3-7), of n 0 "[]"] by (auto simp: ok_iff)
  moreover have "nat (q_count (inbox t)) = 0" if "t \<in> set ts" for t
    using ts(3)[OF that] length_queue_items[of "inbox t"] by simp
  ultimately show ?thesis using assms(1,2)
    by (auto simp: threadpool_init_def pool_wf_def inbox_items_def inbox_room_def)
qed

text \<open>
  \<open>threadpool_init\<close> with enough memory sets up a well-formed pool of the requested number of
  threads whose inboxes are empty and hold the requested number of messages.
\<close>

theorem threadpool_init_ready:
  assumes "0 < n" "n < 2 ^ 31" "0 < es" "0 < ne" "es * ne < 2 ^ 31"
    and "\<forall>j. create j" and "\<forall>j. \<exists>m. qmem j = Some m \<and> length m = es * ne"
  shows "ok (threadpool_init (int n) (int es) (int ne) quit True qmem create) (\<lambda>(r, tp). r \<and>
    (\<exists>p. tp = Some p \<and> pool_wf es p \<and> length (pool p) = n \<and>
       (\<forall>j<n. inbox_items p j = [] \<and> inbox_room p j = ne)))"
  using assms by (rule init_ready)

theorem threadpool_init_ready_witness:
  "ok (threadpool_init 3 2 4 [9, 9] True (\<lambda>_. Some (replicate 8 0)) (\<lambda>_. True)) (\<lambda>(r, tp). r \<and>
    (\<exists>p. tp = Some p \<and> pool_wf 2 p \<and> length (pool p) = 3 \<and>
       (\<forall>j<3. inbox_items p j = [] \<and> inbox_room p j = 4)))"
  using threadpool_init_ready[of 3 2 4 "\<lambda>_. True" "\<lambda>_. Some (replicate 8 0)" "[9, 9]"] by simp

theorem dispatch_round_robin_witness:
  "\<exists>tp. pool_wf 1 tp \<and> length (pool tp) = 2 \<and> ok (dispatch_list tp [[7], [8]]) (\<lambda>(rs, tp'). rs = [True, True] \<and>
    (\<forall>j<2. inbox_items tp' j = inbox_items tp j @ [[[7], [8]] ! ring_dist 2 (next_index tp) j]))"
proof -
  obtain tp where tp: "pool_wf 1 tp" "length (pool tp) = 2" "\<forall>j<2. inbox_room tp j = 4"
    using init_ready[of 2 1 4 "\<lambda>_. True" "\<lambda>_. Some (replicate 4 0)" "[9]"] by (auto simp: ok_iff)
  then show ?thesis using dispatch_round_robin[of 1 tp "[[7], [8]]"] by (auto simp: eval_nat_numeral)
qed

lemma push_quit_spec:
  assumes "\<forall>t\<in>set ts. queue_wf (inbox t) \<and> q_es (inbox t) = length msg"
  shows "ok (push_quit ts msg) (\<lambda>ts'. list_all2 (\<lambda>t t'. let room = length (queue_items (inbox t)) < q_cap (inbox t) in
    quit_pushed t' = Some room \<and> queue_items (inbox t') = queue_items (inbox t) @ (if room then [msg] else [])) ts ts')"
  using assms
proof (induction ts)
  case Nil
  then show ?case by simp
next
  case (Cons t ts)
  have "elem_fits (inbox t) msg" using Cons.prems by (simp add: elem_fits_def)
  then obtain r q where "prot_queue_push (inbox t) msg = Some (r, q)" "r = (length (queue_items (inbox t)) < q_cap (inbox t))"
    "queue_items q = queue_items (inbox t) @ (if r then [msg] else [])"
    using pq.enq_law[of "inbox t" msg] Cons.prems by (auto simp: ok_iff)
  then show ?case using Cons by (auto simp: ok_iff Let_def)
qed

text \<open>
  Shutdown asks before it kills: a thread is joined exactly when its inbox had room for the quit
  message, which is then the last message in it; a thread whose inbox is full is
  terminated with its messages unread.
\<close>

theorem threadpool_destroy_ends:
  assumes "pool_wf (length (quit_msg tp)) tp"
  shows "ok (threadpool_destroy tp) (\<lambda>(ends, ts). length ends = length (pool tp) \<and> length ts = length (pool tp) \<and>
    (\<forall>j<length (pool tp). (ends ! j = Finished \<longleftrightarrow> 0 < inbox_room tp j) \<and>
       queue_items (inbox (ts ! j)) = inbox_items tp j @ (if ends ! j = Finished then [quit_msg tp] else [])))"
proof -
  obtain ts where ts: "push_quit (pool tp) (quit_msg tp) = Some ts"
    "list_all2 (\<lambda>t t'. let room = length (queue_items (inbox t)) < q_cap (inbox t) in
      quit_pushed t' = Some room \<and> queue_items (inbox t') = queue_items (inbox t) @ (if room then [quit_msg tp] else [])) (pool tp) ts"
    using push_quit_spec[of "pool tp" "quit_msg tp"] assms by (auto simp: ok_iff pool_wf_def)
  then show ?thesis using assms
    by (auto simp: threadpool_destroy_def pool_wf_def list_all2_conv_all_nth Let_def inbox_items_def inbox_room_def)
qed

theorem threadpool_destroy_ends_witness:
  "\<exists>tp. length (pool tp) = 2 \<and> ok (threadpool_destroy tp) (\<lambda>(ends, ts). length ends = length (pool tp) \<and> length ts = length (pool tp) \<and>
    (\<forall>j<length (pool tp). (ends ! j = Finished \<longleftrightarrow> 0 < inbox_room tp j) \<and>
       queue_items (inbox (ts ! j)) = inbox_items tp j @ (if ends ! j = Finished then [quit_msg tp] else [])))"
proof -
  let ?q = "\<lambda>c. \<lparr>q_buf = [5, 6], q_buflen = 2, q_head = 0, q_tail = c mod 2, q_count = c, q_elem_size = 1\<rparr>"
  let ?tp = "\<lparr>num_threads = 2, pool = [\<lparr>inbox = ?q 2, quit_pushed = None\<rparr>, \<lparr>inbox = ?q 1, quit_pushed = None\<rparr>],
    next_thread = 0, quit_msg = [0]\<rparr>"
  have "pool_wf (length (quit_msg ?tp)) ?tp" by (simp add: pool_wf_def queue_wf_def q_cap_def q_es_def)
  from threadpool_destroy_ends[OF this] show ?thesis by (intro exI[of _ ?tp]) simp
qed

lemma dispatch_loop_false: "dispatch_loop n i False tp msg = Some (False, tp)"
  by (induction n arbitrary: i) simp_all

lemma dispatch_loop_spec:
  assumes "pool_wf (length msg) tp" and "i + n = length (pool tp)"
  shows "ok (dispatch_loop n i True tp msg) (\<lambda>(r, tp'). r = (\<forall>k. i \<le> k \<and> k < i + n \<longrightarrow> 0 < inbox_room tp k) \<and>
    (\<forall>j. inbox_items tp' j = inbox_items tp j @
      (if i \<le> j \<and> j < i + n \<and> (\<forall>k. i \<le> k \<and> k \<le> j \<longrightarrow> 0 < inbox_room tp k) then [msg] else [])))"
  using assms
proof (induction n arbitrary: i tp)
  case 0
  then show ?case by auto
next
  case (Suc n)
  have i: "i < length (pool tp)" using Suc.prems(2) by simp
  have q: "queue_wf (inbox (pool tp ! i))" "q_es (inbox (pool tp ! i)) = length msg"
    using Suc.prems(1) i by (auto simp: pool_wf_def)
  then have f: "elem_fits (inbox (pool tp ! i)) msg" by (simp add: elem_fits_def)
  show ?case
  proof (cases "0 < inbox_room tp i")
    case True
    obtain q' where e: "prot_queue_push (inbox (pool tp ! i)) msg = Some (True, q')" "queue_wf q'"
      "elem_fits q' = elem_fits (inbox (pool tp ! i))" "queue_items q' = inbox_items tp i @ [msg]"
      using pq.enq_room[OF q(1) f] True by (auto simp: inbox_room_def inbox_items_def)
    have "q_es q' = length msg" using fun_cong[OF e(3), of msg] f by (simp add: elem_fits_def)
    then have wf: "pool_wf (length msg) (set_inbox tp i q')" by (intro set_inbox_wf Suc.prems i e(2))
    have it: "inbox_items (set_inbox tp i q') j = inbox_items tp j @ (if j = i then [msg] else [])"
      "j \<noteq> i \<Longrightarrow> inbox_room (set_inbox tp i q') j = inbox_room tp j" for j
      using i e(4) by (auto simp: inbox_items_def inbox_room_def)
    from Suc.IH[OF wf, of "Suc i"] Suc.prems(2)
    obtain r tp' where r: "dispatch_loop n (Suc i) True (set_inbox tp i q') msg = Some (r, tp')"
      "r = (\<forall>k. Suc i \<le> k \<and> k < Suc i + n \<longrightarrow> 0 < inbox_room tp k)"
      "\<And>j. inbox_items tp' j = inbox_items tp j @ (if j = i then [msg] else []) @
        (if Suc i \<le> j \<and> j < Suc i + n \<and> (\<forall>k. Suc i \<le> k \<and> k \<le> j \<longrightarrow> 0 < inbox_room tp k) then [msg] else [])"
      by (force simp: ok_iff it)
    have ik: "i \<le> k \<longleftrightarrow> k = i \<or> Suc i \<le> k" for k by auto
    have "r = (\<forall>k. i \<le> k \<and> k < i + Suc n \<longrightarrow> 0 < inbox_room tp k)"
      unfolding r(2) ik using True by auto
    moreover have "(\<forall>k. i \<le> k \<and> k \<le> j \<longrightarrow> 0 < inbox_room tp k) = (\<forall>k. Suc i \<le> k \<and> k \<le> j \<longrightarrow> 0 < inbox_room tp k)" for j
      unfolding ik using True by auto
    ultimately show ?thesis using i e(1) r(1,3) True by auto
  next
    case False
    obtain q' where e: "prot_queue_push (inbox (pool tp ! i)) msg = Some (False, q')" "queue_items q' = inbox_items tp i"
      using pq.enq_full[OF q(1) f] False by (auto simp: inbox_room_def inbox_items_def)
    have "inbox_items (set_inbox tp i q') j = inbox_items tp j" for j
      using i e(2) by (auto simp: inbox_items_def)
    then show ?thesis using i e(1) False by (auto simp: dispatch_loop_false)
  qed
qed

text \<open>
  A broadcast is delivered to a prefix of the pool: thread \<open>j\<close> gets the message exactly when all
  inboxes up to its own have room, and the result says whether every thread got it.
\<close>

theorem broadcast_prefix:
  assumes "pool_wf (length msg) tp"
  shows "ok (threadpool_dispatch_all_threads tp msg) (\<lambda>(r, tp'). r = (\<forall>k<length (pool tp). 0 < inbox_room tp k) \<and>
    (\<forall>j<length (pool tp). inbox_items tp' j = inbox_items tp j @
      (if \<forall>k\<le>j. 0 < inbox_room tp k then [msg] else [])))"
proof -
  have "nat (num_threads tp) = length (pool tp)" using assms by (simp add: pool_wf_def)
  then show ?thesis unfolding threadpool_dispatch_all_threads_def
    by (simp only:) (rule ok_conseq[OF dispatch_loop_spec[OF assms, of 0 "length (pool tp)"]], simp_all split: prod.splits, metis less_numeral_extra(3))
qed

theorem broadcast_prefix_witness:
  "\<exists>tp. length (pool tp) = 2 \<and> ok (threadpool_dispatch_all_threads tp [7]) (\<lambda>(r, tp'). r = (\<forall>k<length (pool tp). 0 < inbox_room tp k) \<and>
    (\<forall>j<length (pool tp). inbox_items tp' j = inbox_items tp j @
      (if \<forall>k\<le>j. 0 < inbox_room tp k then [[7]] else [])))"
proof -
  let ?q = "\<lambda>c. \<lparr>q_buf = [5, 6], q_buflen = 2, q_head = 0, q_tail = c mod 2, q_count = c, q_elem_size = 1\<rparr>"
  let ?tp = "\<lparr>num_threads = 2, pool = [\<lparr>inbox = ?q 2, quit_pushed = None\<rparr>, \<lparr>inbox = ?q 1, quit_pushed = None\<rparr>],
    next_thread = 0, quit_msg = [0]\<rparr>"
  have "pool_wf (length [7 :: u8]) ?tp" by (simp add: pool_wf_def queue_wf_def q_cap_def q_es_def)
  from broadcast_prefix[OF this] show ?thesis by (intro exI[of _ ?tp]) simp
qed

end
