(* ===== verification/Index_Keys.thy ===== *)
theory Index_Keys
  imports Blocks "HOL-Library.Product_Lexorder" "HOL-Library.List_Lexorder"
begin

text \<open>
  The keys of the database indices and the functions LMDB orders them with, in
  \<open>src/src/nostrdb.c\<close>: the id, kind, author, search, tag, relay and full-text keys. Fixed-size keys
  are records; the keys with variable-length parts are bytes in memory.
\<close>

section \<open>Comparing bytes\<close>

fun memcmp :: "u8 list \<Rightarrow> u8 list \<Rightarrow> int" where
  "memcmp (a # as) (b # bs) = (if a = b then memcmp as bs else if a < b then -1 else 1)"
| "memcmp _ _ = 0"

record MDB_val =
  mv_data :: ptr
  mv_size :: u64

definition mdb_cmp_memn :: "mem \<Rightarrow> MDB_val \<Rightarrow> MDB_val \<Rightarrow> int option" where
  "mdb_cmp_memn m a b = do {
     let len_diff = sint (mv_size a) - sint (mv_size b);
     let len = unat (ucast (if len_diff > 0 then mv_size b else mv_size a) :: u32);
     x \<leftarrow> loads len m (mv_data a);
     y \<leftarrow> loads len m (mv_data b);
     let diff = memcmp x y;
     Some (if diff \<noteq> 0 then diff else if len_diff < 0 then -1 else if len_diff > 0 then 1 else 0) }"

text \<open>The pattern \<open>if (a < b) return -1; else if (a > b) return 1;\<close> that ends every comparison.\<close>

definition cmp_u64 :: "u64 \<Rightarrow> u64 \<Rightarrow> int" where
  "cmp_u64 a b = (if a < b then -1 else if a > b then 1 else 0)"

definition load_u64 :: "mem \<Rightarrow> ptr \<Rightarrow> u64 option" where
  "load_u64 m a = map_option le_word (loads 8 m a)"

section \<open>Fixed-size keys\<close>

record ndb_tsid =
  ts_id :: "u8 list"
  ts_timestamp :: u64

record ndb_u64_ts =
  ut_u64 :: u64
  ut_timestamp :: u64

record ndb_id_u64_ts =
  iut_id :: "u8 list"
  iut_u64 :: u64
  iut_timestamp :: u64

record ndb_search_key =
  sk_search :: "u8 list"
  sk_id :: "u8 list"
  sk_timestamp :: u64

definition ndb_tsid_init :: "u8 list \<Rightarrow> u64 \<Rightarrow> ndb_tsid" where
  "ndb_tsid_init id' timestamp = \<lparr>ts_id = take 32 id', ts_timestamp = timestamp\<rparr>"

definition ndb_tsid_low :: "u8 list \<Rightarrow> ndb_tsid" where
  "ndb_tsid_low id' = \<lparr>ts_id = take 32 id', ts_timestamp = 0\<rparr>"

definition ndb_tsid_high :: "u8 list \<Rightarrow> ndb_tsid" where
  "ndb_tsid_high id' = \<lparr>ts_id = take 32 id', ts_timestamp = - 1\<rparr>"

definition ndb_u64_ts_init :: "u64 \<Rightarrow> u64 \<Rightarrow> ndb_u64_ts" where
  "ndb_u64_ts_init integer timestamp = \<lparr>ut_u64 = integer, ut_timestamp = timestamp\<rparr>"

definition ndb_id_u64_ts_init :: "u8 list \<Rightarrow> u64 \<Rightarrow> u64 \<Rightarrow> ndb_id_u64_ts" where
  "ndb_id_u64_ts_init id' iu64 timestamp = \<lparr>iut_id = take 32 id', iut_u64 = iu64, iut_timestamp = timestamp\<rparr>"

text \<open>The source is a C string: its bytes before the NUL.\<close>

fun lowercase_strncpy :: "u8 list \<Rightarrow> nat \<Rightarrow> u8 list" where
  "lowercase_strncpy _ 0 = []"
| "lowercase_strncpy (c # s) (Suc n) = tolower c # lowercase_strncpy s n"
| "lowercase_strncpy [] (Suc n) = 0 # lowercase_strncpy [] n"

definition ndb_make_search_key :: "u8 list \<Rightarrow> u64 \<Rightarrow> u8 list \<Rightarrow> ndb_search_key" where
  "ndb_make_search_key id' timestamp search =
     \<lparr>sk_search = lowercase_strncpy search 23 @ [0], sk_id = take 32 id', sk_timestamp = timestamp\<rparr>"

definition ndb_make_search_key_low :: "u8 list \<Rightarrow> ndb_search_key" where
  "ndb_make_search_key_low search =
     \<lparr>sk_search = lowercase_strncpy search 23 @ [0], sk_id = replicate 32 0, sk_timestamp = 0\<rparr>"

text \<open>With both sizes set to the size of the compared field, \<open>mdb_cmp_memn\<close> is \<open>memcmp\<close>.\<close>

definition ndb_tsid_compare :: "ndb_tsid \<Rightarrow> ndb_tsid \<Rightarrow> int" where
  "ndb_tsid_compare a b =
     (let cmp = memcmp (ts_id a) (ts_id b) in
      if cmp \<noteq> 0 then cmp else cmp_u64 (ts_timestamp a) (ts_timestamp b))"

definition ndb_u64_ts_compare :: "ndb_u64_ts \<Rightarrow> ndb_u64_ts \<Rightarrow> int" where
  "ndb_u64_ts_compare a b =
     (if ut_u64 a < ut_u64 b then -1 else if ut_u64 a > ut_u64 b then 1
      else cmp_u64 (ut_timestamp a) (ut_timestamp b))"

definition ndb_id_u64_ts_compare :: "ndb_id_u64_ts \<Rightarrow> ndb_id_u64_ts \<Rightarrow> int" where
  "ndb_id_u64_ts_compare a b =
     (let cmp = memcmp (iut_id a) (iut_id b) in
      if cmp \<noteq> 0 then cmp
      else if iut_u64 a < iut_u64 b then -1 else if iut_u64 a > iut_u64 b then 1
      else cmp_u64 (iut_timestamp a) (iut_timestamp b))"

definition ndb_search_key_cmp :: "ndb_search_key \<Rightarrow> ndb_search_key \<Rightarrow> int" where
  "ndb_search_key_cmp a b =
     (let cmp = memcmp (sk_search a @ sk_id a) (sk_search b @ sk_id b) in
      if cmp \<noteq> 0 then cmp else cmp_u64 (sk_timestamp a) (sk_timestamp b))"

section \<open>Tag keys\<close>

definition ndb_encode_tag_key ::
  "mem \<Rightarrow> ptr \<Rightarrow> int \<Rightarrow> u8 \<Rightarrow> u8 list \<Rightarrow> u8 \<Rightarrow> u64 \<Rightarrow> (int \<times> mem) option" where
  "ndb_encode_tag_key m buf buf_size tag val val_len timestamp =
     (if uint val_len \<ge> buf_size then Some (0, m)
      else do {
        let writer = make_cursor buf (buf + buf_size);
        (r, m, writer) \<leftarrow> cursor_push_byte m writer tag;
        if \<not> r then Some (0, m) else do {
        (r, m, writer) \<leftarrow> cursor_push m writer (take (unat val_len) val);
        if \<not> r then Some (0, m) else do {
        (r, m, writer) \<leftarrow> cursor_push m writer (le_bytes 8 timestamp);
        if \<not> r then Some (0, m) else Some (cp writer - cstart writer, m) }}})"

definition ndb_tag_key_compare :: "mem \<Rightarrow> MDB_val \<Rightarrow> MDB_val \<Rightarrow> int option" where
  "ndb_tag_key_compare m a b = do {
     let va = a\<lparr>mv_size := mv_size a - 8\<rparr>;
     let vb = b\<lparr>mv_size := mv_size b - 8\<rparr>;
     cmp \<leftarrow> mdb_cmp_memn m va vb;
     if cmp \<noteq> 0 then Some cmp
     else do {
       ts_a \<leftarrow> load_u64 m (mv_data va + uint (mv_size va));
       ts_b \<leftarrow> load_u64 m (mv_data vb + uint (mv_size vb));
       Some (cmp_u64 ts_a ts_b) } }"

section \<open>Relay and kind keys\<close>

text \<open>
  The relay is the string the key is made from, or a pointer into the key it was parsed from.
\<close>

record 'r ndb_relay_kind_key =
  rk_note_key :: u64
  rk_kind :: u64
  rk_created_at :: u64
  rk_relay_len :: u8
  rk_relay :: 'r

definition ndb_relay_kind_key_init ::
  "u64 \<Rightarrow> u64 \<Rightarrow> u64 \<Rightarrow> u8 list option \<Rightarrow> u8 list ndb_relay_kind_key option" where
  "ndb_relay_kind_key_init note_key kind created_at relay =
     (case relay of
        None \<Rightarrow> None
      | Some relay \<Rightarrow>
          let relay_len = word_of_nat (length relay) :: u8 in
          if relay_len > 248 then None
          else Some \<lparr>rk_note_key = note_key, rk_kind = kind, rk_created_at = created_at,
                     rk_relay_len = relay_len, rk_relay = relay\<rparr>)"

definition ndb_relay_kind_key_init_high ::
  "u8 list option \<Rightarrow> u64 \<Rightarrow> u64 \<Rightarrow> u8 list ndb_relay_kind_key option" where
  "ndb_relay_kind_key_init_high relay kind until = ndb_relay_kind_key_init (- 1) kind until relay"

definition ndb_parse_relay_kind_key :: "mem \<Rightarrow> ptr \<Rightarrow> ptr ndb_relay_kind_key option" where
  "ndb_parse_relay_kind_key m buf =
     (if buf mod 8 \<noteq> 0 then None
      else do {
        note_key \<leftarrow> load_u64 m buf;
        kind \<leftarrow> load_u64 m (buf + 8);
        created_at \<leftarrow> load_u64 m (buf + 16);
        relay_len \<leftarrow> load m (buf + 24);
        Some \<lparr>rk_note_key = note_key, rk_kind = kind, rk_created_at = created_at,
              rk_relay_len = relay_len, rk_relay = buf + 25\<rparr> })"

definition ndb_build_relay_kind_key ::
  "mem \<Rightarrow> ptr \<Rightarrow> int \<Rightarrow> u8 list ndb_relay_kind_key \<Rightarrow> (int \<times> mem) option" where
  "ndb_build_relay_kind_key m buf bufsize key = do {
     let cur = make_cursor buf (buf + bufsize);
     (r, m, cur) \<leftarrow> cursor_push m cur (le_bytes 8 (rk_note_key key));
     if \<not> r then Some (0, m) else do {
     (r, m, cur) \<leftarrow> cursor_push m cur (le_bytes 8 (rk_kind key));
     if \<not> r then Some (0, m) else do {
     (r, m, cur) \<leftarrow> cursor_push m cur (le_bytes 8 (rk_created_at key));
     if \<not> r then Some (0, m) else do {
     (r, m, cur) \<leftarrow> cursor_push_byte m cur (rk_relay_len key);
     if \<not> r then Some (0, m) else do {
     (r, m, cur) \<leftarrow> cursor_push m cur (take (unat (rk_relay_len key)) (rk_relay key));
     if \<not> r then Some (0, m) else do {
     (r, m, cur) \<leftarrow> cursor_push_byte m cur 0;
     if \<not> r then Some (0, m) else do {
     (r, m, cur) \<leftarrow> cursor_align m cur 8;
     if \<not> r then Some (0, m)
     else if (cp cur - cstart cur) mod 8 \<noteq> 0 then None
     else Some (cp cur - cstart cur, m) }}}}}}}"

definition ndb_relay_kind_cmp :: "mem \<Rightarrow> MDB_val \<Rightarrow> MDB_val \<Rightarrow> int option" where
  "ndb_relay_kind_cmp m a b =
     (if mv_data a mod 8 \<noteq> 0 then None
      else do {
        la \<leftarrow> load m (mv_data a + 24);
        lb \<leftarrow> load m (mv_data b + 24);
        cmp \<leftarrow> mdb_cmp_memn m \<lparr>mv_data = mv_data a + 25, mv_size = ucast la\<rparr>
                            \<lparr>mv_data = mv_data b + 25, mv_size = ucast lb\<rparr>;
        if cmp \<noteq> 0 then Some cmp else do {
        iva \<leftarrow> load_u64 m (mv_data a + 8);
        ivb \<leftarrow> load_u64 m (mv_data b + 8);
        if iva < ivb then Some (-1) else if iva > ivb then Some 1 else do {
        iva \<leftarrow> load_u64 m (mv_data a + 16);
        ivb \<leftarrow> load_u64 m (mv_data b + 16);
        if iva < ivb then Some (-1) else if iva > ivb then Some 1 else do {
        iva \<leftarrow> load_u64 m (mv_data a);
        ivb \<leftarrow> load_u64 m (mv_data b);
        Some (cmp_u64 iva ivb) }}}})"

section \<open>Full-text keys\<close>

text \<open>
  The word is the list of its bytes. The casts to \<open>int\<close> of the note key and the timestamp are
  followed by a conversion to 64 bits, which extends the sign.
\<close>

definition int_cast :: "u64 \<Rightarrow> u64" where
  "int_cast x = scast (ucast x :: u32)"

definition ndb_make_text_search_key ::
  "mem \<Rightarrow> ptr \<Rightarrow> int \<Rightarrow> int \<Rightarrow> u8 list \<Rightarrow> u64 \<Rightarrow> u64 \<Rightarrow> (int option \<times> mem) option" where
  "ndb_make_text_search_key m buf bufsize word_index word timestamp note_id = do {
     let cur = make_cursor buf (buf + bufsize);
     (r, m, cur) \<leftarrow> cursor_push_varint m cur (int_cast note_id);
     if r = 0 then Some (None, m) else do {
     (r, m, cur) \<leftarrow> cursor_push_varint m cur (word_of_nat (length word));
     if r = 0 then Some (None, m) else do {
     (r, m, cur) \<leftarrow> cursor_push_lowercase m cur word;
     if \<not> r then Some (None, m) else do {
     (r, m, cur) \<leftarrow> cursor_push_varint m cur (int_cast timestamp);
     if r = 0 then Some (None, m) else do {
     (r, m, cur) \<leftarrow> cursor_push_varint m cur (word_of_int word_index);
     if r = 0 then Some (None, m) else do {
     (r, m, cur) \<leftarrow> cursor_align m cur 8;
     if \<not> r then Some (None, m)
     else if (cp cur - cstart cur) mod 8 \<noteq> 0 then None
     else Some (Some (cp cur - cstart cur), m) }}}}}}"

definition ndb_make_noted_text_search_key ::
  "mem \<Rightarrow> ptr \<Rightarrow> int \<Rightarrow> u8 list \<Rightarrow> u64 \<Rightarrow> u64 \<Rightarrow> (int option \<times> mem) option" where
  "ndb_make_noted_text_search_key m buf bufsize word timestamp note_id =
     ndb_make_text_search_key m buf bufsize 0 word timestamp note_id"

definition ndb_make_text_search_key_low :: "mem \<Rightarrow> ptr \<Rightarrow> int \<Rightarrow> u8 list \<Rightarrow> u64 \<Rightarrow> (int option \<times> mem) option" where
  "ndb_make_text_search_key_low m buf bufsize word since = ndb_make_text_search_key m buf bufsize 0 word since 0"

definition ndb_make_text_search_key_high :: "mem \<Rightarrow> ptr \<Rightarrow> int \<Rightarrow> u8 list \<Rightarrow> u64 \<Rightarrow> (int option \<times> mem) option" where
  "ndb_make_text_search_key_high m buf bufsize word until =
     ndb_make_text_search_key m buf bufsize 0 word until 0x7FFFFFFF"

definition ndb_text_search_key_compare :: "mem \<Rightarrow> MDB_val \<Rightarrow> MDB_val \<Rightarrow> int option" where
  "ndb_text_search_key_compare m a b = do {
     let ca = make_cursor (mv_data a) (mv_data a + uint (mv_size a));
     let cb = make_cursor (mv_data b) (mv_data b + uint (mv_size b));
     (r, nid_a, ca) \<leftarrow> cursor_pull_varint m ca;
     if r = 0 then Some 0 else do {
     (r, nid_b, cb) \<leftarrow> cursor_pull_varint m cb;
     if r = 0 then Some 0 else do {
     (r, sa, ca) \<leftarrow> cursor_pull_varint m ca;
     if r = 0 then Some 0 else do {
     (r, sb, cb) \<leftarrow> cursor_pull_varint m cb;
     if r = 0 then Some 0 else do {
     cmp \<leftarrow> mdb_cmp_memn m \<lparr>mv_data = cp ca, mv_size = sa\<rparr> \<lparr>mv_data = cp cb, mv_size = sb\<rparr>;
     if cmp \<noteq> 0 then Some cmp else do {
     let ca = ca\<lparr>cp := cp ca + uint sa\<rparr>;
     let cb = cb\<lparr>cp := cp cb + uint sb\<rparr>;
     (r, sa, ca) \<leftarrow> cursor_pull_varint m ca;
     if r = 0 then Some 0 else do {
     (r, sb, cb) \<leftarrow> cursor_pull_varint m cb;
     if r = 0 then Some 0
     else if sa < sb then Some (-1) else if sa > sb then Some 1
     else if nid_a < nid_b then Some (-1) else if nid_a > nid_b then Some 1
     else do {
     (r, sa, ca) \<leftarrow> cursor_pull_varint m ca;
     if r = 0 then Some 0 else do {
     (r, sb, cb) \<leftarrow> cursor_pull_varint m cb;
     if r = 0 then Some 0 else Some (cmp_u64 sa sb) }}}}}}}}}"

record ndb_text_search_key =
  tk_str_len :: int
  tk_str :: ptr
  tk_timestamp :: u64
  tk_note_id :: u64
  tk_word_index :: u64

definition ndb_unpack_text_search_key_noteid :: "mem \<Rightarrow> cursor \<Rightarrow> (u64 option \<times> cursor) option" where
  "ndb_unpack_text_search_key_noteid m cur = do {
     (r, note_id, cur) \<leftarrow> cursor_pull_varint m cur;
     Some (if r = 0 then None else Some note_id, cur) }"

definition ndb_unpack_text_search_key_string :: "mem \<Rightarrow> cursor \<Rightarrow> ((ptr \<times> int) option \<times> cursor) option" where
  "ndb_unpack_text_search_key_string m cur = do {
     (r, len, cur) \<leftarrow> cursor_pull_varint m cur;
     if r = 0 then Some (None, cur)
     else
       let str_len = sint (ucast len :: u32);
           s = cp cur;
           (r, cur) = cursor_skip cur str_len
       in Some (if r then Some (s, str_len) else None, cur) }"

definition ndb_unpack_remaining_text_search_key :: "mem \<Rightarrow> cursor \<Rightarrow> ((u64 \<times> u64) option \<times> cursor) option" where
  "ndb_unpack_remaining_text_search_key m cur = do {
     (r, timestamp, cur) \<leftarrow> cursor_pull_varint m cur;
     if r = 0 then Some (None, cur) else do {
     (r, word_index, cur) \<leftarrow> cursor_pull_varint m cur;
     Some (if r = 0 then None else Some (timestamp, word_index), cur) }}"

definition ndb_unpack_text_search_key :: "mem \<Rightarrow> ptr \<Rightarrow> int \<Rightarrow> ndb_text_search_key option option" where
  "ndb_unpack_text_search_key m p len = do {
     let c = make_cursor p (p + len);
     (n, c) \<leftarrow> ndb_unpack_text_search_key_noteid m c;
     case n of None \<Rightarrow> Some None | Some note_id \<Rightarrow> do {
     (s, c) \<leftarrow> ndb_unpack_text_search_key_string m c;
     case s of None \<Rightarrow> Some None | Some (s, str_len) \<Rightarrow> do {
     (r, c) \<leftarrow> ndb_unpack_remaining_text_search_key m c;
     Some (map_option (\<lambda>(timestamp, word_index).
       \<lparr>tk_str_len = str_len, tk_str = s, tk_timestamp = timestamp, tk_note_id = note_id,
        tk_word_index = word_index\<rparr>) r) }}}"

section \<open>Lookups by id\<close>

definition is_replaceable_kind :: "u64 \<Rightarrow> bool" where
  "is_replaceable_kind kind \<longleftrightarrow> kind = 0 \<or> kind = 3 \<or> (10000 \<le> kind \<and> kind < 20000) \<or> (30000 \<le> kind \<and> kind < 40000)"

text \<open>
  An LMDB database is the list of its entries in key order, and an open cursor an index into it;
  \<open>mdb_set_range\<close> is the first entry at or after a key. The cursor starts at the entry before
  that one, or at the last entry when all keys are smaller.
\<close>

definition mdb_set_range :: "('k \<Rightarrow> 'k \<Rightarrow> int) \<Rightarrow> ('k \<times> 'v) list \<Rightarrow> 'k \<Rightarrow> nat option" where
  "mdb_set_range cmp db k =
     (let i = length (takeWhile (\<lambda>(k', _). cmp k' k < 0) db) in if i < length db then Some i else None)"

definition ndb_cursor_start :: "('k \<Rightarrow> 'k \<Rightarrow> int) \<Rightarrow> ('k \<times> 'v) list \<Rightarrow> 'k \<Rightarrow> nat option" where
  "ndb_cursor_start cmp db k =
     (case mdb_set_range cmp db k of
        None \<Rightarrow> if db = [] then None else Some (length db - 1)
      | Some i \<Rightarrow> if i = 0 then None else Some (i - 1))"

definition ndb_get_tsid :: "(ndb_tsid \<times> 'v) list \<Rightarrow> u8 list \<Rightarrow> 'v option" where
  "ndb_get_tsid db id' =
     (case ndb_cursor_start ndb_tsid_compare db (ndb_tsid_high id') of
        None \<Rightarrow> None
      | Some i \<Rightarrow> if memcmp (ts_id (fst (db ! i))) (take 32 id') = 0 then Some (snd (db ! i)) else None)"

definition ndb_lookup_by_key :: "(u64 \<rightharpoonup> 'v) \<Rightarrow> u64 \<Rightarrow> 'v option" where
  "ndb_lookup_by_key db key = db key"

definition ndb_lookup_tsid :: "(ndb_tsid \<times> u64) list \<Rightarrow> (u64 \<rightharpoonup> 'v) \<Rightarrow> u8 list \<Rightarrow> ('v \<times> u64) option" where
  "ndb_lookup_tsid ind db pk =
     (case ndb_get_tsid ind pk of
        None \<Rightarrow> None
      | Some primkey \<Rightarrow> map_option (\<lambda>v. (v, primkey)) (ndb_lookup_by_key db primkey))"

text \<open>The index key is read as a 32-bit integer here.\<close>

definition ndb_get_indexkey_by_id :: "(ndb_tsid \<times> u64) list \<Rightarrow> u8 list \<Rightarrow> u64" where
  "ndb_get_indexkey_by_id db id' =
     (case ndb_get_tsid db id' of None \<Rightarrow> 0 | Some k \<Rightarrow> ucast (ucast k :: u32))"

section \<open>The orders\<close>

text \<open>The three-way comparison of a linear order.\<close>

definition ord3 :: "'a::linorder \<Rightarrow> 'a \<Rightarrow> int" where
  "ord3 x y = (if x < y then -1 else if y < x then 1 else 0)"

lemma ord3_simps [simp]: "ord3 x y = 0 \<longleftrightarrow> x = y" "ord3 x y < 0 \<longleftrightarrow> x < y" "0 < ord3 x y \<longleftrightarrow> y < x" "ord3 x y \<le> 0 \<longleftrightarrow> x \<le> y"
  by (auto simp: ord3_def)

lemma ord3_pair: "ord3 (a, b) (c, d) = (if ord3 a c \<noteq> 0 then ord3 a c else ord3 b d)"
  by (auto simp: ord3_def less_prod_def')

lemma ord3_Nil [simp]: "ord3 [] [] = 0" "ord3 [] (a # as) = -1" "ord3 (a # as) [] = 1"
  by (simp_all add: ord3_def)

lemma cmp_u64_ord3: "cmp_u64 a b = ord3 a b"
  by (simp add: cmp_u64_def ord3_def)

lemma ord3_list: "ord3 (a # as) (b # bs) = (if a = b then ord3 as bs else if a < b then -1 else 1)" for a :: "'a::linorder"
  by (auto simp: ord3_def)

lemma memcmp_ord3: "length as = length bs \<Longrightarrow> memcmp as bs = ord3 as bs"
  by (induction as bs rule: list_induct2) (auto simp: ord3_list)

text \<open>Comparing the common prefix and then the lengths is the lexicographic order.\<close>

lemma memcmp_prefix_ord3:
  "(let d = memcmp (take (min (length as) (length bs)) as) (take (min (length as) (length bs)) bs) in
    if d \<noteq> 0 then d else ord3 (length as) (length bs)) = ord3 as bs"
proof (induction as arbitrary: bs)
  case Nil
  then show ?case by (cases bs) (auto simp: ord3_def)
next
  case (Cons a as)
  show ?case
  proof (cases bs)
    case Nil
    then show ?thesis by (simp add: ord3_def)
  next
    case (Cons b bs')
    have "ord3 (Suc (length as)) (Suc (length bs')) = ord3 (length as) (length bs')" by (simp add: ord3_def)
    moreover have "memcmp (take (min (length as) (length bs')) as) (take (min (length as) (length bs')) bs') = 0 \<Longrightarrow>
        ord3 as bs' = ord3 (length as) (length bs')"
      "memcmp (take (min (length as) (length bs')) as) (take (min (length as) (length bs')) bs') \<noteq> 0 \<Longrightarrow>
        ord3 as bs' = memcmp (take (min (length as) (length bs')) as) (take (min (length as) (length bs')) bs')"
      using Cons.IH[of bs'] by (simp_all add: Let_def)
    ultimately show ?thesis using Cons by (cases "a = b") (simp_all add: ord3_list Let_def)
  qed
qed

lemma take_getb: "k \<le> n \<Longrightarrow> take k (getb m a n) = getb m a k"
  by (rule nth_equalityI) (auto simp: nth_getb)

lemma mdb_cmp_memn_ord3:
  assumes "valid m (mv_data a) (uint (mv_size a))" "valid m (mv_data b) (uint (mv_size b))"
    and "unat (mv_size a) < 2 ^ 32" "unat (mv_size b) < 2 ^ 32"
  shows "mdb_cmp_memn m a b =
    Some (ord3 (getb m (mv_data a) (unat (mv_size a))) (getb m (mv_data b) (unat (mv_size b))))"
proof -
  let ?a = "getb m (mv_data a) (unat (mv_size a))" and ?b = "getb m (mv_data b) (unat (mv_size b))"
  have s: "sint x = int (unat x)" if "unat x < 2 ^ 32" for x :: u64
  proof -
    have "int (unat x) < int (2 ^ 32)" using that by (simp only: of_nat_less_iff)
    then have "uint x < 2 ^ 32" by simp
    then have "signed_take_bit 63 (uint x) = uint x"
      by (intro signed_take_bit_int_eq_self) (auto intro: order_trans[OF _ uint_ge_0])
    then show ?thesis by (simp add: sint_uint)
  qed
  have u: "unat (ucast x :: u32) = unat x" if "unat x < 2 ^ 32" for x :: u64
    using that by (simp add: unsigned_ucast_eq take_bit_nat_eq_self)
  have lt: "uint x < uint y \<longleftrightarrow> unat x < unat y" for x y :: u64
    by (simp only: word_less_def[symmetric] word_less_nat_alt)
  let ?n = "min (unat (mv_size a)) (unat (mv_size b))"
  have len: "unat (ucast (if sint (mv_size a) - sint (mv_size b) > 0 then mv_size b else mv_size a) :: u32) = ?n"
    using s[OF assms(3)] s[OF assms(4)] u assms(3,4) by (auto simp: min_def lt)
  have ld: "loads ?n m (mv_data a) = Some (take ?n ?a)" "loads ?n m (mv_data b) = Some (take ?n ?b)"
  proof -
    have "valid m (mv_data a) (int ?n)" "valid m (mv_data b) (int ?n)"
      using valid_sub[OF assms(1), of "mv_data a" "int ?n"] valid_sub[OF assms(2), of "mv_data b" "int ?n"]
        of_nat_unat[of "mv_size a", where 'a = int] of_nat_unat[of "mv_size b", where 'a = int] by linarith+
    then show "loads ?n m (mv_data a) = Some (take ?n ?a)" "loads ?n m (mv_data b) = Some (take ?n ?b)"
      by (simp_all add: loads_valid take_getb)
  qed
  have "mdb_cmp_memn m a b = Some (let d = memcmp (take ?n ?a) (take ?n ?b) in if d \<noteq> 0 then d else ord3 (length ?a) (length ?b))"
    unfolding mdb_cmp_memn_def Let_def len using s[OF assms(3)] s[OF assms(4)] by (simp add: ld ord3_def lt)
  then show ?thesis using memcmp_prefix_ord3[of ?a ?b] by simp
qed

text \<open>
  The contract LMDB has with a comparison function: on the keys that are stored it is the
  three-way comparison of a linear order. Everything the index code relies on follows from it.
\<close>

locale key_comparator =
  fixes cmp :: "'k \<Rightarrow> 'k \<Rightarrow> int" and key :: "'k \<Rightarrow> 'o::linorder" and wf :: "'k \<Rightarrow> bool"
  assumes cmp_key: "wf a \<Longrightarrow> wf b \<Longrightarrow> cmp a b = ord3 (key a) (key b)"
begin

lemma cmp_antisym: "wf a \<Longrightarrow> wf b \<Longrightarrow> cmp b a = - cmp a b"
  by (auto simp: cmp_key ord3_def)

lemma cmp_trans: "wf a \<Longrightarrow> wf b \<Longrightarrow> wf c \<Longrightarrow> cmp a b \<le> 0 \<Longrightarrow> cmp b c \<le> 0 \<Longrightarrow> cmp a c \<le> 0"
  by (simp add: cmp_key)

definition in_order :: "('k \<times> 'v) list \<Rightarrow> bool" where
  "in_order db \<longleftrightarrow> (\<forall>e\<in>set db. wf (fst e)) \<and> sorted (map (\<lambda>e. key (fst e)) db)"

lemma before_range:
  assumes "in_order db" "wf k" "i = length (takeWhile (\<lambda>(k', _). cmp k' k < 0) db)"
  shows "\<And>j. j < i \<Longrightarrow> key (fst (db ! j)) < key k" "\<And>j. i \<le> j \<Longrightarrow> j < length db \<Longrightarrow> key k \<le> key (fst (db ! j))"
proof -
  let ?P = "\<lambda>(k', _). cmp k' k < 0"
  have wf: "\<And>j. j < length db \<Longrightarrow> wf (fst (db ! j))" using assms(1) by (auto simp: in_order_def)
  fix j
  show "key (fst (db ! j)) < key k" if "j < i"
  proof -
    have "j < length db" using that assms(3) length_takeWhile_le[of ?P db] by linarith
    moreover have "?P (db ! j)" using that assms(3) by (metis nth_mem set_takeWhileD takeWhile_nth)
    ultimately show ?thesis using cmp_key[OF wf assms(2), of j] by (auto split: prod.splits)
  qed
  show "key k \<le> key (fst (db ! j))" if "i \<le> j" "j < length db"
  proof -
    have "i < length db" using that by simp
    then have "\<not> ?P (db ! i)" using assms(3) nth_length_takeWhile[of ?P db] by simp
    then have "key k \<le> key (fst (db ! i))"
      using cmp_key[OF wf[OF \<open>i < length db\<close>] assms(2)] by (auto split: prod.splits)
    also have "\<dots> \<le> key (fst (db ! j))"
      using assms(1) that sorted_nth_mono[of "map (\<lambda>e. key (fst e)) db" i j] by (simp add: in_order_def)
    finally show ?thesis .
  qed
qed

lemma cursor_start_greatest:
  assumes "in_order db" "wf k"
  shows "case ndb_cursor_start cmp db k of
      None \<Rightarrow> \<forall>j<length db. key k \<le> key (fst (db ! j))
    | Some i \<Rightarrow> i < length db \<and> key (fst (db ! i)) < key k \<and> (\<forall>j<length db. i < j \<longrightarrow> key k \<le> key (fst (db ! j)))"
proof -
  define i where "i = length (takeWhile (\<lambda>(k', _). cmp k' k < 0) db)"
  note r = before_range[OF assms i_def]
  have "i \<le> length db" unfolding i_def by (rule length_takeWhile_le)
  then consider "i = 0" "db = []" | "i = length db" "db \<noteq> []" | "i = 0" "i < length db" | "0 < i" "i < length db"
    by (cases "db = []"; cases "i = 0"; cases "i = length db") auto
  then show ?thesis
  proof cases
    case 2
    then have "ndb_cursor_start cmp db k = Some (length db - 1)" by (simp add: ndb_cursor_start_def mdb_set_range_def flip: i_def)
    then show ?thesis using r(1)[of "length db - 1"] 2 by auto
  next
    case 3
    then show ?thesis using r(2) by (simp add: ndb_cursor_start_def mdb_set_range_def flip: i_def)
  next
    case 4
    then have "ndb_cursor_start cmp db k = Some (i - 1)" by (simp add: ndb_cursor_start_def mdb_set_range_def flip: i_def)
    then show ?thesis using r(1)[of "i - 1"] r(2) 4 by simp
  qed (simp add: ndb_cursor_start_def mdb_set_range_def)
qed

end

interpretation tsid_order: key_comparator ndb_tsid_compare "\<lambda>k. (ts_id k, ts_timestamp k)" "\<lambda>k. length (ts_id k) = 32"
  by unfold_locales (simp add: ndb_tsid_compare_def Let_def ord3_pair cmp_u64_ord3 memcmp_ord3)

interpretation u64_ts_order: key_comparator ndb_u64_ts_compare "\<lambda>k. (ut_u64 k, ut_timestamp k)" "\<lambda>_. True"
  by unfold_locales (auto simp: ndb_u64_ts_compare_def ord3_pair cmp_u64_ord3 ord3_def)

interpretation id_u64_ts_order:
  key_comparator ndb_id_u64_ts_compare "\<lambda>k. (iut_id k, iut_u64 k, iut_timestamp k)" "\<lambda>k. length (iut_id k) = 32"
  by unfold_locales (auto simp: ndb_id_u64_ts_compare_def Let_def ord3_pair cmp_u64_ord3 memcmp_ord3 ord3_def)

interpretation search_key_order:
  key_comparator ndb_search_key_cmp "\<lambda>k. (sk_search k @ sk_id k, sk_timestamp k)" "\<lambda>k. length (sk_search k) = 24 \<and> length (sk_id k) = 32"
  by unfold_locales (simp add: ndb_search_key_cmp_def Let_def ord3_pair cmp_u64_ord3 memcmp_ord3)

text \<open>
  The comparison functions of the fixed-size indices are linear orders: each is the three-way
  comparison of the lexicographic order of its fields, which makes it antisymmetric,
  transitive and zero only on equal keys.
\<close>

theorem fixed_key_orders:
  assumes "length (ts_id a) = 32" "length (ts_id b) = 32" "length (iut_id e) = 32" "length (iut_id f) = 32"
    and "length (sk_search g) = 24" "length (sk_id g) = 32" "length (sk_search h) = 24" "length (sk_id h) = 32"
  shows "ndb_tsid_compare a b = ord3 (ts_id a, ts_timestamp a) (ts_id b, ts_timestamp b) \<and>
    ndb_u64_ts_compare c d = ord3 (ut_u64 c, ut_timestamp c) (ut_u64 d, ut_timestamp d) \<and>
    ndb_id_u64_ts_compare e f = ord3 (iut_id e, iut_u64 e, iut_timestamp e) (iut_id f, iut_u64 f, iut_timestamp f) \<and>
    ndb_search_key_cmp g h = ord3 (sk_search g @ sk_id g, sk_timestamp g) (sk_search h @ sk_id h, sk_timestamp h)"
  using tsid_order.cmp_key[OF assms(1,2)] u64_ts_order.cmp_key[of c d] id_u64_ts_order.cmp_key[OF assms(3,4)]
    search_key_order.cmp_key[of g h] assms(5-) by simp

theorem fixed_key_orders_witness:
  "ndb_tsid_compare (ndb_tsid_init (replicate 32 7) 5) (ndb_tsid_high (replicate 32 7)) = -1 \<and>
   ndb_u64_ts_compare (ndb_u64_ts_init 1 9) (ndb_u64_ts_init 2 3) = -1 \<and>
   ndb_id_u64_ts_compare (ndb_id_u64_ts_init (replicate 32 7) 1 9) (ndb_id_u64_ts_init (replicate 32 7) 1 9) = 0"
  using fixed_key_orders[of "ndb_tsid_init (replicate 32 7) 5" "ndb_tsid_high (replicate 32 7)"
      "ndb_id_u64_ts_init (replicate 32 7) 1 9" "ndb_id_u64_ts_init (replicate 32 7) 1 9"
      "\<lparr>sk_search = replicate 24 0, sk_id = replicate 32 0, sk_timestamp = 0\<rparr>"
      "\<lparr>sk_search = replicate 24 0, sk_id = replicate 32 0, sk_timestamp = 0\<rparr>"
      "ndb_u64_ts_init 1 9" "ndb_u64_ts_init 2 3"]
  by (simp add: ndb_tsid_init_def ndb_tsid_high_def ndb_u64_ts_init_def ndb_id_u64_ts_init_def ord3_def less_prod_def')

section \<open>Lookups find the newest entry\<close>

lemma get_tsid_lookup:
  assumes "\<forall>e\<in>set db. length (ts_id (fst e)) = 32 \<and> ts_timestamp (fst e) < - 1"
    and "sorted (map (\<lambda>e. (ts_id (fst e), ts_timestamp (fst e))) db)" and "length id' = 32"
  shows "case ndb_get_tsid db id' of
      None \<Rightarrow> \<forall>e\<in>set db. ts_id (fst e) \<noteq> id'
    | Some v \<Rightarrow> \<exists>k. (k, v) \<in> set db \<and> ts_id k = id' \<and>
        (\<forall>e\<in>set db. ts_id (fst e) = id' \<longrightarrow> ts_timestamp (fst e) \<le> ts_timestamp k)"
proof -
  let ?hi = "ndb_tsid_high id'" and ?key = "\<lambda>k. (ts_id k, ts_timestamp k)"
  have hi: "?key ?hi = (id', - 1)" using assms(3) by (simp add: ndb_tsid_high_def)
  have io: "tsid_order.in_order db" "length (ts_id ?hi) = 32"
    using assms hi by (auto simp: tsid_order.in_order_def)
  note g = tsid_order.cursor_start_greatest[OF io]
  have below: "?key k < ?key ?hi" if "(k, v) \<in> set db" "ts_id k = id'" for k v
    using assms(1) that hi by (fastforce simp: less_prod_def')
  show ?thesis
  proof (cases "ndb_cursor_start ndb_tsid_compare db ?hi")
    case None
    then have "\<forall>j<length db. ?key ?hi \<le> ?key (fst (db ! j))" using g by simp
    then have "\<forall>e\<in>set db. ?key ?hi \<le> ?key (fst e)" by (metis in_set_conv_nth)
    then have "ts_id (fst e) \<noteq> id'" if "e \<in> set db" for e
      using below[of "fst e" "snd e"] that by (metis leD prod.collapse)
    then show ?thesis using None by (simp add: ndb_get_tsid_def)
  next
    case (Some i)
    then have i: "i < length db" "?key (fst (db ! i)) < ?key ?hi"
      "\<And>j. j < length db \<Longrightarrow> i < j \<Longrightarrow> ?key ?hi \<le> ?key (fst (db ! j))" using g by auto
    have le: "?key (fst e) \<le> ?key (fst (db ! i))" if "e \<in> set db" "ts_id (fst e) = id'" for e
    proof -
      obtain j where j: "j < length db" "e = db ! j" using \<open>e \<in> set db\<close> by (auto simp: in_set_conv_nth)
      have "\<not> i < j" using i(3)[OF j(1)] below[of "fst e" "snd e"] that j(2) by (metis leD prod.collapse)
      then show ?thesis
        using assms(2) j i(1) sorted_nth_mono[of "map (\<lambda>e. ?key (fst e)) db" j i] by simp
    qed
    have m: "memcmp (ts_id (fst (db ! i))) (take 32 id') = 0 \<longleftrightarrow> ts_id (fst (db ! i)) = id'"
      using assms i(1) by (simp add: memcmp_ord3)
    have eq: "ts_id (fst (db ! i)) = id'" if "e \<in> set db" "ts_id (fst e) = id'" for e
      using le[OF that] i(2) hi that(2) by (auto simp: less_eq_prod_def less_prod_def')
    show ?thesis
    proof (cases "ts_id (fst (db ! i)) = id'")
      case True
      have "(fst (db ! i), snd (db ! i)) \<in> set db" using i(1) by simp
      then show ?thesis using True Some m le
        by (auto simp: ndb_get_tsid_def less_eq_prod_def intro!: exI[of _ "fst (db ! i)"])
    next
      case False
      then show ?thesis using Some m eq by (auto simp: ndb_get_tsid_def)
    qed
  qed
qed

text \<open>
  C25 \<open>ndb_get_tsid\<close> finds an id exactly when the index has an entry for it, and then returns the
  value of the entry with the latest timestamp.
\<close>

theorem get_tsid_newest:
  assumes "\<forall>e\<in>set db. length (ts_id (fst e)) = 32 \<and> ts_timestamp (fst e) < - 1"
    and "sorted (map (\<lambda>e. (ts_id (fst e), ts_timestamp (fst e))) db)" and "length id' = 32"
  shows "case ndb_get_tsid db id' of
      None \<Rightarrow> \<forall>e\<in>set db. ts_id (fst e) \<noteq> id'
    | Some v \<Rightarrow> \<exists>k. (k, v) \<in> set db \<and> ts_id k = id' \<and>
        (\<forall>e\<in>set db. ts_id (fst e) = id' \<longrightarrow> ts_timestamp (fst e) \<le> ts_timestamp k)"
  using assms by (rule get_tsid_lookup)

theorem get_tsid_newest_witness:
  "\<exists>db. length db = 3 \<and> (case ndb_get_tsid db (replicate 32 1) of
      None \<Rightarrow> \<forall>e\<in>set db. ts_id (fst e) \<noteq> replicate 32 1
    | Some v \<Rightarrow> \<exists>k. (k, v :: u64) \<in> set db \<and> ts_id k = replicate 32 1 \<and>
        (\<forall>e\<in>set db. ts_id (fst e) = replicate 32 1 \<longrightarrow> ts_timestamp (fst e) \<le> ts_timestamp k))"
proof -
  let ?db = "[(ndb_tsid_init (replicate 32 1) 5, 10), (ndb_tsid_init (replicate 32 1) 9, 20), (ndb_tsid_init (replicate 32 2) 3, 30)] :: (ndb_tsid \<times> u64) list"
  have "\<forall>e\<in>set ?db. length (ts_id (fst e)) = 32 \<and> ts_timestamp (fst e) < - 1" by (simp add: ndb_tsid_init_def)
  moreover have "replicate 32 (1 :: u8) < replicate 32 2" by (simp add: eval_nat_numeral)
  then have "sorted (map (\<lambda>e. (ts_id (fst e), ts_timestamp (fst e))) ?db)"
    by (simp add: ndb_tsid_init_def less_eq_prod_def)
  ultimately show ?thesis using get_tsid_newest[of ?db "replicate 32 1"] by (intro exI[of _ ?db]) simp
qed

section \<open>Relay and kind keys\<close>

text \<open>A byte string stored at an address.\<close>

definition stored :: "mem \<Rightarrow> ptr \<Rightarrow> u8 list \<Rightarrow> bool" where
  "stored m a bs \<longleftrightarrow> valid m a (int (length bs)) \<and> getb m a (length bs) = bs"

lemma stored_append: "stored m a (xs @ ys) \<longleftrightarrow> stored m a xs \<and> stored m (a + int (length xs)) ys"
proof -
  have "valid m a (int (length (xs @ ys))) \<longleftrightarrow> valid m a (int (length xs)) \<and> valid m (a + int (length xs)) (int (length ys))"
    by (force simp: valid_def)
  then show ?thesis unfolding stored_def length_append getb_append by auto
qed

lemma stored_load_u64: "stored m a (le_bytes 8 (x :: u64)) \<Longrightarrow> load_u64 m a = Some x"
  using loads_valid[of m a 8] by (simp add: stored_def load_u64_def le_word_le_bytes)

lemma stored_load: "stored m a [x] \<Longrightarrow> load m a = Some x"
  using loads_valid[of m a 1] by (auto simp: stored_def load_def getb_Suc valid_def)

lemma stored_putb: "valid m a (int (length bs)) \<Longrightarrow> stored (putb m a bs) a bs"
  by (simp add: stored_def valid_putb)

lemma stored_cmp:
  assumes "stored m a x" "stored m b y" "length x < 2 ^ 32" "length y < 2 ^ 32"
    and "s = word_of_nat (length x)" "t = word_of_nat (length y)"
  shows "mdb_cmp_memn m \<lparr>mv_data = a, mv_size = s\<rparr> \<lparr>mv_data = b, mv_size = t\<rparr> = Some (ord3 x y)"
proof -
  have u: "unat s = length x" "unat t = length y" using assms(3-6) by (simp_all add: unat_of_nat take_bit_nat_eq_self)
  then have "uint s = int (length x)" "uint t = int (length y)" unfolding uint_nat by (simp_all only: u)
  then show ?thesis using assms u mdb_cmp_memn_ord3[of m "\<lparr>mv_data = a, mv_size = s\<rparr>" "\<lparr>mv_data = b, mv_size = t\<rparr>"]
    by (simp add: stored_def)
qed

definition relay_key_head :: "u8 list ndb_relay_kind_key \<Rightarrow> u8 list" where
  "relay_key_head k = le_bytes 8 (rk_note_key k) @ le_bytes 8 (rk_kind k) @ le_bytes 8 (rk_created_at k) @
     [rk_relay_len k] @ rk_relay k @ [0]"

definition enc_relay_key :: "u8 list ndb_relay_kind_key \<Rightarrow> u8 list" where
  "enc_relay_key k = (let h = relay_key_head k in h @ replicate (nat ((- int (length h)) mod 8)) 0)"

definition relay_key_wf :: "u8 list ndb_relay_kind_key \<Rightarrow> bool" where
  "relay_key_wf k \<longleftrightarrow> unat (rk_relay_len k) = length (rk_relay k) \<and> length (rk_relay k) \<le> 248"

text \<open>The order of the index: relay, kind, time, note.\<close>

definition relay_key_rank :: "u8 list ndb_relay_kind_key \<Rightarrow> u8 list \<times> u64 \<times> u64 \<times> u64" where
  "relay_key_rank k = (rk_relay k, rk_kind k, rk_created_at k, rk_note_key k)"

lemma relay_key_parts:
  assumes "stored m a (enc_relay_key k)"
  shows "stored m a (le_bytes 8 (rk_note_key k))" "stored m (a + 8) (le_bytes 8 (rk_kind k))"
    "stored m (a + 16) (le_bytes 8 (rk_created_at k))" "stored m (a + 24) [rk_relay_len k]" "stored m (a + 25) (rk_relay k)"
  using assms unfolding enc_relay_key_def Let_def relay_key_head_def append_assoc stored_append
  by (simp_all add: add.assoc)

lemma relay_kind_cmp_stored:
  assumes "stored m a (enc_relay_key x)" "stored m b (enc_relay_key y)" "relay_key_wf x" "relay_key_wf y" "8 dvd a"
  shows "ndb_relay_kind_cmp m \<lparr>mv_data = a, mv_size = s\<rparr> \<lparr>mv_data = b, mv_size = t\<rparr> =
    Some (ord3 (relay_key_rank x) (relay_key_rank y))"
proof -
  note pa = relay_key_parts[OF assms(1)] and pb = relay_key_parts[OF assms(2)]
  have l: "(ucast (rk_relay_len k) :: u64) = word_of_nat (length (rk_relay k))" "length (rk_relay k) < 2 ^ 32"
    if "relay_key_wf k" for k
    using that of_nat_unat[of "rk_relay_len k", where 'a = u64] by (simp_all add: relay_key_wf_def)
  have c: "mdb_cmp_memn m \<lparr>mv_data = a + 25, mv_size = ucast (rk_relay_len x)\<rparr>
      \<lparr>mv_data = b + 25, mv_size = ucast (rk_relay_len y)\<rparr> = Some (ord3 (rk_relay x) (rk_relay y))"
    using l assms(3,4) by (intro stored_cmp[OF pa(5) pb(5)]) simp_all
  show ?thesis
    using assms(5) unfolding ndb_relay_kind_cmp_def MDB_val.simps stored_load[OF pa(4)] stored_load[OF pb(4)] bind.simps c
    by (simp add: stored_load_u64[OF pa(1)] stored_load_u64[OF pb(1)] stored_load_u64[OF pa(2)] stored_load_u64[OF pb(2)]
        stored_load_u64[OF pa(3)] stored_load_u64[OF pb(3)] relay_key_rank_def ord3_pair cmp_u64_ord3)
      (auto simp: ord3_def)
qed

lemma stored_mem_of: "stored (mem_of a bs) a bs"
  by (simp add: stored_def valid_mem_of) (simp add: mem_of_def)

lemma push_bytes_step:
  assumes "wf_cursor m c" and "cp c + int (length (bs @ rest)) \<le> cend c"
  shows "\<exists>m' c'. cursor_push m c bs = Some (True, m', c') \<and> wf_cursor m' c' \<and>
    m' = putb m (cp c) bs \<and> c' = c\<lparr>cp := cp c + int (length bs)\<rparr> \<and> cp c' + int (length rest) \<le> cend c'"
proof -
  have f: "cp c + int (length bs) \<le> cend c" using assms(2) by simp
  have "wf_cursor (putb m (cp c) bs) (c\<lparr>cp := cp c + int (length bs)\<rparr>)"
    using assms by (intro wf_upd_p wf_putb) (auto dest: wf_bounds)
  then show ?thesis using bytes_writer.push_fits[OF assms(1) f] assms(2) by simp
qed

text \<open>The last step of a key: the padding to eight bytes.\<close>

lemma align_step:
  assumes wf: "wf_cursor m c" and n: "cp c = cstart c + int n" and room: "cp c + 8 \<le> cend c"
    and pad: "pad = nat ((- int n) mod 8)"
  shows "cursor_align m c 8 = Some (True, putb m (cp c) (replicate pad 0), c\<lparr>cp := cp c + int pad\<rparr>)"
    "(int n + int pad) mod 8 = 0"
proof -
  have p: "align_pad (word_of_int (cp c - cstart c)) 8 = int pad"
    using align_pad_eq[of 3 "int n"] n pad by simp
  have "int pad < 8" using pad by simp
  then show "cursor_align m c 8 = Some (True, putb m (cp c) (replicate pad 0), c\<lparr>cp := cp c + int pad\<rparr>)"
    using cursor_align_pad[OF wf p] room by simp
  have "(int n + (- int n) mod 8) mod 8 = 0" by (simp add: mod_simps)
  then show "(int n + int pad) mod 8 = 0" using pad by simp
qed

lemma build_relay_key:
  assumes v: "valid m buf size'" and wf: "relay_key_wf k" and room: "int (length (relay_key_head k)) + 8 \<le> size'"
  shows "ndb_build_relay_kind_key m buf size' k = Some (int (length (enc_relay_key k)), putb m buf (enc_relay_key k))"
proof -
  define c0 where "c0 = make_cursor buf (buf + size')"
  have c: "wf_cursor m c0" "cstart c0 = buf" "cp c0 = buf" "cend c0 = buf + size'"
    using v room by (auto simp: c0_def make_cursor_def wf_cursor_def)
  let ?nk = "le_bytes 8 (rk_note_key k)" and ?ki = "le_bytes 8 (rk_kind k)" and ?ca = "le_bytes 8 (rk_created_at k)"
  let ?l = "[rk_relay_len k]" and ?r = "rk_relay k" and ?p8 = "replicate 8 (0 :: u8)"
  have r: "take (unat (rk_relay_len k)) (rk_relay k) = ?r" using wf by (simp add: relay_key_wf_def)
  have f0: "cp c0 + int (length (?nk @ ?ki @ ?ca @ ?l @ ?r @ [0] @ ?p8)) \<le> cend c0"
    using room c by (simp add: relay_key_head_def)
  obtain m1 c1 where 1: "cursor_push m c0 ?nk = Some (True, m1, c1)" "wf_cursor m1 c1" "m1 = putb m (cp c0) ?nk"
    "c1 = c0\<lparr>cp := cp c0 + int (length ?nk)\<rparr>" "cp c1 + int (length (?ki @ ?ca @ ?l @ ?r @ [0] @ ?p8)) \<le> cend c1"
    using push_bytes_step[OF c(1) f0] by blast
  obtain m2 c2 where 2: "cursor_push m1 c1 ?ki = Some (True, m2, c2)" "wf_cursor m2 c2" "m2 = putb m1 (cp c1) ?ki"
    "c2 = c1\<lparr>cp := cp c1 + int (length ?ki)\<rparr>" "cp c2 + int (length (?ca @ ?l @ ?r @ [0] @ ?p8)) \<le> cend c2"
    using push_bytes_step[OF 1(2,5)] by blast
  obtain m3 c3 where 3: "cursor_push m2 c2 ?ca = Some (True, m3, c3)" "wf_cursor m3 c3" "m3 = putb m2 (cp c2) ?ca"
    "c3 = c2\<lparr>cp := cp c2 + int (length ?ca)\<rparr>" "cp c3 + int (length (rk_relay_len k # ?r @ [0] @ ?p8)) \<le> cend c3"
    using push_bytes_step[OF 2(2,5)] by auto
  obtain m4 c4 where 4: "cursor_push_byte m3 c3 (rk_relay_len k) = Some (True, m4, c4)" "wf_cursor m4 c4" "m4 = putb m3 (cp c3) ?l"
    "c4 = c3\<lparr>cp := cp c3 + 1\<rparr>" "cp c4 + int (length (?r @ [0] @ ?p8)) \<le> cend c4"
    using push_byte_step[OF 3(2,5)] by blast
  obtain m5 c5 where 5: "cursor_push m4 c4 ?r = Some (True, m5, c5)" "wf_cursor m5 c5" "m5 = putb m4 (cp c4) ?r"
    "c5 = c4\<lparr>cp := cp c4 + int (length ?r)\<rparr>" "cp c5 + int (length (0 # ?p8)) \<le> cend c5"
    using push_bytes_step[OF 4(2,5)] by auto
  obtain m6 c6 where 6: "cursor_push_byte m5 c5 0 = Some (True, m6, c6)" "wf_cursor m6 c6" "m6 = putb m5 (cp c5) [0]"
    "c6 = c5\<lparr>cp := cp c5 + 1\<rparr>" "cp c6 + int (length ?p8) \<le> cend c6"
    using push_byte_step[OF 5(2,5)] by blast
  define n where "n = length (relay_key_head k)"
  have cs: "cstart c6 = buf" "cp c6 = buf + int n"
    using 1(4) 2(4) 3(4) 4(4) 5(4) 6(4) c by (simp_all add: n_def relay_key_head_def)
  have m6: "m6 = putb m buf (relay_key_head k)"
    unfolding 6(3) 5(3) 4(3) 3(3) 2(3) 1(3) relay_key_head_def using 1(4) 2(4) 3(4) 4(4) 5(4) c
    by (simp add: putb_append putb_Cons add.assoc)
  define pad where "pad = nat ((- int n) mod 8)"
  have "cp c6 = cstart c6 + int n" "cp c6 + 8 \<le> cend c6" using cs 6(5) by simp_all
  note al = align_step[OF 6(2) this pad_def]
  have e: "enc_relay_key k = relay_key_head k @ replicate pad 0" "length (enc_relay_key k) = n + pad"
    by (simp_all add: enc_relay_key_def Let_def n_def pad_def)
  have fin: "putb m6 (cp c6) (replicate pad 0) = putb m buf (enc_relay_key k)" using cs by (simp add: m6 e(1) putb_append n_def)
  show ?thesis
    unfolding ndb_build_relay_kind_key_def r
    by (simp add: 1(1) 2(1) 3(1) 4(1) 5(1) 6(1) al(1) cs al(2) fin[unfolded cs(2)] e(2) flip: c0_def)
qed

lemma parse_relay_key_stored:
  assumes "stored m a (enc_relay_key k)" "8 dvd a"
  shows "ndb_parse_relay_kind_key m a = Some \<lparr>rk_note_key = rk_note_key k, rk_kind = rk_kind k,
    rk_created_at = rk_created_at k, rk_relay_len = rk_relay_len k, rk_relay = a + 25\<rparr>"
  using assms(2) relay_key_parts[OF assms(1)]
  by (simp add: ndb_parse_relay_kind_key_def stored_load_u64 stored_load)

text \<open>
  C26 A relay key reads back: a key initialised for a relay of at most 248 bytes, written to an aligned
  buffer with room for it, takes a multiple of eight bytes there, and parsing it returns the note, the kind,
  the time and a pointer to the relay.
\<close>

theorem relay_key_roundtrip:
  assumes "length relay \<le> 248" and "valid m buf size'" and "int (length relay) + 34 \<le> size'" and "8 dvd buf"
  shows "\<exists>k n m'. ndb_relay_kind_key_init note_key kind created_at (Some relay) = Some k \<and>
    ndb_build_relay_kind_key m buf size' k = Some (n, m') \<and> 8 dvd n \<and> 0 < n \<and> n \<le> size' \<and>
    ndb_parse_relay_kind_key m' buf = Some \<lparr>rk_note_key = note_key, rk_kind = kind, rk_created_at = created_at,
      rk_relay_len = word_of_nat (length relay), rk_relay = buf + 25\<rparr> \<and>
    getb m' (buf + 25) (length relay) = relay"
proof -
  define k where "k = \<lparr>rk_note_key = note_key, rk_kind = kind, rk_created_at = created_at,
    rk_relay_len = word_of_nat (length relay), rk_relay = relay\<rparr>"
  have u: "unat (word_of_nat (length relay) :: u8) = length relay"
    using assms(1) by (simp add: unat_of_nat take_bit_nat_eq_self)
  then have k: "relay_key_wf k" "ndb_relay_kind_key_init note_key kind created_at (Some relay) = Some k"
    using assms(1) by (simp_all add: k_def relay_key_wf_def ndb_relay_kind_key_init_def word_less_nat_alt)
  have h: "length (relay_key_head k) = length relay + 26" by (simp add: relay_key_head_def k_def)
  let ?e = "enc_relay_key k"
  have e: "int (length ?e) = int (length relay) + 26 + (- (int (length relay) + 26)) mod 8"
    unfolding enc_relay_key_def Let_def h length_append length_replicate by simp
  have le: "int (length ?e) \<le> size'" "0 < int (length ?e)" "8 dvd int (length ?e)"
    using assms(3) e pos_mod_bound[of 8 "- (int (length relay) + 26)"]
    by (simp_all add: dvd_eq_mod_eq_0 mod_simps)
  have b: "ndb_build_relay_kind_key m buf size' k = Some (int (length ?e), putb m buf ?e)"
    by (rule build_relay_key[OF assms(2) k(1)]) (use assms(3) h in simp)
  have st: "stored (putb m buf ?e) buf ?e"
    by (rule stored_putb) (use assms(2) le in \<open>auto intro: valid_sub\<close>)
  have "getb (putb m buf ?e) (buf + 25) (length relay) = relay"
    using relay_key_parts(5)[OF st] by (simp add: stored_def k_def)
  then show ?thesis using k(2) b le parse_relay_key_stored[OF st assms(4)] by (auto simp: k_def)
qed

theorem relay_key_roundtrip_witness:
  "\<exists>k n m'. ndb_relay_kind_key_init 7 1 1700000000 (Some (str ''wss://r.io'')) = Some k \<and>
    ndb_build_relay_kind_key (mem_of 0 (replicate 64 0)) 0 64 k = Some (n, m') \<and> 8 dvd n \<and> 0 < n \<and> n \<le> 64 \<and>
    ndb_parse_relay_kind_key m' 0 = Some \<lparr>rk_note_key = 7, rk_kind = 1, rk_created_at = 1700000000,
      rk_relay_len = word_of_nat (length (str ''wss://r.io'')), rk_relay = 0 + 25\<rparr> \<and>
    getb m' (0 + 25) (length (str ''wss://r.io'')) = str ''wss://r.io''"
  by (rule relay_key_roundtrip) (simp_all add: str_def valid_mem_of)

text \<open>
  The relay index is in the documented order: \<open>ndb_relay_kind_cmp\<close> on two stored keys is the
  lexicographic comparison of relay, kind, time and note.
\<close>

theorem relay_key_order:
  assumes "stored m a (enc_relay_key x)" "stored m b (enc_relay_key y)" "relay_key_wf x" "relay_key_wf y" "8 dvd a"
  shows "ndb_relay_kind_cmp m \<lparr>mv_data = a, mv_size = s\<rparr> \<lparr>mv_data = b, mv_size = t\<rparr> =
    Some (ord3 (rk_relay x, rk_kind x, rk_created_at x, rk_note_key x) (rk_relay y, rk_kind y, rk_created_at y, rk_note_key y))"
  using relay_kind_cmp_stored[OF assms] by (simp add: relay_key_rank_def)

theorem relay_key_order_witness:
  "\<exists>m b. ndb_relay_kind_cmp m \<lparr>mv_data = 0, mv_size = 32\<rparr> \<lparr>mv_data = b, mv_size = 32\<rparr> =
    Some (ord3 (str ''a'', 1, 5, 9) (str ''a'', 1 :: u64, 6 :: u64, 2 :: u64))"
proof -
  let ?x = "\<lparr>rk_note_key = 9, rk_kind = 1, rk_created_at = 5, rk_relay_len = 1, rk_relay = str ''a''\<rparr>"
  let ?y = "\<lparr>rk_note_key = 2, rk_kind = 1, rk_created_at = 6, rk_relay_len = 1, rk_relay = str ''a''\<rparr>"
  let ?m = "mem_of 0 (enc_relay_key ?x @ enc_relay_key ?y)"
  have "stored ?m 0 (enc_relay_key ?x @ enc_relay_key ?y)" by (rule stored_mem_of)
  then have s: "stored ?m 0 (enc_relay_key ?x)" "stored ?m (0 + int (length (enc_relay_key ?x))) (enc_relay_key ?y)"
    unfolding stored_append by blast+
  have "relay_key_wf ?x" "relay_key_wf ?y" by (simp_all add: relay_key_wf_def str_def)
  from relay_key_order[OF s this] show ?thesis by (intro exI) simp
qed

text \<open>
  The length check of \<open>ndb_relay_kind_key_init\<close> sees the length modulo 256: a relay of 256 bytes or
  more passes it when the low byte of its length is at most 248, and the key then
  holds only that many bytes of the relay.
\<close>

theorem long_relay_truncated:
  assumes "256 \<le> length relay" and "length relay mod 256 \<le> 248"
  shows "\<exists>k. ndb_relay_kind_key_init note_key kind created_at (Some relay) = Some k \<and>
    unat (rk_relay_len k) = length relay mod 256 \<and> unat (rk_relay_len k) < length relay"
proof -
  have u: "unat (word_of_nat (length relay) :: u8) = length relay mod 256"
    by (simp add: unat_of_nat take_bit_eq_mod)
  moreover have "length relay mod 256 < length relay" using assms(1) mod_less_divisor[of 256 "length relay"] by linarith
  ultimately show ?thesis using assms(2) by (auto simp: ndb_relay_kind_key_init_def word_less_nat_alt)
qed

theorem long_relay_truncated_witness:
  "\<exists>k. ndb_relay_kind_key_init 1 1 1 (Some (replicate 300 97)) = Some k \<and>
    unat (rk_relay_len k) = length (replicate 300 (97 :: u8)) mod 256 \<and> unat (rk_relay_len k) < length (replicate 300 (97 :: u8))"
  by (rule long_relay_truncated) simp_all

section \<open>Full-text keys\<close>

record text_key =
  xk_note :: u64
  xk_word :: "u8 list"
  xk_time :: u64
  xk_index :: u64

definition text_key_body :: "text_key \<Rightarrow> u8 list" where
  "text_key_body k = varint_enc (xk_note k) @ varint_enc (word_of_nat (length (xk_word k))) @ xk_word k @
     varint_enc (xk_time k) @ varint_enc (xk_index k)"

definition enc_text_key :: "text_key \<Rightarrow> u8 list" where
  "enc_text_key k = (let b = text_key_body k in b @ replicate (nat ((- int (length b)) mod 8)) 0)"

definition text_key_wf :: "text_key \<Rightarrow> bool" where
  "text_key_wf k \<longleftrightarrow> length (xk_word k) < 2 ^ 31"

definition text_key_rank :: "text_key \<Rightarrow> u8 list \<times> u64 \<times> u64 \<times> u64" where
  "text_key_rank k = (xk_word k, xk_time k, xk_note k, xk_index k)"

text \<open>The four pulls of a stored key.\<close>

lemma text_key_pulls:
  assumes st: "stored m a (enc_text_key k)" and wf: "text_key_wf k" and c: "c = make_cursor a (a + int (length (enc_text_key k)))"
  obtains r1 c1 r2 c2 r3 c3 r4 c4 where
    "cursor_pull_varint m c = Some (r1, xk_note k, c1)" "r1 \<noteq> 0"
    "cursor_pull_varint m c1 = Some (r2, word_of_nat (length (xk_word k)), c2)" "r2 \<noteq> 0"
    "stored m (cp c2) (xk_word k)" "cp c2 + int (length (xk_word k)) < cend c2"
    "cursor_pull_varint m (c2\<lparr>cp := cp c2 + int (length (xk_word k))\<rparr>) = Some (r3, xk_time k, c3)" "r3 \<noteq> 0"
    "cursor_pull_varint m c3 = Some (r4, xk_index k, c4)" "r4 \<noteq> 0"
proof -
  define pad where "pad = replicate (nat ((- int (length (text_key_body k))) mod 8)) (0 :: u8)"
  let ?w = "xk_word k" and ?t = "varint_enc (xk_time k)" and ?i = "varint_enc (xk_index k)"
  let ?l = "varint_enc (word_of_nat (length ?w))" and ?n = "varint_enc (xk_note k)"
  let ?rest = "?w @ ?t @ ?i @ pad"
  have e: "enc_text_key k = ?n @ ?l @ ?rest" by (simp add: enc_text_key_def text_key_body_def pad_def Let_def)
  have c': "cp c = a" "cstart c = a" "cend c = a + int (length (enc_text_key k))" by (simp_all add: c make_cursor_def)
  have g: "getb m (cp c) (length (?n @ ?l @ ?rest)) = ?n @ ?l @ ?rest" "wf_cursor m c"
    "cp c + int (length (?n @ ?l @ ?rest)) \<le> cend c"
    using st unfolding e[symmetric] by (simp_all add: stored_def c' wf_cursor_def)
  obtain r1 c1 where 1: "cursor_pull_varint m c = Some (r1, xk_note k, c1)" "r1 \<noteq> 0" "wf_cursor m c1"
    "cp c1 + int (length (?l @ ?rest)) \<le> cend c1" "getb m (cp c1) (length (?l @ ?rest)) = ?l @ ?rest"
    using pull_varint_step[OF g(2,3,1)] by blast
  obtain r2 c2 where 2: "cursor_pull_varint m c1 = Some (r2, word_of_nat (length ?w), c2)" "r2 \<noteq> 0" "wf_cursor m c2"
    "cp c2 + int (length ?rest) \<le> cend c2" "getb m (cp c2) (length ?rest) = ?rest"
    using pull_varint_step[OF 1(3-5)] by blast
  have "stored m (cp c2) ?rest"
    unfolding stored_def using 2(3-5) by (auto intro!: wf_valid dest: wf_bounds)
  then have w: "stored m (cp c2) ?w" "stored m (cp c2 + int (length ?w)) (?t @ ?i @ pad)"
    unfolding stored_append[of _ _ ?w] by blast+
  let ?c = "c2\<lparr>cp := cp c2 + int (length ?w)\<rparr>"
  have w3: "wf_cursor m ?c" "cp ?c + int (length (?t @ ?i @ pad)) \<le> cend ?c" "getb m (cp ?c) (length (?t @ ?i @ pad)) = ?t @ ?i @ pad"
    using 2(3,4) w(2) by (auto simp: stored_def wf_cursor_def)
  obtain r3 c3 where 3: "cursor_pull_varint m ?c = Some (r3, xk_time k, c3)" "r3 \<noteq> 0" "wf_cursor m c3"
    "cp c3 + int (length (?i @ pad)) \<le> cend c3" "getb m (cp c3) (length (?i @ pad)) = ?i @ pad"
    using pull_varint_step[OF w3] by blast
  obtain r4 c4 where 4: "cursor_pull_varint m c3 = Some (r4, xk_index k, c4)" "r4 \<noteq> 0"
    using pull_varint_step[OF 3(3-5)] by blast
  have "0 < length ?t" by simp
  then have "cp c2 + int (length ?w) < cend c2" using 2(4) by (simp del: length_greater_0_conv)
  from that[OF 1(1,2) 2(1,2) w(1) this 3(1,2) 4] show ?thesis .
qed

text \<open>
  The full-text index is ordered by word, time, note and position: \<open>ndb_text_search_key_compare\<close>
  on two stored keys is the lexicographic comparison of these fields.
\<close>

theorem text_key_order:
  assumes "stored m a (enc_text_key x)" "stored m b (enc_text_key y)" "text_key_wf x" "text_key_wf y"
    and "uint s = int (length (enc_text_key x))" "uint t = int (length (enc_text_key y))"
  shows "ndb_text_search_key_compare m \<lparr>mv_data = a, mv_size = s\<rparr> \<lparr>mv_data = b, mv_size = t\<rparr> =
    Some (ord3 (xk_word x, xk_time x, xk_note x, xk_index x) (xk_word y, xk_time y, xk_note y, xk_index y))"
proof -
  obtain r1 c1 r2 c2 r3 c3 r4 c4 where A: "cursor_pull_varint m (make_cursor a (a + uint s)) = Some (r1, xk_note x, c1)" "r1 \<noteq> 0"
    "cursor_pull_varint m c1 = Some (r2, word_of_nat (length (xk_word x)), c2)" "r2 \<noteq> 0"
    "stored m (cp c2) (xk_word x)"
    "cursor_pull_varint m (c2\<lparr>cp := cp c2 + int (length (xk_word x))\<rparr>) = Some (r3, xk_time x, c3)" "r3 \<noteq> 0"
    "cursor_pull_varint m c3 = Some (r4, xk_index x, c4)" "r4 \<noteq> 0"
    using text_key_pulls[OF assms(1,3) refl] unfolding assms(5) by metis
  obtain s1 d1 s2 d2 s3 d3 s4 d4 where B: "cursor_pull_varint m (make_cursor b (b + uint t)) = Some (s1, xk_note y, d1)" "s1 \<noteq> 0"
    "cursor_pull_varint m d1 = Some (s2, word_of_nat (length (xk_word y)), d2)" "s2 \<noteq> 0"
    "stored m (cp d2) (xk_word y)"
    "cursor_pull_varint m (d2\<lparr>cp := cp d2 + int (length (xk_word y))\<rparr>) = Some (s3, xk_time y, d3)" "s3 \<noteq> 0"
    "cursor_pull_varint m d3 = Some (s4, xk_index y, d4)" "s4 \<noteq> 0"
    using text_key_pulls[OF assms(2,4) refl] unfolding assms(6) by metis
  have u: "uint (word_of_nat (length (xk_word k)) :: u64) = int (length (xk_word k))" if "text_key_wf k" for k
    using that by (simp add: text_key_wf_def unsigned_of_nat take_bit_nat_eq_self)
  have cmp: "mdb_cmp_memn m \<lparr>mv_data = cp c2, mv_size = word_of_nat (length (xk_word x))\<rparr>
      \<lparr>mv_data = cp d2, mv_size = word_of_nat (length (xk_word y))\<rparr> = Some (ord3 (xk_word x) (xk_word y))"
    using assms(3,4) by (intro stored_cmp[OF A(5) B(5)]) (simp_all add: text_key_wf_def)
  show ?thesis
    unfolding ndb_text_search_key_compare_def MDB_val.simps Let_def
    by (simp only: A B cmp u[OF assms(3)] u[OF assms(4)] bind.simps prod.case if_False)
      (auto simp: ord3_pair cmp_u64_ord3 ord3_def)
qed

theorem text_key_order_witness:
  "\<exists>m b s t. ndb_text_search_key_compare m \<lparr>mv_data = 0, mv_size = s\<rparr> \<lparr>mv_data = b, mv_size = t\<rparr> =
    Some (ord3 (str ''cat'', 9, 1, 0) (str ''dog'', 5 :: u64, 2 :: u64, 0 :: u64))"
proof -
  let ?x = "\<lparr>xk_note = 1, xk_word = str ''cat'', xk_time = 9, xk_index = 0\<rparr>"
  let ?y = "\<lparr>xk_note = 2, xk_word = str ''dog'', xk_time = 5, xk_index = 0\<rparr>"
  let ?m = "mem_of 0 (enc_text_key ?x @ enc_text_key ?y)"
  have s: "stored ?m 0 (enc_text_key ?x)" "stored ?m (0 + int (length (enc_text_key ?x))) (enc_text_key ?y)"
    using stored_mem_of[of 0 "enc_text_key ?x @ enc_text_key ?y"] unfolding stored_append by blast+
  have l: "length (enc_text_key k) < 2 ^ 64" if "length (xk_word k) = 3" for k
  proof -
    have "length (text_key_body k) \<le> 43"
      using that length_varint_enc_10[of "xk_note k"] length_varint_enc_10[of 3] length_varint_enc_10[of "xk_time k"]
        length_varint_enc_10[of "xk_index k"] by (simp add: text_key_body_def)
    then show ?thesis by (simp add: enc_text_key_def Let_def)
  qed
  have u: "uint (word_of_nat (length (enc_text_key k)) :: u64) = int (length (enc_text_key k))" if "length (xk_word k) = 3" for k
    using l[OF that] by (simp add: unsigned_of_nat take_bit_nat_eq_self)
  have "text_key_wf ?x" "text_key_wf ?y" by (simp_all add: text_key_wf_def str_def)
  from text_key_order[OF s this u u] show ?thesis by (intro exI) (simp add: str_def)
qed

lemma push_lowercase_step:
  assumes "wf_cursor m c" and "cp c + int (length (s @ rest)) \<le> cend c" and "rest \<noteq> []"
  shows "\<exists>m' c'. cursor_push_lowercase m c s = Some (True, m', c') \<and> wf_cursor m' c' \<and>
    m' = putb m (cp c) (map tolower s) \<and> c' = c\<lparr>cp := cp c + int (length s)\<rparr> \<and> cp c' + int (length rest) \<le> cend c'"
proof -
  have "0 < length rest" using assms(3) by simp
  then have lt: "cp c + int (length s) < cend c" using assms(2) by (simp del: length_greater_0_conv)
  have v: "valid m (cp c) (int (length (map tolower s)))"
    using assms(1) lt by (intro wf_valid[of m c]) (auto dest: wf_bounds)
  have "wf_cursor (putb m (cp c) (map tolower s)) (c\<lparr>cp := cp c + int (length s)\<rparr>)"
    using assms(1) lt by (intro wf_upd_p wf_putb) (auto dest: wf_bounds)
  then show ?thesis using lt assms(2) stores_valid[OF v] by (simp add: cursor_push_lowercase_def)
qed

definition made_text_key :: "int \<Rightarrow> u8 list \<Rightarrow> u64 \<Rightarrow> u64 \<Rightarrow> text_key" where
  "made_text_key word_index word timestamp note_id = \<lparr>xk_note = int_cast note_id, xk_word = map tolower word,
     xk_time = int_cast timestamp, xk_index = word_of_int word_index\<rparr>"

lemma make_text_key:
  assumes v: "valid m buf size'" and k: "k = made_text_key wi word ts nid"
    and room: "int (length (text_key_body k)) + 8 \<le> size'"
  shows "ndb_make_text_search_key m buf size' wi word ts nid =
    Some (Some (int (length (enc_text_key k))), putb m buf (enc_text_key k))"
proof -
  define c0 where "c0 = make_cursor buf (buf + size')"
  have c: "wf_cursor m c0" "cstart c0 = buf" "cp c0 = buf" "cend c0 = buf + size'"
    using v room by (auto simp: c0_def make_cursor_def wf_cursor_def)
  let ?n = "varint_enc (int_cast nid)" and ?l = "varint_enc (word_of_nat (length word))" and ?w = "map tolower word"
  let ?t = "varint_enc (int_cast ts)" and ?i = "varint_enc (word_of_int wi)" and ?p8 = "replicate 8 (0 :: u8)"
  have b: "text_key_body k = ?n @ ?l @ ?w @ ?t @ ?i" by (simp add: k made_text_key_def text_key_body_def)
  have f0: "cp c0 + int (length (?n @ ?l @ word @ ?t @ ?i @ ?p8)) \<le> cend c0" using room c by (simp add: b)
  obtain m1 c1 where 1: "cursor_push_varint m c0 (int_cast nid) = Some (int (length ?n), m1, c1)" "wf_cursor m1 c1"
    "m1 = putb m (cp c0) ?n" "c1 = c0\<lparr>cp := cp c0 + int (length ?n)\<rparr>" "cp c1 + int (length (?l @ word @ ?t @ ?i @ ?p8)) \<le> cend c1"
    using push_varint_step[OF c(1) f0] by blast
  obtain m2 c2 where 2: "cursor_push_varint m1 c1 (word_of_nat (length word)) = Some (int (length ?l), m2, c2)" "wf_cursor m2 c2"
    "m2 = putb m1 (cp c1) ?l" "c2 = c1\<lparr>cp := cp c1 + int (length ?l)\<rparr>" "cp c2 + int (length (word @ ?t @ ?i @ ?p8)) \<le> cend c2"
    using push_varint_step[OF 1(2,5)] by blast
  obtain m3 c3 where 3: "cursor_push_lowercase m2 c2 word = Some (True, m3, c3)" "wf_cursor m3 c3"
    "m3 = putb m2 (cp c2) ?w" "c3 = c2\<lparr>cp := cp c2 + int (length word)\<rparr>" "cp c3 + int (length (?t @ ?i @ ?p8)) \<le> cend c3"
    using push_lowercase_step[OF 2(2,5)] by auto
  obtain m4 c4 where 4: "cursor_push_varint m3 c3 (int_cast ts) = Some (int (length ?t), m4, c4)" "wf_cursor m4 c4"
    "m4 = putb m3 (cp c3) ?t" "c4 = c3\<lparr>cp := cp c3 + int (length ?t)\<rparr>" "cp c4 + int (length (?i @ ?p8)) \<le> cend c4"
    using push_varint_step[OF 3(2,5)] by blast
  obtain m5 c5 where 5: "cursor_push_varint m4 c4 (word_of_int wi) = Some (int (length ?i), m5, c5)" "wf_cursor m5 c5"
    "m5 = putb m4 (cp c4) ?i" "c5 = c4\<lparr>cp := cp c4 + int (length ?i)\<rparr>" "cp c5 + int (length ?p8) \<le> cend c5"
    using push_varint_step[OF 4(2,5)] by blast
  define n where "n = length (text_key_body k)"
  have cs: "cstart c5 = buf" "cp c5 = buf + int n" using 1(4) 2(4) 3(4) 4(4) 5(4) c by (simp_all add: n_def b)
  have m5: "m5 = putb m buf (text_key_body k)"
    unfolding 5(3) 4(3) 3(3) 2(3) 1(3) b using 1(4) 2(4) 3(4) 4(4) c by (simp add: putb_append add.assoc)
  define pad where "pad = nat ((- int n) mod 8)"
  have "cp c5 = cstart c5 + int n" "cp c5 + 8 \<le> cend c5" using cs 5(5) by simp_all
  note al = align_step[OF 5(2) this pad_def]
  have e: "enc_text_key k = text_key_body k @ replicate pad 0" "length (enc_text_key k) = n + pad"
    by (simp_all add: enc_text_key_def Let_def n_def pad_def)
  have fin: "putb m5 (buf + int n) (replicate pad 0) = putb m buf (enc_text_key k)" by (simp add: m5 e(1) putb_append n_def)
  show ?thesis
    unfolding ndb_make_text_search_key_def
    by (simp add: 1(1) 2(1) 3(1) 4(1) 5(1) al(1) cs al(2) fin e(2) flip: c0_def)
qed

lemma unpack_text_key_stored:
  assumes st: "stored m a (enc_text_key k)" and wf: "text_key_wf k"
  shows "\<exists>p. ndb_unpack_text_search_key m a (int (length (enc_text_key k))) = Some (Some
    \<lparr>tk_str_len = int (length (xk_word k)), tk_str = p, tk_timestamp = xk_time k, tk_note_id = xk_note k, tk_word_index = xk_index k\<rparr>) \<and>
    stored m p (xk_word k)"
proof -
  obtain r1 c1 r2 c2 r3 c3 r4 c4 where A: "cursor_pull_varint m (make_cursor a (a + int (length (enc_text_key k)))) = Some (r1, xk_note k, c1)" "r1 \<noteq> 0"
    "cursor_pull_varint m c1 = Some (r2, word_of_nat (length (xk_word k)), c2)" "r2 \<noteq> 0"
    "stored m (cp c2) (xk_word k)" "cp c2 + int (length (xk_word k)) < cend c2"
    "cursor_pull_varint m (c2\<lparr>cp := cp c2 + int (length (xk_word k))\<rparr>) = Some (r3, xk_time k, c3)" "r3 \<noteq> 0"
    "cursor_pull_varint m c3 = Some (r4, xk_index k, c4)" "r4 \<noteq> 0"
    using text_key_pulls[OF st wf refl] by metis
  have "sint (ucast (word_of_nat (length (xk_word k)) :: u64) :: u32) = int (length (xk_word k))"
  proof -
    have "(ucast (word_of_nat (length (xk_word k)) :: u64) :: u32) = word_of_nat (length (xk_word k))"
      by (rule word_unat_eq_iff[THEN iffD2]) (use wf in \<open>simp add: text_key_wf_def unsigned_ucast_eq unsigned_of_nat take_bit_nat_eq_self\<close>)
    then show ?thesis using wf by (simp add: text_key_wf_def signed_of_nat signed_take_bit_int_eq_self)
  qed
  then show ?thesis using A
    by (simp add: ndb_unpack_text_search_key_def ndb_unpack_text_search_key_noteid_def ndb_unpack_text_search_key_string_def
        ndb_unpack_remaining_text_search_key_def cursor_skip_def Let_def)
qed

lemma int_cast_small: "unat x < 2 ^ 31 \<Longrightarrow> int_cast x = x"
proof -
  assume x: "unat x < 2 ^ 31"
  have "unat (ucast x :: u32) = unat x" using x by (simp add: unsigned_ucast_eq take_bit_nat_eq_self)
  then have u: "uint (ucast x :: u32) = uint x" by (metis of_nat_unat)
  have ux: "uint x < 2 ^ 31" using x by (metis of_nat_less_numeral_power_cancel_iff of_nat_unat)
  have "sint (ucast x :: u32) = uint x"
    unfolding sint_uint u using ux by (intro signed_take_bit_int_eq_self) (auto intro: order_trans[OF _ uint_ge_0])
  then show ?thesis by (simp add: int_cast_def scast_eq)
qed



section \<open>Tag keys\<close>

definition enc_tag_key :: "u8 \<Rightarrow> u8 list \<Rightarrow> u64 \<Rightarrow> u8 list" where
  "enc_tag_key tag val timestamp = tag # val @ le_bytes 8 timestamp"

lemma encode_tag_key:
  assumes v: "valid m buf size'" and l: "length val < 256" and room: "int (length val) + 9 \<le> size'"
  shows "ndb_encode_tag_key m buf size' tag val (word_of_nat (length val)) timestamp =
    Some (int (length val) + 9, putb m buf (enc_tag_key tag val timestamp))"
proof -
  define c0 where "c0 = make_cursor buf (buf + size')"
  have c: "wf_cursor m c0" "cstart c0 = buf" "cp c0 = buf" "cend c0 = buf + size'"
    using v room by (auto simp: c0_def make_cursor_def wf_cursor_def)
  have u: "unat (word_of_nat (length val) :: u8) = length val" using l by (simp add: unat_of_nat take_bit_nat_eq_self)
  then have ui: "uint (word_of_nat (length val) :: u8) = int (length val)" unfolding uint_nat by (simp only: u)
  let ?t = "le_bytes 8 timestamp"
  have f0: "cp c0 + int (length (tag # val @ ?t)) \<le> cend c0" using room c by simp
  obtain m1 c1 where 1: "cursor_push_byte m c0 tag = Some (True, m1, c1)" "wf_cursor m1 c1" "m1 = putb m (cp c0) [tag]"
    "c1 = c0\<lparr>cp := cp c0 + 1\<rparr>" "cp c1 + int (length (val @ ?t)) \<le> cend c1" using push_byte_step[OF c(1) f0] by blast
  obtain m2 c2 where 2: "cursor_push m1 c1 val = Some (True, m2, c2)" "wf_cursor m2 c2" "m2 = putb m1 (cp c1) val"
    "c2 = c1\<lparr>cp := cp c1 + int (length val)\<rparr>" "cp c2 + int (length (?t @ [])) \<le> cend c2"
    using push_bytes_step[OF 1(2,5)] by auto
  obtain m3 c3 where 3: "cursor_push m2 c2 ?t = Some (True, m3, c3)" "m3 = putb m2 (cp c2) ?t"
    "c3 = c2\<lparr>cp := cp c2 + int (length ?t)\<rparr>" using push_bytes_step[OF 2(2,5)] by blast
  have "m3 = putb m buf (enc_tag_key tag val timestamp)"
    unfolding 3(2) 2(3) 1(3) enc_tag_key_def using 1(4) 2(4) c by (simp add: putb_append putb_Cons)
  moreover have "cp c3 - cstart c3 = int (length val) + 9" using 1(4) 2(4) 3(3) c by simp
  ultimately show ?thesis
    using room by (simp add: ndb_encode_tag_key_def u ui 1(1) 2(1) 3(1) flip: c0_def)
qed

text \<open>
  The tag index orders its keys by the tag letter followed by the value, and then by time:
  \<open>ndb_tag_key_compare\<close> on two stored keys is that lexicographic comparison.
\<close>

theorem tag_key_order:
  assumes "stored m a (enc_tag_key ta va tsa)" "stored m b (enc_tag_key tb vb tsb)"
    and "length va < 256" "length vb < 256"
  shows "ndb_tag_key_compare m \<lparr>mv_data = a, mv_size = word_of_nat (length va + 9)\<rparr>
      \<lparr>mv_data = b, mv_size = word_of_nat (length vb + 9)\<rparr> = Some (ord3 (ta # va, tsa) (tb # vb, tsb))"
proof -
  have sa: "stored m a (ta # va)" "stored m (a + int (length (ta # va))) (le_bytes 8 tsa)"
    using assms(1) stored_append[of m a "ta # va" "le_bytes 8 tsa"] by (simp_all add: enc_tag_key_def)
  have sb: "stored m b (tb # vb)" "stored m (b + int (length (tb # vb))) (le_bytes 8 tsb)"
    using assms(2) stored_append[of m b "tb # vb" "le_bytes 8 tsb"] by (simp_all add: enc_tag_key_def)
  have w: "(word_of_nat (length v + 9) - 8 :: u64) = word_of_nat (length (x # v))" for v and x :: u8 by simp
  have u: "uint (word_of_nat (length (x # v)) :: u64) = int (length (x # v))" if "length v < 256" for v and x :: u8
    using that unfolding unsigned_of_nat by (subst take_bit_nat_eq_self) simp_all
  have cmp: "mdb_cmp_memn m \<lparr>mv_data = a, mv_size = word_of_nat (length (ta # va))\<rparr>
      \<lparr>mv_data = b, mv_size = word_of_nat (length (tb # vb))\<rparr> = Some (ord3 (ta # va) (tb # vb))"
    using assms(3,4) by (intro stored_cmp[OF sa(1) sb(1)]) simp_all
  show ?thesis
    unfolding ndb_tag_key_compare_def Let_def MDB_val.simps w[of va ta] w[of vb tb] cmp u[OF assms(3)] u[OF assms(4)]
      stored_load_u64[OF sa(2)] stored_load_u64[OF sb(2)]
    by (simp add: ord3_pair cmp_u64_ord3)
qed

theorem tag_key_order_witness:
  "\<exists>m b. ndb_tag_key_compare m \<lparr>mv_data = 0, mv_size = word_of_nat (length (str ''cat'') + 9)\<rparr>
      \<lparr>mv_data = b, mv_size = word_of_nat (length (str ''dog'') + 9)\<rparr> = Some (ord3 (116 # str ''cat'', 9 :: u64) (116 # str ''dog'', 5))"
proof -
  let ?x = "enc_tag_key 116 (str ''cat'') 9" and ?y = "enc_tag_key 116 (str ''dog'') 5"
  have s: "stored (mem_of 0 (?x @ ?y)) 0 ?x" "stored (mem_of 0 (?x @ ?y)) (0 + int (length ?x)) ?y"
    using stored_mem_of[of 0 "?x @ ?y"] unfolding stored_append by blast+
  have "length (str ''cat'') < 256" "length (str ''dog'') < 256" by (simp_all add: str_def)
  from tag_key_order[OF s this] show ?thesis by blast
qed

end
