(* ===== verification/Merger.thy ===== *)
theory Merger
  imports Index_Keys "HOL-Library.Multiset"
begin

text \<open>
  The index merger of \<open>src/src/nostrdb.c\<close>: backward scans over the groups of an index (the entries
  of one kind, of one author and kind, of one relay and kind), merged by a binary heap into one
  stream, newest note first.

  A key under a scanner is one of the three layouts the merger knows; every index holds keys of a
  single layout. The arrays \<open>scanners\<close> and \<open>heap\<close> are the lists of their entries in use, so
  \<open>num_scanners\<close> and \<open>heap_len\<close> are lengths. The database is the sorted list of its entries and a
  cursor is a position in it.
\<close>

section \<open>Scanners\<close>

datatype ndb_scan_key_type = NDB_SCAN_KEY_U64_TS | NDB_SCAN_KEY_ID_U64_TS | NDB_SCAN_KEY_RELAY_KIND

datatype scan_key = U64_Key ndb_u64_ts | Id_Key ndb_id_u64_ts | Relay_Key "u8 list ndb_relay_kind_key"

type_synonym index_db = "(scan_key \<times> u64) list"

record ndb_index_scanner =
  is_group :: scan_key
  is_cur :: "nat option"
  is_created_at :: u64
  is_note_key :: u64

record ndb_index_merger =
  im_scanners :: "ndb_index_scanner list"
  im_heap :: "nat list"
  im_capacity :: nat
  im_since :: u64
  im_key_type :: ndb_scan_key_type

text \<open>
  The comparison function each index is opened with. That of the relay index works on stored
  bytes; \<open>relay_kind_cmp_stored\<close> shows that it orders the keys as written here.
\<close>

fun scan_key_cmp :: "scan_key \<Rightarrow> scan_key \<Rightarrow> int" where
  "scan_key_cmp (U64_Key a) (U64_Key b) = ndb_u64_ts_compare a b"
| "scan_key_cmp (Id_Key a) (Id_Key b) = ndb_id_u64_ts_compare a b"
| "scan_key_cmp (Relay_Key a) (Relay_Key b) = ord3 (relay_key_rank a) (relay_key_rank b)"
| "scan_key_cmp _ _ = 0"

text \<open>Is an entry in the group? A key of another layout has another size.\<close>

fun ndb_scanner_in_group :: "ndb_index_scanner \<Rightarrow> ndb_scan_key_type \<Rightarrow> scan_key \<Rightarrow> bool" where
  "ndb_scanner_in_group s NDB_SCAN_KEY_U64_TS k =
     (case (k, is_group s) of (U64_Key kts, U64_Key gts) \<Rightarrow> ut_u64 kts = ut_u64 gts | _ \<Rightarrow> False)"
| "ndb_scanner_in_group s NDB_SCAN_KEY_ID_U64_TS k =
     (case (k, is_group s) of
        (Id_Key kits, Id_Key gits) \<Rightarrow> iut_u64 kits = iut_u64 gits \<and> memcmp (iut_id kits) (iut_id gits) = 0
      | _ \<Rightarrow> False)"
| "ndb_scanner_in_group s NDB_SCAN_KEY_RELAY_KIND k =
     (case (k, is_group s) of
        (Relay_Key krk, Relay_Key grk) \<Rightarrow> rk_kind krk = rk_kind grk \<and> rk_relay krk = rk_relay grk
      | _ \<Rightarrow> False)"

fun ndb_scanner_read :: "ndb_index_scanner \<Rightarrow> scan_key \<Rightarrow> u64 \<Rightarrow> ndb_index_scanner" where
  "ndb_scanner_read s (U64_Key k) v = s\<lparr>is_created_at := ut_timestamp k, is_note_key := v\<rparr>"
| "ndb_scanner_read s (Id_Key k) v = s\<lparr>is_created_at := iut_timestamp k, is_note_key := v\<rparr>"
| "ndb_scanner_read s (Relay_Key rk) v = s\<lparr>is_created_at := rk_created_at rk, is_note_key := rk_note_key rk\<rparr>"

definition ndb_scanner_load :: "index_db \<Rightarrow> ndb_index_merger \<Rightarrow> ndb_index_scanner \<Rightarrow> bool \<times> ndb_index_scanner" where
  "ndb_scanner_load db m s =
     (case is_cur s of
        None \<Rightarrow> (False, s)
      | Some i \<Rightarrow>
          if \<not> i < length db then (False, s)
          else if \<not> ndb_scanner_in_group s (im_key_type m) (fst (db ! i)) then (False, s)
          else let s = ndb_scanner_read s (fst (db ! i)) (snd (db ! i))
               in (is_created_at s \<ge> im_since m, s))"

section \<open>The heap\<close>

definition ndb_merger_gt :: "ndb_index_merger \<Rightarrow> nat \<Rightarrow> nat \<Rightarrow> bool" where
  "ndb_merger_gt m a b =
     (let sa = im_scanners m ! a; sb = im_scanners m ! b in
      if is_created_at sa \<noteq> is_created_at sb then is_created_at sa > is_created_at sb
      else is_note_key sa > is_note_key sb)"

definition ndb_merger_swap :: "ndb_index_merger \<Rightarrow> nat \<Rightarrow> nat \<Rightarrow> ndb_index_merger" where
  "ndb_merger_swap m a b = m\<lparr>im_heap := (im_heap m)[a := im_heap m ! b, b := im_heap m ! a]\<rparr>"

function push_loop :: "ndb_index_merger \<Rightarrow> nat \<Rightarrow> ndb_index_merger" where
  "push_loop m i =
     (if i > 0 then
        let parent = (i - 1) div 2 in
        if \<not> ndb_merger_gt m (im_heap m ! i) (im_heap m ! parent) then m
        else push_loop (ndb_merger_swap m i parent) parent
      else m)"
  by pat_completeness auto
termination by (relation "measure snd") auto

declare push_loop.simps [simp del]

text \<open>Writing past the capacity of the heap array would be undefined behaviour.\<close>

definition ndb_merger_push :: "ndb_index_merger \<Rightarrow> nat \<Rightarrow> ndb_index_merger option" where
  "ndb_merger_push m idx =
     (let i = length (im_heap m) in
      if i \<ge> im_capacity m then None
      else Some (push_loop (m\<lparr>im_heap := im_heap m @ [idx]\<rparr>) i))"

definition sift_big :: "ndb_index_merger \<Rightarrow> nat \<Rightarrow> nat" where
  "sift_big m i =
     (let l = i * 2 + 1; r = l + 1; big = i;
          big = (if l < length (im_heap m) \<and> ndb_merger_gt m (im_heap m ! l) (im_heap m ! big) then l else big)
      in if r < length (im_heap m) \<and> ndb_merger_gt m (im_heap m ! r) (im_heap m ! big) then r else big)"

lemma sift_big_bounds: "sift_big m i \<noteq> i \<Longrightarrow> i < sift_big m i \<and> sift_big m i < length (im_heap m)"
  by (auto simp: sift_big_def Let_def split: if_splits)

lemma length_heap_swap [simp]: "length (im_heap (ndb_merger_swap m a b)) = length (im_heap m)"
  by (simp add: ndb_merger_swap_def)

function sift_loop :: "ndb_index_merger \<Rightarrow> nat \<Rightarrow> ndb_index_merger" where
  "sift_loop m i =
     (let big = sift_big m i in
      if big = i then m else sift_loop (ndb_merger_swap m i big) big)"
  by pat_completeness auto
termination
  by (relation "measure (\<lambda>(m, i). length (im_heap m) - i)") (auto dest: sift_big_bounds simp: diff_less_mono2)

declare sift_loop.simps [simp del]

definition ndb_merger_sift :: "ndb_index_merger \<Rightarrow> ndb_index_merger" where
  "ndb_merger_sift m = sift_loop m 0"

section \<open>The merger\<close>

text \<open>The allocation of the two arrays may fail.\<close>

definition ndb_index_merger_init :: "bool \<Rightarrow> ndb_scan_key_type \<Rightarrow> u64 \<Rightarrow> int \<Rightarrow> ndb_index_merger option" where
  "ndb_index_merger_init alloc_ok key_type since capacity =
     (let capacity = (if capacity \<le> 0 then 1 else capacity) in
      if \<not> alloc_ok then None
      else Some \<lparr>im_scanners = [], im_heap = [], im_capacity = nat capacity, im_since = since, im_key_type = key_type\<rparr>)"

text \<open>\<open>opened\<close> is the success of \<open>mdb_cursor_open\<close>.\<close>

definition ndb_index_merger_add ::
  "index_db \<Rightarrow> bool \<Rightarrow> ndb_index_merger \<Rightarrow> scan_key \<Rightarrow> nat \<Rightarrow> (bool \<times> ndb_index_merger) option" where
  "ndb_index_merger_add db opened m key key_size =
     (if length (im_scanners m) = im_capacity m \<or> key_size > 288 then Some (False, m)
      else if \<not> opened then Some (False, m)
      else
        let n = length (im_scanners m);
            s = \<lparr>is_group = key, is_cur = None, is_created_at = 0, is_note_key = 0\<rparr>
        in case ndb_cursor_start scan_key_cmp db key of
             None \<Rightarrow> Some (True, m\<lparr>im_scanners := im_scanners m @ [s]\<rparr>)
           | Some i \<Rightarrow>
               let (r, s) = ndb_scanner_load db m (s\<lparr>is_cur := Some i\<rparr>);
                   m = m\<lparr>im_scanners := im_scanners m @ [s]\<rparr>
               in if r then map_option (\<lambda>m. (True, m)) (ndb_merger_push m n) else Some (True, m))"

text \<open>\<open>mdb_cursor_get(\<dots>, MDB_PREV)\<close>: the success flag and the scanner with its cursor moved.\<close>

definition scanner_prev :: "ndb_index_scanner \<Rightarrow> bool \<times> ndb_index_scanner" where
  "scanner_prev s =
     (case is_cur s of
        Some (Suc i) \<Rightarrow> (True, s\<lparr>is_cur := Some i\<rparr>)
      | _ \<Rightarrow> (False, s))"

definition ndb_index_merger_next :: "index_db \<Rightarrow> ndb_index_merger \<Rightarrow> (u64 option \<times> ndb_index_merger) option" where
  "ndb_index_merger_next db m =
     (if im_heap m = [] then Some (None, m)
      else
        let j = im_heap m ! 0 in
        if j \<ge> length (im_scanners m) then None
        else
          let s = im_scanners m ! j;
              note_key = is_note_key s;
              (back, s) = scanner_prev s;
              (r, s) = (if back then ndb_scanner_load db m s else (False, s));
              m = m\<lparr>im_scanners := (im_scanners m)[j := s]\<rparr>;
              m = (if r then m else m\<lparr>im_heap := (butlast (im_heap m))[0 := last (im_heap m)]\<rparr>)
          in Some (Some note_key, ndb_merger_sift m))"

section \<open>Binary heaps\<close>

text \<open>
  The order of a heap, over the priorities of its positions: with one position that may be larger
  than its parent (on the way up), or smaller than its children (on the way down).
\<close>

abbreviation par :: "nat \<Rightarrow> nat" where
  "par i \<equiv> (i - 1) div 2"

definition heap_order :: "(nat \<Rightarrow> 'p::linorder) \<Rightarrow> nat \<Rightarrow> bool" where
  "heap_order h n \<longleftrightarrow> (\<forall>i<n. 0 < i \<longrightarrow> h i \<le> h (par i))"

definition heap_up :: "(nat \<Rightarrow> 'p::linorder) \<Rightarrow> nat \<Rightarrow> nat \<Rightarrow> bool" where
  "heap_up h n k \<longleftrightarrow> (\<forall>i<n. 0 < i \<and> i \<noteq> k \<longrightarrow> h i \<le> h (par i)) \<and>
     (\<forall>i<n. 0 < i \<and> par i = k \<and> 0 < k \<longrightarrow> h i \<le> h (par k))"

definition heap_down :: "(nat \<Rightarrow> 'p::linorder) \<Rightarrow> nat \<Rightarrow> nat \<Rightarrow> bool" where
  "heap_down h n k \<longleftrightarrow> (\<forall>i<n. 0 < i \<and> par i \<noteq> k \<longrightarrow> h i \<le> h (par i)) \<and>
     (\<forall>i<n. 0 < i \<and> par i = k \<and> 0 < k \<longrightarrow> h i \<le> h (par k))"

lemma par_less: "0 < i \<Longrightarrow> par i < i" by auto

lemma heap_order_root: "heap_order h n \<Longrightarrow> i < n \<Longrightarrow> h i \<le> h 0"
proof (induction i rule: less_induct)
  case (less i)
  then show ?case
  proof (cases "i = 0")
    case False
    then have "h i \<le> h (par i)" using less.prems by (simp add: heap_order_def)
    also have "\<dots> \<le> h 0" using False less.prems by (intro less.IH) (auto simp: par_less)
    finally show ?thesis .
  qed simp
qed

lemma heap_up_end: "heap_up h n k \<Longrightarrow> k = 0 \<or> h k \<le> h (par k) \<Longrightarrow> heap_order h n"
  unfolding heap_up_def heap_order_def by (metis less_irrefl)

lemma heap_up_step:
  assumes u: "heap_up h n k" and k: "0 < k" "k < n" and lt: "h (par k) < h k"
  shows "heap_up (h(k := h (par k), par k := h k)) n (par k)"
proof -
  let ?p = "par k" and ?h = "h(k := h (par k), par k := h k)"
  have pk: "?p < k" "?p < n" "?p \<noteq> k" using k par_less[of k] by linarith+
  have u1: "h i \<le> h (par i)" if "i < n" "0 < i" "i \<noteq> k" for i using u that by (simp add: heap_up_def)
  have u2: "h i \<le> h ?p" if "i < n" "0 < i" "par i = k" for i using u that k by (simp add: heap_up_def)
  have "?h i \<le> ?h (par i)" if i: "i < n" "0 < i" "i \<noteq> ?p" for i
  proof -
    consider "i = k" | "i \<noteq> k" "par i = k" | "i \<noteq> k" "par i = ?p" | "i \<noteq> k" "par i \<noteq> k" "par i \<noteq> ?p" by blast
    then show ?thesis
    proof cases
      case 3
      then show ?thesis using u1[of i] i lt pk by (simp del: One_nat_def)
    qed (use i u1[of i] u2[of i] lt pk in \<open>simp_all del: One_nat_def\<close>)
  qed
  moreover have "?h i \<le> ?h (par ?p)" if i: "i < n" "0 < i" "par i = ?p" "0 < ?p" for i
  proof -
    have pp: "par ?p < ?p" using par_less[OF i(4)] .
    then have e: "?h (par ?p) = h (par ?p)" using pk by simp
    have "h ?p \<le> h (par ?p)" using u1[of ?p] i pk by simp
    moreover have "?h i \<le> h ?p"
    proof (cases "i = k")
      case False
      moreover have "i \<noteq> ?p" using i pk pp by auto
      ultimately show ?thesis using u1[of i] i by simp
    qed (use pk in simp)
    ultimately show ?thesis unfolding e by (rule order_trans[rotated])
  qed
  ultimately show ?thesis by (simp add: heap_up_def)
qed

lemma heap_down_end: "heap_down h n k \<Longrightarrow> (\<And>i. i < n \<Longrightarrow> 0 < i \<Longrightarrow> par i = k \<Longrightarrow> h i \<le> h k) \<Longrightarrow> heap_order h n"
  unfolding heap_down_def heap_order_def by metis

lemma heap_down_step:
  assumes d: "heap_down h n k" and b: "b < n" "0 < b" "par b = k" and lt: "h k < h b"
    and big: "\<And>i. i < n \<Longrightarrow> 0 < i \<Longrightarrow> par i = k \<Longrightarrow> h i \<le> h b"
  shows "heap_down (h(k := h b, b := h k)) n b"
proof -
  let ?h = "h(k := h b, b := h k)"
  have kb: "k < b" using par_less[OF b(2)] b(3) by simp
  have d1: "h i \<le> h (par i)" if "i < n" "0 < i" "par i \<noteq> k" for i using d that by (simp add: heap_down_def)
  have d2: "h i \<le> h (par k)" if "i < n" "0 < i" "par i = k" "0 < k" for i using d that by (simp add: heap_down_def)
  have "?h i \<le> ?h (par i)" if i: "i < n" "0 < i" "par i \<noteq> b" for i
  proof -
    consider "i = b" | "i \<noteq> b" "par i = k" | "i = k" "i \<noteq> b" | "i \<noteq> b" "i \<noteq> k" "par i \<noteq> k" by blast
    then show ?thesis
    proof cases
      case 1
      then show ?thesis using lt b kb by simp
    next
      case 2
      moreover have "i \<noteq> k" using 2(2) par_less[OF i(2)] by auto
      ultimately show ?thesis using big[OF i(1,2)] kb by simp
    next
      case 3
      have "par k < k" using par_less 3 i by blast
      then show ?thesis using d2[OF b] 3 i kb by simp
    qed (use d1[of i] i in simp)
  qed
  moreover have "?h i \<le> ?h (par b)" if i: "i < n" "0 < i" "par i = b" for i
  proof -
    have "i \<noteq> b" "i \<noteq> k" using par_less[OF i(2)] i(3) kb by auto
    then show ?thesis using d1[OF i(1,2)] i kb b by simp
  qed
  ultimately show ?thesis by (simp add: heap_down_def)
qed

section \<open>The heap of the merger\<close>

definition prio :: "ndb_index_merger \<Rightarrow> nat \<Rightarrow> u64 \<times> u64" where
  "prio m j = (is_created_at (im_scanners m ! j), is_note_key (im_scanners m ! j))"

abbreviation hp :: "ndb_index_merger \<Rightarrow> nat \<Rightarrow> u64 \<times> u64" where
  "hp m i \<equiv> prio m (im_heap m ! i)"

lemma merger_gt_prio: "ndb_merger_gt m a b \<longleftrightarrow> prio m b < prio m a"
  by (auto simp: ndb_merger_gt_def prio_def less_prod_def' Let_def)

lemma hp_swap:
  assumes "a < length (im_heap m)" "b < length (im_heap m)"
  shows "hp (ndb_merger_swap m a b) = (hp m)(a := hp m b, b := hp m a)"
proof
  fix i
  show "hp (ndb_merger_swap m a b) i = ((hp m)(a := hp m b, b := hp m a)) i"
    using assms by (cases "i = a"; cases "i = b") (auto simp: ndb_merger_swap_def prio_def)
qed

lemma swap_frame:
  assumes "a < length (im_heap m)" "b < length (im_heap m)"
  shows "\<exists>h. ndb_merger_swap m a b = m\<lparr>im_heap := h\<rparr> \<and> mset h = mset (im_heap m)"
  using mset_swap[OF assms(2,1)] by (auto simp: ndb_merger_swap_def)

lemma loop_frame:
  assumes "\<exists>h. m' = m\<lparr>im_heap := h\<rparr> \<and> mset h = mset (im_heap m)"
    and "\<exists>h. r = m'\<lparr>im_heap := h\<rparr> \<and> mset h = mset (im_heap m') \<and> heap_order (\<lambda>i. prio m' (h ! i)) (length (im_heap m'))"
  shows "\<exists>h. r = m\<lparr>im_heap := h\<rparr> \<and> mset h = mset (im_heap m) \<and> heap_order (\<lambda>i. prio m (h ! i)) (length (im_heap m))"
proof -
  obtain h h' where h: "m' = m\<lparr>im_heap := h\<rparr>" "mset h = mset (im_heap m)" "r = m'\<lparr>im_heap := h'\<rparr>"
    "mset h' = mset (im_heap m')" "heap_order (\<lambda>i. prio m' (h' ! i)) (length (im_heap m'))" using assms by blast
  then show ?thesis using mset_eq_length[OF h(2)] by (intro exI[of _ h']) (simp add: prio_def)
qed

lemma push_loop_heap:
  "i < length (im_heap m) \<Longrightarrow> heap_up (hp m) (length (im_heap m)) i \<Longrightarrow>
   \<exists>h. push_loop m i = m\<lparr>im_heap := h\<rparr> \<and> mset h = mset (im_heap m) \<and>
     heap_order (\<lambda>i. prio m (h ! i)) (length (im_heap m))"
proof (induction m i rule: push_loop.induct)
  case (1 m i)
  let ?n = "length (im_heap m)"
  show ?case
  proof (cases "0 < i \<and> ndb_merger_gt m (im_heap m ! i) (im_heap m ! par i)")
    case False
    then have "push_loop m i = m" by (subst push_loop.simps) (auto simp: Let_def)
    moreover have "heap_order (hp m) ?n"
      using False by (intro heap_up_end[OF 1(3)]) (auto simp: merger_gt_prio)
    ultimately show ?thesis by (intro exI[of _ "im_heap m"]) simp
  next
    case True
    let ?m = "ndb_merger_swap m i (par i)"
    have pi: "par i < ?n" using 1(2) True par_less[of i] by linarith
    have e: "push_loop m i = push_loop ?m (par i)" using True by (subst push_loop.simps) (simp add: Let_def)
    have "heap_up (hp ?m) ?n (par i)"
      unfolding hp_swap[OF 1(2) pi] by (rule heap_up_step[OF 1(3)]) (use True 1(2) in \<open>simp_all add: merger_gt_prio\<close>)
    then have "\<exists>h. push_loop ?m (par i) = ?m\<lparr>im_heap := h\<rparr> \<and> mset h = mset (im_heap ?m) \<and>
        heap_order (\<lambda>i. prio ?m (h ! i)) (length (im_heap ?m))"
      using True pi by (intro 1(1)[OF _ refl]) simp_all
    then show ?thesis unfolding e by (rule loop_frame[OF swap_frame[OF 1(2) pi]])
  qed
qed

lemma sift_big_spec:
  fixes m i
  defines "b \<equiv> sift_big m i"
  assumes "i < length (im_heap m)"
  shows "b = i \<or> (b < length (im_heap m) \<and> 0 < b \<and> par b = i \<and> hp m i < hp m b)"
    and "\<And>j. j < length (im_heap m) \<Longrightarrow> 0 < j \<Longrightarrow> par j = i \<Longrightarrow> hp m j \<le> hp m b"
proof -
  show "b = i \<or> (b < length (im_heap m) \<and> 0 < b \<and> par b = i \<and> hp m i < hp m b)"
    by (auto simp: b_def sift_big_def Let_def merger_gt_prio)
  fix j assume "j < length (im_heap m)" "0 < j" "par j = i"
  moreover from this have "j = 2 * i + 1 \<or> j = 2 * i + 2" by linarith
  ultimately show "hp m j \<le> hp m b"
    by (auto simp: b_def sift_big_def Let_def merger_gt_prio mult.commute)
qed

lemma sift_loop_heap:
  "i < length (im_heap m) \<Longrightarrow> heap_down (hp m) (length (im_heap m)) i \<Longrightarrow>
   \<exists>h. sift_loop m i = m\<lparr>im_heap := h\<rparr> \<and> mset h = mset (im_heap m) \<and>
     heap_order (\<lambda>i. prio m (h ! i)) (length (im_heap m))"
proof (induction m i rule: sift_loop.induct)
  case (1 m i)
  let ?n = "length (im_heap m)" and ?b = "sift_big m i"
  note s = sift_big_spec[OF 1(2)]
  show ?case
  proof (cases "?b = i")
    case True
    then have "sift_loop m i = m" by (subst sift_loop.simps) (simp add: Let_def)
    moreover have "heap_order (hp m) ?n" using s(2) unfolding True by (intro heap_down_end[OF 1(3)])
    ultimately show ?thesis by (intro exI[of _ "im_heap m"]) simp
  next
    case False
    then have b: "?b < ?n" "0 < ?b" "par ?b = i" "hp m i < hp m ?b" using s(1) by auto
    let ?m = "ndb_merger_swap m i ?b"
    have e: "sift_loop m i = sift_loop ?m ?b" using False by (subst sift_loop.simps) (simp add: Let_def)
    have "heap_down (hp ?m) ?n ?b"
      unfolding hp_swap[OF 1(2) b(1)] by (rule heap_down_step[OF 1(3) b s(2)])
    then have "\<exists>h. sift_loop ?m ?b = ?m\<lparr>im_heap := h\<rparr> \<and> mset h = mset (im_heap ?m) \<and>
        heap_order (\<lambda>i. prio ?m (h ! i)) (length (im_heap ?m))"
      using False b(1) by (intro 1(1)[OF refl]) simp_all
    then show ?thesis unfolding e by (rule loop_frame[OF swap_frame[OF 1(2) b(1)]])
  qed
qed

section \<open>Groups of an index\<close>

lemma takeWhile_down_closed: "sorted_wrt (\<lambda>a b. P b \<longrightarrow> P a) xs \<Longrightarrow> takeWhile P xs = filter P xs"
  by (induction xs) (auto simp: filter_empty_conv[symmetric] filter_False)

lemma sorted_wrt_takeWhile_prefix: "sorted_wrt R xs \<Longrightarrow> sorted_wrt R (takeWhile P xs)"
  by (induction xs) (auto dest: set_takeWhileD)

lemma ord3_refl: "ord3 x x = 0" by simp

context key_comparator
begin

text \<open>The entries at and before the start of a backward scan are those below its key.\<close>

lemma cursor_start_prefix:
  fixes db :: "('k \<times> 'v) list"
  assumes "in_order db" "wf k"
  shows "(case ndb_cursor_start cmp db k of None \<Rightarrow> [] | Some i \<Rightarrow> take (Suc i) db) = filter (\<lambda>e. key (fst e) < key k) db"
proof -
  define P where "P = (\<lambda>e :: 'k \<times> 'v. key (fst e) < key k)"
  have g: "\<And>n. (\<And>j. j < length db \<Longrightarrow> P (db ! j) \<longleftrightarrow> j < n) \<Longrightarrow> filter P db = take n db"
  proof -
    fix n assume n: "\<And>j. j < length db \<Longrightarrow> P (db ! j) \<longleftrightarrow> j < n"
    have "\<forall>x\<in>set (take n db). P x" using n unfolding Ball_set list_all_length by simp
    moreover have "\<forall>x\<in>set (drop n db). \<not> P x" using n unfolding Ball_set list_all_length by (simp add: less_diff_conv2)
    ultimately have "filter P (take n db @ drop n db) = take n db" unfolding filter_append by (simp add: filter_True filter_False)
    then show "filter P db = take n db" by simp
  qed
  note c = cursor_start_greatest[OF assms]
  show ?thesis
  proof (cases "ndb_cursor_start cmp db k")
    case None
    then have "filter P db = take 0 db" using c by (intro g) (auto simp: P_def not_less)
    then show ?thesis using None by (simp add: P_def)
  next
    case (Some i)
    then have i: "i < length db" "P (db ! i)" "\<And>j. j < length db \<Longrightarrow> i < j \<Longrightarrow> \<not> P (db ! j)" using c by (auto simp: P_def)
    have "P (db ! j)" if "j \<le> i" for j
      using i(1,2) that assms(1) sorted_nth_mono[of "map (\<lambda>e. key (fst e)) db" j i] by (auto simp: P_def in_order_def)
    then have "filter P db = take (Suc i) db" using i(3) by (intro g) (metis less_Suc_eq_le not_less)
    then show ?thesis using Some by (simp add: P_def)
  qed
qed

end

text \<open>Every layout orders its keys by the group, then by time, then by the note key if it has one.\<close>

fun scan_rank :: "scan_key \<Rightarrow> (u8 list \<times> u64) \<times> u64 \<times> u64" where
  "scan_rank (U64_Key k) = (([], ut_u64 k), ut_timestamp k, 0)"
| "scan_rank (Id_Key k) = ((iut_id k, iut_u64 k), iut_timestamp k, 0)"
| "scan_rank (Relay_Key k) = ((rk_relay k, rk_kind k), rk_created_at k, rk_note_key k)"

definition scan_group :: "scan_key \<Rightarrow> u8 list \<times> u64" where
  "scan_group k = fst (scan_rank k)"

definition scan_stamp :: "scan_key \<Rightarrow> u64" where
  "scan_stamp k = fst (snd (scan_rank k))"

lemma scan_rank_le:
  "scan_rank a \<le> scan_rank b \<Longrightarrow> scan_group a < scan_group b \<or> (scan_group a = scan_group b \<and> scan_stamp a \<le> scan_stamp b)"
proof -
  have lex: "fst x < fst y \<or> (fst x = fst y \<and> snd x \<le> snd y)" if "x \<le> y" for x y :: "'a::linorder \<times> 'b::linorder"
    using that by (auto simp: less_eq_prod_def)
  assume "scan_rank a \<le> scan_rank b"
  from lex[OF this] show ?thesis unfolding scan_group_def scan_stamp_def using lex[of "snd (scan_rank a)" "snd (scan_rank b)"] by auto
qed

fun wf_scan_key :: "ndb_scan_key_type \<Rightarrow> scan_key \<Rightarrow> bool" where
  "wf_scan_key NDB_SCAN_KEY_U64_TS (U64_Key k) = True"
| "wf_scan_key NDB_SCAN_KEY_ID_U64_TS (Id_Key k) = (length (iut_id k) = 32)"
| "wf_scan_key NDB_SCAN_KEY_RELAY_KIND (Relay_Key k) = relay_key_wf k"
| "wf_scan_key _ _ = False"

interpretation scan_order: key_comparator scan_key_cmp scan_rank "wf_scan_key t" for t
proof
  fix a b assume "wf_scan_key t a" "wf_scan_key t b"
  then show "scan_key_cmp a b = ord3 (scan_rank a) (scan_rank b)"
    by (cases t; cases a; cases b)
      (simp_all add: u64_ts_order.cmp_key id_u64_ts_order.cmp_key relay_key_rank_def ord3_pair ord3_refl)
qed

text \<open>What a scanner reports of an entry: its time and its note.\<close>

definition scan_item :: "scan_key \<times> u64 \<Rightarrow> u64 \<times> u64" where
  "scan_item e = (scan_stamp (fst e), case fst e of Relay_Key k \<Rightarrow> rk_note_key k | _ \<Rightarrow> snd e)"

lemma fst_scan_item [simp]: "fst (scan_item e) = scan_stamp (fst e)"
  by (simp add: scan_item_def)

lemma scanner_read_item:
  "ndb_scanner_read s (fst e) (snd e) = s\<lparr>is_created_at := fst (scan_item e), is_note_key := snd (scan_item e)\<rparr>"
  by (cases "fst e") (simp_all add: scan_item_def scan_stamp_def)

lemma scanner_in_group:
  "wf_scan_key t k \<Longrightarrow> wf_scan_key t (is_group s) \<Longrightarrow> ndb_scanner_in_group s t k \<longleftrightarrow> scan_group k = scan_group (is_group s)"
  by (cases t; cases k; cases "is_group s") (auto simp: scan_group_def memcmp_ord3)

abbreviation in_scan :: "u64 \<Rightarrow> scan_key \<Rightarrow> scan_key \<times> u64 \<Rightarrow> bool" where
  "in_scan since g e \<equiv> scan_group (fst e) = scan_group g \<and> since \<le> scan_stamp (fst e)"

text \<open>The entries a backward scan from a position still has to deliver.\<close>

definition scan_list :: "index_db \<Rightarrow> u64 \<Rightarrow> scan_key \<Rightarrow> nat \<Rightarrow> (u64 \<times> u64) list" where
  "scan_list db since g n = map scan_item (takeWhile (in_scan since g) (rev (take n db)))"

definition scan_range :: "index_db \<Rightarrow> u64 \<Rightarrow> scan_key \<Rightarrow> (u64 \<times> u64) list" where
  "scan_range db since key = map scan_item (filter (\<lambda>e. in_scan since key e \<and> scan_rank (fst e) < scan_rank key) db)"

lemma scan_list_0 [simp]: "scan_list db since g 0 = []"
  by (simp add: scan_list_def)

lemma scan_list_Suc:
  "i < length db \<Longrightarrow> scan_list db since g (Suc i) =
     (if in_scan since g (db ! i) then scan_item (db ! i) # scan_list db since g i else [])"
  by (simp add: scan_list_def take_Suc_conv_app_nth)

lemma scan_list_start:
  assumes db: "scan_order.in_order t db" and k: "wf_scan_key t key"
  shows "scan_list db since key (case ndb_cursor_start scan_key_cmp db key of None \<Rightarrow> 0 | Some i \<Rightarrow> Suc i) = rev (scan_range db since key)"
proof -
  let ?n = "case ndb_cursor_start scan_key_cmp db key of None \<Rightarrow> 0 | Some i \<Rightarrow> Suc i"
  let ?lt = "\<lambda>e :: scan_key \<times> u64. scan_rank (fst e) < scan_rank key"
  have "take ?n db = (case ndb_cursor_start scan_key_cmp db key of None \<Rightarrow> [] | Some i \<Rightarrow> take (Suc i) db)" by (simp split: option.splits)
  then have p: "take ?n db = filter ?lt db" using scan_order.cursor_start_prefix[OF db k] by simp
  have "sorted_wrt (\<lambda>a b. scan_rank (fst a) \<le> scan_rank (fst b)) db"
    using db by (simp add: scan_order.in_order_def sorted_map)
  then have "sorted_wrt (\<lambda>a b. scan_rank (fst b) \<le> scan_rank (fst a)) (rev (filter ?lt db))"
    by (simp add: sorted_wrt_rev sorted_wrt_filter)
  then have "sorted_wrt (\<lambda>a b. in_scan since key b \<longrightarrow> in_scan since key a) (rev (filter ?lt db))"
  proof (rule sorted_wrt_mono_rel[rotated], intro impI)
    fix a b assume a: "a \<in> set (rev (filter ?lt db))" "scan_rank (fst b) \<le> scan_rank (fst a)" "in_scan since key b"
    then have "scan_rank (fst a) \<le> scan_rank key" by (simp add: less_imp_le)
    then have "\<not> scan_group key < scan_group (fst a)" using scan_rank_le[of "fst a" key] by (metis less_imp_not_less)
    moreover have "scan_group key < scan_group (fst a) \<or> scan_group key = scan_group (fst a) \<and> scan_stamp (fst b) \<le> scan_stamp (fst a)"
      using scan_rank_le[OF a(2)] a(3) by metis
    ultimately show "in_scan since key a" using a(3) by (metis order_trans)
  qed
  then show ?thesis
    unfolding scan_list_def p by (simp add: takeWhile_down_closed scan_range_def rev_filter rev_map conj_ac)
qed

lemma scan_list_descending:
  assumes "scan_order.in_order t db"
  shows "sorted_wrt (\<lambda>x y. fst y \<le> fst x) (scan_list db since g n)"
proof -
  let ?xs = "takeWhile (in_scan since g) (rev (take n db))"
  have "sorted_wrt (\<lambda>a b. scan_rank (fst a) \<le> scan_rank (fst b)) db"
    using assms by (simp add: scan_order.in_order_def sorted_map)
  then have "sorted_wrt (\<lambda>a b. scan_rank (fst b) \<le> scan_rank (fst a)) (rev (take n db))"
    by (simp add: sorted_wrt_rev sorted_wrt_take)
  then have "sorted_wrt (\<lambda>a b. scan_rank (fst b) \<le> scan_rank (fst a)) ?xs"
    by (rule sorted_wrt_takeWhile_prefix)
  then have "sorted_wrt (\<lambda>a b. scan_stamp (fst b) \<le> scan_stamp (fst a)) ?xs"
  proof (rule sorted_wrt_mono_rel[rotated])
    fix a b assume a: "a \<in> set ?xs" "b \<in> set ?xs" "scan_rank (fst b) \<le> scan_rank (fst a)"
    from set_takeWhileD[OF a(1)] set_takeWhileD[OF a(2)]
    have "scan_group (fst a) = scan_group g" "scan_group (fst b) = scan_group g" by simp_all
    then show "scan_stamp (fst b) \<le> scan_stamp (fst a)" using scan_rank_le[OF a(3)] by simp
  qed
  then show ?thesis by (simp add: scan_list_def sorted_wrt_map)
qed

section \<open>The merged stream\<close>

text \<open>A scanner in the heap shows the entry under its cursor.\<close>

definition scanner_loaded :: "index_db \<Rightarrow> u64 \<Rightarrow> ndb_index_scanner \<Rightarrow> bool" where
  "scanner_loaded db since s \<longleftrightarrow> (case is_cur s of None \<Rightarrow> False | Some i \<Rightarrow>
     i < length db \<and> in_scan since (is_group s) (db ! i) \<and> (is_created_at s, is_note_key s) = scan_item (db ! i))"

definition scanner_rest :: "index_db \<Rightarrow> u64 \<Rightarrow> ndb_index_scanner \<Rightarrow> (u64 \<times> u64) list" where
  "scanner_rest db since s = scan_list db since (is_group s) (case is_cur s of None \<Rightarrow> 0 | Some i \<Rightarrow> Suc i)"

definition merger_inv :: "index_db \<Rightarrow> ndb_index_merger \<Rightarrow> bool" where
  "merger_inv db m \<longleftrightarrow> scan_order.in_order (im_key_type m) db \<and>
     (\<forall>s\<in>set (im_scanners m). wf_scan_key (im_key_type m) (is_group s)) \<and> length (im_scanners m) \<le> im_capacity m \<and>
     distinct (im_heap m) \<and> (\<forall>j\<in>set (im_heap m). j < length (im_scanners m) \<and> scanner_loaded db (im_since m) (im_scanners m ! j)) \<and>
     heap_order (hp m) (length (im_heap m))"

text \<open>The notes the merger still has to deliver.\<close>

definition merger_pending :: "index_db \<Rightarrow> ndb_index_merger \<Rightarrow> (u64 \<times> u64) multiset" where
  "merger_pending db m = (\<Sum>j\<in>#mset (im_heap m). mset (scanner_rest db (im_since m) (im_scanners m ! j)))"

lemma scan_item_pair [simp]: "(scan_stamp (fst e), snd (scan_item e)) = scan_item e"
  by (simp add: scan_item_def)

lemma scanner_load_spec:
  assumes db: "scan_order.in_order (im_key_type m) db" and g: "wf_scan_key (im_key_type m) (is_group s)" and i: "is_cur s = Some i" "i < length db"
  obtains r s' where "ndb_scanner_load db m s = (r, s')" "is_group s' = is_group s" "is_cur s' = is_cur s"
    "r \<longleftrightarrow> scanner_loaded db (im_since m) s'" "\<not> r \<Longrightarrow> scanner_rest db (im_since m) s = []"
proof -
  have w: "wf_scan_key (im_key_type m) (fst (db ! i))" using db i(2) by (auto simp: scan_order.in_order_def)
  show ?thesis
  proof (cases "scan_group (fst (db ! i)) = scan_group (is_group s)")
    case False
    then have "ndb_scanner_load db m s = (False, s)" using i scanner_in_group[OF w g] by (simp add: ndb_scanner_load_def)
    then show ?thesis using False i by (intro that[of False s]) (simp_all add: scanner_loaded_def scanner_rest_def scan_list_Suc)
  next
    case True
    let ?s = "s\<lparr>is_created_at := fst (scan_item (db ! i)), is_note_key := snd (scan_item (db ! i))\<rparr>"
    have l: "ndb_scanner_load db m s = (im_since m \<le> scan_stamp (fst (db ! i)), ?s)"
      using i True scanner_in_group[OF w g] by (simp add: ndb_scanner_load_def Let_def scanner_read_item)
    then show ?thesis using True i
      by (intro that[OF l]) (simp_all add: scanner_loaded_def scanner_rest_def scan_list_Suc)
  qed
qed

lemma scanner_rest_cong: "is_group s = is_group s' \<Longrightarrow> is_cur s = is_cur s' \<Longrightarrow> scanner_rest db since s = scanner_rest db since s'"
  by (simp add: scanner_rest_def)

lemma loaded_rest:
  assumes "scanner_loaded db since s" "is_cur s = Some i"
  shows "scanner_rest db since s = (is_created_at s, is_note_key s) # scan_list db since (is_group s) i"
  using assms by (simp add: scanner_loaded_def scanner_rest_def scan_list_Suc)

text \<open>Moving the scanner of the root on: it is loaded again exactly when its group has more.\<close>

lemma advance_spec:
  assumes db: "scan_order.in_order (im_key_type m) db" and g: "wf_scan_key (im_key_type m) (is_group s)"
    and l: "scanner_loaded db (im_since m) s"
  obtains r s' ys where
    "(case scanner_prev s of (back, s) \<Rightarrow> if back then ndb_scanner_load db m s else (False, s)) = (r, s')"
    "is_group s' = is_group s" "scanner_rest db (im_since m) s = (is_created_at s, is_note_key s) # ys"
    "r \<Longrightarrow> scanner_loaded db (im_since m) s'" "r \<Longrightarrow> scanner_rest db (im_since m) s' = ys" "\<not> r \<Longrightarrow> ys = []"
proof -
  obtain i where i: "is_cur s = Some i" "i < length db" using l by (auto simp: scanner_loaded_def split: option.splits)
  note rest = loaded_rest[OF l i(1)]
  show ?thesis
  proof (cases i)
    case 0
    then have "scanner_prev s = (False, s)" using i by (simp add: scanner_prev_def)
    then show ?thesis using rest 0 by (intro that[of False s]) simp_all
  next
    case (Suc k)
    have p: "scanner_prev s = (True, s\<lparr>is_cur := Some k\<rparr>)" using i Suc by (simp add: scanner_prev_def)
    obtain r s' where r: "ndb_scanner_load db m (s\<lparr>is_cur := Some k\<rparr>) = (r, s')" "is_group s' = is_group s" "is_cur s' = Some k"
      "r \<longleftrightarrow> scanner_loaded db (im_since m) s'" "\<not> r \<Longrightarrow> scanner_rest db (im_since m) (s\<lparr>is_cur := Some k\<rparr>) = []"
      using scanner_load_spec[OF db, of "s\<lparr>is_cur := Some k\<rparr>" k] g i Suc by (simp, metis)
    show ?thesis
      using p r rest Suc by (intro that[of r s' "scan_list db (im_since m) (is_group s) (Suc k)"]) (auto simp: scanner_rest_def)
  qed
qed


lemma pop_root: "h \<noteq> [] \<Longrightarrow> mset ((butlast h)[0 := last h]) = mset h - {#h ! 0#}"
  by (cases h; cases "tl h" rule: rev_cases) auto

lemma heap_update:
  assumes "distinct h" "j \<in> set h"
  shows "(\<Sum>k\<in>#mset h. f (xs ! k)) = f (xs ! j) + (\<Sum>k\<in>#mset h - {#j#}. f (xs[j := x] ! k))"
proof -
  have "k \<noteq> j" if "k \<in># mset h - {#j#}" for k using that assms by (simp flip: mset_remove1)
  then have "(\<Sum>k\<in>#mset h - {#j#}. f (xs[j := x] ! k)) = (\<Sum>k\<in>#mset h - {#j#}. f (xs ! k))"
    by (intro arg_cong[of _ _ sum_mset] image_mset_cong) (metis nth_list_update_neq)
  moreover have "mset h = add_mset j (mset h - {#j#})" using assms(2) by simp
  ultimately show ?thesis by (metis image_mset_add_mset sum_mset.add_mset)
qed

lemma merger_sift_spec:
  assumes "\<And>i. i < length (im_heap m) \<Longrightarrow> 0 < i \<Longrightarrow> par i \<noteq> 0 \<Longrightarrow> hp m i \<le> hp m (par i)"
  obtains h where "ndb_merger_sift m = m\<lparr>im_heap := h\<rparr>" "mset h = mset (im_heap m)" "heap_order (\<lambda>i. prio m (h ! i)) (length (im_heap m))"
proof (cases "im_heap m = []")
  case True
  then have "ndb_merger_sift m = m\<lparr>im_heap := im_heap m\<rparr>"
    by (simp add: ndb_merger_sift_def sift_loop.simps sift_big_def)
  then show ?thesis using True by (intro that[of "im_heap m"]) (simp_all add: heap_order_def)
next
  case False
  then have "heap_down (hp m) (length (im_heap m)) 0" using assms by (simp add: heap_down_def)
  then show ?thesis using sift_loop_heap[of 0 m] False that by (auto simp: ndb_merger_sift_def)
qed

lemma merger_next_unfold:
  assumes "im_heap m \<noteq> []" "im_heap m ! 0 < length (im_scanners m)"
    and "(case scanner_prev (im_scanners m ! (im_heap m ! 0)) of (back, s) \<Rightarrow> if back then ndb_scanner_load db m s else (False, s)) = (r, s')"
  shows "ndb_index_merger_next db m = Some (Some (is_note_key (im_scanners m ! (im_heap m ! 0))),
    ndb_merger_sift (m\<lparr>im_scanners := (im_scanners m)[im_heap m ! 0 := s'],
      im_heap := if r then im_heap m else (butlast (im_heap m))[0 := last (im_heap m)]\<rparr>))"
  using assms unfolding ndb_index_merger_next_def Let_def by (auto split: prod.splits)

lemma merger_pendingD:
  assumes inv: "merger_inv db m" and y: "y \<in># merger_pending db m"
  shows "im_heap m \<noteq> []" "fst y \<le> fst (hp m 0)"
proof -
  obtain j where j: "j \<in> set (im_heap m)" "y \<in> set (scanner_rest db (im_since m) (im_scanners m ! j))"
    using y by (auto simp: merger_pending_def)
  then show "im_heap m \<noteq> []" by auto
  have l: "scanner_loaded db (im_since m) (im_scanners m ! j)" using inv j(1) by (simp add: merger_inv_def)
  then obtain i where "is_cur (im_scanners m ! j) = Some i" by (auto simp: scanner_loaded_def split: option.splits)
  from loaded_rest[OF l this] have r: "scanner_rest db (im_since m) (im_scanners m ! j) = prio m j # scan_list db (im_since m) (is_group (im_scanners m ! j)) i"
    by (simp add: prio_def)
  have "sorted_wrt (\<lambda>x y. fst y \<le> fst x) (scanner_rest db (im_since m) (im_scanners m ! j))"
    unfolding scanner_rest_def by (rule scan_list_descending) (use inv in \<open>auto simp: merger_inv_def\<close>)
  then have "fst y \<le> fst (prio m j)" using j(2) unfolding r by auto
  also have "prio m j \<le> hp m 0"
    using inv j(1) heap_order_root[of "hp m"] by (auto simp: merger_inv_def in_set_conv_nth)
  then have "fst (prio m j) \<le> fst (hp m 0)" by (auto simp: less_eq_prod_def)
  finally show "fst y \<le> fst (hp m 0)" .
qed

lemma merger_next_empty: "im_heap m = [] \<Longrightarrow> ndb_index_merger_next db m = Some (None, m)"
  by (simp add: ndb_index_merger_next_def)

lemma merger_next_step:
  assumes inv: "merger_inv db m" and ne: "im_heap m \<noteq> []"
  obtains x m' where "ndb_index_merger_next db m = Some (Some (snd x), m')" "merger_inv db m'"
    "merger_pending db m = add_mset x (merger_pending db m')" "\<forall>y\<in>#merger_pending db m. fst y \<le> fst x"
proof -
  define j s where "j = im_heap m ! 0" and "s = im_scanners m ! j"
  have jm: "j \<in> set (im_heap m)" using ne by (simp add: j_def)
  then have j: "j < length (im_scanners m)" "scanner_loaded db (im_since m) s" and d: "distinct (im_heap m)"
    and db: "scan_order.in_order (im_key_type m) db" and ho: "heap_order (hp m) (length (im_heap m))"
    using inv by (auto simp: merger_inv_def s_def)
  have g: "wf_scan_key (im_key_type m) (is_group s)" using inv j(1) by (auto simp: merger_inv_def s_def)
  obtain r s' ys where a: "(case scanner_prev s of (back, s) \<Rightarrow> if back then ndb_scanner_load db m s else (False, s)) = (r, s')"
    "is_group s' = is_group s" "scanner_rest db (im_since m) s = (is_created_at s, is_note_key s) # ys"
    "r \<Longrightarrow> scanner_loaded db (im_since m) s'" "r \<Longrightarrow> scanner_rest db (im_since m) s' = ys" "\<not> r \<Longrightarrow> ys = []"
    using advance_spec[OF db g j(2)] by blast
  define h where "h = (if r then im_heap m else (butlast (im_heap m))[0 := last (im_heap m)])"
  define m1 where "m1 = m\<lparr>im_scanners := (im_scanners m)[j := s'], im_heap := h\<rparr>"
  have nx: "ndb_index_merger_next db m = Some (Some (is_note_key s), ndb_merger_sift m1)"
    unfolding m1_def h_def j_def s_def using ne j(1) a(1) unfolding j_def s_def by (rule merger_next_unfold)
  have mh: "mset h = mset (if r then im_heap m else remove1 j (im_heap m))"
    using pop_root[OF ne] by (simp add: h_def j_def)
  have hi: "h ! i = im_heap m ! i" "i < length (im_heap m)" "im_heap m ! i \<noteq> j" if "0 < i" "i < length h" for i
    using that d ne by (auto simp: h_def nth_butlast j_def nth_eq_iff_index_eq split: if_splits)
  have pr: "hp m1 i = hp m i" if "0 < i" "i < length h" for i
    using hi(1,3)[OF that] by (simp add: m1_def prio_def nth_list_update)
  obtain h' where h': "ndb_merger_sift m1 = m1\<lparr>im_heap := h'\<rparr>" "mset h' = mset (im_heap m1)"
    "heap_order (\<lambda>i. prio m1 (h' ! i)) (length (im_heap m1))"
  proof (rule merger_sift_spec[of m1])
    fix i assume i: "i < length (im_heap m1)" "0 < i" "par i \<noteq> 0"
    then have "i < length h" "par i < length h" using par_less[of i] by (simp_all add: m1_def)
    then show "hp m1 i \<le> hp m1 (par i)"
      using pr[of i] pr[of "par i"] i ho hi(2)[of i] by (simp add: heap_order_def)
  qed
  let ?m = "m1\<lparr>im_heap := h'\<rparr>"
  have mh': "mset h' = mset (if r then im_heap m else remove1 j (im_heap m))" using h'(2) mh by (simp add: m1_def)
  have hs: "distinct h'" "\<And>k. k \<in> set h' \<Longrightarrow> k \<in> set (im_heap m) \<and> (k = j \<longrightarrow> r)"
    using mset_eq_imp_distinct_iff[OF mh'] mset_eq_setD[OF mh'] d by (auto split: if_splits)
  have "k < length (im_scanners ?m) \<and> scanner_loaded db (im_since ?m) (im_scanners ?m ! k)" if "k \<in> set h'" for k
    using hs(2)[OF that] inv a(4) j(1) by (cases "k = j") (auto simp: merger_inv_def m1_def)
  moreover have "heap_order (hp ?m) (length h')"
    using h'(3) mset_eq_length[OF h'(2)] by (simp add: prio_def)
  moreover have "\<forall>s\<in>set (im_scanners ?m). wf_scan_key (im_key_type ?m) (is_group s)"
    using inv g a(2) set_update_subset_insert[of "im_scanners m" j s'] by (auto simp: m1_def merger_inv_def)
  ultimately have "merger_inv db ?m" using inv hs(1) by (simp add: merger_inv_def m1_def)
  moreover have "merger_pending db m = add_mset (is_created_at s, is_note_key s) (merger_pending db ?m)"
  proof -
    let ?f = "\<lambda>s. mset (scanner_rest db (im_since m) s)"
    have u: "merger_pending db m = ?f s + (\<Sum>k\<in>#mset (im_heap m) - {#j#}. ?f ((im_scanners m)[j := s'] ! k))"
      unfolding merger_pending_def s_def by (rule heap_update[OF d jm])
    have "merger_pending db ?m = (\<Sum>k\<in>#mset h'. ?f ((im_scanners m)[j := s'] ! k))"
      by (simp add: merger_pending_def m1_def)
    also have "\<dots> = mset ys + (\<Sum>k\<in>#mset (im_heap m) - {#j#}. ?f ((im_scanners m)[j := s'] ! k))"
    proof (cases r)
      case True
      then have "mset h' = add_mset j (mset (im_heap m) - {#j#})" using mh' jm by simp
      then show ?thesis using a(5)[OF True] j(1) by simp
    qed (use mh' a(6) in simp)
    finally show ?thesis unfolding u a(3) by simp
  qed
  moreover have "\<forall>y\<in>#merger_pending db m. fst y \<le> fst (is_created_at s, is_note_key s)"
    using merger_pendingD(2)[OF inv] by (auto simp: prio_def s_def j_def)
  ultimately show ?thesis using nx h'(1) by (intro that[of "(is_created_at s, is_note_key s)" ?m]) simp_all
qed

lemma heap_up_append:
  assumes "heap_order (hp m) (length (im_heap m))"
  shows "heap_up (hp (m\<lparr>im_heap := im_heap m @ [idx]\<rparr>)) (Suc (length (im_heap m))) (length (im_heap m))"
proof -
  let ?m = "m\<lparr>im_heap := im_heap m @ [idx]\<rparr>" and ?n = "length (im_heap m)"
  have e: "hp ?m i = hp m i" if "i < ?n" for i using that by (simp add: prio_def nth_append)
  have "hp ?m i \<le> hp ?m (par i)" if "i < Suc ?n" "0 < i" "i \<noteq> ?n" for i
    using that e[of i] e[of "par i"] assms par_less[of i] by (simp add: heap_order_def)
  moreover have "par i \<noteq> ?n" if "i < Suc ?n" "0 < i" for i using par_less[OF that(2)] that by simp
  ultimately show ?thesis unfolding heap_up_def by blast
qed

lemma merger_push_spec:
  assumes "heap_order (hp m) (length (im_heap m))" "length (im_heap m) < im_capacity m"
  obtains h where "ndb_merger_push m idx = Some (m\<lparr>im_heap := h\<rparr>)" "mset h = add_mset idx (mset (im_heap m))"
    "heap_order (\<lambda>i. prio m (h ! i)) (length h)"
proof -
  let ?m = "m\<lparr>im_heap := im_heap m @ [idx]\<rparr>"
  obtain h where h: "push_loop ?m (length (im_heap m)) = ?m\<lparr>im_heap := h\<rparr>" "mset h = mset (im_heap ?m)"
    "heap_order (\<lambda>i. prio ?m (h ! i)) (length (im_heap ?m))"
    using push_loop_heap[of "length (im_heap m)" ?m] heap_up_append[OF assms(1)] by auto
  show ?thesis using assms(2) h mset_eq_length[OF h(2)] by (intro that[of h]) (simp_all add: ndb_merger_push_def prio_def)
qed

lemma merger_init_inv:
  assumes "scan_order.in_order t db"
  shows "\<exists>m. ndb_index_merger_init True t since c = Some m \<and> merger_inv db m \<and> merger_pending db m = {#} \<and>
    im_scanners m = [] \<and> im_since m = since \<and> im_key_type m = t \<and> int (im_capacity m) = max 1 c"
  using assms by (simp add: ndb_index_merger_init_def merger_inv_def merger_pending_def heap_order_def)

lemma merger_append_scanner:
  assumes inv: "merger_inv db m" and cap: "length (im_scanners m) < im_capacity m" and g: "wf_scan_key (im_key_type m) (is_group s)"
  shows "merger_inv db (m\<lparr>im_scanners := im_scanners m @ [s]\<rparr>)" "merger_pending db (m\<lparr>im_scanners := im_scanners m @ [s]\<rparr>) = merger_pending db m"
proof -
  let ?m = "m\<lparr>im_scanners := im_scanners m @ [s]\<rparr>"
  have j: "j < length (im_scanners m)" "(im_scanners m @ [s]) ! j = im_scanners m ! j" if "j \<in> set (im_heap m)" for j
    using inv that by (auto simp: merger_inv_def nth_append)
  have "heap_order (hp ?m) (length (im_heap m))"
    using inv j(2) unfolding merger_inv_def heap_order_def prio_def by (auto dest!: par_less)
  then show "merger_inv db ?m" using inv cap g j by (auto simp: merger_inv_def less_Suc_eq)
  show "merger_pending db ?m = merger_pending db m"
    unfolding merger_pending_def by (rule arg_cong[of _ _ sum_mset]) (use j(2) in \<open>auto intro!: image_mset_cong\<close>)
qed

lemma merger_add_step:
  assumes inv: "merger_inv db m" and cap: "length (im_scanners m) < im_capacity m" and key: "wf_scan_key (im_key_type m) key" "n \<le> 288"
  obtains m' where "ndb_index_merger_add db True m key n = Some (True, m')" "merger_inv db m'"
    "merger_pending db m' = merger_pending db m + mset (scan_range db (im_since m) key)"
    "length (im_scanners m') = Suc (length (im_scanners m))" "im_capacity m' = im_capacity m" "im_since m' = im_since m" "im_key_type m' = im_key_type m"
proof -
  let ?s = "\<lparr>is_group = key, is_cur = None, is_created_at = 0, is_note_key = 0\<rparr>"
  have db: "scan_order.in_order (im_key_type m) db" using inv by (simp add: merger_inv_def)
  have range: "scanner_rest db (im_since m) (?s\<lparr>is_cur := ndb_cursor_start scan_key_cmp db key\<rparr>) = rev (scan_range db (im_since m) key)"
    using scan_list_start[OF db key(1)] by (simp add: scanner_rest_def)
  have ap: "merger_inv db (m\<lparr>im_scanners := im_scanners m @ [s]\<rparr>)" "merger_pending db (m\<lparr>im_scanners := im_scanners m @ [s]\<rparr>) = merger_pending db m"
    if "is_group s = key" for s using merger_append_scanner[OF inv cap] key that by simp_all
  show ?thesis
  proof (cases "ndb_cursor_start scan_key_cmp db key")
    case None
    then have "scan_range db (im_since m) key = []" using range by (simp add: scanner_rest_def)
    then show ?thesis using None cap key ap[of ?s]
      by (intro that[of "m\<lparr>im_scanners := im_scanners m @ [?s]\<rparr>"]) (simp_all add: ndb_index_merger_add_def)
  next
    case (Some i)
    then have i: "i < length db" using scan_order.cursor_start_greatest[OF db key(1)] by simp
    obtain r s where l: "ndb_scanner_load db m (?s\<lparr>is_cur := Some i\<rparr>) = (r, s)" "is_group s = key" "is_cur s = Some i"
      "r \<longleftrightarrow> scanner_loaded db (im_since m) s" "\<not> r \<Longrightarrow> scanner_rest db (im_since m) (?s\<lparr>is_cur := Some i\<rparr>) = []"
      using scanner_load_spec[OF db, of "?s\<lparr>is_cur := Some i\<rparr>" i] key i by (simp, metis)
    have rs: "scanner_rest db (im_since m) s = rev (scan_range db (im_since m) key)"
      using range Some l(2,3) by (simp add: scanner_rest_def)
    let ?m = "m\<lparr>im_scanners := im_scanners m @ [s]\<rparr>"
    show ?thesis
    proof (cases r)
      case False
      then have "ndb_index_merger_add db True m key n = Some (True, ?m)"
        using cap key Some l(1) by (simp add: ndb_index_merger_add_def Let_def)
      then show ?thesis using ap[OF l(2)] l(5)[OF False] range Some by (intro that[of ?m]) simp_all
    next
      case True
      have "card (set (im_heap m)) \<le> card {..<length (im_scanners m)}"
        by (rule card_mono) (use inv in \<open>auto simp: merger_inv_def\<close>)
      then have hl: "length (im_heap ?m) < im_capacity ?m"
        using inv cap by (simp add: merger_inv_def distinct_card)
      obtain h where h: "ndb_merger_push ?m (length (im_scanners m)) = Some (?m\<lparr>im_heap := h\<rparr>)"
        "mset h = add_mset (length (im_scanners m)) (mset (im_heap m))" "heap_order (\<lambda>i. prio ?m (h ! i)) (length h)"
        using merger_push_spec[of ?m "length (im_scanners m)"] ap(1)[OF l(2)] hl by (auto simp: merger_inv_def)
      have add: "ndb_index_merger_add db True m key n = Some (True, ?m\<lparr>im_heap := h\<rparr>)"
        using cap key Some l(1) True h(1) by (simp add: ndb_index_merger_add_def Let_def)
      have new: "length (im_scanners m) \<notin> set (im_heap m)" using inv by (auto simp: merger_inv_def)
      have sh: "set h = insert (length (im_scanners m)) (set (im_heap m))" using h(2) by (metis set_mset_add_mset_insert set_mset_mset)
      have "mset h = mset (length (im_scanners m) # im_heap m)" using h(2) by simp
      from mset_eq_imp_distinct_iff[OF this] have "distinct h" using new inv by (auto simp: merger_inv_def)
      then have "merger_inv db (?m\<lparr>im_heap := h\<rparr>)"
        using ap(1)[OF l(2)] h(3) sh l(4) True by (auto simp: merger_inv_def prio_def)
      moreover have "merger_pending db (?m\<lparr>im_heap := h\<rparr>) = mset (scanner_rest db (im_since m) s) + merger_pending db ?m"
        by (simp add: merger_pending_def h(2))
      ultimately show ?thesis using add ap(2)[OF l(2)] rs by (intro that[of "?m\<lparr>im_heap := h\<rparr>"]) simp_all
    qed
  qed
qed

section \<open>Building and draining\<close>

text \<open>
  The loops of the query plans that use the merger: every group is added, and then the
  notes are taken one by one. \<open>merger_take\<close> is what \<open>n\<close> calls of \<open>ndb_index_merger_next\<close> return.
\<close>

fun scan_key_size :: "scan_key \<Rightarrow> nat" where
  "scan_key_size (U64_Key _) = 16"
| "scan_key_size (Id_Key _) = 48"
| "scan_key_size (Relay_Key k) = length (enc_relay_key k)"

fun merger_add_all :: "index_db \<Rightarrow> ndb_index_merger \<Rightarrow> scan_key list \<Rightarrow> (bool \<times> ndb_index_merger) option" where
  "merger_add_all db m [] = Some (True, m)"
| "merger_add_all db m (k # ks) = do {
     (r, m) \<leftarrow> ndb_index_merger_add db True m k (scan_key_size k);
     if r then merger_add_all db m ks else Some (False, m) }"

fun merger_take :: "nat \<Rightarrow> index_db \<Rightarrow> ndb_index_merger \<Rightarrow> u64 list option" where
  "merger_take 0 db m = Some []"
| "merger_take (Suc n) db m = do {
     (r, m) \<leftarrow> ndb_index_merger_next db m;
     case r of None \<Rightarrow> Some [] | Some note_key \<Rightarrow> map_option ((#) note_key) (merger_take n db m) }"

lemma scan_key_size_max: "wf_scan_key t k \<Longrightarrow> scan_key_size k \<le> 288"
proof (cases k)
  case (Relay_Key x)
  assume "wf_scan_key t k"
  then have "length (rk_relay x) \<le> 248" using Relay_Key by (cases t) (simp_all add: relay_key_wf_def)
  then have h: "length (relay_key_head x) \<le> 274" by (simp add: relay_key_head_def)
  have "nat ((- int (length (relay_key_head x))) mod 8) \<le> 7" using pos_mod_bound[of 8 "- int (length (relay_key_head x))"] by linarith
  then show ?thesis using h unfolding Relay_Key scan_key_size.simps enc_relay_key_def Let_def length_append length_replicate by linarith
qed simp_all

lemma merger_add_all_spec:
  assumes "merger_inv db m" "length (im_scanners m) + length ks \<le> im_capacity m" "\<forall>k\<in>set ks. wf_scan_key (im_key_type m) k"
  shows "\<exists>m'. merger_add_all db m ks = Some (True, m') \<and> merger_inv db m' \<and> im_since m' = im_since m \<and>
    merger_pending db m' = merger_pending db m + (\<Sum>k\<in>#mset ks. mset (scan_range db (im_since m) k))"
  using assms
proof (induction ks arbitrary: m)
  case (Cons k ks)
  obtain m1 where 1: "ndb_index_merger_add db True m k (scan_key_size k) = Some (True, m1)" "merger_inv db m1"
    "merger_pending db m1 = merger_pending db m + mset (scan_range db (im_since m) k)"
    "length (im_scanners m1) = Suc (length (im_scanners m))" "im_capacity m1 = im_capacity m" "im_since m1 = im_since m" "im_key_type m1 = im_key_type m"
    using merger_add_step[of db m k "scan_key_size k"] Cons.prems scan_key_size_max by (metis add_Suc_right less_add_Suc1 length_Cons list.set_intros(1) order_less_le_trans)
  with Cons.IH[of m1] Cons.prems show ?case by (auto simp: add.assoc)
qed simp

lemma merger_take_spec:
  assumes "merger_inv db m"
  shows "\<exists>xs rest. merger_take n db m = Some (map snd xs) \<and> merger_pending db m = mset xs + rest \<and>
    sorted_wrt (\<lambda>x y. fst y \<le> fst x) xs \<and> (\<forall>x\<in>set xs. \<forall>y\<in>#rest. fst y \<le> fst x) \<and> length xs = min n (size (merger_pending db m))"
  using assms
proof (induction n arbitrary: m)
  case (Suc n)
  show ?case
  proof (cases "im_heap m = []")
    case True
    then show ?thesis by (intro exI[of _ "[]"] exI[of _ "{#}"]) (simp add: merger_next_empty merger_pending_def)
  next
    case False
    obtain x m' where x: "ndb_index_merger_next db m = Some (Some (snd x), m')" "merger_inv db m'"
      "merger_pending db m = add_mset x (merger_pending db m')" "\<forall>y\<in>#merger_pending db m. fst y \<le> fst x"
      using merger_next_step[OF Suc.prems False] by blast
    obtain xs rest where "merger_take n db m' = Some (map snd xs)" "merger_pending db m' = mset xs + rest"
      "sorted_wrt (\<lambda>x y. fst y \<le> fst x) xs" "\<forall>x\<in>set xs. \<forall>y\<in>#rest. fst y \<le> fst x" "length xs = min n (size (merger_pending db m'))"
      using Suc.IH[OF x(2)] by blast
    with x show ?thesis by (intro exI[of _ "x # xs"] exI[of _ rest]) auto
  qed
qed (auto intro: exI[of _ "[]"])

text \<open>
  C28 The merger delivers the notes of all its groups, newest first: whatever groups are added to a
  merger over a sorted index, \<open>n\<close> calls of \<open>ndb_index_merger_next\<close> return the \<open>n\<close> newest (or all, if
  there are fewer) of exactly the entries that lie in one of the groups, between \<open>since\<close> and the
  key the group was added with, in the order of their times and without loss or repetition.
\<close>

theorem merged_newest_first:
  assumes "\<forall>e\<in>set db. wf_scan_key t (fst e)" and "sorted (map (\<lambda>e. scan_rank (fst e)) db)"
    and "\<forall>k\<in>set ks. wf_scan_key t k" and "int (length ks) \<le> capacity"
  shows "\<exists>m m' xs rest. ndb_index_merger_init True t since capacity = Some m \<and> merger_add_all db m ks = Some (True, m') \<and>
    merger_take n db m' = Some (map snd xs) \<and> (\<Sum>k\<in>#mset ks. mset (scan_range db since k)) = mset xs + rest \<and>
    sorted_wrt (\<lambda>x y. fst y \<le> fst x) xs \<and> (\<forall>x\<in>set xs. \<forall>y\<in>#rest. fst y \<le> fst x) \<and>
    length xs = min n (size (\<Sum>k\<in>#mset ks. mset (scan_range db since k)))"
proof -
  have db: "scan_order.in_order t db" using assms(1,2) by (simp add: scan_order.in_order_def)
  obtain m where m: "ndb_index_merger_init True t since capacity = Some m" "merger_inv db m" "merger_pending db m = {#}"
    "im_scanners m = []" "im_since m = since" "im_key_type m = t" "int (im_capacity m) = max 1 capacity"
    using merger_init_inv[OF db] by metis
  have "length (im_scanners m) + length ks \<le> im_capacity m" using m(4,7) assms(4) by simp
  then obtain m' where "merger_add_all db m ks = Some (True, m')" "merger_inv db m'"
    "merger_pending db m' = (\<Sum>k\<in>#mset ks. mset (scan_range db since k))"
    using merger_add_all_spec[OF m(2), of ks] assms(3) m by auto
  then show ?thesis using m(1) merger_take_spec[of db m' n] by metis
qed

theorem merged_newest_first_witness:
  "let db = [(U64_Key (ndb_u64_ts_init 1 10), 7), (U64_Key (ndb_u64_ts_init 1 30), 8), (U64_Key (ndb_u64_ts_init 4 20), 9)];
       ks = [U64_Key (ndb_u64_ts_init 1 (-1)), U64_Key (ndb_u64_ts_init 4 (-1))]
   in \<exists>m m' xs rest. ndb_index_merger_init True NDB_SCAN_KEY_U64_TS 0 2 = Some m \<and> merger_add_all db m ks = Some (True, m') \<and>
    merger_take 3 db m' = Some (map snd xs) \<and> (\<Sum>k\<in>#mset ks. mset (scan_range db 0 k)) = mset xs + rest \<and>
    sorted_wrt (\<lambda>x y. fst y \<le> fst x) xs \<and> (\<forall>x\<in>set xs. \<forall>y\<in>#rest. fst y \<le> fst x) \<and>
    length xs = min 3 (size (\<Sum>k\<in>#mset ks. mset (scan_range db 0 k)))"
  unfolding Let_def
  by (rule merged_newest_first) (simp_all add: ndb_u64_ts_init_def)

end
