(* ===== verification/Note_Filter.thy ===== *)
theory Note_Filter
  imports Index_Keys "HOL-Library.Multiset"
begin

text \<open>
  Filters, in \<open>src/src/nostrdb.c\<close>: building them field by field, sorting their elements, and
  matching notes against them.

  The two buffers of a filter are modelled by their contents and sizes: the element buffer is the list
  of its field headers with their 64-bit elements (16 bytes for a header, 8 for an element), the
  data buffer is the list of the bytes written to it. Elements that stand for an id or a string are
  offsets into the data buffer, as in the code. The field in progress may be left
  uninitialised by a failed \<open>ndb_filter_start_field\<close>: using it then is undefined behaviour.
\<close>

section \<open>Data\<close>

datatype ndb_filter_fieldtype = NDB_FILTER_IDS | NDB_FILTER_AUTHORS | NDB_FILTER_KINDS | NDB_FILTER_TAGS | NDB_FILTER_SINCE
  | NDB_FILTER_UNTIL | NDB_FILTER_LIMIT | NDB_FILTER_SEARCH | NDB_FILTER_RELAYS | NDB_FILTER_CUSTOM

datatype ndb_generic_element_type = NDB_ELEMENT_UNKNOWN | NDB_ELEMENT_STRING | NDB_ELEMENT_ID | NDB_ELEMENT_INT | NDB_ELEMENT_CUSTOM

text \<open>The union of what a caller adds; a custom filter is the 16 bytes of its two pointers.\<close>

datatype ndb_filter_element = El_string "u8 list" | El_id "u8 list" | El_integer u64 | El_custom "u8 list"

record ndb_filter_elements =
  fe_type :: ndb_filter_fieldtype
  fe_elem_type :: ndb_generic_element_type
  fe_tag :: u8
  fe_elements :: "u64 list"

datatype field_slot = No_Field | Raw_Field | Open_Field ndb_filter_elements

record ndb_filter =
  f_fields :: "ndb_filter_elements list"
  f_current :: field_slot
  f_alloc :: bool
  f_elem_used :: int
  f_elem_cap :: int
  f_data :: "u8 list"
  f_data_cap :: int
  f_finalized :: bool

text \<open>What matching reads of a note. A string of a tag is packed, a packed id, or stored elsewhere.\<close>

datatype ndb_str = Packed_Str "u8 list" | Packed_Id "u8 list" | Offset_Str "u8 list"

record ndb_note =
  nt_id :: "u8 list"
  nt_pubkey :: "u8 list"
  nt_created_at :: u64
  nt_kind :: u32
  nt_tags :: "ndb_str list list"

section \<open>The library functions\<close>

fun insert_by :: "('a \<Rightarrow> 'a \<Rightarrow> int) \<Rightarrow> 'a \<Rightarrow> 'a list \<Rightarrow> 'a list" where
  "insert_by cmp x [] = [x]"
| "insert_by cmp x (y # ys) = (if cmp x y \<le> 0 then x # y # ys else y # insert_by cmp x ys)"

definition qsort :: "('a \<Rightarrow> 'a \<Rightarrow> int) \<Rightarrow> 'a list \<Rightarrow> 'a list" where
  "qsort cmp xs = foldr (insert_by cmp) xs []"

text \<open>\<open>cmp\<close> compares the key that is searched with an element.\<close>

function bsearch_loop :: "('a \<Rightarrow> int option) \<Rightarrow> 'a list \<Rightarrow> nat \<Rightarrow> nat \<Rightarrow> bool option" where
  "bsearch_loop cmp xs l u =
     (if l < u then
        let idx = (l + u) div 2 in
        do { comparison \<leftarrow> cmp (xs ! idx);
             if comparison < 0 then bsearch_loop cmp xs l idx
             else if comparison > 0 then bsearch_loop cmp xs (idx + 1) u
             else Some True }
      else Some False)"
  by pat_completeness auto
termination by (relation "measure (\<lambda>(_, _, l, u). u - l)") auto

declare bsearch_loop.simps [simp del]

definition bsearch :: "('a \<Rightarrow> int option) \<Rightarrow> 'a list \<Rightarrow> bool option" where
  "bsearch cmp xs = bsearch_loop cmp xs 0 (length xs)"

text \<open>\<open>strcmp\<close> on strings without their NUL: a shorter string ends in a smaller character.\<close>

fun strcmp :: "u8 list \<Rightarrow> u8 list \<Rightarrow> int" where
  "strcmp (a # as) (b # bs) = (if a = b then strcmp as bs else if a < b then -1 else 1)"
| "strcmp [] [] = 0"
| "strcmp [] (b # bs) = -1"
| "strcmp (a # as) [] = 1"

section \<open>Reading a filter\<close>

definition ndb_filter_elem_is_ptr :: "ndb_filter_elements \<Rightarrow> bool" where
  "ndb_filter_elem_is_ptr els \<longleftrightarrow> fe_elem_type els = NDB_ELEMENT_STRING \<or> fe_elem_type els = NDB_ELEMENT_ID"

text \<open>
  The offset is converted to \<open>int\<close>; \<open>None\<close> is the null pointer. Reading past what was written, like
  reading through the null pointer, is undefined behaviour.
\<close>

definition ndb_filter_elements_data :: "ndb_filter \<Rightarrow> u64 \<Rightarrow> nat option" where
  "ndb_filter_elements_data f off =
     (let o' = sint (ucast off :: u32) in
      if o' < 0 then None else if o' > int (length (f_data f)) then None else Some (nat o'))"

definition read_id :: "ndb_filter \<Rightarrow> u64 \<Rightarrow> u8 list option" where
  "read_id f off = do {
     p \<leftarrow> ndb_filter_elements_data f off;
     if p + 32 \<le> length (f_data f) then Some (take 32 (drop p (f_data f))) else None }"

definition read_str :: "ndb_filter \<Rightarrow> u64 \<Rightarrow> u8 list option" where
  "read_str f off = do {
     p \<leftarrow> ndb_filter_elements_data f off;
     if 0 \<in> set (drop p (f_data f)) then Some (takeWhile (\<lambda>c. c \<noteq> 0) (drop p (f_data f))) else None }"

definition read_custom :: "ndb_filter \<Rightarrow> ndb_filter_elements \<Rightarrow> u8 list option" where
  "read_custom f els = do {
     p \<leftarrow> (if fe_elements els = [] then None else ndb_filter_elements_data f (hd (fe_elements els)));
     if p + 16 \<le> length (f_data f) then Some (take 16 (drop p (f_data f))) else None }"

definition ndb_filter_get_elements :: "ndb_filter \<Rightarrow> int \<Rightarrow> ndb_filter_elements option" where
  "ndb_filter_get_elements f index =
     (if f_fields f = [] then None
      else if index > int (length (f_fields f)) - 1 then None
      else Some (f_fields f ! nat index))"

definition ndb_filter_find_elements :: "ndb_filter \<Rightarrow> ndb_filter_fieldtype \<Rightarrow> ndb_filter_elements option" where
  "ndb_filter_find_elements f typ = List.find (\<lambda>els. fe_type els = typ) (f_fields f)"

text \<open>The inner \<open>None\<close> is the null pointer.\<close>

definition ndb_filter_find_search :: "ndb_filter \<Rightarrow> u8 list option option" where
  "ndb_filter_find_search f =
     (case ndb_filter_find_elements f NDB_FILTER_SEARCH of
        None \<Rightarrow> Some None
      | Some els \<Rightarrow> (case fe_elements els of [] \<Rightarrow> None | off # _ \<Rightarrow> map_option Some (read_str f off)))"

definition ndb_filter_get_int :: "ndb_filter \<Rightarrow> ndb_filter_fieldtype \<Rightarrow> u64 option option" where
  "ndb_filter_get_int f typ =
     (case ndb_filter_find_elements f typ of
        None \<Rightarrow> Some None
      | Some els \<Rightarrow> (case fe_elements els of [] \<Rightarrow> None | x # _ \<Rightarrow> Some (Some x)))"

section \<open>Building a filter\<close>

text \<open>\<open>malloc_ok\<close> is the success of the allocation of the buffer.\<close>

definition ndb_filter_init_with :: "bool \<Rightarrow> int \<Rightarrow> ndb_filter option" where
  "ndb_filter_init_with malloc_ok pages =
     (let buf_size = 4096 * pages; elem_size = buf_size div 4; data_size = buf_size - elem_size in
      if \<not> malloc_ok then None
      else Some \<lparr>f_fields = [], f_current = No_Field, f_alloc = True, f_elem_used = 0, f_elem_cap = elem_size,
                 f_data = [], f_data_cap = data_size, f_finalized = False\<rparr>)"

definition ndb_filter_init :: "bool \<Rightarrow> ndb_filter option" where
  "ndb_filter_init malloc_ok = ndb_filter_init_with malloc_ok 64"

definition ndb_filter_init_for_ids :: "bool \<Rightarrow> int \<Rightarrow> ndb_filter option" where
  "ndb_filter_init_for_ids malloc_ok num_ids =
     (let pages = num_ids div ((4096 * 3 div 4) div 32) + 2;
          pages = (if pages < 64 then 64 else pages)
      in ndb_filter_init_with malloc_ok pages)"

definition ndb_filter_start_field_impl :: "ndb_filter \<Rightarrow> ndb_filter_fieldtype \<Rightarrow> u8 \<Rightarrow> (bool \<times> ndb_filter) option" where
  "ndb_filter_start_field_impl f field tag =
     (if f_current f \<noteq> No_Field then Some (False, f)
      else if \<exists>el\<in>set (f_fields f). fe_type el = field \<and> field \<noteq> NDB_FILTER_TAGS then Some (False, f)
      else if \<not> f_alloc f then None
      else if f_elem_used f + 16 \<ge> f_elem_cap f then Some (False, f\<lparr>f_current := Raw_Field\<rparr>)
      else Some (True, f\<lparr>f_elem_used := f_elem_used f + 16,
        f_current := Open_Field \<lparr>fe_type = field, fe_elem_type = NDB_ELEMENT_UNKNOWN, fe_tag = tag, fe_elements = []\<rparr>\<rparr>))"

definition ndb_filter_start_field :: "ndb_filter \<Rightarrow> ndb_filter_fieldtype \<Rightarrow> (bool \<times> ndb_filter) option" where
  "ndb_filter_start_field f field = ndb_filter_start_field_impl f field 0"

definition ndb_filter_start_tag_field :: "ndb_filter \<Rightarrow> u8 \<Rightarrow> (bool \<times> ndb_filter) option" where
  "ndb_filter_start_tag_field f tag = ndb_filter_start_field_impl f NDB_FILTER_TAGS tag"

definition data_push :: "ndb_filter \<Rightarrow> u8 list \<Rightarrow> bool \<times> ndb_filter" where
  "data_push f bs =
     (if int (length (f_data f) + length bs) > f_data_cap f then (False, f)
      else (True, f\<lparr>f_data := f_data f @ bs\<rparr>))"

definition data_push_str :: "ndb_filter \<Rightarrow> u8 list \<Rightarrow> bool \<times> ndb_filter" where
  "data_push_str f s = (let (r, f) = data_push f s in if r then data_push f [0] else (False, f))"

text \<open>
  Storing the data of an element: success, the filter, and the value for the element buffer. The
  callers give an element of the kind the field takes; another one would be a wrong use of the union.
\<close>

fun store_element :: "ndb_filter \<Rightarrow> ndb_filter_elements \<Rightarrow> ndb_filter_element \<Rightarrow> (bool \<times> ndb_filter \<times> u64) option" where
  "store_element f current el =
     (let offset = word_of_nat (length (f_data f)) in
      case fe_type current of
        NDB_FILTER_CUSTOM \<Rightarrow> (case el of El_custom bs \<Rightarrow> (let (r, f) = data_push f bs in Some (r, f, offset)) | _ \<Rightarrow> None)
      | NDB_FILTER_IDS \<Rightarrow> (case el of El_id i \<Rightarrow> (let (r, f) = data_push f (take 32 i) in Some (r, f, offset)) | _ \<Rightarrow> None)
      | NDB_FILTER_AUTHORS \<Rightarrow> (case el of El_id i \<Rightarrow> (let (r, f) = data_push f (take 32 i) in Some (r, f, offset)) | _ \<Rightarrow> None)
      | NDB_FILTER_KINDS \<Rightarrow> (case el of El_integer n \<Rightarrow> Some (True, f, n) | _ \<Rightarrow> None)
      | NDB_FILTER_SEARCH \<Rightarrow>
          if fe_elem_type current \<noteq> NDB_ELEMENT_STRING then Some (False, f, offset)
          else (case el of El_string s \<Rightarrow> (let (r, f) = data_push_str f s in Some (r, f, offset)) | _ \<Rightarrow> None)
      | NDB_FILTER_TAGS \<Rightarrow>
          (case fe_elem_type current of
             NDB_ELEMENT_ID \<Rightarrow> (case el of El_id i \<Rightarrow> (let (r, f) = data_push f (take 32 i) in Some (r, f, offset)) | _ \<Rightarrow> None)
           | NDB_ELEMENT_STRING \<Rightarrow> (case el of El_string s \<Rightarrow> (let (r, f) = data_push_str f s in Some (r, f, offset)) | _ \<Rightarrow> None)
           | _ \<Rightarrow> Some (False, f, offset))
      | NDB_FILTER_RELAYS \<Rightarrow>
          if fe_elem_type current \<noteq> NDB_ELEMENT_STRING then Some (False, f, offset)
          else (case el of El_string s \<Rightarrow> (let (r, f) = data_push_str f s in Some (r, f, offset)) | _ \<Rightarrow> None)
      | _ \<Rightarrow>
          if fe_elements current \<noteq> [] then Some (False, f, offset)
          else (case el of El_integer n \<Rightarrow> Some (True, f, n) | _ \<Rightarrow> None))"

definition ndb_filter_add_element :: "ndb_filter \<Rightarrow> ndb_filter_element \<Rightarrow> (bool \<times> ndb_filter) option" where
  "ndb_filter_add_element f el =
     (case f_current f of
        No_Field \<Rightarrow> Some (False, f)
      | Raw_Field \<Rightarrow> None
      | Open_Field current \<Rightarrow> do {
          (r, f, offset) \<leftarrow> store_element f current el;
          if \<not> r then Some (False, f)
          else if f_elem_used f + 8 > f_elem_cap f then Some (False, f)
          else Some (True, f\<lparr>f_elem_used := f_elem_used f + 8,
                            f_current := Open_Field (current\<lparr>fe_elements := fe_elements current @ [offset]\<rparr>)\<rparr>) })"

definition ndb_filter_set_elem_type :: "ndb_filter \<Rightarrow> ndb_generic_element_type \<Rightarrow> (bool \<times> ndb_filter) option" where
  "ndb_filter_set_elem_type f elem_type =
     (case f_current f of
        No_Field \<Rightarrow> Some (False, f)
      | Raw_Field \<Rightarrow> None
      | Open_Field current \<Rightarrow>
          if fe_elem_type current \<noteq> elem_type \<and> fe_elem_type current \<noteq> NDB_ELEMENT_UNKNOWN then Some (False, f)
          else Some (True, f\<lparr>f_current := Open_Field (current\<lparr>fe_elem_type := elem_type\<rparr>)\<rparr>))"

text \<open>The part the four functions that add an element share: the field must take such an element.\<close>

definition add_typed_element ::
  "(ndb_filter_elements \<Rightarrow> bool) \<Rightarrow> ndb_generic_element_type \<Rightarrow> ndb_filter \<Rightarrow> ndb_filter_element \<Rightarrow> (bool \<times> ndb_filter) option" where
  "add_typed_element allowed elem_type f el =
     (case f_current f of
        No_Field \<Rightarrow> Some (False, f)
      | Raw_Field \<Rightarrow> None
      | Open_Field current \<Rightarrow>
          if \<not> allowed current then Some (False, f)
          else do {
            (r, f) \<leftarrow> ndb_filter_set_elem_type f elem_type;
            if \<not> r then Some (False, f) else ndb_filter_add_element f el })"

definition ndb_filter_add_str_element_len :: "ndb_filter \<Rightarrow> u8 list \<Rightarrow> (bool \<times> ndb_filter) option" where
  "ndb_filter_add_str_element_len f s =
     add_typed_element (\<lambda>current. (fe_type current = NDB_FILTER_SEARCH \<and> length (fe_elements current) \<noteq> 1) \<or>
         fe_type current = NDB_FILTER_RELAYS \<or> fe_type current = NDB_FILTER_TAGS)
       NDB_ELEMENT_STRING f (El_string s)"

definition ndb_filter_add_str_element :: "ndb_filter \<Rightarrow> u8 list \<Rightarrow> (bool \<times> ndb_filter) option" where
  "ndb_filter_add_str_element f s = ndb_filter_add_str_element_len f s"

definition ndb_filter_add_custom_filter_element :: "ndb_filter \<Rightarrow> u8 list \<Rightarrow> (bool \<times> ndb_filter) option" where
  "ndb_filter_add_custom_filter_element f custom =
     add_typed_element (\<lambda>current. fe_type current = NDB_FILTER_CUSTOM) NDB_ELEMENT_CUSTOM f (El_custom custom)"

definition ndb_filter_add_int_element :: "ndb_filter \<Rightarrow> u64 \<Rightarrow> (bool \<times> ndb_filter) option" where
  "ndb_filter_add_int_element f integer =
     add_typed_element (\<lambda>current. fe_type current = NDB_FILTER_KINDS \<or> fe_type current = NDB_FILTER_SINCE \<or>
         fe_type current = NDB_FILTER_UNTIL \<or> fe_type current = NDB_FILTER_LIMIT)
       NDB_ELEMENT_INT f (El_integer integer)"

definition ndb_filter_add_id_element :: "ndb_filter \<Rightarrow> u8 list \<Rightarrow> (bool \<times> ndb_filter) option" where
  "ndb_filter_add_id_element f i =
     add_typed_element (\<lambda>current. fe_type current = NDB_FILTER_IDS \<or> fe_type current = NDB_FILTER_AUTHORS \<or>
         fe_type current = NDB_FILTER_TAGS)
       NDB_ELEMENT_ID f (El_id i)"

text \<open>The comparison functions work on the data the elements point to.\<close>

definition data_at :: "ndb_filter \<Rightarrow> u64 \<Rightarrow> u8 list" where
  "data_at f off = drop (unat off) (f_data f)"

definition compare_ids :: "ndb_filter \<Rightarrow> u64 \<Rightarrow> u64 \<Rightarrow> int" where
  "compare_ids f a b = memcmp (take 32 (data_at f a)) (take 32 (data_at f b))"

definition compare_strs :: "ndb_filter \<Rightarrow> u64 \<Rightarrow> u64 \<Rightarrow> int" where
  "compare_strs f a b = strcmp (takeWhile (\<lambda>c. c \<noteq> 0) (data_at f a)) (takeWhile (\<lambda>c. c \<noteq> 0) (data_at f b))"

definition compare_kinds :: "u64 \<Rightarrow> u64 \<Rightarrow> int" where
  "compare_kinds a b = (if a < b then -1 else if a > b then 1 else 0)"

text \<open>Sorting pointers asserts that the field has elements of a pointer type.\<close>

definition sort_filter_elements :: "ndb_filter_elements \<Rightarrow> (u64 \<Rightarrow> u64 \<Rightarrow> int) \<Rightarrow> ndb_filter_elements option" where
  "sort_filter_elements els cmp =
     (if \<not> ndb_filter_elem_is_ptr els then None
      else Some (els\<lparr>fe_elements := qsort cmp (fe_elements els)\<rparr>))"

text \<open>The array of field offsets has room for ten fields.\<close>

definition ndb_filter_end_field :: "ndb_filter \<Rightarrow> ndb_filter option" where
  "ndb_filter_end_field f =
     (case f_current f of
        No_Field \<Rightarrow> Some f
      | Raw_Field \<Rightarrow> None
      | Open_Field cur \<Rightarrow>
          if length (f_fields f) \<ge> 10 then None
          else do {
            cur \<leftarrow> (case fe_type cur of
                NDB_FILTER_IDS \<Rightarrow> sort_filter_elements cur (compare_ids f)
              | NDB_FILTER_AUTHORS \<Rightarrow> sort_filter_elements cur (compare_ids f)
              | NDB_FILTER_RELAYS \<Rightarrow> sort_filter_elements cur (compare_strs f)
              | NDB_FILTER_KINDS \<Rightarrow> Some (cur\<lparr>fe_elements := qsort compare_kinds (fe_elements cur)\<rparr>)
              | _ \<Rightarrow> Some cur);
            Some (f\<lparr>f_fields := f_fields f @ [cur], f_current := No_Field\<rparr>) })"

text \<open>
  Finalising moves the data behind the elements and shrinks the buffer, which is taken to succeed.
  A filter without fields gives its buffer back.
\<close>

definition ndb_filter_end :: "ndb_filter \<Rightarrow> (bool \<times> ndb_filter) option" where
  "ndb_filter_end f =
     (if \<not> f_alloc f then None
      else if f_finalized f then Some (False, f)
      else
        let data_len = int (length (f_data f)); elem_len = f_elem_used f; f = f\<lparr>f_elem_cap := elem_len\<rparr>;
            f = (if elem_len + data_len = 0 then f\<lparr>f_alloc := False, f_data_cap := 0\<rparr> else f\<lparr>f_data_cap := data_len\<rparr>)
        in Some (True, f\<lparr>f_finalized := True\<rparr>))"

text \<open>A clone has its own buffer; \<open>malloc_ok\<close> says whether the allocation returned a buffer.\<close>

definition ndb_filter_clone :: "bool \<Rightarrow> ndb_filter \<Rightarrow> ndb_filter option" where
  "ndb_filter_clone malloc_ok src =
     (if \<not> f_finalized src then None
      else if \<not> malloc_ok then None
      else Some (src\<lparr>f_alloc := True, f_elem_used := f_elem_cap src\<rparr>))"

definition ndb_filter_destroy :: "ndb_filter \<Rightarrow> ndb_filter" where
  "ndb_filter_destroy f =
     f\<lparr>f_fields := [], f_current := No_Field, f_alloc := False, f_elem_used := 0, f_elem_cap := 0,
       f_data := [], f_data_cap := 0, f_finalized := False\<rparr>"

section \<open>Matching\<close>

text \<open>Does the character at the start of the string equal the tag, with nothing after it?\<close>

definition single_letter :: "u8 list \<Rightarrow> u8 \<Rightarrow> bool" where
  "single_letter s tag \<longleftrightarrow> (s @ [0, 0]) ! 0 = tag \<and> (s @ [0, 0]) ! 1 = 0"

fun tag_element_loop :: "ndb_filter \<Rightarrow> ndb_generic_element_type \<Rightarrow> u64 list \<Rightarrow> u8 list \<Rightarrow> bool option" where
  "tag_element_loop f typ [] s = Some False"
| "tag_element_loop f typ (off # offs) s =
     (case typ of
        NDB_ELEMENT_ID \<Rightarrow> do { i \<leftarrow> read_id f off; if memcmp i s = 0 then Some True else tag_element_loop f typ offs s }
      | NDB_ELEMENT_STRING \<Rightarrow> do { e \<leftarrow> read_str f off; if strcmp e s = 0 then Some True else tag_element_loop f typ offs s }
      | _ \<Rightarrow> Some False)"

text \<open>\<open>None\<close> as the inner value goes on with the next tag.\<close>

definition tag_step :: "ndb_filter \<Rightarrow> ndb_filter_elements \<Rightarrow> ndb_str list \<Rightarrow> bool option option" where
  "tag_step f els tag =
     (if length tag < 2 then Some None
      else case tag ! 0 of
        Packed_Str s \<Rightarrow>
          if \<not> single_letter s (fe_tag els) then Some None
          else (case fe_elem_type els of
              NDB_ELEMENT_ID \<Rightarrow>
                (case tag ! 1 of Packed_Id i \<Rightarrow> map_option (\<lambda>r. if r then Some True else None) (tag_element_loop f NDB_ELEMENT_ID (fe_elements els) i)
                 | _ \<Rightarrow> Some None)
            | NDB_ELEMENT_STRING \<Rightarrow>
                (case tag ! 1 of
                   Packed_Id i \<Rightarrow> Some None
                 | Packed_Str s \<Rightarrow> map_option (\<lambda>r. if r then Some True else None) (tag_element_loop f NDB_ELEMENT_STRING (fe_elements els) s)
                 | Offset_Str s \<Rightarrow> map_option (\<lambda>r. if r then Some True else None) (tag_element_loop f NDB_ELEMENT_STRING (fe_elements els) s))
            | _ \<Rightarrow> Some (Some False))
      | _ \<Rightarrow> Some None)"

fun tag_loop :: "ndb_filter \<Rightarrow> ndb_filter_elements \<Rightarrow> ndb_str list list \<Rightarrow> bool option" where
  "tag_loop f els [] = Some False"
| "tag_loop f els (tag # tags) = do {
     r \<leftarrow> tag_step f els tag;
     case r of Some b \<Rightarrow> Some b | None \<Rightarrow> tag_loop f els tags }"

definition ndb_tag_filter_matches :: "ndb_filter \<Rightarrow> ndb_filter_elements \<Rightarrow> ndb_note \<Rightarrow> bool option" where
  "ndb_tag_filter_matches f els note = tag_loop f els (nt_tags note)"

definition search_ids :: "ndb_filter \<Rightarrow> u8 list \<Rightarrow> u64 \<Rightarrow> int option" where
  "search_ids f key off = map_option (memcmp key) (read_id f off)"

definition search_strs :: "ndb_filter \<Rightarrow> u8 list \<Rightarrow> u64 \<Rightarrow> int option" where
  "search_strs f key off = map_option (strcmp key) (read_str f off)"

fun relay_loop :: "ndb_filter \<Rightarrow> u64 list \<Rightarrow> u8 list list \<Rightarrow> bool option" where
  "relay_loop f offs [] = Some False"
| "relay_loop f offs (r # rs) = do {
     found \<leftarrow> bsearch (search_strs f r) offs;
     if found then Some True else relay_loop f offs rs }"

text \<open>
  The test for one field. The custom callback is a parameter, and the relays of the note are
  what the relay iterator delivers, if the caller has one.
\<close>

definition field_matches ::
  "(u8 list \<Rightarrow> ndb_note \<Rightarrow> bool) \<Rightarrow> ndb_filter \<Rightarrow> ndb_note \<Rightarrow> u8 list list option \<Rightarrow> ndb_filter_elements \<Rightarrow> bool option" where
  "field_matches cb f note relay_iter els =
     (case fe_type els of
        NDB_FILTER_KINDS \<Rightarrow> Some (\<exists>x\<in>set (fe_elements els). (ucast x :: u32) = nt_kind note)
      | NDB_FILTER_RELAYS \<Rightarrow> (case relay_iter of None \<Rightarrow> None | Some relays \<Rightarrow> relay_loop f (fe_elements els) relays)
      | NDB_FILTER_IDS \<Rightarrow> bsearch (search_ids f (nt_id note)) (fe_elements els)
      | NDB_FILTER_AUTHORS \<Rightarrow> bsearch (search_ids f (nt_pubkey note)) (fe_elements els)
      | NDB_FILTER_TAGS \<Rightarrow> ndb_tag_filter_matches f els note
      | NDB_FILTER_SINCE \<Rightarrow> (case fe_elements els of [x] \<Rightarrow> Some (nt_created_at note \<ge> x) | _ \<Rightarrow> None)
      | NDB_FILTER_UNTIL \<Rightarrow> (case fe_elements els of [x] \<Rightarrow> Some (nt_created_at note < x) | _ \<Rightarrow> None)
      | NDB_FILTER_SEARCH \<Rightarrow> Some True
      | NDB_FILTER_CUSTOM \<Rightarrow> map_option (\<lambda>c. cb c note) (read_custom f els)
      | NDB_FILTER_LIMIT \<Rightarrow> Some True)"

fun fields_match ::
  "(ndb_filter_elements \<Rightarrow> bool option) \<Rightarrow> ndb_filter_fieldtype list \<Rightarrow> ndb_filter_elements list \<Rightarrow> bool option" where
  "fields_match matches already [] = Some True"
| "fields_match matches already (els # flds) =
     (if fe_type els \<in> set already then fields_match matches already flds
      else do {
        r \<leftarrow> matches els;
        if r then fields_match matches already flds else Some False })"

text \<open>The bits of \<open>already_matched\<close> are a list of field types.\<close>

definition ndb_filter_matches_with ::
  "(u8 list \<Rightarrow> ndb_note \<Rightarrow> bool) \<Rightarrow> ndb_filter \<Rightarrow> ndb_note \<Rightarrow> ndb_filter_fieldtype list \<Rightarrow> u8 list list option \<Rightarrow> bool option" where
  "ndb_filter_matches_with cb f note already_matched relay_iter =
     fields_match (field_matches cb f note relay_iter) already_matched (f_fields f)"

definition ndb_filter_matches :: "(u8 list \<Rightarrow> ndb_note \<Rightarrow> bool) \<Rightarrow> ndb_filter \<Rightarrow> ndb_note \<Rightarrow> bool option" where
  "ndb_filter_matches cb f note = ndb_filter_matches_with cb f note [] None"

definition ndb_filter_matches_with_relay ::
  "(u8 list \<Rightarrow> ndb_note \<Rightarrow> bool) \<Rightarrow> ndb_filter \<Rightarrow> ndb_note \<Rightarrow> u8 list list option \<Rightarrow> bool option" where
  "ndb_filter_matches_with_relay cb f note relay_iter = ndb_filter_matches_with cb f note [] relay_iter"

section \<open>Comparing filters\<close>

fun elements_eq :: "ndb_filter \<Rightarrow> ndb_filter \<Rightarrow> ndb_filter_elements \<Rightarrow> ndb_filter_elements \<Rightarrow> (u64 \<times> u64) list \<Rightarrow> bool option" where
  "elements_eq a b a_field b_field [] = Some True"
| "elements_eq a b a_field b_field ((x, y) # xys) = do {
     same \<leftarrow> (case fe_elem_type a_field of
         NDB_ELEMENT_CUSTOM \<Rightarrow> do { p \<leftarrow> read_custom a a_field; q \<leftarrow> read_custom b b_field; Some (memcmp p q = 0) }
       | NDB_ELEMENT_UNKNOWN \<Rightarrow> Some False
       | NDB_ELEMENT_STRING \<Rightarrow> do { p \<leftarrow> read_str a x; q \<leftarrow> read_str b y; Some (strcmp p q = 0) }
       | NDB_ELEMENT_ID \<Rightarrow> do { p \<leftarrow> read_id a x; q \<leftarrow> read_id b y; Some (memcmp p q = 0) }
       | NDB_ELEMENT_INT \<Rightarrow> Some (x = y));
     if same then elements_eq a b a_field b_field xys else Some False }"

definition ndb_filter_field_eq :: "ndb_filter \<Rightarrow> ndb_filter_elements \<Rightarrow> ndb_filter \<Rightarrow> ndb_filter_elements \<Rightarrow> bool option" where
  "ndb_filter_field_eq a a_field b b_field =
     (if length (fe_elements a_field) \<noteq> length (fe_elements b_field) then Some False
      else if fe_type a_field \<noteq> fe_type b_field then Some False
      else if fe_elem_type a_field \<noteq> fe_elem_type b_field then Some False
      else if fe_elem_type a_field = NDB_ELEMENT_UNKNOWN then Some False
      else elements_eq a b a_field b_field (zip (fe_elements a_field) (fe_elements b_field)))"

text \<open>Every field of the list has an equal first field of its type in the other filter.\<close>

fun fields_eq :: "(ndb_filter_elements \<Rightarrow> ndb_filter_elements \<Rightarrow> bool option) \<Rightarrow> ndb_filter \<Rightarrow> ndb_filter_elements list \<Rightarrow> bool option" where
  "fields_eq eq other [] = Some True"
| "fields_eq eq other (els # flds) =
     (case ndb_filter_find_elements other (fe_type els) of
        None \<Rightarrow> Some False
      | Some els' \<Rightarrow> do { r \<leftarrow> eq els els'; if r then fields_eq eq other flds else Some False })"

definition ndb_filter_eq :: "ndb_filter \<Rightarrow> ndb_filter \<Rightarrow> bool option" where
  "ndb_filter_eq a b =
     (if length (f_fields a) \<noteq> length (f_fields b) then Some False
      else fields_eq (\<lambda>a_els b_els. ndb_filter_field_eq a a_els b b_els) b (f_fields a))"

definition ndb_filter_is_subset_of :: "ndb_filter \<Rightarrow> ndb_filter \<Rightarrow> bool option" where
  "ndb_filter_is_subset_of a b =
     (if f_fields b = [] then Some True
      else if length (f_fields b) > length (f_fields a) then Some False
      else if length (f_fields b) = length (f_fields a) then ndb_filter_eq a b
      else fields_eq (\<lambda>b_field a_field. ndb_filter_field_eq a a_field b b_field) a (f_fields b))"

section \<open>Groups\<close>

text \<open>A group is the list of its filters, at most 16 of them.\<close>

definition ndb_filter_group_init :: "ndb_filter option list" where
  "ndb_filter_group_init = []"

text \<open>A failed clone still takes a slot, with a filter that is only partly initialised.\<close>

definition ndb_filter_group_add :: "bool \<Rightarrow> ndb_filter option list \<Rightarrow> ndb_filter \<Rightarrow> bool \<times> ndb_filter option list" where
  "ndb_filter_group_add malloc_ok grp f =
     (if length grp + 1 > 16 then (False, grp)
      else let c = ndb_filter_clone malloc_ok f in (c \<noteq> None, grp @ [c]))"

fun ndb_filter_group_add_filters :: "bool \<Rightarrow> ndb_filter option list \<Rightarrow> ndb_filter list \<Rightarrow> bool \<times> ndb_filter option list" where
  "ndb_filter_group_add_filters malloc_ok grp [] = (True, grp)"
| "ndb_filter_group_add_filters malloc_ok grp (f # fs) =
     (let (r, grp) = ndb_filter_group_add malloc_ok grp f in
      if r then ndb_filter_group_add_filters malloc_ok grp fs else (False, grp))"

fun group_loop :: "(u8 list \<Rightarrow> ndb_note \<Rightarrow> bool) \<Rightarrow> ndb_filter option list \<Rightarrow> ndb_note \<Rightarrow> bool option" where
  "group_loop cb [] note = Some False"
| "group_loop cb (None # fs) note = None"
| "group_loop cb (Some f # fs) note = do {
     r \<leftarrow> ndb_filter_matches cb f note;
     if r then Some True else group_loop cb fs note }"

definition ndb_filter_group_matches :: "(u8 list \<Rightarrow> ndb_note \<Rightarrow> bool) \<Rightarrow> ndb_filter option list \<Rightarrow> ndb_note \<Rightarrow> bool option" where
  "ndb_filter_group_matches cb grp note = (if grp = [] then Some True else group_loop cb grp note)"

section \<open>Query plans\<close>

datatype ndb_query_plan = NDB_PLAN_ALL_NOTES | NDB_PLAN_KINDS | NDB_PLAN_IDS | NDB_PLAN_AUTHORS | NDB_PLAN_AUTHOR_KINDS
  | NDB_PLAN_CREATED | NDB_PLAN_TAGS | NDB_PLAN_SEARCH | NDB_PLAN_RELAY_KINDS | NDB_PLAN_PROFILE_SEARCH

definition filter_is_empty :: "ndb_filter \<Rightarrow> bool" where
  "filter_is_empty f \<longleftrightarrow> \<not> f_alloc f"

text \<open>A kinds field with one element; the products of the counts fit an \<open>int\<close>.\<close>

definition ndb_filter_plan :: "ndb_filter \<Rightarrow> ndb_query_plan" where
  "ndb_filter_plan f =
     (let ids = ndb_filter_find_elements f NDB_FILTER_IDS; search = ndb_filter_find_elements f NDB_FILTER_SEARCH;
          kinds = ndb_filter_find_elements f NDB_FILTER_KINDS; authors = ndb_filter_find_elements f NDB_FILTER_AUTHORS;
          tags = ndb_filter_find_elements f NDB_FILTER_TAGS; relays = ndb_filter_find_elements f NDB_FILTER_RELAYS;
          count = (\<lambda>e. case e of None \<Rightarrow> 0 | Some els \<Rightarrow> length (fe_elements els))
      in if filter_is_empty f then NDB_PLAN_ALL_NOTES
         else if kinds \<noteq> None \<and> count kinds = 1 \<and> (case kinds of Some els \<Rightarrow> fe_elements els ! 0 = 0 | None \<Rightarrow> False) \<and> search \<noteq> None
         then NDB_PLAN_PROFILE_SEARCH
         else if search \<noteq> None then NDB_PLAN_SEARCH
         else if ids \<noteq> None then NDB_PLAN_IDS
         else if relays \<noteq> None \<and> kinds \<noteq> None \<and> authors = None then NDB_PLAN_RELAY_KINDS
         else if kinds \<noteq> None \<and> authors \<noteq> None \<and> (count authors = 1 \<or> count authors * count kinds \<le> 64) then NDB_PLAN_AUTHOR_KINDS
         else if authors \<noteq> None \<and> count authors = 1 then NDB_PLAN_AUTHORS
         else if tags \<noteq> None \<and> count tags = 1 then NDB_PLAN_TAGS
         else if kinds \<noteq> None then NDB_PLAN_KINDS
         else NDB_PLAN_CREATED)"

section \<open>Sorting and searching\<close>

lemma mset_insert_by [simp]: "mset (insert_by cmp x ys) = add_mset x (mset ys)"
  by (induction ys) auto

lemma mset_qsort [simp]: "mset (qsort cmp xs) = mset xs"
  unfolding qsort_def by (induction xs) auto

lemma set_qsort [simp]: "set (qsort cmp xs) = set xs"
  by (metis mset_qsort set_mset_mset)

lemma length_qsort [simp]: "length (qsort cmp xs) = length xs"
  by (metis mset_qsort size_mset)

context key_comparator
begin

lemma insert_by_sorted:
  "wf x \<Longrightarrow> \<forall>y\<in>set ys. wf y \<Longrightarrow> sorted (map key ys) \<Longrightarrow> sorted (map key (insert_by cmp x ys))"
proof (induction ys)
  case (Cons y ys)
  have s: "set (insert_by cmp x ys) = insert x (set ys)" by (metis mset_insert_by set_mset_add_mset_insert set_mset_mset)
  show ?case using Cons by (auto simp: cmp_key s)
qed simp

lemma qsort_sorted: "\<forall>x\<in>set xs. wf x \<Longrightarrow> sorted (map key (qsort cmp xs))"
proof (induction xs)
  case (Cons x xs)
  then have "sorted (map key (insert_by cmp x (qsort cmp xs)))" by (intro insert_by_sorted) simp_all
  then show ?case by (simp add: qsort_def)
qed (simp add: qsort_def)

end

text \<open>Binary search finds a key exactly when a linear search does.\<close>

lemma bsearch_loop_correct:
  fixes k :: "'a \<Rightarrow> 'k::linorder"
  assumes "sorted (map k xs)" "\<And>x. x \<in> set xs \<Longrightarrow> cmp x = Some (ord3 key (k x))" "u \<le> length xs"
  shows "bsearch_loop cmp xs l u = Some (\<exists>i. l \<le> i \<and> i < u \<and> k (xs ! i) = key)"
  using assms(3)
proof (induction "u - l" arbitrary: l u rule: less_induct)
  case less
  show ?case
  proof (cases "l < u")
    case True
    define m where "m = (l + u) div 2"
    have i: "l \<le> m" "m < u" "m < length xs" using True less.prems by (auto simp: m_def)
    have c: "cmp (xs ! m) = Some (ord3 key (k (xs ! m)))" using i by (intro assms(2)) simp
    have mono: "k (xs ! a) \<le> k (xs ! b)" if "a \<le> b" "b < length xs" for a b
      using sorted_nth_mono[OF assms(1), of a b] that by simp
    consider "key < k (xs ! m)" | "k (xs ! m) < key" | "key = k (xs ! m)" by (rule linorder_cases)
    then show ?thesis
    proof cases
      case 1
      then have "bsearch_loop cmp xs l u = bsearch_loop cmp xs l m"
        using True c by (subst bsearch_loop.simps) (simp add: ord3_def flip: m_def)
      moreover have "bsearch_loop cmp xs l m = Some (\<exists>j. l \<le> j \<and> j < m \<and> k (xs ! j) = key)" using i less.prems by (intro less.hyps) auto
      moreover have "j < m" if "j < u" "k (xs ! j) = key" for j
        using mono[of m j] that 1 less.prems by (meson leD leI le_less_trans order_less_le_trans)
      then have "(\<exists>j. l \<le> j \<and> j < m \<and> k (xs ! j) = key) \<longleftrightarrow> (\<exists>j. l \<le> j \<and> j < u \<and> k (xs ! j) = key)"
        using i(2) less_trans by blast
      ultimately show ?thesis by simp
    next
      case 2
      then have "bsearch_loop cmp xs l u = bsearch_loop cmp xs (m + 1) u"
        using True c by (subst bsearch_loop.simps) (simp add: ord3_def less_not_sym flip: m_def)
      moreover have "bsearch_loop cmp xs (m + 1) u = Some (\<exists>j. m + 1 \<le> j \<and> j < u \<and> k (xs ! j) = key)" using i less.prems by (intro less.hyps) auto
      moreover have "m + 1 \<le> j" if "k (xs ! j) = key" for j
        using mono[of j m] that 2 i by (metis Suc_eq_plus1 leD not_less_eq_eq)
      then have "(\<exists>j. m + 1 \<le> j \<and> j < u \<and> k (xs ! j) = key) \<longleftrightarrow> (\<exists>j. l \<le> j \<and> j < u \<and> k (xs ! j) = key)"
        using i(1) le_trans[of l m] add_leD1 by blast
      ultimately show ?thesis by simp
    next
      case 3
      then have "bsearch_loop cmp xs l u = Some True" using True c by (subst bsearch_loop.simps) (simp add: ord3_def flip: m_def)
      then show ?thesis using i 3 by auto
    qed
  qed (simp add: bsearch_loop.simps)
qed

lemma bsearch_correct:
  assumes "sorted (map k xs)" "\<And>x. x \<in> set xs \<Longrightarrow> cmp x = Some (ord3 key (k x))"
  shows "bsearch cmp xs = Some (key \<in> k ` set xs)"
  using bsearch_loop_correct[OF assms, of "length xs" 0] unfolding bsearch_def by (simp add: image_iff in_set_conv_nth Bex_def) (metis)

lemma strcmp_ord3: "strcmp as bs = ord3 as bs"
  by (induction as bs rule: strcmp.induct) (simp_all add: ord3_list)

section \<open>Well-formed filters\<close>

definition id_val :: "u8 list \<Rightarrow> u64 \<Rightarrow> u8 list" where
  "id_val data off = take 32 (drop (unat off) data)"

definition str_val :: "u8 list \<Rightarrow> u64 \<Rightarrow> u8 list" where
  "str_val data off = takeWhile (\<lambda>c. c \<noteq> 0) (drop (unat off) data)"

definition custom_val :: "u8 list \<Rightarrow> u64 \<Rightarrow> u8 list" where
  "custom_val data off = take 16 (drop (unat off) data)"

text \<open>The kinds of element a field type takes; a field has none as long as nothing was added.\<close>

fun takes :: "ndb_filter_fieldtype \<Rightarrow> ndb_generic_element_type \<Rightarrow> bool" where
  "takes _ NDB_ELEMENT_UNKNOWN = True"
| "takes t NDB_ELEMENT_ID = (t = NDB_FILTER_IDS \<or> t = NDB_FILTER_AUTHORS \<or> t = NDB_FILTER_TAGS)"
| "takes t NDB_ELEMENT_STRING = (t = NDB_FILTER_SEARCH \<or> t = NDB_FILTER_RELAYS \<or> t = NDB_FILTER_TAGS)"
| "takes t NDB_ELEMENT_INT = (t = NDB_FILTER_KINDS \<or> t = NDB_FILTER_SINCE \<or> t = NDB_FILTER_UNTIL \<or> t = NDB_FILTER_LIMIT)"
| "takes t NDB_ELEMENT_CUSTOM = (t = NDB_FILTER_CUSTOM)"

fun element_ok :: "u8 list \<Rightarrow> ndb_generic_element_type \<Rightarrow> u64 \<Rightarrow> bool" where
  "element_ok data NDB_ELEMENT_UNKNOWN off = False"
| "element_ok data NDB_ELEMENT_ID off = (unat off + 32 \<le> length data)"
| "element_ok data NDB_ELEMENT_STRING off = (0 \<in> set (drop (unat off) data))"
| "element_ok data NDB_ELEMENT_INT off = True"
| "element_ok data NDB_ELEMENT_CUSTOM off = (unat off + 16 \<le> length data)"

definition one_value :: "ndb_filter_fieldtype \<Rightarrow> bool" where
  "one_value t \<longleftrightarrow> t \<in> {NDB_FILTER_SINCE, NDB_FILTER_UNTIL, NDB_FILTER_LIMIT, NDB_FILTER_SEARCH}"

definition open_wf :: "u8 list \<Rightarrow> ndb_filter_elements \<Rightarrow> bool" where
  "open_wf data els \<longleftrightarrow> takes (fe_type els) (fe_elem_type els) \<and> (\<forall>off\<in>set (fe_elements els). element_ok data (fe_elem_type els) off) \<and>
     (one_value (fe_type els) \<longrightarrow> length (fe_elements els) \<le> 1)"

text \<open>The fields that are searched by bisection are sorted once they are closed.\<close>

definition sorted_field :: "u8 list \<Rightarrow> ndb_filter_elements \<Rightarrow> bool" where
  "sorted_field data els \<longleftrightarrow>
     (case fe_type els of
        NDB_FILTER_IDS \<Rightarrow> sorted (map (id_val data) (fe_elements els))
      | NDB_FILTER_AUTHORS \<Rightarrow> sorted (map (id_val data) (fe_elements els))
      | NDB_FILTER_RELAYS \<Rightarrow> sorted (map (str_val data) (fe_elements els))
      | NDB_FILTER_KINDS \<Rightarrow> sorted (fe_elements els)
      | _ \<Rightarrow> True)"

definition closed_wf :: "u8 list \<Rightarrow> ndb_filter_elements \<Rightarrow> bool" where
  "closed_wf data els \<longleftrightarrow> open_wf data els \<and> sorted_field data els"

definition filter_wf :: "ndb_filter \<Rightarrow> bool" where
  "filter_wf f \<longleftrightarrow> (\<forall>els\<in>set (f_fields f). closed_wf (f_data f) els) \<and>
     (case f_current f of Open_Field els \<Rightarrow> open_wf (f_data f) els | _ \<Rightarrow> True) \<and>
     int (length (f_data f)) \<le> f_data_cap f \<and> f_data_cap f < 2 ^ 31 \<and> 0 \<le> f_elem_used f \<and> length (f_fields f) \<le> 10 \<and>
     distinct (filter (\<lambda>t. t \<noteq> NDB_FILTER_TAGS)
       (map fe_type (f_fields f @ (case f_current f of Open_Field els \<Rightarrow> [els] | _ \<Rightarrow> []))))"

lemma elements_data_small:
  assumes "unat off \<le> length (f_data f)" "length (f_data f) < 2 ^ 31"
  shows "ndb_filter_elements_data f off = Some (unat off)"
proof -
  have u: "unat off < 2 ^ 31" using assms by linarith
  then have "unat (ucast off :: u32) = unat off" by (simp add: unsigned_ucast_eq take_bit_nat_eq_self)
  then have e: "uint (ucast off :: u32) = int (unat off)" unfolding uint_nat by (simp only:)
  have "sint (ucast off :: u32) = int (unat off)"
    unfolding sint_uint e using u by (intro signed_take_bit_int_eq_self) (simp_all del: of_nat_unat)
  then show ?thesis using assms unfolding ndb_filter_elements_data_def Let_def by (simp del: of_nat_unat)
qed

lemma read_id_val:
  "element_ok (f_data f) NDB_ELEMENT_ID off \<Longrightarrow> length (f_data f) < 2 ^ 31 \<Longrightarrow> read_id f off = Some (id_val (f_data f) off)"
  by (simp add: read_id_def id_val_def elements_data_small)

lemma read_str_val:
  assumes "element_ok (f_data f) NDB_ELEMENT_STRING off" "length (f_data f) < 2 ^ 31"
  shows "read_str f off = Some (str_val (f_data f) off)"
proof -
  have "drop (unat off) (f_data f) \<noteq> []" using assms(1) by auto
  then have "unat off \<le> length (f_data f)" by simp
  then show ?thesis using assms by (simp add: read_str_def str_val_def elements_data_small)
qed

lemma read_custom_val:
  "fe_elements els = off # offs \<Longrightarrow> element_ok (f_data f) NDB_ELEMENT_CUSTOM off \<Longrightarrow> length (f_data f) < 2 ^ 31 \<Longrightarrow>
   read_custom f els = Some (custom_val (f_data f) off)"
  by (simp add: read_custom_def custom_val_def elements_data_small)

lemma length_id_val: "unat off + 32 \<le> length data \<Longrightarrow> length (id_val data off) = 32"
  by (simp add: id_val_def)

interpretation ids_order: key_comparator "compare_ids f" "id_val (f_data f)" "element_ok (f_data f) NDB_ELEMENT_ID" for f
  by unfold_locales (simp add: compare_ids_def data_at_def memcmp_ord3 id_val_def)

interpretation strs_order: key_comparator "compare_strs f" "str_val (f_data f)" "\<lambda>_. True" for f
  by unfold_locales (simp add: compare_strs_def data_at_def strcmp_ord3 str_val_def)

interpretation kinds_order: key_comparator compare_kinds "\<lambda>x. x" "\<lambda>_. True"
  by unfold_locales (simp add: compare_kinds_def ord3_def)

section \<open>What a filter means\<close>

datatype field_spec = Ids "u8 list set" | Authors "u8 list set" | Kinds "u64 set" | Tag_Ids u8 "u8 list set" | Tag_Strs u8 "u8 list set"
  | Since u64 | Until u64 | Limit u64 | Search "u8 list" | Relays "u8 list set" | Custom "u8 list"

definition abs_field :: "u8 list \<Rightarrow> ndb_filter_elements \<Rightarrow> field_spec" where
  "abs_field data els =
     (let offs = fe_elements els in
      case fe_type els of
        NDB_FILTER_IDS \<Rightarrow> Ids (id_val data ` set offs)
      | NDB_FILTER_AUTHORS \<Rightarrow> Authors (id_val data ` set offs)
      | NDB_FILTER_KINDS \<Rightarrow> Kinds (set offs)
      | NDB_FILTER_TAGS \<Rightarrow>
          if fe_elem_type els = NDB_ELEMENT_ID then Tag_Ids (fe_tag els) (id_val data ` set offs)
          else Tag_Strs (fe_tag els) (str_val data ` set offs)
      | NDB_FILTER_SINCE \<Rightarrow> Since (hd offs)
      | NDB_FILTER_UNTIL \<Rightarrow> Until (hd offs)
      | NDB_FILTER_LIMIT \<Rightarrow> Limit (hd offs)
      | NDB_FILTER_SEARCH \<Rightarrow> Search (str_val data (hd offs))
      | NDB_FILTER_RELAYS \<Rightarrow> Relays (str_val data ` set offs)
      | NDB_FILTER_CUSTOM \<Rightarrow> Custom (custom_val data (hd offs)))"

text \<open>
  The meaning of a field: an id, an author or a kind is one of the listed ones, one of the tags has the
  letter and a listed value, the time is at or after \<open>since\<close> and before \<open>until\<close>, one of the relays
  the note was seen on is listed. A search and a limit do not restrict the notes.
\<close>

fun spec_matches :: "(u8 list \<Rightarrow> ndb_note \<Rightarrow> bool) \<Rightarrow> ndb_note \<Rightarrow> u8 list list \<Rightarrow> field_spec \<Rightarrow> bool" where
  "spec_matches cb note relays (Ids I) = (nt_id note \<in> I)"
| "spec_matches cb note relays (Authors A) = (nt_pubkey note \<in> A)"
| "spec_matches cb note relays (Kinds K) = (\<exists>x\<in>K. ucast x = nt_kind note)"
| "spec_matches cb note relays (Tag_Ids c I) =
     (\<exists>l i rest. Packed_Str l # Packed_Id i # rest \<in> set (nt_tags note) \<and> single_letter l c \<and> i \<in> I)"
| "spec_matches cb note relays (Tag_Strs c S) =
     (\<exists>l v s rest. Packed_Str l # v # rest \<in> set (nt_tags note) \<and> single_letter l c \<and> (v = Packed_Str s \<or> v = Offset_Str s) \<and> s \<in> S)"
| "spec_matches cb note relays (Since t) = (t \<le> nt_created_at note)"
| "spec_matches cb note relays (Until t) = (nt_created_at note < t)"
| "spec_matches cb note relays (Limit n) = True"
| "spec_matches cb note relays (Search s) = True"
| "spec_matches cb note relays (Relays R) = (\<exists>r\<in>set relays. r \<in> R)"
| "spec_matches cb note relays (Custom c) = cb c note"

definition note_wf :: "ndb_note \<Rightarrow> bool" where
  "note_wf note \<longleftrightarrow> length (nt_id note) = 32 \<and> length (nt_pubkey note) = 32 \<and>
     (\<forall>tag\<in>set (nt_tags note). \<forall>i. Packed_Id i \<in> set tag \<longrightarrow> length i = 32)"

text \<open>A field with a value where one is needed.\<close>

definition field_ready :: "ndb_filter_elements \<Rightarrow> bool" where
  "field_ready els \<longleftrightarrow> (fe_type els \<in> {NDB_FILTER_SINCE, NDB_FILTER_UNTIL, NDB_FILTER_CUSTOM} \<longrightarrow> fe_elements els \<noteq> [])"

lemma tag_ids_loop:
  assumes "\<forall>off\<in>set offs. element_ok (f_data f) NDB_ELEMENT_ID off" "length (f_data f) < 2 ^ 31" "length i = 32"
  shows "tag_element_loop f NDB_ELEMENT_ID offs i = Some (i \<in> id_val (f_data f) ` set offs)"
  using assms
proof (induction offs)
  case (Cons off offs)
  then have "read_id f off = Some (id_val (f_data f) off)" "length (id_val (f_data f) off) = 32" using read_id_val by (auto simp: id_val_def)
  then show ?case using Cons by (auto simp: memcmp_ord3)
qed simp

lemma tag_strs_loop:
  assumes "\<forall>off\<in>set offs. element_ok (f_data f) NDB_ELEMENT_STRING off" "length (f_data f) < 2 ^ 31"
  shows "tag_element_loop f NDB_ELEMENT_STRING offs s = Some (s \<in> str_val (f_data f) ` set offs)"
  using assms
proof (induction offs)
  case (Cons off offs)
  then have "read_str f off = Some (str_val (f_data f) off)" using read_str_val by auto
  then show ?case using Cons by (auto simp: strcmp_ord3)
qed simp

definition tag_hit :: "u8 list \<Rightarrow> ndb_filter_elements \<Rightarrow> ndb_str list \<Rightarrow> bool" where
  "tag_hit data els tag \<longleftrightarrow> (\<exists>l v rest. tag = Packed_Str l # v # rest \<and> single_letter l (fe_tag els) \<and>
     (case fe_elem_type els of
        NDB_ELEMENT_ID \<Rightarrow> (\<exists>i. v = Packed_Id i \<and> i \<in> id_val data ` set (fe_elements els))
      | NDB_ELEMENT_STRING \<Rightarrow> (\<exists>s. (v = Packed_Str s \<or> v = Offset_Str s) \<and> s \<in> str_val data ` set (fe_elements els))
      | _ \<Rightarrow> False))"

lemma tag_step_hit:
  assumes w: "open_wf (f_data f) els" and t: "fe_type els = NDB_FILTER_TAGS" and d: "length (f_data f) < 2 ^ 31"
    and i: "\<And>i. Packed_Id i \<in> set tag \<Longrightarrow> length i = 32" and k: "fe_elem_type els \<noteq> NDB_ELEMENT_UNKNOWN"
  shows "tag_step f els tag = Some (if tag_hit (f_data f) els tag then Some True else None)"
proof -
  have k': "fe_elem_type els = NDB_ELEMENT_ID \<or> fe_elem_type els = NDB_ELEMENT_STRING"
    using w t k by (cases "fe_elem_type els") (simp_all add: open_wf_def)
  have e: "\<forall>off\<in>set (fe_elements els). element_ok (f_data f) (fe_elem_type els) off" using w by (simp add: open_wf_def)
  consider "length tag < 2" | x y rest where "tag = x # y # rest" by (cases tag; cases "tl tag") auto
  then show ?thesis
  proof cases
    case 1
    then show ?thesis by (auto simp: tag_step_def tag_hit_def)
  next
    case 2
    have y: "y = Packed_Id j \<Longrightarrow> length j = 32" for j using i 2 by simp
    show ?thesis
      using k' e y 2 tag_ids_loop[OF _ d, of "fe_elements els"] tag_strs_loop[OF _ d, of "fe_elements els"]
      by (cases x; cases y) (auto simp: tag_step_def tag_hit_def)
  qed
qed

lemma tag_filter_matches:
  assumes w: "open_wf (f_data f) els" and t: "fe_type els = NDB_FILTER_TAGS" and d: "length (f_data f) < 2 ^ 31" and n: "note_wf note"
  shows "ndb_tag_filter_matches f els note = Some (spec_matches cb note relays (abs_field (f_data f) els))"
proof (cases "fe_elem_type els = NDB_ELEMENT_UNKNOWN")
  case True
  then have "fe_elements els = []" using w by (cases "fe_elements els") (auto simp: open_wf_def)
  moreover have "tag_step f els tag = Some None \<or> tag_step f els tag = Some (Some False)" for tag
    using True by (auto simp: tag_step_def split: ndb_str.splits)
  then have "tag_loop f els tags = Some False" for tags by (induction tags) (simp, metis bind.bind_lunit option.simps(4,5) tag_loop.simps(2))
  ultimately show ?thesis using t True by (simp add: ndb_tag_filter_matches_def abs_field_def)
next
  case False
  have "tag_loop f els tags = Some (\<exists>tag\<in>set tags. tag_hit (f_data f) els tag)" if "set tags \<subseteq> set (nt_tags note)" for tags
    using that
  proof (induction tags)
    case (Cons tag tags)
    then have "tag_step f els tag = Some (if tag_hit (f_data f) els tag then Some True else None)"
      using n False by (intro tag_step_hit[OF w t d]) (auto simp: note_wf_def)
    then show ?case using Cons by auto
  qed simp
  moreover consider "fe_elem_type els = NDB_ELEMENT_ID" | "fe_elem_type els = NDB_ELEMENT_STRING"
    using w t False by (cases "fe_elem_type els") (simp_all add: open_wf_def)
  then have "(\<exists>tag\<in>set (nt_tags note). tag_hit (f_data f) els tag) \<longleftrightarrow> spec_matches cb note relays (abs_field (f_data f) els)"
    by cases (simp_all add: abs_field_def t tag_hit_def, blast+)
  ultimately show ?thesis by (simp add: ndb_tag_filter_matches_def)
qed

lemma bsearch_ids:
  assumes "\<forall>off\<in>set offs. element_ok (f_data f) NDB_ELEMENT_ID off" "length (f_data f) < 2 ^ 31" "length key = 32"
    and "sorted (map (id_val (f_data f)) offs)"
  shows "bsearch (search_ids f key) offs = Some (key \<in> id_val (f_data f) ` set offs)"
  using assms by (intro bsearch_correct) (auto simp: search_ids_def read_id_val memcmp_ord3 length_id_val)

lemma relay_loop_correct:
  assumes "\<forall>off\<in>set offs. element_ok (f_data f) NDB_ELEMENT_STRING off" "length (f_data f) < 2 ^ 31"
    and "sorted (map (str_val (f_data f)) offs)"
  shows "relay_loop f offs relays = Some (\<exists>r\<in>set relays. r \<in> str_val (f_data f) ` set offs)"
proof (induction relays)
  case (Cons r rs)
  have "bsearch (search_strs f r) offs = Some (r \<in> str_val (f_data f) ` set offs)"
    using assms by (intro bsearch_correct) (auto simp: search_strs_def read_str_val strcmp_ord3)
  then show ?case using Cons by simp
qed simp

lemma unknown_empty: "open_wf data els \<Longrightarrow> fe_elem_type els = NDB_ELEMENT_UNKNOWN \<Longrightarrow> fe_elements els = []"
  by (cases "fe_elements els") (auto simp: open_wf_def)

text \<open>The elements of a field are of the kind its type says.\<close>

lemma open_wf_elements:
  assumes "open_wf data els" "off \<in> set (fe_elements els)"
  shows "fe_type els \<in> {NDB_FILTER_IDS, NDB_FILTER_AUTHORS} \<Longrightarrow> element_ok data NDB_ELEMENT_ID off"
    "fe_type els \<in> {NDB_FILTER_SEARCH, NDB_FILTER_RELAYS} \<Longrightarrow> element_ok data NDB_ELEMENT_STRING off"
    "fe_type els = NDB_FILTER_CUSTOM \<Longrightarrow> element_ok data NDB_ELEMENT_CUSTOM off"
  using assms by (cases "fe_elem_type els"; auto simp: open_wf_def)+

lemma field_matches_spec:
  assumes w: "closed_wf (f_data f) els" and d: "length (f_data f) < 2 ^ 31" and n: "note_wf note" and r: "field_ready els"
    and it: "fe_type els = NDB_FILTER_RELAYS \<longrightarrow> relay_iter \<noteq> None"
  shows "field_matches cb f note relay_iter els =
    Some (spec_matches cb note (case relay_iter of None \<Rightarrow> [] | Some rs \<Rightarrow> rs) (abs_field (f_data f) els))"
proof -
  have o: "open_wf (f_data f) els" and s: "sorted_field (f_data f) els" using w by (simp_all add: closed_wf_def)
  note e = open_wf_elements[OF o]
  have one: "\<exists>x. fe_elements els = [x]" if "fe_type els = NDB_FILTER_SINCE \<or> fe_type els = NDB_FILTER_UNTIL"
    using r o that by (cases "fe_elements els") (auto simp: field_ready_def open_wf_def one_value_def)
  show ?thesis
  proof (cases "fe_type els")
    case NDB_FILTER_IDS
    then have "bsearch (search_ids f (nt_id note)) (fe_elements els) = Some (nt_id note \<in> id_val (f_data f) ` set (fe_elements els))"
      using e n s d by (intro bsearch_ids) (auto simp: note_wf_def sorted_field_def)
    then show ?thesis using NDB_FILTER_IDS by (simp add: field_matches_def abs_field_def)
  next
    case NDB_FILTER_AUTHORS
    then have "bsearch (search_ids f (nt_pubkey note)) (fe_elements els) = Some (nt_pubkey note \<in> id_val (f_data f) ` set (fe_elements els))"
      using e n s d by (intro bsearch_ids) (auto simp: note_wf_def sorted_field_def)
    then show ?thesis using NDB_FILTER_AUTHORS by (simp add: field_matches_def abs_field_def)
  next
    case NDB_FILTER_RELAYS
    then obtain rs where rs: "relay_iter = Some rs" using it by auto
    have "relay_loop f (fe_elements els) rs = Some (\<exists>r\<in>set rs. r \<in> str_val (f_data f) ` set (fe_elements els))"
      using e s d NDB_FILTER_RELAYS by (intro relay_loop_correct) (auto simp: sorted_field_def)
    then show ?thesis using NDB_FILTER_RELAYS rs by (simp add: field_matches_def abs_field_def)
  next
    case NDB_FILTER_TAGS
    then show ?thesis using tag_filter_matches[OF o _ d n] by (simp add: field_matches_def)
  next
    case NDB_FILTER_CUSTOM
    then obtain x xs where "fe_elements els = x # xs" using r by (cases "fe_elements els") (auto simp: field_ready_def)
    then show ?thesis using NDB_FILTER_CUSTOM e(3)[of x] d read_custom_val by (simp add: field_matches_def abs_field_def)
  qed (use one in \<open>auto simp: field_matches_def abs_field_def\<close>)
qed

lemma matches_meaning:
  assumes "filter_wf f" and "\<forall>els\<in>set (f_fields f). field_ready els" and "note_wf note"
    and "\<forall>els\<in>set (f_fields f). fe_type els = NDB_FILTER_RELAYS \<longrightarrow> relay_iter \<noteq> None"
  shows "ndb_filter_matches_with cb f note already relay_iter = Some (\<forall>els\<in>set (f_fields f). fe_type els \<notin> set already \<longrightarrow>
    spec_matches cb note (case relay_iter of None \<Rightarrow> [] | Some rs \<Rightarrow> rs) (abs_field (f_data f) els))"
proof -
  have d: "length (f_data f) < 2 ^ 31" using assms(1) by (auto simp: filter_wf_def)
  have "fields_match (field_matches cb f note relay_iter) already xs = Some (\<forall>els\<in>set xs. fe_type els \<notin> set already \<longrightarrow>
    spec_matches cb note (case relay_iter of None \<Rightarrow> [] | Some rs \<Rightarrow> rs) (abs_field (f_data f) els))" if "set xs \<subseteq> set (f_fields f)" for xs
    using that
  proof (induction xs)
    case (Cons els xs)
    then have "field_matches cb f note relay_iter els =
        Some (spec_matches cb note (case relay_iter of None \<Rightarrow> [] | Some rs \<Rightarrow> rs) (abs_field (f_data f) els))"
      using assms by (intro field_matches_spec[OF _ d]) (auto simp: filter_wf_def)
    then show ?case using Cons by auto
  qed simp
  then show ?thesis by (simp add: ndb_filter_matches_with_def)
qed

text \<open>
  C32 A filter matches a note exactly when the note has what every field asks for, apart from the fields
  that were already checked; binary search over the sorted elements and the comparison of packed
  strings and ids amount to set membership. No undefined behaviour is met.
\<close>

theorem filter_matches_meaning:
  assumes "filter_wf f" and "\<forall>els\<in>set (f_fields f). field_ready els" and "note_wf note"
    and "\<forall>els\<in>set (f_fields f). fe_type els = NDB_FILTER_RELAYS \<longrightarrow> relay_iter \<noteq> None"
  shows "ndb_filter_matches_with cb f note already relay_iter = Some (\<forall>els\<in>set (f_fields f). fe_type els \<notin> set already \<longrightarrow>
    spec_matches cb note (case relay_iter of None \<Rightarrow> [] | Some rs \<Rightarrow> rs) (abs_field (f_data f) els))"
  by (rule matches_meaning[OF assms])

section \<open>Building keeps filters well formed\<close>

lemma element_ok_append: "element_ok data t off \<Longrightarrow> element_ok (data @ bs) t off"
  by (cases t) (auto simp: drop_append)

lemma id_val_append: "unat off + 32 \<le> length data \<Longrightarrow> id_val (data @ bs) off = id_val data off"
  by (simp add: id_val_def)

lemma str_val_append: "0 \<in> set (drop (unat off) data) \<Longrightarrow> str_val (data @ bs) off = str_val data off"
  by (simp add: str_val_def drop_append takeWhile_append1)

lemma custom_val_append: "unat off + 16 \<le> length data \<Longrightarrow> custom_val (data @ bs) off = custom_val data off"
  by (simp add: custom_val_def)

lemma open_wf_append: "open_wf data els \<Longrightarrow> open_wf (data @ bs) els"
  by (auto simp: open_wf_def element_ok_append)

lemma closed_wf_append:
  assumes "closed_wf data els"
  shows "closed_wf (data @ bs) els"
proof -
  have o: "open_wf data els" using assms by (simp add: closed_wf_def)
  note e = open_wf_elements[OF o]
  have "map (id_val (data @ bs)) (fe_elements els) = map (id_val data) (fe_elements els)" if "fe_type els \<in> {NDB_FILTER_IDS, NDB_FILTER_AUTHORS}"
    using e(1) that id_val_append by (intro map_cong) auto
  moreover have "map (str_val (data @ bs)) (fe_elements els) = map (str_val data) (fe_elements els)" if "fe_type els = NDB_FILTER_RELAYS"
    using e(2) that str_val_append by (intro map_cong) auto
  ultimately show ?thesis using assms open_wf_append[OF o]
    by (cases "fe_type els") (simp_all add: closed_wf_def sorted_field_def del: map_eq_conv)
qed

text \<open>What an element puts into the two buffers.\<close>

fun elem_kind :: "ndb_filter_element \<Rightarrow> ndb_generic_element_type" where
  "elem_kind (El_string s) = NDB_ELEMENT_STRING"
| "elem_kind (El_id i) = NDB_ELEMENT_ID"
| "elem_kind (El_integer n) = NDB_ELEMENT_INT"
| "elem_kind (El_custom c) = NDB_ELEMENT_CUSTOM"

fun elem_bytes :: "ndb_filter_element \<Rightarrow> u8 list" where
  "elem_bytes (El_string s) = s @ [0]"
| "elem_bytes (El_id i) = take 32 i"
| "elem_bytes (El_integer n) = []"
| "elem_bytes (El_custom c) = c"

fun elem_word :: "u8 list \<Rightarrow> ndb_filter_element \<Rightarrow> u64" where
  "elem_word data (El_integer n) = n"
| "elem_word data _ = word_of_nat (length data)"

fun elem_ok :: "ndb_filter_element \<Rightarrow> bool" where
  "elem_ok (El_id i) = (length i = 32)"
| "elem_ok (El_custom c) = (length c = 16)"
| "elem_ok _ = True"

lemma unat_length: "n < 2 ^ 31 \<Longrightarrow> unat (word_of_nat n :: u64) = n"
  by (simp add: unat_of_nat take_bit_nat_eq_self)

lemma new_element_ok:
  "elem_ok el \<Longrightarrow> length data < 2 ^ 31 \<Longrightarrow> element_ok (data @ elem_bytes el) (elem_kind el) (elem_word data el)"
  by (cases el) (simp_all add: unat_length)

text \<open>Storing the data succeeds exactly when there is room, and otherwise writes at most a part of it.\<close>

lemma store_element_spec:
  assumes t: "takes (fe_type cur) (elem_kind el)" "fe_elem_type cur = elem_kind el"
    and s: "fe_type cur \<in> {NDB_FILTER_SINCE, NDB_FILTER_UNTIL, NDB_FILTER_LIMIT} \<Longrightarrow> fe_elements cur = []"
    and c: "int (length (f_data f)) \<le> f_data_cap f"
  shows "\<exists>bs. store_element f cur el =
      Some (int (length (f_data f) + length (elem_bytes el)) \<le> f_data_cap f, f\<lparr>f_data := f_data f @ bs\<rparr>, elem_word (f_data f) el) \<and>
    (int (length (f_data f) + length (elem_bytes el)) \<le> f_data_cap f \<longrightarrow> bs = elem_bytes el) \<and>
    int (length (f_data f @ bs)) \<le> f_data_cap f"
proof -
  have n: "f\<lparr>f_data := f_data f\<rparr> = f" by simp
  show ?thesis
  proof (cases el)
    case (El_integer x)
    then show ?thesis using t s c by (intro exI[of _ "[]"]) (cases "fe_type cur"; simp add: Let_def)
  next
    case (El_id i)
    then show ?thesis using t c
      by (cases "fe_type cur") (auto simp: Let_def data_push_def n intro!: exI[of _ "if int (length (f_data f) + length (take 32 i)) \<le> f_data_cap f then take 32 i else []"])
  next
    case (El_custom c)
    then show ?thesis using t c
      by (cases "fe_type cur") (auto simp: Let_def data_push_def n intro!: exI[of _ "if int (length (f_data f) + length c) \<le> f_data_cap f then c else []"])
  next
    case (El_string s)
    let ?bs = "if int (length (f_data f) + length s + 1) \<le> f_data_cap f then s @ [0] else if int (length (f_data f) + length s) \<le> f_data_cap f then s else []"
    show ?thesis using t c El_string
      by (cases "fe_type cur") (auto simp: Let_def data_push_str_def data_push_def n intro!: exI[of _ ?bs])
  qed
qed


text \<open>Adding an element: the field gets it, or the filter is left as it was apart from unused data.\<close>

lemma add_typed_spec:
  assumes wf: "filter_wf f" and cur: "f_current f = Open_Field els" and al: "allowed els"
    and t: "takes (fe_type els) (elem_kind el)" and el: "elem_ok el" and k: "kind = elem_kind el"
    and s: "one_value (fe_type els) \<Longrightarrow> fe_elements els = []"
    and u: "fe_elem_type els \<in> {NDB_ELEMENT_UNKNOWN, elem_kind el}"
  shows "\<exists>r bs. add_typed_element allowed kind f el = Some (r, f\<lparr>f_data := f_data f @ bs,
      f_elem_used := f_elem_used f + (if r then 8 else 0),
      f_current := Open_Field (els\<lparr>fe_elem_type := elem_kind el, fe_elements := fe_elements els @ (if r then [elem_word (f_data f) el] else [])\<rparr>)\<rparr>) \<and>
    (r \<longleftrightarrow> int (length (f_data f) + length (elem_bytes el)) \<le> f_data_cap f \<and> f_elem_used f + 8 \<le> f_elem_cap f) \<and>
    (r \<longrightarrow> bs = elem_bytes el) \<and> int (length (f_data f @ bs)) \<le> f_data_cap f"
proof -
  let ?els = "els\<lparr>fe_elem_type := elem_kind el\<rparr>" and ?f = "f\<lparr>f_current := Open_Field (els\<lparr>fe_elem_type := elem_kind el\<rparr>)\<rparr>"
  have c: "int (length (f_data ?f)) \<le> f_data_cap ?f" using wf by (simp add: filter_wf_def)
  have "\<exists>bs. store_element ?f ?els el =
      Some (int (length (f_data ?f) + length (elem_bytes el)) \<le> f_data_cap ?f, ?f\<lparr>f_data := f_data ?f @ bs\<rparr>, elem_word (f_data ?f) el) \<and>
    (int (length (f_data ?f) + length (elem_bytes el)) \<le> f_data_cap ?f \<longrightarrow> bs = elem_bytes el) \<and>
    int (length (f_data ?f @ bs)) \<le> f_data_cap ?f"
    by (rule store_element_spec) (use t s c in \<open>auto simp: one_value_def\<close>)
  then obtain bs where "store_element ?f ?els el =
      Some (int (length (f_data f) + length (elem_bytes el)) \<le> f_data_cap f, ?f\<lparr>f_data := f_data f @ bs\<rparr>, elem_word (f_data f) el)"
    "int (length (f_data f) + length (elem_bytes el)) \<le> f_data_cap f \<longrightarrow> bs = elem_bytes el" "int (length (f_data f @ bs)) \<le> f_data_cap f" by auto
  then show ?thesis
    using cur al u k unfolding add_typed_element_def ndb_filter_set_elem_type_def ndb_filter_add_element_def
    by (intro exI[of _ "int (length (f_data f) + length (elem_bytes el)) \<le> f_data_cap f \<and> f_elem_used f + 8 \<le> f_elem_cap f"] exI[of _ bs])
      (auto simp: not_le)
qed

lemma filter_wf_add:
  assumes wf: "filter_wf f" and cur: "f_current f = Open_Field els" and o: "open_wf (f_data f @ bs) els'" and ty: "fe_type els' = fe_type els"
    and c: "int (length (f_data f @ bs)) \<le> f_data_cap f" "0 \<le> n"
  shows "filter_wf (f\<lparr>f_data := f_data f @ bs, f_elem_used := n, f_current := Open_Field els'\<rparr>)"
  using assms closed_wf_append by (auto simp: filter_wf_def)

lemma add_typed_wf:
  assumes wf: "filter_wf f" and al: "\<And>els. allowed els \<Longrightarrow> takes (fe_type els) (elem_kind el)" and el: "elem_ok el" and k: "kind = elem_kind el"
    and one: "\<And>els. allowed els \<Longrightarrow> fe_type els = NDB_FILTER_SEARCH \<Longrightarrow> length (fe_elements els) \<noteq> 1"
    and r: "add_typed_element allowed kind f el = Some (r, f')"
  shows "filter_wf f'"
proof (cases "f_current f")
  case (Open_Field els)
  then have o: "open_wf (f_data f) els" using wf by (simp add: filter_wf_def)
  let ?sv = "one_value (fe_type els) \<and> fe_elements els \<noteq> []"
  consider "\<not> allowed els" | "allowed els" "fe_elem_type els \<notin> {NDB_ELEMENT_UNKNOWN, elem_kind el}"
    | "allowed els" "fe_elem_type els \<in> {NDB_ELEMENT_UNKNOWN, elem_kind el}" "?sv"
    | "allowed els" "fe_elem_type els \<in> {NDB_ELEMENT_UNKNOWN, elem_kind el}" "\<not> ?sv" by blast
  then show ?thesis
  proof cases
    case 3
    then have "fe_type els \<noteq> NDB_FILTER_SEARCH" using one[of els] o by (cases "fe_elements els") (auto simp: open_wf_def)
    then have ty: "fe_type els \<in> {NDB_FILTER_SINCE, NDB_FILTER_UNTIL, NDB_FILTER_LIMIT}" using 3 by (auto simp: one_value_def)
    have "fe_elem_type els = elem_kind el" using 3 unknown_empty[OF o] by auto
    then have "f' = f\<lparr>f_current := Open_Field els\<rparr>"
      using r Open_Field 3 ty k unfolding add_typed_element_def ndb_filter_set_elem_type_def ndb_filter_add_element_def by (auto simp: Let_def)
    then have "f' = f" using Open_Field by simp
    then show ?thesis using wf by simp
  next
    case 4
    obtain r' bs where f': "add_typed_element allowed kind f el = Some (r', f\<lparr>f_data := f_data f @ bs, f_elem_used := f_elem_used f + (if r' then 8 else 0),
        f_current := Open_Field (els\<lparr>fe_elem_type := elem_kind el, fe_elements := fe_elements els @ (if r' then [elem_word (f_data f) el] else [])\<rparr>)\<rparr>)"
      "r' \<longrightarrow> bs = elem_bytes el" "int (length (f_data f @ bs)) \<le> f_data_cap f"
      using add_typed_spec[of f els allowed el kind] wf Open_Field 4 al[OF 4(1)] el k by blast
    have d: "length (f_data f) < 2 ^ 31" using wf by (auto simp: filter_wf_def)
    have old: "\<forall>off\<in>set (fe_elements els). element_ok (f_data f) (elem_kind el) off"
      using 4(2) o unknown_empty[OF o] by (auto simp: open_wf_def)
    have "open_wf (f_data f @ bs) (els\<lparr>fe_elem_type := elem_kind el, fe_elements := fe_elements els @ (if r' then [elem_word (f_data f) el] else [])\<rparr>)"
      using al[OF 4(1)] old element_ok_append new_element_ok[OF el d] f'(2) 4(3) by (auto simp: open_wf_def)
    then have "filter_wf (f\<lparr>f_data := f_data f @ bs, f_elem_used := f_elem_used f + (if r' then 8 else 0),
        f_current := Open_Field (els\<lparr>fe_elem_type := elem_kind el, fe_elements := fe_elements els @ (if r' then [elem_word (f_data f) el] else [])\<rparr>)\<rparr>)"
      using wf by (intro filter_wf_add[OF wf Open_Field _ _ f'(3)]) (simp_all add: filter_wf_def)
    moreover have "f' = f\<lparr>f_data := f_data f @ bs, f_elem_used := f_elem_used f + (if r' then 8 else 0),
        f_current := Open_Field (els\<lparr>fe_elem_type := elem_kind el, fe_elements := fe_elements els @ (if r' then [elem_word (f_data f) el] else [])\<rparr>)\<rparr>"
      using r unfolding f'(1) by (metis option.inject prod.inject)
    ultimately show ?thesis by (simp only:)
  qed (use r wf Open_Field k in \<open>auto simp: add_typed_element_def ndb_filter_set_elem_type_def\<close>)
qed (use r wf in \<open>auto simp: add_typed_element_def\<close>)

lemma sort_field_wf:
  assumes o: "open_wf data els" and e: "els' = els\<lparr>fe_elements := qsort cmp (fe_elements els)\<rparr>"
  shows "open_wf data els'"
  using o by (simp add: open_wf_def e)

lemma end_field_wf:
  assumes wf: "filter_wf f" and r: "ndb_filter_end_field f = Some f'"
  shows "filter_wf f'"
proof (cases "f_current f")
  case (Open_Field els)
  then have o: "open_wf (f_data f) els" using wf by (simp add: filter_wf_def)
  note e = open_wf_elements[OF o]
  obtain cur where cur: "f' = f\<lparr>f_fields := f_fields f @ [cur], f_current := No_Field\<rparr>" "fe_type cur = fe_type els"
    "closed_wf (f_data f) cur" "length (f_fields f) < 10"
  proof (cases "fe_type els")
    case NDB_FILTER_IDS
    moreover have "sorted (map (id_val (f_data f)) (qsort (compare_ids f) (fe_elements els)))"
      using e NDB_FILTER_IDS by (intro ids_order.qsort_sorted) auto
    ultimately show ?thesis using r Open_Field sort_field_wf[OF o refl]
      by (intro that[of "els\<lparr>fe_elements := qsort (compare_ids f) (fe_elements els)\<rparr>"]) (auto simp: ndb_filter_end_field_def sort_filter_elements_def closed_wf_def sorted_field_def split: if_splits)
  next
    case NDB_FILTER_AUTHORS
    moreover have "sorted (map (id_val (f_data f)) (qsort (compare_ids f) (fe_elements els)))"
      using e NDB_FILTER_AUTHORS by (intro ids_order.qsort_sorted) auto
    ultimately show ?thesis using r Open_Field sort_field_wf[OF o refl]
      by (intro that[of "els\<lparr>fe_elements := qsort (compare_ids f) (fe_elements els)\<rparr>"]) (auto simp: ndb_filter_end_field_def sort_filter_elements_def closed_wf_def sorted_field_def split: if_splits)
  next
    case NDB_FILTER_RELAYS
    moreover have "sorted (map (str_val (f_data f)) (qsort (compare_strs f) (fe_elements els)))"
      by (intro strs_order.qsort_sorted) auto
    ultimately show ?thesis using r Open_Field sort_field_wf[OF o refl]
      by (intro that[of "els\<lparr>fe_elements := qsort (compare_strs f) (fe_elements els)\<rparr>"]) (auto simp: ndb_filter_end_field_def sort_filter_elements_def closed_wf_def sorted_field_def split: if_splits)
  next
    case NDB_FILTER_KINDS
    moreover have "sorted (map (\<lambda>x. x) (qsort compare_kinds (fe_elements els)))" by (intro kinds_order.qsort_sorted) auto
    ultimately show ?thesis using r Open_Field sort_field_wf[OF o refl]
      by (intro that[of "els\<lparr>fe_elements := qsort compare_kinds (fe_elements els)\<rparr>"]) (auto simp: ndb_filter_end_field_def closed_wf_def sorted_field_def split: if_splits)
  qed (use r Open_Field o that in \<open>auto simp: ndb_filter_end_field_def closed_wf_def sorted_field_def split: if_splits\<close>)
  then show ?thesis using wf Open_Field by (auto simp: filter_wf_def)
qed (use r wf in \<open>auto simp: ndb_filter_end_field_def\<close>)

lemma start_field_wf:
  assumes wf: "filter_wf f" and r: "ndb_filter_start_field_impl f t tag = Some (b, f')"
  shows "filter_wf f'"
  using assms by (auto simp: ndb_filter_start_field_impl_def filter_wf_def open_wf_def distinct_append filter_empty_conv one_value_def split: if_splits field_slot.splits)

text \<open>The operations of the builder, with the pointers to ids and callbacks valid.\<close>

datatype filter_op = Start_Field ndb_filter_fieldtype | Start_Tag u8 | Add_Str "u8 list" | Add_Custom "u8 list" | Add_Int u64
  | Add_Id "u8 list" | End_Field | End_Filter

fun filter_do :: "filter_op \<Rightarrow> ndb_filter \<Rightarrow> ndb_filter option" where
  "filter_do (Start_Field t) f = map_option snd (ndb_filter_start_field f t)"
| "filter_do (Start_Tag c) f = map_option snd (ndb_filter_start_tag_field f c)"
| "filter_do (Add_Str s) f = map_option snd (ndb_filter_add_str_element f s)"
| "filter_do (Add_Custom c) f = map_option snd (ndb_filter_add_custom_filter_element f c)"
| "filter_do (Add_Int n) f = map_option snd (ndb_filter_add_int_element f n)"
| "filter_do (Add_Id i) f = map_option snd (ndb_filter_add_id_element f i)"
| "filter_do End_Field f = ndb_filter_end_field f"
| "filter_do End_Filter f = map_option snd (ndb_filter_end f)"

fun op_ok :: "filter_op \<Rightarrow> bool" where
  "op_ok (Add_Custom c) = (length c = 16)"
| "op_ok (Add_Id i) = (length i = 32)"
| "op_ok _ = True"

inductive filter_reach :: "ndb_filter \<Rightarrow> bool" where
  init: "ndb_filter_init_with True pages = Some f \<Longrightarrow> 0 \<le> pages \<Longrightarrow> pages \<le> 2 ^ 16 \<Longrightarrow> filter_reach f"
| step: "filter_reach f \<Longrightarrow> op_ok p \<Longrightarrow> filter_do p f = Some f' \<Longrightarrow> filter_reach f'"

lemma filter_end_cases:
  "ndb_filter_end f = Some (r, f') \<Longrightarrow> f' = f \<or>
     (f_elem_used f + int (length (f_data f)) = 0 \<and> f' = f\<lparr>f_elem_cap := f_elem_used f, f_alloc := False, f_data_cap := 0, f_finalized := True\<rparr>) \<or>
     f' = f\<lparr>f_elem_cap := f_elem_used f, f_data_cap := int (length (f_data f)), f_finalized := True\<rparr>"
  by (cases "f_alloc f"; cases "f_finalized f"; cases "f_elem_used f + int (length (f_data f)) = 0") (simp_all add: ndb_filter_end_def Let_def)

lemma filter_do_wf: "filter_wf f \<Longrightarrow> op_ok p \<Longrightarrow> filter_do p f = Some f' \<Longrightarrow> filter_wf f'"
proof (induction p f rule: filter_do.induct)
  case (3 s f)
  then show ?case by (auto simp: ndb_filter_add_str_element_def ndb_filter_add_str_element_len_def elim!: add_typed_wf[rotated -1])
next
  case (4 c f)
  then show ?case by (auto simp: ndb_filter_add_custom_filter_element_def elim!: add_typed_wf[rotated -1])
next
  case (5 n f)
  then show ?case by (auto simp: ndb_filter_add_int_element_def elim!: add_typed_wf[rotated -1])
next
  case (6 i f)
  then show ?case by (auto simp: ndb_filter_add_id_element_def elim!: add_typed_wf[rotated -1])
next
  case (8 f)
  from 8(3) obtain r where "ndb_filter_end f = Some (r, f')" by auto
  from filter_end_cases[OF this] 8(1)
  have "f' = f \<or> (f_data f = [] \<and> f' = f\<lparr>f_elem_cap := f_elem_used f, f_alloc := False, f_data_cap := 0, f_finalized := True\<rparr>) \<or>
    f' = f\<lparr>f_elem_cap := f_elem_used f, f_data_cap := int (length (f_data f)), f_finalized := True\<rparr>"
    by (metis add_nonneg_eq_0_iff filter_wf_def length_0_conv of_nat_0_le_iff of_nat_eq_0_iff)
  then consider "f' = f" | "f_data f = []" "f' = f\<lparr>f_elem_cap := f_elem_used f, f_alloc := False, f_data_cap := 0, f_finalized := True\<rparr>"
    | "f' = f\<lparr>f_elem_cap := f_elem_used f, f_data_cap := int (length (f_data f)), f_finalized := True\<rparr>" by blast
  then show ?case using 8(1) by cases (cases "f_current f"; simp add: filter_wf_def)+
qed (auto simp: ndb_filter_start_field_def ndb_filter_start_tag_field_def intro: start_field_wf end_field_wf)

text \<open>
  C33 However a filter is built, it stays well formed: after every sequence of builder calls, failed ones
  included, the elements of each field are of the kind the field takes and point to
  complete data, the closed fields that are searched by bisection are sorted, no field type but the tags
  appears twice, and the data fits its buffer.
\<close>

theorem filter_reach_wf:
  assumes "filter_reach f"
  shows "filter_wf f"
  using assms
proof induction
  case (init pages f)
  moreover have "4096 * pages div 4 = 1024 * pages" by simp
  ultimately have "f = \<lparr>f_fields = [], f_current = No_Field, f_alloc = True, f_elem_used = 0, f_elem_cap = 1024 * pages,
      f_data = [], f_data_cap = 3072 * pages, f_finalized = False\<rparr>" by (simp add: ndb_filter_init_with_def Let_def)
  then show ?case using init by (simp add: filter_wf_def)
next
  case (step f p f')
  show ?case by (rule filter_do_wf[OF step.IH step.hyps(2,3)])
qed

section \<open>Building a filter gives what was asked for\<close>

fun add_el :: "ndb_filter \<Rightarrow> ndb_filter_element \<Rightarrow> (bool \<times> ndb_filter) option" where
  "add_el f (El_string s) = ndb_filter_add_str_element f s"
| "add_el f (El_id i) = ndb_filter_add_id_element f i"
| "add_el f (El_integer n) = ndb_filter_add_int_element f n"
| "add_el f (El_custom c) = ndb_filter_add_custom_filter_element f c"

fun add_els :: "ndb_filter \<Rightarrow> ndb_filter_element list \<Rightarrow> (bool \<times> ndb_filter) option" where
  "add_els f [] = Some (True, f)"
| "add_els f (x # xs) = do { (r, f) \<leftarrow> add_el f x; if r then add_els f xs else Some (False, f) }"

text \<open>A field of a request: its type, its tag letter and its elements; and the calls that build it.\<close>

type_synonym field_req = "ndb_filter_fieldtype \<times> u8 \<times> ndb_filter_element list"

fun build_field :: "ndb_filter \<Rightarrow> field_req \<Rightarrow> (bool \<times> ndb_filter) option" where
  "build_field f (t, tag, xs) = do {
     (r, f) \<leftarrow> ndb_filter_start_field_impl f t tag;
     if \<not> r then Some (False, f) else do {
     (r, f) \<leftarrow> add_els f xs;
     if \<not> r then Some (False, f) else do {
     f \<leftarrow> ndb_filter_end_field f;
     Some (True, f) }}}"

fun build_fields :: "ndb_filter \<Rightarrow> field_req list \<Rightarrow> (bool \<times> ndb_filter) option" where
  "build_fields f [] = Some (True, f)"
| "build_fields f (q # qs) = do { (r, f) \<leftarrow> build_field f q; if r then build_fields f qs else Some (False, f) }"

text \<open>The elements of a field are of one kind, strings have no NUL.\<close>

fun el_wf :: "ndb_filter_element \<Rightarrow> bool" where
  "el_wf (El_string s) = (0 \<notin> set s)"
| "el_wf (El_id i) = (length i = 32)"
| "el_wf (El_integer n) = True"
| "el_wf (El_custom c) = (length c = 16)"

fun req_wf :: "field_req \<Rightarrow> bool" where
  "req_wf (t, tag, xs) \<longleftrightarrow> xs \<noteq> [] \<and> takes t (elem_kind (hd xs)) \<and> (\<forall>x\<in>set xs. elem_kind x = elem_kind (hd xs) \<and> el_wf x) \<and>
     (one_value t \<longrightarrow> length xs = 1)"

declare req_wf.simps [simp del]

fun req_spec :: "field_req \<Rightarrow> field_spec" where
  "req_spec (t, tag, xs) =
     (let ids = {i. El_id i \<in> set xs}; strs = {s. El_string s \<in> set xs}; ints = {n. El_integer n \<in> set xs} in
      case t of
        NDB_FILTER_IDS \<Rightarrow> Ids ids | NDB_FILTER_AUTHORS \<Rightarrow> Authors ids | NDB_FILTER_KINDS \<Rightarrow> Kinds ints
      | NDB_FILTER_TAGS \<Rightarrow> if elem_kind (hd xs) = NDB_ELEMENT_ID then Tag_Ids tag ids else Tag_Strs tag strs
      | NDB_FILTER_SINCE \<Rightarrow> Since (elem_word [] (hd xs)) | NDB_FILTER_UNTIL \<Rightarrow> Until (elem_word [] (hd xs))
      | NDB_FILTER_LIMIT \<Rightarrow> Limit (elem_word [] (hd xs)) | NDB_FILTER_SEARCH \<Rightarrow> Search (butlast (elem_bytes (hd xs)))
      | NDB_FILTER_RELAYS \<Rightarrow> Relays strs | NDB_FILTER_CUSTOM \<Rightarrow> Custom (elem_bytes (hd xs)))"

fun req_elem_size :: "field_req \<Rightarrow> int" where
  "req_elem_size (t, tag, xs) = 16 + 8 * int (length xs)"

fun req_data_size :: "field_req \<Rightarrow> int" where
  "req_data_size (t, tag, xs) = int (length (concat (map elem_bytes xs)))"

text \<open>The element that a word of the element buffer stands for.\<close>

fun elem_at :: "u8 list \<Rightarrow> ndb_generic_element_type \<Rightarrow> u64 \<Rightarrow> ndb_filter_element" where
  "elem_at data NDB_ELEMENT_ID w = El_id (id_val data w)"
| "elem_at data NDB_ELEMENT_STRING w = El_string (str_val data w)"
| "elem_at data NDB_ELEMENT_CUSTOM w = El_custom (custom_val data w)"
| "elem_at data _ w = El_integer w"

lemma elem_at_append: "element_ok data k w \<Longrightarrow> elem_at (data @ bs) k w = elem_at data k w"
  by (cases k) (simp_all add: id_val_append str_val_append custom_val_append)

lemma elem_at_new:
  "el_wf x \<Longrightarrow> length data < 2 ^ 31 \<Longrightarrow> elem_at (data @ elem_bytes x) (elem_kind x) (elem_word data x) = x"
proof (cases x)
  case (El_string s)
  assume a: "el_wf x" "length data < 2 ^ 31"
  then have "takeWhile (\<lambda>c. c \<noteq> 0) (s @ [0]) = s" using El_string by (subst takeWhile_append2) auto
  then show ?thesis using El_string a by (simp add: str_val_def unat_length)
qed (simp_all add: id_val_def custom_val_def unat_length)

lemma el_wf_ok: "el_wf x \<Longrightarrow> elem_ok x" by (cases x) simp_all

lemma add_el_step:
  assumes wf: "filter_wf f" and cur: "f_current f = Open_Field els" and x: "el_wf x" "takes (fe_type els) (elem_kind x)"
    and u: "fe_elem_type els \<in> {NDB_ELEMENT_UNKNOWN, elem_kind x}" and s: "one_value (fe_type els) \<Longrightarrow> fe_elements els = []"
    and room: "int (length (f_data f) + length (elem_bytes x)) \<le> f_data_cap f" "f_elem_used f + 8 \<le> f_elem_cap f"
  shows "add_el f x = Some (True, f\<lparr>f_data := f_data f @ elem_bytes x, f_elem_used := f_elem_used f + 8,
      f_current := Open_Field (els\<lparr>fe_elem_type := elem_kind x, fe_elements := fe_elements els @ [elem_word (f_data f) x]\<rparr>)\<rparr>)"
proof -
  have g: "add_typed_element al k f x = Some (True, f\<lparr>f_data := f_data f @ elem_bytes x, f_elem_used := f_elem_used f + 8,
      f_current := Open_Field (els\<lparr>fe_elem_type := elem_kind x, fe_elements := fe_elements els @ [elem_word (f_data f) x]\<rparr>)\<rparr>)"
    if a: "al els" "k = elem_kind x" for al k
  proof -
    obtain r bs where "add_typed_element al k f x = Some (r, f\<lparr>f_data := f_data f @ bs, f_elem_used := f_elem_used f + (if r then 8 else 0),
      f_current := Open_Field (els\<lparr>fe_elem_type := elem_kind x, fe_elements := fe_elements els @ (if r then [elem_word (f_data f) x] else [])\<rparr>)\<rparr>)"
      "r \<longleftrightarrow> int (length (f_data f) + length (elem_bytes x)) \<le> f_data_cap f \<and> f_elem_used f + 8 \<le> f_elem_cap f" "r \<longrightarrow> bs = elem_bytes x"
      using add_typed_spec[of f els al x k] wf cur a x el_wf_ok[OF x(1)] s u by blast
    then show ?thesis using room by simp
  qed
  show ?thesis
  proof (cases x)
    case (El_string v)
    show ?thesis unfolding El_string add_el.simps ndb_filter_add_str_element_def ndb_filter_add_str_element_len_def
      by (rule g[unfolded El_string]) (use x(2) s El_string in \<open>auto simp: one_value_def\<close>)
  next
    case (El_id v)
    show ?thesis unfolding El_id add_el.simps ndb_filter_add_id_element_def
      by (rule g[unfolded El_id]) (use x(2) El_id in auto)
  next
    case (El_integer v)
    show ?thesis unfolding El_integer add_el.simps ndb_filter_add_int_element_def
      by (rule g[unfolded El_integer]) (use x(2) El_integer in auto)
  next
    case (El_custom v)
    show ?thesis unfolding El_custom add_el.simps ndb_filter_add_custom_filter_element_def
      by (rule g[unfolded El_custom]) (use x(2) El_custom in auto)
  qed
qed

lemma add_el_wf: "filter_wf f \<Longrightarrow> el_wf x \<Longrightarrow> add_el f x = Some (r, f') \<Longrightarrow> filter_wf f'"
  using filter_do_wf[of f "case x of El_string s \<Rightarrow> Add_Str s | El_id i \<Rightarrow> Add_Id i | El_integer n \<Rightarrow> Add_Int n | El_custom c \<Rightarrow> Add_Custom c" f']
  by (cases x) simp_all

text \<open>Adding all elements of a field.\<close>

lemma add_els_spec:
  assumes "filter_wf f" "f_current f = Open_Field els" "\<forall>x\<in>set xs. elem_kind x = k \<and> el_wf x" "takes (fe_type els) k"
    and "fe_elem_type els \<in> {NDB_ELEMENT_UNKNOWN, k}" "one_value (fe_type els) \<Longrightarrow> length (fe_elements els) + length xs \<le> 1"
    and "int (length (f_data f) + length (concat (map elem_bytes xs))) \<le> f_data_cap f" "f_elem_used f + 8 * int (length xs) \<le> f_elem_cap f"
    and "k \<noteq> NDB_ELEMENT_UNKNOWN"
  shows "\<exists>f' ws. add_els f xs = Some (True, f') \<and> filter_wf f' \<and> f' = f\<lparr>f_data := f_data f @ concat (map elem_bytes xs),
      f_elem_used := f_elem_used f + 8 * int (length xs),
      f_current := Open_Field (els\<lparr>fe_elem_type := (if xs = [] then fe_elem_type els else k), fe_elements := fe_elements els @ ws\<rparr>)\<rparr> \<and>
    map (elem_at (f_data f') k) ws = xs"
  using assms
proof (induction xs arbitrary: f els)
  case Nil
  then show ?case by (intro exI[of _ f] exI[of _ "[]"]) simp
next
  case (Cons x xs)
  let ?els = "els\<lparr>fe_elem_type := k, fe_elements := fe_elements els @ [elem_word (f_data f) x]\<rparr>"
  let ?f = "f\<lparr>f_data := f_data f @ elem_bytes x, f_elem_used := f_elem_used f + 8, f_current := Open_Field ?els\<rparr>"
  have kx: "elem_kind x = k" "el_wf x" using Cons.prems(3) by auto
  have d: "length (f_data f) < 2 ^ 31" using Cons.prems(1) by (auto simp: filter_wf_def)
  have a: "add_el f x = Some (True, ?f)"
    using add_el_step[of f els x] Cons.prems kx by auto
  have w: "filter_wf ?f" by (rule add_el_wf[OF Cons.prems(1) kx(2) a])
  obtain f' ws where f': "add_els ?f xs = Some (True, f')" "filter_wf f'" "f' = ?f\<lparr>f_data := f_data ?f @ concat (map elem_bytes xs),
      f_elem_used := f_elem_used ?f + 8 * int (length xs),
      f_current := Open_Field (?els\<lparr>fe_elem_type := (if xs = [] then fe_elem_type ?els else k), fe_elements := fe_elements ?els @ ws\<rparr>)\<rparr>"
    "map (elem_at (f_data f') k) ws = xs"
    using Cons.IH[OF w, of ?els] Cons.prems by auto
  have "elem_at (f_data f') k (elem_word (f_data f) x) = elem_at (f_data f @ elem_bytes x) k (elem_word (f_data f) x)"
    unfolding f'(3) using new_element_ok[OF el_wf_ok[OF kx(2)] d] kx(1)
      elem_at_append[of "f_data f @ elem_bytes x" k "elem_word (f_data f) x" "concat (map elem_bytes xs)"] by simp
  then have "elem_at (f_data f') k (elem_word (f_data f) x) = x" using elem_at_new[OF kx(2) d] kx(1) by simp
  then show ?case using a f' by (intro exI[of _ f'] exI[of _ "elem_word (f_data f) x # ws"]) simp
qed

abbreviation is_sorted_type :: "ndb_filter_fieldtype \<Rightarrow> bool" where
  "is_sorted_type t \<equiv> t \<in> {NDB_FILTER_IDS, NDB_FILTER_AUTHORS, NDB_FILTER_RELAYS, NDB_FILTER_KINDS}"

lemma abs_req_spec:
  assumes "req_wf (t, tag, xs)" "k = elem_kind (hd xs)" "map (elem_at data k) ws = xs" "fe_type els = t" "fe_tag els = tag" "fe_elem_type els = k"
    and "set (fe_elements els) = set ws" "\<not> is_sorted_type t \<Longrightarrow> fe_elements els = ws"
  shows "abs_field data els = req_spec (t, tag, xs)"
proof -
  have sx: "set xs = elem_at data k ` set (fe_elements els)" using assms(3,7) by auto
  have t: "takes t k" "xs \<noteq> []" using assms(1) unfolding req_wf.simps assms(2)[symmetric] by blast+
  have h: "hd xs = elem_at data k (hd (fe_elements els))" if "\<not> is_sorted_type t"
  proof -
    have "ws \<noteq> []" using t(2) unfolding assms(3)[symmetric] by simp
    then have "hd (map (elem_at data k) ws) = elem_at data k (hd ws)" by (rule hd_map)
    then show ?thesis unfolding assms(8)[OF that] assms(3) .
  qed
  have k: "k = NDB_ELEMENT_ID \<or> k = NDB_ELEMENT_STRING \<or> k = NDB_ELEMENT_INT \<or> k = NDB_ELEMENT_CUSTOM"
    using assms(2) by (cases "hd xs") simp_all
  note d = abs_field_def Let_def req_spec.simps assms(4-6)
  show ?thesis
  proof (cases t)
    case NDB_FILTER_TAGS
    then have "k = NDB_ELEMENT_ID \<or> k = NDB_ELEMENT_STRING" using t(1) k by auto
    then show ?thesis using NDB_FILTER_TAGS assms(2) sx by (auto simp: d)
  next
    case NDB_FILTER_SEARCH
    then show ?thesis using t(1) k h by (auto simp: d)
  qed (use t(1) k sx h in \<open>auto simp: d\<close>)
qed

lemma end_field_spec:
  assumes cur: "f_current f = Open_Field els" and n: "length (f_fields f) < 10" and p: "is_sorted_type (fe_type els) \<Longrightarrow> fe_type els \<noteq> NDB_FILTER_KINDS \<Longrightarrow> ndb_filter_elem_is_ptr els"
  obtains ys where "ndb_filter_end_field f = Some (f\<lparr>f_fields := f_fields f @ [els\<lparr>fe_elements := ys\<rparr>], f_current := No_Field\<rparr>)"
    "set ys = set (fe_elements els)" "ys \<noteq> [] \<longleftrightarrow> fe_elements els \<noteq> []" "\<not> is_sorted_type (fe_type els) \<longrightarrow> ys = fe_elements els"
proof -
  let ?ys = "case fe_type els of NDB_FILTER_IDS \<Rightarrow> qsort (compare_ids f) (fe_elements els) | NDB_FILTER_AUTHORS \<Rightarrow> qsort (compare_ids f) (fe_elements els)
    | NDB_FILTER_RELAYS \<Rightarrow> qsort (compare_strs f) (fe_elements els) | NDB_FILTER_KINDS \<Rightarrow> qsort compare_kinds (fe_elements els) | _ \<Rightarrow> fe_elements els"
  have q: "(qsort c xs = []) = (xs = [])" for c and xs :: "u64 list" using length_qsort[of c xs] by (metis length_0_conv)
  have "ndb_filter_end_field f = Some (f\<lparr>f_fields := f_fields f @ [els\<lparr>fe_elements := ?ys\<rparr>], f_current := No_Field\<rparr>)"
    using cur n p by (cases "fe_type els") (simp_all add: ndb_filter_end_field_def sort_filter_elements_def)
  then show ?thesis by (rule that) (cases "fe_type els"; simp add: q)+
qed

text \<open>Building one field: it means what was asked, and the other fields keep their meaning.\<close>

lemma build_field_spec:
  assumes wf: "filter_wf f" and cur: "f_current f = No_Field" "f_alloc f" and q: "req_wf (t, tag, xs)" and n: "length (f_fields f) < 10"
    and new: "t \<noteq> NDB_FILTER_TAGS \<Longrightarrow> t \<notin> fe_type ` set (f_fields f)"
    and room: "f_elem_used f + req_elem_size (t, tag, xs) < f_elem_cap f" "int (length (f_data f)) + req_data_size (t, tag, xs) \<le> f_data_cap f"
  shows "\<exists>f' els. build_field f (t, tag, xs) = Some (True, f') \<and> filter_wf f' \<and> f_current f' = No_Field \<and> f_alloc f' \<and>
    f_fields f' = f_fields f @ [els] \<and> f_data f' = f_data f @ concat (map elem_bytes xs) \<and> fe_type els = t \<and> fe_elements els \<noteq> [] \<and>
    abs_field (f_data f') els = req_spec (t, tag, xs) \<and>
    f_elem_used f' = f_elem_used f + req_elem_size (t, tag, xs) \<and> f_elem_cap f' = f_elem_cap f \<and> f_data_cap f' = f_data_cap f \<and> f_finalized f' = f_finalized f"
proof -
  define k where "k = elem_kind (hd xs)"
  let ?els = "\<lparr>fe_type = t, fe_elem_type = NDB_ELEMENT_UNKNOWN, fe_tag = tag, fe_elements = []\<rparr>"
  define f1 where "f1 = f\<lparr>f_elem_used := f_elem_used f + 16, f_current := Open_Field ?els\<rparr>"
  have st: "ndb_filter_start_field_impl f t tag = Some (True, f1)"
  proof -
    have 1: "(\<exists>el\<in>set (f_fields f). fe_type el = t \<and> t \<noteq> NDB_FILTER_TAGS) = False" using new by blast
    have 2: "(f_elem_cap f \<le> f_elem_used f + 16) = False" using room(1) by simp
    show ?thesis unfolding ndb_filter_start_field_impl_def 1 2 f1_def using cur by simp
  qed
  have w1: "filter_wf f1" by (rule start_field_wf[OF wf st])
  have k: "k \<noteq> NDB_ELEMENT_UNKNOWN" by (cases "hd xs") (simp_all add: k_def)
  have q': "takes t k" "xs \<noteq> []" "\<forall>x\<in>set xs. elem_kind x = k \<and> el_wf x" "one_value t \<Longrightarrow> length xs = 1"
    using q unfolding req_wf.simps k_def[symmetric] by blast+
  obtain f2 ws where f2: "add_els f1 xs = Some (True, f2)" "filter_wf f2" "f2 = f1\<lparr>f_data := f_data f1 @ concat (map elem_bytes xs),
      f_elem_used := f_elem_used f1 + 8 * int (length xs),
      f_current := Open_Field (?els\<lparr>fe_elem_type := (if xs = [] then fe_elem_type ?els else k), fe_elements := fe_elements ?els @ ws\<rparr>)\<rparr>"
    "map (elem_at (f_data f2) k) ws = xs"
    using add_els_spec[OF w1, of ?els xs k] q' k room by (auto simp: f1_def)
  define els where "els = ?els\<lparr>fe_elem_type := k, fe_elements := ws\<rparr>"
  have c2: "f_current f2 = Open_Field els" "f_fields f2 = f_fields f" using q'(2) by (simp_all add: f2(3) f1_def els_def)
  obtain ys where ys: "ndb_filter_end_field f2 = Some (f2\<lparr>f_fields := f_fields f2 @ [els\<lparr>fe_elements := ys\<rparr>], f_current := No_Field\<rparr>)"
    "set ys = set (fe_elements els)" "ys \<noteq> [] \<longleftrightarrow> fe_elements els \<noteq> []" "\<not> is_sorted_type (fe_type els) \<longrightarrow> ys = fe_elements els"
  proof (rule end_field_spec[OF c2(1)])
    show "length (f_fields f2) < 10" using n c2 by simp
    show "ndb_filter_elem_is_ptr els" if "is_sorted_type (fe_type els)" "fe_type els \<noteq> NDB_FILTER_KINDS"
      using that q'(1) k by (cases k) (auto simp: els_def ndb_filter_elem_is_ptr_def)
  qed
  let ?f = "f2\<lparr>f_fields := f_fields f2 @ [els\<lparr>fe_elements := ys\<rparr>], f_current := No_Field\<rparr>"
  have "ws \<noteq> []" using f2(4) q'(2) by auto
  moreover have "abs_field (f_data f2) (els\<lparr>fe_elements := ys\<rparr>) = req_spec (t, tag, xs)"
    by (rule abs_req_spec[OF q k_def f2(4)]) (use ys in \<open>simp_all add: els_def\<close>)
  ultimately show ?thesis
    using st f2(1) ys end_field_wf[OF f2(2) ys(1)] cur(2) c2
    by (intro exI[of _ ?f] exI[of _ "els\<lparr>fe_elements := ys\<rparr>"]) (simp add: f2(3) f1_def els_def)
qed


lemma abs_field_append:
  assumes c: "closed_wf data els" and n: "fe_elements els \<noteq> []"
  shows "abs_field (data @ bs) els = abs_field data els"
proof -
  have o: "open_wf data els" using c by (simp add: closed_wf_def)
  have k: "\<forall>w\<in>set (fe_elements els). element_ok data (fe_elem_type els) w" "takes (fe_type els) (fe_elem_type els)"
    using o by (auto simp: open_wf_def)
  have h: "hd (fe_elements els) \<in> set (fe_elements els)" using n by simp
  have "fe_elem_type els \<noteq> NDB_ELEMENT_UNKNOWN" using k(1) h by auto
  then show ?thesis
    using k h by (cases "fe_type els"; cases "fe_elem_type els")
      (auto simp: abs_field_def id_val_append str_val_append custom_val_append intro!: image_cong)
qed

lemma build_fields_spec:
  assumes "filter_wf f" "f_current f = No_Field" "f_alloc f" "\<forall>q\<in>set qs. req_wf q" "length (f_fields f) + length qs \<le> 10"
    and "distinct (filter (\<lambda>t. t \<noteq> NDB_FILTER_TAGS) (map fe_type (f_fields f) @ map fst qs))"
    and "\<forall>els\<in>set (f_fields f). fe_elements els \<noteq> []"
    and "f_elem_used f + (\<Sum>q\<leftarrow>qs. req_elem_size q) < f_elem_cap f" "int (length (f_data f)) + (\<Sum>q\<leftarrow>qs. req_data_size q) \<le> f_data_cap f"
  shows "\<exists>f'. build_fields f qs = Some (True, f') \<and> filter_wf f' \<and> f_alloc f' \<and> f_finalized f' = f_finalized f \<and>
    (\<forall>els\<in>set (f_fields f'). fe_elements els \<noteq> []) \<and>
    map (abs_field (f_data f')) (f_fields f') = map (abs_field (f_data f)) (f_fields f) @ map req_spec qs"
  using assms
proof (induction qs arbitrary: f)
  case (Cons q qs)
  obtain t tag xs where q: "q = (t, tag, xs)" by (cases q)
  have sz: "0 \<le> (\<Sum>q\<leftarrow>qs. req_elem_size q)" "0 \<le> (\<Sum>q\<leftarrow>qs. req_data_size q)" by (rule sum_list_nonneg; auto)+
  have "\<exists>f' els. build_field f (t, tag, xs) = Some (True, f') \<and> filter_wf f' \<and> f_current f' = No_Field \<and> f_alloc f' \<and>
    f_fields f' = f_fields f @ [els] \<and> f_data f' = f_data f @ concat (map elem_bytes xs) \<and> fe_type els = t \<and> fe_elements els \<noteq> [] \<and>
    abs_field (f_data f') els = req_spec (t, tag, xs) \<and>
    f_elem_used f' = f_elem_used f + req_elem_size (t, tag, xs) \<and> f_elem_cap f' = f_elem_cap f \<and> f_data_cap f' = f_data_cap f \<and> f_finalized f' = f_finalized f"
  proof (rule build_field_spec[OF Cons.prems(1-3)])
    show "req_wf (t, tag, xs)" using Cons.prems(4) q by simp
    show "t \<notin> fe_type ` set (f_fields f)" if "t \<noteq> NDB_FILTER_TAGS" using Cons.prems(6) q that by auto
  qed (use Cons.prems(5,8,9) sz q in auto)
  then obtain f' els where f': "build_field f q = Some (True, f')" "filter_wf f'" "f_current f' = No_Field" "f_alloc f'"
    "f_fields f' = f_fields f @ [els]" "f_data f' = f_data f @ concat (map elem_bytes xs)" "fe_type els = t" "fe_elements els \<noteq> []"
    "abs_field (f_data f') els = req_spec q" "f_elem_used f' = f_elem_used f + req_elem_size q" "f_elem_cap f' = f_elem_cap f"
    "f_data_cap f' = f_data_cap f" "f_finalized f' = f_finalized f" unfolding q by blast
  have "\<exists>f''. build_fields f' qs = Some (True, f'') \<and> filter_wf f'' \<and> f_alloc f'' \<and> f_finalized f'' = f_finalized f' \<and>
    (\<forall>els\<in>set (f_fields f''). fe_elements els \<noteq> []) \<and>
    map (abs_field (f_data f'')) (f_fields f'') = map (abs_field (f_data f')) (f_fields f') @ map req_spec qs"
    by (rule Cons.IH[OF f'(2-4)]) (use Cons.prems f' q in auto)
  moreover have "map (abs_field (f_data f')) (f_fields f) = map (abs_field (f_data f)) (f_fields f)"
    unfolding f'(6) using Cons.prems(1,7) by (intro map_cong refl abs_field_append) (auto simp: filter_wf_def)
  ultimately show ?case using f'(1,5,9,13) by (auto simp del: map_eq_conv)
qed (auto simp del: map_eq_conv)

text \<open>
  C31 A filter built from a request matches exactly the notes the request describes. Whatever fields
  with whatever elements are added (each type once, tags any number of times, at most ten
  fields, as far as the buffers have room), all calls succeed and the finished filter accepts a note
  if and only if it has, for every field, one of the requested ids, authors, kinds, tag values or relays
  and a time in the requested interval.
\<close>

theorem built_filter_matches:
  assumes "ndb_filter_init_with True pages = Some f" "0 < pages" "pages \<le> 65536"
    and "\<forall>q\<in>set qs. req_wf q" "length qs \<le> 10" "distinct (filter (\<lambda>t. t \<noteq> NDB_FILTER_TAGS) (map fst qs))"
    and "(\<Sum>q\<leftarrow>qs. req_elem_size q) < 1024 * pages" "(\<Sum>q\<leftarrow>qs. req_data_size q) \<le> 3072 * pages" and "note_wf note"
  shows "\<exists>f1 f2. build_fields f qs = Some (True, f1) \<and> ndb_filter_end f1 = Some (True, f2) \<and>
    ndb_filter_matches_with_relay cb f2 note (Some relays) = Some (\<forall>q\<in>set qs. spec_matches cb note relays (req_spec q))"
proof -
  have "4096 * pages div 4 = 1024 * pages" by simp
  then have f: "f = \<lparr>f_fields = [], f_current = No_Field, f_alloc = True, f_elem_used = 0, f_elem_cap = 1024 * pages,
      f_data = [], f_data_cap = 3072 * pages, f_finalized = False\<rparr>" using assms(1) by (simp add: ndb_filter_init_with_def Let_def)
  have "\<exists>f'. build_fields f qs = Some (True, f') \<and> filter_wf f' \<and> f_alloc f' \<and> f_finalized f' = f_finalized f \<and>
    (\<forall>els\<in>set (f_fields f'). fe_elements els \<noteq> []) \<and>
    map (abs_field (f_data f')) (f_fields f') = map (abs_field (f_data f)) (f_fields f) @ map req_spec qs"
    by (rule build_fields_spec) (use assms in \<open>simp_all add: f filter_wf_def\<close>)
  then obtain f1 where f1: "build_fields f qs = Some (True, f1)" "filter_wf f1" "f_alloc f1" "\<not> f_finalized f1"
    "\<forall>els\<in>set (f_fields f1). fe_elements els \<noteq> []" "map (abs_field (f_data f1)) (f_fields f1) = map req_spec qs" by (auto simp: f simp del: map_eq_conv)
  define f2 where "f2 = snd (the (ndb_filter_end f1))"
  have e: "ndb_filter_end f1 = Some (True, f2)" "f_fields f2 = f_fields f1" "f_data f2 = f_data f1"
    using f1(3,4) by (simp_all add: ndb_filter_end_def Let_def f2_def)
  have w: "filter_wf f2" using filter_do_wf[OF f1(2), of End_Filter] e(1) by simp
  have "ndb_filter_matches_with cb f2 note [] (Some relays) = Some (\<forall>els\<in>set (f_fields f2). fe_type els \<notin> set [] \<longrightarrow>
    spec_matches cb note (case Some relays of None \<Rightarrow> [] | Some rs \<Rightarrow> rs) (abs_field (f_data f2) els))"
    using w f1(5) e(2) assms(9) by (intro matches_meaning) (auto simp: field_ready_def)
  also have "\<dots> = Some (\<forall>s\<in>set (map (abs_field (f_data f1)) (f_fields f1)). spec_matches cb note relays s)" using e by simp
  also have "\<dots> = Some (\<forall>q\<in>set qs. spec_matches cb note relays (req_spec q))" unfolding f1(6) by simp
  finally show ?thesis using f1(1) e(1) by (auto simp: ndb_filter_matches_with_relay_def)
qed

theorem filter_matches_meaning_witness:
  "let f = \<lparr>f_fields = [\<lparr>fe_type = NDB_FILTER_KINDS, fe_elem_type = NDB_ELEMENT_INT, fe_tag = 0, fe_elements = [1, 7]\<rparr>,
        \<lparr>fe_type = NDB_FILTER_SINCE, fe_elem_type = NDB_ELEMENT_INT, fe_tag = 0, fe_elements = [100]\<rparr>],
      f_current = No_Field, f_alloc = True, f_elem_used = 56, f_elem_cap = 1024, f_data = [], f_data_cap = 3072, f_finalized = True\<rparr>;
     note = \<lparr>nt_id = replicate 32 1, nt_pubkey = replicate 32 2, nt_created_at = 150, nt_kind = 7, nt_tags = []\<rparr>
   in ndb_filter_matches_with (\<lambda>_ _. False) f note [] None = Some True"
  unfolding Let_def
  by (subst filter_matches_meaning)
    (simp_all add: filter_wf_def closed_wf_def open_wf_def sorted_field_def one_value_def field_ready_def note_wf_def abs_field_def)

theorem filter_reach_wf_witness:
  "\<exists>f. f_fields f = [] \<and> f_data f = replicate 32 5 \<and> filter_wf f"
proof -
  let ?p = "[Start_Field NDB_FILTER_IDS, Add_Id (replicate 32 5)]"
  let ?f = "\<lparr>f_fields = [], f_current = No_Field, f_alloc = True, f_elem_used = 0, f_elem_cap = 1024, f_data = [], f_data_cap = 3072, f_finalized = False\<rparr>"
  have 0: "filter_reach ?f" by (rule filter_reach.init[of 1]) (simp_all add: ndb_filter_init_with_def Let_def)
  obtain f1 where f1: "filter_do (Start_Field NDB_FILTER_IDS) ?f = Some f1" "f_current f1 = Open_Field \<lparr>fe_type = NDB_FILTER_IDS, fe_elem_type = NDB_ELEMENT_UNKNOWN, fe_tag = 0, fe_elements = []\<rparr>"
    "f_fields f1 = []" "f_data f1 = []" "f_data_cap f1 = 3072" "f_elem_used f1 = 16" "f_elem_cap f1 = 1024"
    by (simp add: ndb_filter_start_field_def ndb_filter_start_field_impl_def)
  obtain f2 where f2: "filter_do (Add_Id (replicate 32 5)) f1 = Some f2" "f_fields f2 = []" "f_data f2 = replicate 32 5"
    using f1 by (simp add: ndb_filter_add_id_element_def add_typed_element_def ndb_filter_set_elem_type_def ndb_filter_add_element_def data_push_def Let_def)
  have "filter_reach f2" by (rule filter_reach.step[OF filter_reach.step[OF 0 _ f1(1)] _ f2(1)]) simp_all
  from filter_reach_wf[OF this] show ?thesis using f2 by blast
qed

theorem built_filter_matches_witness:
  "\<exists>f f1 f2. ndb_filter_init_with True 1 = Some f \<and>
    build_fields f [(NDB_FILTER_KINDS, 0, [El_integer 1, El_integer 0]), (NDB_FILTER_TAGS, 116, [El_string (str ''cat'')])] = Some (True, f1) \<and>
    ndb_filter_end f1 = Some (True, f2) \<and>
    ndb_filter_matches_with_relay (\<lambda>_ _. False) f2 \<lparr>nt_id = replicate 32 1, nt_pubkey = replicate 32 2, nt_created_at = 150, nt_kind = 1,
      nt_tags = [[Packed_Str (str ''t''), Offset_Str (str ''cat'')]]\<rparr> (Some []) = Some True"
proof -
  let ?q = "[(NDB_FILTER_KINDS, 0, [El_integer 1, El_integer 0]), (NDB_FILTER_TAGS, 116, [El_string (str ''cat'')])] :: field_req list"
  let ?n = "\<lparr>nt_id = replicate 32 1, nt_pubkey = replicate 32 2, nt_created_at = 150, nt_kind = 1, nt_tags = [[Packed_Str (str ''t''), Offset_Str (str ''cat'')]]\<rparr>"
  obtain f where f: "ndb_filter_init_with True 1 = Some f" by (simp add: ndb_filter_init_with_def Let_def)
  have m: "\<forall>q\<in>set ?q. spec_matches (\<lambda>_ _. False) ?n [] (req_spec q)"
    by (auto simp: str_def single_letter_def intro!: exI[of _ "[116]"])
  have "\<exists>f1 f2. build_fields f ?q = Some (True, f1) \<and> ndb_filter_end f1 = Some (True, f2) \<and>
    ndb_filter_matches_with_relay (\<lambda>_ _. False) f2 ?n (Some []) = Some (\<forall>q\<in>set ?q. spec_matches (\<lambda>_ _. False) ?n [] (req_spec q))"
    by (rule built_filter_matches[OF f]) (auto simp: req_wf.simps one_value_def note_wf_def str_def)
  then show ?thesis using f m by auto
qed

text \<open>
  C35 Two filters that differ only in the letter of a tag field are equal for \<open>ndb_filter_eq\<close>: the
  comparison of fields leaves the letter out. One matches a note, the other does not.
\<close>

theorem filter_eq_ignores_tag_letter:
  "\<exists>f a b note. ndb_filter_init True = Some f \<and>
     build_fields f [(NDB_FILTER_TAGS, 101, [El_string (str ''x'')])] = Some (True, a) \<and>
     build_fields f [(NDB_FILTER_TAGS, 112, [El_string (str ''x'')])] = Some (True, b) \<and>
     ndb_filter_eq a b = Some True \<and> ndb_filter_is_subset_of a b = Some True \<and>
     ndb_filter_matches cb a note = Some True \<and> ndb_filter_matches cb b note = Some False"
proof -
  define g where "g = (\<lambda>c. \<lparr>f_fields = [\<lparr>fe_type = NDB_FILTER_TAGS, fe_elem_type = NDB_ELEMENT_STRING, fe_tag = c, fe_elements = [0]\<rparr>],
      f_current = No_Field, f_alloc = True, f_elem_used = 24, f_elem_cap = 65536, f_data = [120, 0], f_data_cap = 196608, f_finalized = False\<rparr>)"
  let ?n = "\<lparr>nt_id = replicate 32 1, nt_pubkey = replicate 32 2, nt_created_at = 150, nt_kind = 1, nt_tags = [[Packed_Str [101], Packed_Str [120]]]\<rparr>"
  let ?f0 = "\<lparr>f_fields = [], f_current = No_Field, f_alloc = True, f_elem_used = 0, f_elem_cap = 65536, f_data = [], f_data_cap = 196608, f_finalized = False\<rparr>"
  have b: "build_fields ?f0 [(NDB_FILTER_TAGS, c, [El_string (str ''x'')])] = Some (True, g c)" for c
    by (simp add: g_def ndb_filter_start_field_impl_def ndb_filter_add_str_element_def ndb_filter_add_str_element_len_def add_typed_element_def
        ndb_filter_set_elem_type_def ndb_filter_add_element_def data_push_str_def data_push_def Let_def ndb_filter_end_field_def str_def)
  have r: "read_str (g c) 0 = Some [120]" for c by (simp add: g_def read_str_def ndb_filter_elements_data_def)
  have eq: "ndb_filter_eq (g 101) (g 112) = Some True"
    by (simp add: ndb_filter_eq_def g_def ndb_filter_find_elements_def ndb_filter_field_eq_def r[unfolded g_def])
  moreover from eq have "ndb_filter_is_subset_of (g 101) (g 112) = Some True" by (simp add: ndb_filter_is_subset_of_def g_def)
  moreover have "ndb_filter_matches cb (g 101) ?n = Some True" "ndb_filter_matches cb (g 112) ?n = Some False"
    by (simp_all add: ndb_filter_matches_def ndb_filter_matches_with_def field_matches_def ndb_tag_filter_matches_def tag_step_def single_letter_def g_def r[unfolded g_def])
  moreover have "ndb_filter_init True = Some ?f0" by (simp add: ndb_filter_init_def ndb_filter_init_with_def Let_def)
  ultimately show ?thesis using b[of 101] b[of 112] by blast
qed

text \<open>
  A field of ids, authors or relays that is ended without an element fails an assertion: the sort
  expects elements of a pointer type, but the type of the elements is set only by the first one.
\<close>

theorem empty_ids_field_aborts:
  assumes "t \<in> {NDB_FILTER_IDS, NDB_FILTER_AUTHORS, NDB_FILTER_RELAYS}" and "ndb_filter_start_field f t = Some (True, f')"
  shows "ndb_filter_end_field f' = None"
proof -
  have "f_current f' = Open_Field \<lparr>fe_type = t, fe_elem_type = NDB_ELEMENT_UNKNOWN, fe_tag = 0, fe_elements = []\<rparr>"
    using assms(2) by (auto simp: ndb_filter_start_field_def ndb_filter_start_field_impl_def split: if_splits)
  then show ?thesis using assms(1) by (auto simp: ndb_filter_end_field_def sort_filter_elements_def ndb_filter_elem_is_ptr_def)
qed

theorem empty_ids_field_aborts_witness:
  "\<exists>f f'. ndb_filter_init True = Some f \<and> ndb_filter_start_field f NDB_FILTER_IDS = Some (True, f') \<and> ndb_filter_end_field f' = None"
proof -
  obtain f where f: "ndb_filter_init True = Some f" "f_current f = No_Field" "f_fields f = []" "f_alloc f" "f_elem_used f = 0" "f_elem_cap f = 65536"
    by (simp add: ndb_filter_init_def ndb_filter_init_with_def Let_def)
  then obtain f' where "ndb_filter_start_field f NDB_FILTER_IDS = Some (True, f')"
    by (simp add: ndb_filter_start_field_def ndb_filter_start_field_impl_def)
  with empty_ids_field_aborts[of NDB_FILTER_IDS f f'] f(1) show ?thesis by blast
qed

text \<open>The array of fields has ten places, and tag fields may be repeated: the eleventh is written past its end.\<close>

lemma eleventh_field_overflows:
  "filter_wf f \<Longrightarrow> f_current f = Open_Field els \<Longrightarrow> length (f_fields f) = 10 \<Longrightarrow> ndb_filter_end_field f = None"
  by (simp add: ndb_filter_end_field_def)

section \<open>Equality of filters\<close>

lemma elements_eq_at:
  assumes "elements_eq a b fa fb zs = Some True" "(x, y) \<in> set zs" "fe_elem_type fa = k" "length (f_data a) < 2 ^ 31" "length (f_data b) < 2 ^ 31"
    and "\<forall>(x, y)\<in>set zs. element_ok (f_data a) k x \<and> element_ok (f_data b) k y" "k \<noteq> NDB_ELEMENT_CUSTOM"
  shows "elem_at (f_data a) k x = elem_at (f_data b) k y"
  using assms
proof (induction zs)
  case (Cons z zs)
  obtain u v where z: "z = (u, v)" by (cases z)
  have ok: "element_ok (f_data a) k u" "element_ok (f_data b) k v" using Cons.prems(6) z by auto
  have "elem_at (f_data a) k u = elem_at (f_data b) k v \<and> elements_eq a b fa fb zs = Some True"
    using Cons.prems(1,3-5,7) ok z
    by (cases k) (auto simp: read_id_val read_str_val memcmp_ord3 strcmp_ord3 length_id_val split: if_splits)
  then show ?case using Cons z by auto
qed simp

lemma field_eq_abs:
  assumes eq: "ndb_filter_field_eq a fa b fb = Some True" and wf: "closed_wf (f_data a) fa" "closed_wf (f_data b) fb"
    and d: "length (f_data a) < 2 ^ 31" "length (f_data b) < 2 ^ 31" and ne: "fe_elements fa \<noteq> []" and t: "fe_type fa \<noteq> NDB_FILTER_TAGS"
  shows "abs_field (f_data a) fa = abs_field (f_data b) fb"
proof -
  define k where "k = fe_elem_type fa"
  let ?zs = "zip (fe_elements fa) (fe_elements fb)"
  have e: "length (fe_elements fa) = length (fe_elements fb)" "fe_type fb = fe_type fa" "fe_elem_type fb = k" "k \<noteq> NDB_ELEMENT_UNKNOWN"
    "elements_eq a b fa fb ?zs = Some True"
    using eq by (simp_all add: ndb_filter_field_eq_def k_def split: if_splits)
  have ok: "\<forall>(x, y)\<in>set ?zs. element_ok (f_data a) k x \<and> element_ok (f_data b) k y"
    using wf e(3) by (auto simp: closed_wf_def open_wf_def k_def dest: set_zip_leftD set_zip_rightD)
  have tk: "takes (fe_type fa) k" using wf by (simp add: closed_wf_def open_wf_def k_def)
  have at: "elem_at (f_data a) k (fe_elements fa ! i) = elem_at (f_data b) k (fe_elements fb ! i)"
    if "k \<noteq> NDB_ELEMENT_CUSTOM" "i < length (fe_elements fa)" for i
    by (rule elements_eq_at[OF e(5) _ k_def[symmetric] d ok that(1)]) (use e(1) that(2) in \<open>auto simp: set_zip\<close>)
  obtain x xs y ys where xy: "fe_elements fa = x # xs" "fe_elements fb = y # ys" using ne e(1) by (cases "fe_elements fa"; cases "fe_elements fb") auto
  show ?thesis
  proof (cases k)
    case NDB_ELEMENT_CUSTOM
    then have c: "element_ok (f_data a) NDB_ELEMENT_CUSTOM x" "element_ok (f_data b) NDB_ELEMENT_CUSTOM y" using ok xy by auto
    have "read_custom a fa = Some (custom_val (f_data a) x)" "read_custom b fb = Some (custom_val (f_data b) y)"
      using read_custom_val xy c d by blast+
    moreover have "length (custom_val (f_data a) x) = length (custom_val (f_data b) y)" using c by (simp add: custom_val_def)
    ultimately have "custom_val (f_data a) x = custom_val (f_data b) y"
      using e(5) NDB_ELEMENT_CUSTOM xy by (auto simp: k_def memcmp_ord3 split: if_splits)
    then show ?thesis using tk e(2) xy NDB_ELEMENT_CUSTOM by (simp add: abs_field_def)
  next
    case NDB_ELEMENT_ID
    then have "map (id_val (f_data a)) (fe_elements fa) = map (id_val (f_data b)) (fe_elements fb)"
      using at e(1) by (intro nth_equalityI) simp_all
    then have "id_val (f_data a) ` set (fe_elements fa) = id_val (f_data b) ` set (fe_elements fb)" by (metis set_map)
    then show ?thesis using tk e(2) t NDB_ELEMENT_ID by (auto simp: abs_field_def)
  next
    case NDB_ELEMENT_STRING
    then have m: "map (str_val (f_data a)) (fe_elements fa) = map (str_val (f_data b)) (fe_elements fb)"
      using at e(1) by (intro nth_equalityI) simp_all
    then have "str_val (f_data a) ` set (fe_elements fa) = str_val (f_data b) ` set (fe_elements fb)" by (metis set_map)
    then show ?thesis using tk e(2) t m xy NDB_ELEMENT_STRING by (auto simp: abs_field_def)
  next
    case NDB_ELEMENT_INT
    then have "fe_elements fa = fe_elements fb" using at e(1) by (intro nth_equalityI) simp_all
    then show ?thesis using tk e(2) NDB_ELEMENT_INT by (auto simp: abs_field_def)
  qed (use e in simp)
qed

lemma fields_eq_find:
  "fields_eq eq other xs = Some True \<Longrightarrow> els \<in> set xs \<Longrightarrow> \<exists>els'. ndb_filter_find_elements other (fe_type els) = Some els' \<and> eq els els' = Some True"
  by (induction xs) (auto split: option.splits if_splits simp: bind_eq_Some)

lemma find_elements_Some: "ndb_filter_find_elements f t = Some els \<Longrightarrow> els \<in> set (f_fields f) \<and> fe_type els = t"
  by (auto simp: ndb_filter_find_elements_def find_Some_iff)

lemma find_elements_distinct:
  assumes "distinct (map fe_type (f_fields f))" "els \<in> set (f_fields f)"
  shows "ndb_filter_find_elements f (fe_type els) = Some els"
proof -
  obtain i where i: "i < length (f_fields f)" "f_fields f ! i = els" using assms(2) by (auto simp: in_set_conv_nth)
  have "fe_type (f_fields f ! j) \<noteq> fe_type els" if "j < i" for j
    using assms(1) i that by (auto simp: distinct_map inj_on_def nth_eq_iff_index_eq distinct_conv_nth) 
  then show ?thesis using i by (auto simp: ndb_filter_find_elements_def find_Some_iff intro!: exI[of _ i])
qed

text \<open>
  C34 Filters without tag fields that \<open>ndb_filter_eq\<close> takes for equal match the same notes.
\<close>

theorem equal_filters_match_alike:
  assumes "filter_wf a" "filter_wf b" and "\<forall>els\<in>set (f_fields a) \<union> set (f_fields b). fe_elements els \<noteq> []"
    and "\<forall>els\<in>set (f_fields a). fe_type els \<noteq> NDB_FILTER_TAGS" and "ndb_filter_eq a b = Some True" and "note_wf note"
  shows "ndb_filter_matches_with_relay cb a note (Some relays) = ndb_filter_matches_with_relay cb b note (Some relays)"
proof -
  have len: "length (f_fields a) = length (f_fields b)"
    and fe: "fields_eq (\<lambda>x y. ndb_filter_field_eq a x b y) b (f_fields a) = Some True"
    using assms(5) by (auto simp: ndb_filter_eq_def split: if_splits)
  have d: "length (f_data a) < 2 ^ 31" "length (f_data b) < 2 ^ 31" using assms(1,2) by (auto simp: filter_wf_def)
  have same: "\<exists>els'\<in>set (f_fields b). ndb_filter_find_elements b (fe_type els) = Some els' \<and> fe_type els' = fe_type els \<and>
      abs_field (f_data a) els = abs_field (f_data b) els'"
    if e: "els \<in> set (f_fields a)" for els
  proof -
    obtain els' where x: "ndb_filter_find_elements b (fe_type els) = Some els'" "ndb_filter_field_eq a els b els' = Some True"
      using fields_eq_find[OF fe e] by blast
    have "els' \<in> set (f_fields b)" "fe_type els' = fe_type els" using find_elements_Some[OF x(1)] by simp_all
    moreover have "abs_field (f_data a) els = abs_field (f_data b) els'"
      using x(2) d assms e calculation(1) by (intro field_eq_abs) (auto simp: filter_wf_def)
    ultimately show ?thesis using x(1) by blast
  qed
  have "filter (\<lambda>t. t \<noteq> NDB_FILTER_TAGS) (map fe_type (f_fields a)) = map fe_type (f_fields a)" using assms(4) by (intro filter_True) auto
  then have da: "distinct (map fe_type (f_fields a))" using assms(1) by (simp add: filter_wf_def)
  have sub: "set (map fe_type (f_fields a)) \<subseteq> set (map fe_type (f_fields b))" using same by (auto simp: image_iff) metis
  have "card (set (map fe_type (f_fields a))) = length (f_fields b)" using distinct_card[OF da] len by simp
  then have eq: "set (map fe_type (f_fields a)) = set (map fe_type (f_fields b))" "distinct (map fe_type (f_fields b))"
    using card_length[of "map fe_type (f_fields b)"] card_mono[OF _ sub] card_seteq[OF _ sub] card_distinct[of "map fe_type (f_fields b)"] by auto
  have "abs_field (f_data a) ` set (f_fields a) = abs_field (f_data b) ` set (f_fields b)"
  proof
    show "abs_field (f_data a) ` set (f_fields a) \<subseteq> abs_field (f_data b) ` set (f_fields b)" using same by fastforce
    show "abs_field (f_data b) ` set (f_fields b) \<subseteq> abs_field (f_data a) ` set (f_fields a)"
    proof
      fix s assume "s \<in> abs_field (f_data b) ` set (f_fields b)"
      then obtain y where y: "y \<in> set (f_fields b)" "s = abs_field (f_data b) y" by blast
      then obtain x where x: "x \<in> set (f_fields a)" "fe_type x = fe_type y" using eq(1) by (metis (no_types, lifting) image_iff set_map)
      then show "s \<in> abs_field (f_data a) ` set (f_fields a)"
        using same[OF x(1)] find_elements_distinct[OF eq(2) y(1)] y(2) by (auto intro!: image_eqI[of _ _ x])
    qed
  qed
  moreover have "ndb_filter_matches_with cb f note [] (Some relays) = Some (\<forall>s\<in>abs_field (f_data f) ` set (f_fields f). spec_matches cb note relays s)"
    if "filter_wf f" "\<forall>els\<in>set (f_fields f). fe_elements els \<noteq> []" for f
    using matches_meaning[OF that(1) _ assms(6), of "Some relays" cb "[]"] that(2) by (simp add: field_ready_def)
  ultimately show ?thesis using assms(1-3) unfolding ndb_filter_matches_with_relay_def by (metis Un_iff)
qed

theorem equal_filters_match_alike_witness:
  "\<exists>a b. f_elem_used a \<noteq> f_elem_used b \<and> ndb_filter_eq a b = Some True \<and>
     (\<forall>note cb relays. length (nt_id note) = 32 \<and> length (nt_pubkey note) = 32 \<and> nt_tags note = [] \<longrightarrow>
        ndb_filter_matches_with_relay cb a note (Some relays) = ndb_filter_matches_with_relay cb b note (Some relays))"
proof -
  define g where "g = (\<lambda>n. \<lparr>f_fields = [\<lparr>fe_type = NDB_FILTER_KINDS, fe_elem_type = NDB_ELEMENT_INT, fe_tag = 0, fe_elements = [1, 7]\<rparr>],
      f_current = No_Field, f_alloc = True, f_elem_used = n, f_elem_cap = 1024, f_data = [], f_data_cap = 3072, f_finalized = True\<rparr>)"
  have eq: "ndb_filter_eq (g 32) (g 48) = Some True"
    by (simp add: g_def ndb_filter_eq_def ndb_filter_find_elements_def ndb_filter_field_eq_def)
  moreover have "f_elem_used (g 32) \<noteq> f_elem_used (g 48)" by (simp add: g_def)
  moreover have "ndb_filter_matches_with_relay cb (g 32) n (Some relays) = ndb_filter_matches_with_relay cb (g 48) n (Some relays)"
    if "length (nt_id n) = 32 \<and> length (nt_pubkey n) = 32 \<and> nt_tags n = []" for n cb relays
    by (rule equal_filters_match_alike[OF _ _ _ _ eq])
      (use that in \<open>simp_all add: g_def filter_wf_def closed_wf_def open_wf_def sorted_field_def one_value_def note_wf_def\<close>)
  ultimately show ?thesis by blast
qed

end
