(* ===== verification/Query.thy ===== *)
theory Query
  imports Merger Note_Filter
begin

text \<open>
  Queries, in \<open>src/src/nostrdb.c\<close>: the plans that read an index and match its notes against a
  filter, the limit on the number of results, and the entry points \<open>ndb_query\<close> and \<open>ndb_query_visit\<close>.

  The database is given by its indices, each the list of its entries in key order. \<open>env_ok\<close> says
  whether the memory and the cursors a plan needs were obtained; a plan that does not get them returns
  0 before it reports a note. Full-text and profile search are arguments.
\<close>

section \<open>Results\<close>

record ndb_query_result =
  qr_note :: ndb_note
  qr_note_size :: u64
  qr_note_id :: u64

text \<open>
  A standard query fills an array of a given capacity; a visitor query calls a function, which
  changes its context and may ask to stop.
\<close>

datatype 'c query_out = Standard "ndb_query_result list" nat | Visitor 'c nat bool

record 'c ndb_query_state =
  qs_limit :: u64
  qs_out :: "'c query_out"

type_synonym 'c visitor = "'c \<Rightarrow> ndb_query_result \<Rightarrow> bool \<times> 'c"

definition push_query_result :: "'c visitor \<Rightarrow> 'c ndb_query_state \<Rightarrow> ndb_query_result \<Rightarrow> bool \<times> 'c ndb_query_state" where
  "push_query_result visitor st res =
     (case qs_out st of
        Standard rs cap \<Rightarrow> if length rs + 1 > cap then (False, st) else (True, st\<lparr>qs_out := Standard (rs @ [res]) cap\<rparr>)
      | Visitor ctx visited fin \<Rightarrow>
          (let (stop, ctx) = visitor ctx res in
           (\<not> stop, st\<lparr>qs_out := Visitor ctx (visited + 1) (fin \<or> stop)\<rparr>)))"

definition query_is_full :: "'c ndb_query_state \<Rightarrow> bool" where
  "query_is_full st =
     (case qs_out st of
        Standard rs cap \<Rightarrow> if length rs \<ge> cap then True else if qs_limit st = 0 then False else length rs \<ge> unat (qs_limit st)
      | Visitor ctx visited fin \<Rightarrow> if fin then True else if qs_limit st = 0 then False else visited \<ge> unat (qs_limit st))"

definition ndb_query_result_init :: "ndb_note \<Rightarrow> u64 \<Rightarrow> u64 \<Rightarrow> ndb_query_result" where
  "ndb_query_result_init note note_size note_id = \<lparr>qr_note = note, qr_note_size = note_size, qr_note_id = note_id\<rparr>"

definition compare_query_results :: "ndb_query_result \<Rightarrow> ndb_query_result \<Rightarrow> int" where
  "compare_query_results a b =
     (if nt_created_at (qr_note a) = nt_created_at (qr_note b) then 0
      else if nt_created_at (qr_note a) > nt_created_at (qr_note b) then -1 else 1)"

section \<open>The database\<close>

text \<open>The tag index by tag letter, value and time, which is the order of its stored keys.\<close>

type_synonym tag_index_key = "u8 \<times> u8 list \<times> u64"

definition tag_index_cmp :: "tag_index_key \<Rightarrow> tag_index_key \<Rightarrow> int" where
  "tag_index_cmp a b = (case (a, b) of ((t, v, ts), (t', v', ts')) \<Rightarrow> ord3 (t # v, ts) (t' # v', ts'))"

record ndb_dbs =
  db_note :: "(u64 \<times> ndb_note \<times> u64) list"
  db_note_id :: "(ndb_tsid \<times> u64) list"
  db_note_kind :: "(ndb_u64_ts \<times> u64) list"
  db_note_tags :: "(tag_index_key \<times> u64) list"
  db_note_pubkey :: "(ndb_tsid \<times> u64) list"
  db_note_pubkey_kind :: "(ndb_id_u64_ts \<times> u64) list"
  db_note_relay_kind :: "(u8 list ndb_relay_kind_key \<times> u64) list"
  db_note_relays :: "u64 \<Rightarrow> u8 list list"

definition ndb_get_note_by_key :: "ndb_dbs \<Rightarrow> u64 \<Rightarrow> (ndb_note \<times> u64) option" where
  "ndb_get_note_by_key db key = map_of (db_note db) key"

text \<open>The indices the merger scans.\<close>

definition kind_index :: "ndb_dbs \<Rightarrow> index_db" where
  "kind_index db = map (\<lambda>(k, v). (U64_Key k, v)) (db_note_kind db)"

definition pubkey_kind_index :: "ndb_dbs \<Rightarrow> index_db" where
  "pubkey_kind_index db = map (\<lambda>(k, v). (Id_Key k, v)) (db_note_pubkey_kind db)"

definition relay_kind_index :: "ndb_dbs \<Rightarrow> index_db" where
  "relay_kind_index db = map (\<lambda>(k, v). (Relay_Key k, v)) (db_note_relay_kind db)"

section \<open>Plans\<close>

text \<open>
  What all scans do with an entry: fetch the note, match it against what is left of the filter, and
  report it. The flag is false when the result was refused and the scan breaks off.
\<close>

record 'c query_env =
  qe_visitor :: "'c visitor"
  qe_cb :: "u8 list \<Rightarrow> ndb_note \<Rightarrow> bool"
  qe_db :: ndb_dbs

definition visit_note ::
  "'c query_env \<Rightarrow> ndb_filter \<Rightarrow> ndb_filter_fieldtype list \<Rightarrow> bool \<Rightarrow> 'c ndb_query_state \<Rightarrow> u64 \<Rightarrow> (bool \<times> 'c ndb_query_state) option" where
  "visit_note env f already_matched need_relays st note_key =
     (case ndb_get_note_by_key (qe_db env) note_key of
        None \<Rightarrow> Some (True, st)
      | Some (note, note_size) \<Rightarrow> do {
          r \<leftarrow> ndb_filter_matches_with (qe_cb env) f note already_matched
                 (if need_relays then Some (db_note_relays (qe_db env) note_key) else None);
          if \<not> r then Some (True, st)
          else Some (push_query_result (qe_visitor env) st (ndb_query_result_init note note_size note_key)) })"

definition filter_time :: "ndb_filter \<Rightarrow> ndb_filter_fieldtype \<Rightarrow> u64 \<Rightarrow> u64 option" where
  "filter_time f typ dflt = map_option (\<lambda>p. case p of None \<Rightarrow> dflt | Some t \<Rightarrow> t) (ndb_filter_get_int f typ)"

definition needs_relays :: "ndb_filter \<Rightarrow> bool" where
  "needs_relays f \<longleftrightarrow> ndb_filter_find_elements f NDB_FILTER_RELAYS \<noteq> None"

fun all_notes_loop :: "'c visitor \<Rightarrow> 'c ndb_query_state \<Rightarrow> (u64 \<times> ndb_note \<times> u64) list \<Rightarrow> 'c ndb_query_state" where
  "all_notes_loop visitor st [] = st"
| "all_notes_loop visitor st ((note_id, note, note_size) # es) =
     (let (r, st) = push_query_result visitor st (ndb_query_result_init note note_size note_id) in
      if r then all_notes_loop visitor st es else st)"

definition ndb_query_plan_all_notes :: "'c query_env \<Rightarrow> bool \<Rightarrow> 'c ndb_query_state \<Rightarrow> bool \<times> 'c ndb_query_state" where
  "ndb_query_plan_all_notes env env_ok st =
     (if \<not> env_ok then (False, st) else (True, all_notes_loop (qe_visitor env) st (db_note (qe_db env))))"

fun ids_loop :: "'c query_env \<Rightarrow> ndb_filter \<Rightarrow> bool \<Rightarrow> u64 \<Rightarrow> 'c ndb_query_state \<Rightarrow> u64 list \<Rightarrow> 'c ndb_query_state option" where
  "ids_loop env f need_relays until st [] = Some st"
| "ids_loop env f need_relays until st (off # offs) =
     (if query_is_full st then Some st
      else do {
        i \<leftarrow> read_id f off;
        case ndb_cursor_start ndb_tsid_compare (db_note_id (qe_db env)) (ndb_tsid_init i until) of
          None \<Rightarrow> ids_loop env f need_relays until st offs
        | Some p \<Rightarrow>
            (let (ptsid, note_id) = db_note_id (qe_db env) ! p in
             if memcmp i (ts_id ptsid) \<noteq> 0 then ids_loop env f need_relays until st offs
             else do {
               (r, st) \<leftarrow> visit_note env f [NDB_FILTER_IDS] need_relays st note_id;
               if r then ids_loop env f need_relays until st offs else Some st }) })"

definition ndb_query_plan_execute_ids :: "'c query_env \<Rightarrow> bool \<Rightarrow> ndb_filter \<Rightarrow> 'c ndb_query_state \<Rightarrow> (bool \<times> 'c ndb_query_state) option" where
  "ndb_query_plan_execute_ids env env_ok f st =
     (case ndb_filter_find_elements f NDB_FILTER_IDS of
        None \<Rightarrow> Some (False, st)
      | Some ids \<Rightarrow> do {
          until \<leftarrow> filter_time f NDB_FILTER_UNTIL (- 1);
          if \<not> env_ok then Some (False, st)
          else map_option (\<lambda>st. (True, st)) (ids_loop env f (needs_relays f) until st (fe_elements ids)) })"

text \<open>A backward scan; the number is that of the entries at and before the cursor.\<close>

fun author_scan :: "'c query_env \<Rightarrow> ndb_filter \<Rightarrow> bool \<Rightarrow> u64 \<Rightarrow> u8 list \<Rightarrow> 'c ndb_query_state \<Rightarrow> nat \<Rightarrow> 'c ndb_query_state option" where
  "author_scan env f need_relays since author st 0 = Some st"
| "author_scan env f need_relays since author st (Suc i) =
     (if query_is_full st then Some st
      else
        let (ptsid, note_key) = db_note_pubkey (qe_db env) ! i in
        if ts_timestamp ptsid < since then Some st
        else if memcmp author (ts_id ptsid) \<noteq> 0 then Some st
        else do {
          (r, st) \<leftarrow> visit_note env f [NDB_FILTER_AUTHORS] need_relays st note_key;
          if r then author_scan env f need_relays since author st i else Some st })"

fun authors_loop :: "'c query_env \<Rightarrow> ndb_filter \<Rightarrow> bool \<Rightarrow> u64 \<Rightarrow> u64 \<Rightarrow> 'c ndb_query_state \<Rightarrow> u64 list \<Rightarrow> 'c ndb_query_state option" where
  "authors_loop env f need_relays since until st [] = Some st"
| "authors_loop env f need_relays since until st (off # offs) = do {
     author \<leftarrow> read_id f off;
     st \<leftarrow> (case ndb_cursor_start ndb_tsid_compare (db_note_pubkey (qe_db env)) (ndb_tsid_init author until) of
              None \<Rightarrow> Some st
            | Some p \<Rightarrow> author_scan env f need_relays since author st (Suc p));
     authors_loop env f need_relays since until st offs }"

definition ndb_query_plan_execute_authors :: "'c query_env \<Rightarrow> bool \<Rightarrow> ndb_filter \<Rightarrow> 'c ndb_query_state \<Rightarrow> (bool \<times> 'c ndb_query_state) option" where
  "ndb_query_plan_execute_authors env env_ok f st =
     (case ndb_filter_find_elements f NDB_FILTER_AUTHORS of
        None \<Rightarrow> Some (False, st)
      | Some authors \<Rightarrow> do {
          until \<leftarrow> filter_time f NDB_FILTER_UNTIL (- 1);
          since \<leftarrow> filter_time f NDB_FILTER_SINCE 0;
          if \<not> env_ok then Some (False, st)
          else map_option (\<lambda>st. (True, st)) (authors_loop env f (needs_relays f) since until st (fe_elements authors)) })"


section \<open>Plans that merge\<close>

text \<open>The entries a merger has not passed yet bound the number of calls of \<open>ndb_index_merger_next\<close>.\<close>

definition scanner_size :: "ndb_index_scanner \<Rightarrow> nat" where
  "scanner_size s = (case is_cur s of None \<Rightarrow> 0 | Some i \<Rightarrow> i)"

definition merger_size :: "ndb_index_merger \<Rightarrow> nat" where
  "merger_size m = length (im_heap m) + (\<Sum>s\<leftarrow>im_scanners m. scanner_size s)"

lemma sift_loop_frame: "\<exists>h. sift_loop m i = m\<lparr>im_heap := h\<rparr> \<and> length h = length (im_heap m)"
proof (induction m i rule: sift_loop.induct)
  case (1 m i)
  show ?case
  proof (cases "sift_big m i = i")
    case True
    then show ?thesis by (intro exI[of _ "im_heap m"]) (simp add: sift_loop.simps)
  next
    case False
    let ?m = "ndb_merger_swap m i (sift_big m i)"
    obtain h where "sift_loop ?m (sift_big m i) = ?m\<lparr>im_heap := h\<rparr>" "length h = length (im_heap ?m)" using 1[OF refl False] by blast
    then show ?thesis using False by (intro exI[of _ h]) (simp add: sift_loop.simps[of m i] Let_def ndb_merger_swap_def)
  qed
qed

lemma scanner_load_cur: "ndb_scanner_load db m s = (r, s') \<Longrightarrow> is_cur s' = is_cur s"
  by (auto simp: ndb_scanner_load_def Let_def scanner_read_item split: option.splits if_splits)

lemma merger_next_decreases:
  assumes "ndb_index_merger_next db m = Some (Some note_key, m')"
  shows "merger_size m' < merger_size m"
proof -
  have ne: "im_heap m \<noteq> []" using assms by (auto simp: ndb_index_merger_next_def)
  then have j: "im_heap m ! 0 < length (im_scanners m)" using assms by (auto simp: ndb_index_merger_next_def Let_def split: if_splits)
  define j where "j = im_heap m ! 0"
  let ?s = "im_scanners m ! j"
  obtain r s' where r: "(case scanner_prev ?s of (back, s) \<Rightarrow> if back then ndb_scanner_load db m s else (False, s)) = (r, s')" by (meson surj_pair)
  let ?h = "if r then im_heap m else (butlast (im_heap m))[0 := last (im_heap m)]"
  have "m' = ndb_merger_sift (m\<lparr>im_scanners := (im_scanners m)[j := s'], im_heap := ?h\<rparr>)"
    using assms merger_next_unfold[OF ne j r[unfolded j_def]] by (simp add: j_def)
  then obtain h where m': "m' = m\<lparr>im_scanners := (im_scanners m)[j := s'], im_heap := h\<rparr>" "length h = length ?h"
    using sift_loop_frame[of "m\<lparr>im_scanners := (im_scanners m)[j := s'], im_heap := ?h\<rparr>" 0] by (auto simp: ndb_merger_sift_def)
  have s: "scanner_size s' < scanner_size ?s \<or> (\<not> r \<and> scanner_size s' = scanner_size ?s)" "scanner_size s' \<le> scanner_size ?s"
    using r by (auto simp: scanner_prev_def scanner_size_def split: option.splits nat.splits prod.splits dest!: scanner_load_cur)
  have l: "length h \<le> length (im_heap m)" "\<not> r \<Longrightarrow> length h < length (im_heap m)" using m'(2) ne by auto
  have "(\<Sum>s\<leftarrow>(im_scanners m)[j := s']. scanner_size s) + scanner_size ?s = (\<Sum>s\<leftarrow>im_scanners m. scanner_size s) + scanner_size s'"
    using j elem_le_sum_list[of j "map scanner_size (im_scanners m)"] unfolding j_def[symmetric]
    by (simp add: map_update sum_list_update)
  then show ?thesis using s l unfolding merger_size_def m'(1) by auto
qed

function ndb_query_drain_merger ::
  "'c query_env \<Rightarrow> ndb_filter \<Rightarrow> index_db \<Rightarrow> ndb_filter_fieldtype list \<Rightarrow> bool \<Rightarrow> 'c ndb_query_state \<Rightarrow> ndb_index_merger \<Rightarrow> 'c ndb_query_state option" where
  "ndb_query_drain_merger env f idx already_matched need_relays st m =
     (if query_is_full st then Some st
      else case ndb_index_merger_next idx m of
        None \<Rightarrow> None
      | Some (None, m) \<Rightarrow> Some st
      | Some (Some note_key, m) \<Rightarrow>
          (case visit_note env f already_matched need_relays st note_key of
             None \<Rightarrow> None
           | Some (r, st) \<Rightarrow> if r then ndb_query_drain_merger env f idx already_matched need_relays st m else Some st))"
  by pat_completeness auto
termination
  by (relation "measure (\<lambda>(_, _, _, _, _, _, m). merger_size m)") (auto dest: merger_next_decreases)

declare ndb_query_drain_merger.simps [simp del]

text \<open>Setting up a merger, adding the groups and draining it, as the merging plans do.\<close>

definition merge_plan ::
  "'c query_env \<Rightarrow> ndb_filter \<Rightarrow> index_db \<Rightarrow> ndb_scan_key_type \<Rightarrow> u64 \<Rightarrow> int \<Rightarrow> scan_key list \<Rightarrow> ndb_filter_fieldtype list \<Rightarrow> bool \<Rightarrow>
   'c ndb_query_state \<Rightarrow> (bool \<times> 'c ndb_query_state) option" where
  "merge_plan env f idx key_type since capacity keys already_matched need_relays st =
     (case ndb_index_merger_init True key_type since capacity of
        None \<Rightarrow> Some (False, st)
      | Some m \<Rightarrow> do {
          (r, m) \<leftarrow> merger_add_all idx m keys;
          if \<not> r then Some (False, st)
          else map_option (\<lambda>st. (True, st)) (ndb_query_drain_merger env f idx already_matched need_relays st m) })"

text \<open>The kinds of the kind index: from each kind the search goes on at the next number.\<close>

lemma set_range_kind:
  assumes "mdb_set_range ndb_u64_ts_compare db (ndb_u64_ts_init kind 0) = Some i" "ut_u64 (fst (db ! i)) \<noteq> - 1"
  shows "(2 ^ 64 :: nat) - unat (ut_u64 (fst (db ! i)) + 1) < 2 ^ 64 - unat kind"
proof -
  let ?k = "ut_u64 (fst (db ! i))"
  have "\<not> ndb_u64_ts_compare (fst (db ! i)) (ndb_u64_ts_init kind 0) < 0"
    using assms(1) nth_length_takeWhile[of "\<lambda>(k', _). ndb_u64_ts_compare k' (ndb_u64_ts_init kind 0) < 0" db]
    by (auto simp: mdb_set_range_def Let_def split: if_splits prod.splits)
  then have "kind \<le> ?k" by (auto simp: ndb_u64_ts_compare_def ndb_u64_ts_init_def split: if_splits)
  then have "unat kind \<le> unat ?k" by (simp add: word_le_nat_alt)
  moreover have "unat (?k + 1) = unat ?k + 1"
    using assms(2) by (metis Suc_eq_plus1 add.commute eq_neg_iff_add_eq_0 unatSuc)
  moreover have "unat (?k + 1) < 2 ^ 64" using unsigned_less[of "?k + 1"] by simp
  ultimately show ?thesis by linarith
qed

function all_kinds_from :: "(ndb_u64_ts \<times> u64) list \<Rightarrow> u64 \<Rightarrow> u64 list" where
  "all_kinds_from db kind =
     (case mdb_set_range ndb_u64_ts_compare db (ndb_u64_ts_init kind 0) of
        None \<Rightarrow> []
      | Some i \<Rightarrow>
          let kind = ut_u64 (fst (db ! i)) in
          if kind = - 1 then [kind] else kind # all_kinds_from db (kind + 1))"
  by pat_completeness auto
termination
  by (relation "measure (\<lambda>(_, kind). 2 ^ 64 - unat kind)") (auto dest: set_range_kind)

declare all_kinds_from.simps [simp del]

definition ndb_all_kinds :: "ndb_dbs \<Rightarrow> u64 list" where
  "ndb_all_kinds db = all_kinds_from (db_note_kind db) 0"

definition ndb_query_plan_execute_created_at :: "'c query_env \<Rightarrow> bool \<Rightarrow> ndb_filter \<Rightarrow> 'c ndb_query_state \<Rightarrow> (bool \<times> 'c ndb_query_state) option" where
  "ndb_query_plan_execute_created_at env env_ok f st = do {
     until \<leftarrow> filter_time f NDB_FILTER_UNTIL (- 1);
     since \<leftarrow> filter_time f NDB_FILTER_SINCE 0;
     if \<not> env_ok then Some (False, st)
     else
       let kinds = ndb_all_kinds (qe_db env) in
       merge_plan env f (kind_index (qe_db env)) NDB_SCAN_KEY_U64_TS since (int (length kinds))
         (map (\<lambda>kind. U64_Key (ndb_u64_ts_init kind until)) kinds) [] (needs_relays f) st }"

definition ndb_query_plan_execute_kinds :: "'c query_env \<Rightarrow> bool \<Rightarrow> ndb_filter \<Rightarrow> 'c ndb_query_state \<Rightarrow> (bool \<times> 'c ndb_query_state) option" where
  "ndb_query_plan_execute_kinds env env_ok f st =
     (case ndb_filter_find_elements f NDB_FILTER_KINDS of
        None \<Rightarrow> Some (False, st)
      | Some kinds \<Rightarrow> do {
          until \<leftarrow> filter_time f NDB_FILTER_UNTIL (- 1);
          since \<leftarrow> filter_time f NDB_FILTER_SINCE 0;
          if \<not> env_ok then Some (False, st)
          else merge_plan env f (kind_index (qe_db env)) NDB_SCAN_KEY_U64_TS since (int (length (fe_elements kinds)))
            (map (\<lambda>kind. U64_Key (ndb_u64_ts_init kind until)) (fe_elements kinds)) [NDB_FILTER_KINDS] (needs_relays f) st })"

fun author_kind_keys :: "ndb_filter \<Rightarrow> u64 \<Rightarrow> u64 list \<Rightarrow> u64 list \<Rightarrow> scan_key list option" where
  "author_kind_keys f until kinds [] = Some []"
| "author_kind_keys f until kinds (off # offs) =
     (case ndb_filter_elements_data f off of
        None \<Rightarrow> author_kind_keys f until kinds offs
      | Some _ \<Rightarrow> do {
          author \<leftarrow> read_id f off;
          rest \<leftarrow> author_kind_keys f until kinds offs;
          Some (map (\<lambda>kind. Id_Key (ndb_id_u64_ts_init author kind until)) kinds @ rest) })"

definition ndb_query_plan_execute_author_kinds :: "'c query_env \<Rightarrow> bool \<Rightarrow> ndb_filter \<Rightarrow> 'c ndb_query_state \<Rightarrow> (bool \<times> 'c ndb_query_state) option" where
  "ndb_query_plan_execute_author_kinds env env_ok f st =
     (case ndb_filter_find_elements f NDB_FILTER_KINDS of
        None \<Rightarrow> Some (False, st)
      | Some kinds \<Rightarrow>
          (case ndb_filter_find_elements f NDB_FILTER_AUTHORS of
             None \<Rightarrow> Some (False, st)
           | Some authors \<Rightarrow> do {
               until \<leftarrow> filter_time f NDB_FILTER_UNTIL (- 1);
               since \<leftarrow> filter_time f NDB_FILTER_SINCE 0;
               if \<not> env_ok then Some (False, st)
               else do {
                 keys \<leftarrow> author_kind_keys f until (fe_elements kinds) (fe_elements authors);
                 merge_plan env f (pubkey_kind_index (qe_db env)) NDB_SCAN_KEY_ID_U64_TS since
                   (int (length (fe_elements authors) * length (fe_elements kinds))) keys
                   [NDB_FILTER_KINDS, NDB_FILTER_AUTHORS] (needs_relays f) st }}))"

text \<open>The relay of a key as it is stored, cut to the length the key records.\<close>

definition relay_scan_key :: "u8 list \<Rightarrow> u64 \<Rightarrow> u64 \<Rightarrow> scan_key option" where
  "relay_scan_key relay kind until =
     map_option (\<lambda>k. Relay_Key (k\<lparr>rk_relay := take (unat (rk_relay_len k)) (rk_relay k)\<rparr>))
       (ndb_relay_kind_key_init_high (Some relay) kind until)"

fun relay_kind_keys :: "ndb_filter \<Rightarrow> u64 \<Rightarrow> u64 list \<Rightarrow> u64 list \<Rightarrow> scan_key list option" where
  "relay_kind_keys f until kinds [] = Some []"
| "relay_kind_keys f until kinds (off # offs) =
     (case ndb_filter_elements_data f off of
        None \<Rightarrow> relay_kind_keys f until kinds offs
      | Some _ \<Rightarrow> do {
          relay \<leftarrow> read_str f off;
          rest \<leftarrow> relay_kind_keys f until kinds offs;
          Some (List.map_filter (\<lambda>kind. relay_scan_key relay kind until) kinds @ rest) })"

definition ndb_query_plan_execute_relay_kinds :: "'c query_env \<Rightarrow> bool \<Rightarrow> ndb_filter \<Rightarrow> 'c ndb_query_state \<Rightarrow> (bool \<times> 'c ndb_query_state) option" where
  "ndb_query_plan_execute_relay_kinds env env_ok f st =
     (case ndb_filter_find_elements f NDB_FILTER_KINDS of
        None \<Rightarrow> Some (False, st)
      | Some kinds \<Rightarrow>
          (case ndb_filter_find_elements f NDB_FILTER_RELAYS of
             None \<Rightarrow> Some (False, st)
           | Some relays \<Rightarrow> do {
               until \<leftarrow> filter_time f NDB_FILTER_UNTIL (- 1);
               since \<leftarrow> filter_time f NDB_FILTER_SINCE 0;
               if \<not> env_ok then Some (False, st)
               else do {
                 keys \<leftarrow> relay_kind_keys f until (fe_elements kinds) (fe_elements relays);
                 merge_plan env f (relay_kind_index (qe_db env)) NDB_SCAN_KEY_RELAY_KIND since
                   (int (length (fe_elements relays) * length (fe_elements kinds))) keys
                   [NDB_FILTER_KINDS, NDB_FILTER_RELAYS] False st }}))"

section \<open>The tags plan\<close>

text \<open>The letter of the field is a signed character, the byte of the key an unsigned one.\<close>

fun tag_scan :: "'c query_env \<Rightarrow> ndb_filter \<Rightarrow> bool \<Rightarrow> u8 \<Rightarrow> u8 list \<Rightarrow> 'c ndb_query_state \<Rightarrow> nat \<Rightarrow> 'c ndb_query_state option" where
  "tag_scan env f need_relays letter tag st 0 = Some st"
| "tag_scan env f need_relays letter tag st (Suc i) =
     (if query_is_full st then Some st
      else
        let ((t, v, ts), note_id) = db_note_tags (qe_db env) ! i in
        if uint t \<noteq> sint letter then Some st
        else if length tag \<noteq> length v then Some st
        else if memcmp v tag \<noteq> 0 then Some st
        else do {
          (r, st) \<leftarrow> visit_note env f [NDB_FILTER_TAGS] need_relays st note_id;
          if r then tag_scan env f need_relays letter tag st i else Some st })"

text \<open>The key must fit 255 bytes; its length is passed as an unsigned character.\<close>

fun tags_loop :: "'c query_env \<Rightarrow> ndb_filter \<Rightarrow> ndb_filter_elements \<Rightarrow> bool \<Rightarrow> u64 \<Rightarrow> 'c ndb_query_state \<Rightarrow> u64 list \<Rightarrow> (bool \<times> 'c ndb_query_state) option" where
  "tags_loop env f tags need_relays until st [] = Some (True, st)"
| "tags_loop env f tags need_relays until st (off # offs) = do {
     tag \<leftarrow> (if fe_elem_type tags = NDB_ELEMENT_ID then read_id f off else read_str f off);
     let len = (word_of_nat (length tag) :: u8);
     if unat len + 9 > 255 then Some (False, st)
     else do {
       st \<leftarrow> (case ndb_cursor_start tag_index_cmp (db_note_tags (qe_db env)) (fe_tag tags, take (unat len) tag, until) of
                None \<Rightarrow> Some st
              | Some p \<Rightarrow> tag_scan env f need_relays (fe_tag tags) tag st (Suc p));
       tags_loop env f tags need_relays until st offs }}"

definition ndb_query_plan_execute_tags :: "'c query_env \<Rightarrow> bool \<Rightarrow> ndb_filter \<Rightarrow> 'c ndb_query_state \<Rightarrow> (bool \<times> 'c ndb_query_state) option" where
  "ndb_query_plan_execute_tags env env_ok f st =
     (case ndb_filter_find_elements f NDB_FILTER_TAGS of
        None \<Rightarrow> Some (False, st)
      | Some tags \<Rightarrow> do {
          until \<leftarrow> filter_time f NDB_FILTER_UNTIL (- 1);
          if \<not> env_ok then Some (False, st)
          else tags_loop env f tags (needs_relays f) until st (fe_elements tags) })"

section \<open>Queries\<close>

definition ndb_query_state_fill_limit :: "ndb_filter \<Rightarrow> int option \<Rightarrow> u64 option" where
  "ndb_query_state_fill_limit f result_capacity = do {
     pint \<leftarrow> ndb_filter_get_int f NDB_FILTER_LIMIT;
     let dflt = (case result_capacity of None \<Rightarrow> 0 | Some c \<Rightarrow> word_of_int c);
     Some (case pint of
         None \<Rightarrow> dflt
       | Some n \<Rightarrow>
           if n = 0 then dflt
           else (case result_capacity of None \<Rightarrow> n | Some c \<Rightarrow> word_of_int (min c (sint (ucast n :: u32))))) }"

text \<open>The arguments \<open>text_search\<close> and \<open>profile_search\<close> are the two search plans.\<close>

type_synonym 'c search_plan = "ndb_filter \<Rightarrow> 'c ndb_query_state \<Rightarrow> (bool \<times> 'c ndb_query_state) option"

definition ndb_query_filter ::
  "'c search_plan \<Rightarrow> 'c search_plan \<Rightarrow> 'c query_env \<Rightarrow> bool \<Rightarrow> ndb_filter \<Rightarrow> 'c ndb_query_state \<Rightarrow> (bool \<times> 'c ndb_query_state) option" where
  "ndb_query_filter text_search profile_search env env_ok f st =
     (case ndb_filter_plan f of
        NDB_PLAN_ALL_NOTES \<Rightarrow> Some (ndb_query_plan_all_notes env env_ok st)
      | NDB_PLAN_IDS \<Rightarrow> ndb_query_plan_execute_ids env env_ok f st
      | NDB_PLAN_RELAY_KINDS \<Rightarrow> ndb_query_plan_execute_relay_kinds env env_ok f st
      | NDB_PLAN_SEARCH \<Rightarrow> text_search f st
      | NDB_PLAN_PROFILE_SEARCH \<Rightarrow> profile_search f st
      | NDB_PLAN_KINDS \<Rightarrow> ndb_query_plan_execute_kinds env env_ok f st
      | NDB_PLAN_TAGS \<Rightarrow> ndb_query_plan_execute_tags env env_ok f st
      | NDB_PLAN_CREATED \<Rightarrow> ndb_query_plan_execute_created_at env env_ok f st
      | NDB_PLAN_AUTHORS \<Rightarrow> ndb_query_plan_execute_authors env env_ok f st
      | NDB_PLAN_AUTHOR_KINDS \<Rightarrow> ndb_query_plan_execute_author_kinds env env_ok f st)"

definition visitor_progress :: "'c ndb_query_state \<Rightarrow> nat \<times> bool" where
  "visitor_progress st = (case qs_out st of Standard rs cap \<Rightarrow> (length rs, False) | Visitor ctx visited fin \<Rightarrow> (visited, fin))"

fun query_visit_loop ::
  "'c search_plan \<Rightarrow> 'c search_plan \<Rightarrow> 'c query_env \<Rightarrow> bool \<Rightarrow> 'c ndb_query_state \<Rightarrow> ndb_filter list \<Rightarrow> (bool \<times> 'c ndb_query_state) option" where
  "query_visit_loop ts ps env env_ok st [] = Some (True, st)"
| "query_visit_loop ts ps env env_ok st (f # fs) =
     (let (visited, fin) = visitor_progress st in
      if fin then Some (True, st)
      else do {
        limit \<leftarrow> ndb_query_state_fill_limit f None;
        (r, st) \<leftarrow> ndb_query_filter ts ps env env_ok f
          (st\<lparr>qs_limit := if limit \<noteq> 0 then limit + word_of_nat visited else limit\<rparr>);
        if r then query_visit_loop ts ps env env_ok st fs else Some (False, st) })"

definition ndb_query_visit ::
  "'c search_plan \<Rightarrow> 'c search_plan \<Rightarrow> 'c query_env \<Rightarrow> bool \<Rightarrow> 'c \<Rightarrow> ndb_filter list \<Rightarrow> (bool \<times> 'c ndb_query_state) option" where
  "ndb_query_visit ts ps env env_ok ctx filters =
     (let st = \<lparr>qs_limit = 0, qs_out = Visitor ctx 0 False\<rparr> in
      if filters = [] then Some (False, st) else query_visit_loop ts ps env env_ok st filters)"

definition query_results :: "'c ndb_query_state \<Rightarrow> ndb_query_result list" where
  "query_results st = (case qs_out st of Standard rs cap \<Rightarrow> rs | Visitor ctx visited fin \<Rightarrow> [])"

text \<open>One filter run into its own buffer; \<open>None\<close> inside is a failed query.\<close>

definition query_one ::
  "'c search_plan \<Rightarrow> 'c search_plan \<Rightarrow> 'c query_env \<Rightarrow> bool \<Rightarrow> nat \<Rightarrow> ndb_filter \<Rightarrow> ndb_query_result list option option" where
  "query_one ts ps env env_ok cap f = do {
     limit \<leftarrow> ndb_query_state_fill_limit f (Some (int cap));
     (r, st) \<leftarrow> ndb_query_filter ts ps env env_ok f \<lparr>qs_limit = limit, qs_out = Standard [] cap\<rparr>;
     Some (if r then Some (query_results st) else None) }"

fun query_slabs ::
  "'c search_plan \<Rightarrow> 'c search_plan \<Rightarrow> 'c query_env \<Rightarrow> bool \<Rightarrow> nat \<Rightarrow> ndb_filter list \<Rightarrow> ndb_query_result list option option" where
  "query_slabs ts ps env env_ok cap [] = Some (Some [])"
| "query_slabs ts ps env env_ok cap (f # fs) = do {
     r \<leftarrow> query_one ts ps env env_ok cap f;
     case r of
       None \<Rightarrow> Some None
     | Some rs \<Rightarrow> do { rest \<leftarrow> query_slabs ts ps env env_ok cap fs; Some (map_option ((@) rs) rest) } }"

text \<open>The result is the returned array; an inner \<open>None\<close> is the return value 0.\<close>

definition ndb_query ::
  "'c search_plan \<Rightarrow> 'c search_plan \<Rightarrow> 'c query_env \<Rightarrow> bool \<Rightarrow> nat \<Rightarrow> ndb_filter list \<Rightarrow> ndb_query_result list option option" where
  "ndb_query ts ps env env_ok result_capacity filters =
     (case filters of
        [] \<Rightarrow> Some None
      | [f] \<Rightarrow> map_option (map_option (qsort compare_query_results)) (query_one ts ps env env_ok result_capacity f)
      | _ \<Rightarrow>
          if \<not> env_ok then Some None
          else map_option (map_option (\<lambda>rs. take result_capacity (qsort compare_query_results rs)))
                 (query_slabs ts ps env env_ok result_capacity filters))"

section \<open>Draining a merger\<close>

text \<open>What a scan reports of a note key, by the meaning of the filter.\<close>

definition query_hit :: "'c query_env \<Rightarrow> ndb_filter \<Rightarrow> ndb_filter_fieldtype list \<Rightarrow> u64 \<Rightarrow> ndb_query_result option" where
  "query_hit env f already note_key =
     (case ndb_get_note_by_key (qe_db env) note_key of
        None \<Rightarrow> None
      | Some (note, note_size) \<Rightarrow>
          if \<forall>els\<in>set (f_fields f). fe_type els \<notin> set already \<longrightarrow>
               spec_matches (qe_cb env) note (db_note_relays (qe_db env) note_key) (abs_field (f_data f) els)
          then Some (ndb_query_result_init note note_size note_key) else None)"

definition query_ready :: "'c query_env \<Rightarrow> ndb_filter \<Rightarrow> bool" where
  "query_ready env f \<longleftrightarrow> filter_wf f \<and> (\<forall>els\<in>set (f_fields f). fe_elements els \<noteq> []) \<and>
     (\<forall>(k, note, size')\<in>set (db_note (qe_db env)). note_wf note)"

lemma find_elements_None: "ndb_filter_find_elements f t = None \<longleftrightarrow> (\<forall>els\<in>set (f_fields f). fe_type els \<noteq> t)"
  by (auto simp: ndb_filter_find_elements_def find_None_iff)

text \<open>A field without a relay does not read the relays of the note.\<close>

lemma spec_matches_relays: "\<forall>R. s \<noteq> Relays R \<Longrightarrow> spec_matches cb note rs s = spec_matches cb note rs' s"
  by (cases s) simp_all

lemma matches_hit:
  assumes r: "query_ready env f" and p: "(nk, note, s) \<in> set (db_note (qe_db env))" and n: "need = needs_relays f \<or> NDB_FILTER_RELAYS \<in> set already"
  shows "ndb_filter_matches_with cb f note already (if need then Some (db_note_relays (qe_db env) nk) else None) =
    Some (\<forall>els\<in>set (f_fields f). fe_type els \<notin> set already \<longrightarrow> spec_matches cb note (db_note_relays (qe_db env) nk) (abs_field (f_data f) els))"
proof -
  let ?it = "if need then Some (db_note_relays (qe_db env) nk) else None"
  have w: "filter_wf f" "note_wf note" using r p by (auto simp: query_ready_def)
  have d: "length (f_data f) < 2 ^ 31" using w by (auto simp: filter_wf_def)
  have "field_matches cb f note ?it els = Some (spec_matches cb note (db_note_relays (qe_db env) nk) (abs_field (f_data f) els))"
    if "els \<in> set (f_fields f)" "fe_type els \<notin> set already" for els
  proof -
    have c: "closed_wf (f_data f) els" "field_ready els" using that r by (auto simp: query_ready_def filter_wf_def field_ready_def)
    have nr: "fe_type els = NDB_FILTER_RELAYS \<Longrightarrow> need" using n that by (auto simp: needs_relays_def find_elements_None)
    have "spec_matches cb note (case ?it of None \<Rightarrow> [] | Some rs \<Rightarrow> rs) (abs_field (f_data f) els) = spec_matches cb note (db_note_relays (qe_db env) nk) (abs_field (f_data f) els)"
    proof (cases need)
      case False
      then have "fe_type els \<noteq> NDB_FILTER_RELAYS" using nr by blast
      then have "\<forall>R. abs_field (f_data f) els \<noteq> Relays R" by (cases "fe_type els") (simp_all add: abs_field_def Let_def)
      then show ?thesis by (rule spec_matches_relays)
    qed simp
    then show ?thesis using field_matches_spec[OF c(1) d w(2) c(2), of ?it cb] nr by simp
  qed
  then have "fields_match (field_matches cb f note ?it) already xs = Some (\<forall>els\<in>set xs. fe_type els \<notin> set already \<longrightarrow>
      spec_matches cb note (db_note_relays (qe_db env) nk) (abs_field (f_data f) els))" if "set xs \<subseteq> set (f_fields f)" for xs
    using that by (induction xs) auto
  then show ?thesis by (simp add: ndb_filter_matches_with_def)
qed

lemma visit_note_hit:
  assumes r: "query_ready env f" and n: "need = needs_relays f \<or> NDB_FILTER_RELAYS \<in> set already"
  shows "visit_note env f already need st nk =
    Some (case query_hit env f already nk of None \<Rightarrow> (True, st) | Some res \<Rightarrow> push_query_result (qe_visitor env) st res)"
proof (cases "ndb_get_note_by_key (qe_db env) nk")
  case None
  then show ?thesis by (simp add: visit_note_def query_hit_def)
next
  case (Some p)
  then obtain n' s where p: "p = (n', s)" "(nk, n', s) \<in> set (db_note (qe_db env))"
    by (cases p) (auto simp: ndb_get_note_by_key_def dest: map_of_SomeD)
  let ?it = "if need then Some (db_note_relays (qe_db env) nk) else None"
  have "ndb_filter_matches_with (qe_cb env) f n' already ?it = Some (\<forall>els\<in>set (f_fields f). fe_type els \<notin> set already \<longrightarrow>
      spec_matches (qe_cb env) n' (db_note_relays (qe_db env) nk) (abs_field (f_data f) els))"
    by (rule matches_hit[OF r p(2) n])
  then show ?thesis using Some p(1) by (auto simp: visit_note_def query_hit_def)
qed


text \<open>A standard query takes every hit as long as it is not full.\<close>

definition hits :: "'c query_env \<Rightarrow> ndb_filter \<Rightarrow> ndb_filter_fieldtype list \<Rightarrow> (u64 \<times> u64) list \<Rightarrow> ndb_query_result list" where
  "hits env f already xs = List.map_filter (\<lambda>x. query_hit env f already (snd x)) xs"

lemma hits_Nil [simp]: "hits env f already [] = []"
  by (simp add: hits_def map_filter_simps)

lemma hits_Cons: "hits env f already (x # xs) = (case query_hit env f already (snd x) of None \<Rightarrow> [] | Some r \<Rightarrow> [r]) @ hits env f already xs"
  by (simp add: hits_def map_filter_simps split: option.splits)

lemma drain_spec:
  assumes r: "query_ready env f" and n: "need = needs_relays f \<or> NDB_FILTER_RELAYS \<in> set already"
    and "merger_inv idx m" "qs_out st = Standard rs cap"
  shows "\<exists>xs rest st'. ndb_query_drain_merger env f idx already need st m = Some st' \<and>
    st' = st\<lparr>qs_out := Standard (rs @ hits env f already xs) cap\<rparr> \<and> merger_pending idx m = mset xs + rest \<and>
    sorted_wrt (\<lambda>x y. fst y \<le> fst x) xs \<and> (\<forall>x\<in>set xs. \<forall>y\<in>#rest. fst y \<le> fst x) \<and> (query_is_full st' \<or> rest = {#})"
  using assms(3,4)
proof (induction "size (merger_pending idx m)" arbitrary: m st rs rule: less_induct)
  case less
  have st: "st\<lparr>qs_out := Standard rs cap\<rparr> = st" using less.prems(2) by simp
  show ?case
  proof (cases "query_is_full st")
    case True
    then have "ndb_query_drain_merger env f idx already need st m = Some st" by (subst ndb_query_drain_merger.simps) simp
    then show ?thesis using True st by (intro exI[of _ "[]"] exI[of _ "merger_pending idx m"] exI[of _ st]) simp
  next
    case False
    show ?thesis
    proof (cases "im_heap m = []")
      case True
      then have "ndb_query_drain_merger env f idx already need st m = Some st"
        using False by (subst ndb_query_drain_merger.simps) (simp add: merger_next_empty)
      moreover have "merger_pending idx m = {#}" using True by (simp add: merger_pending_def)
      ultimately show ?thesis using st by (intro exI[of _ "[]"] exI[of _ "{#}"] exI[of _ st]) simp
    next
      case heap: False
      obtain x m' where x: "ndb_index_merger_next idx m = Some (Some (snd x), m')" "merger_inv idx m'"
        "merger_pending idx m = add_mset x (merger_pending idx m')" "\<forall>y\<in>#merger_pending idx m. fst y \<le> fst x"
        using merger_next_step[OF less.prems(1) heap] by blast
      define new where "new = (case query_hit env f already (snd x) of None \<Rightarrow> [] | Some res \<Rightarrow> [res])"
      have cap: "length rs < cap" using False less.prems(2) by (auto simp: query_is_full_def split: if_splits)
      let ?st = "st\<lparr>qs_out := Standard (rs @ new) cap\<rparr>"
      have v: "visit_note env f already need st (snd x) = Some (True, ?st)"
        using visit_note_hit[OF r n] cap less.prems(2) st by (auto simp: new_def push_query_result_def split: option.splits)
      have d: "ndb_query_drain_merger env f idx already need st m = ndb_query_drain_merger env f idx already need ?st m'"
        using False x(1) v by (subst ndb_query_drain_merger.simps) simp
      have "size (merger_pending idx m') < size (merger_pending idx m)" using x(3) by simp
      from less.hyps[OF this x(2), of ?st "rs @ new"]
      obtain xs rest st' where i: "ndb_query_drain_merger env f idx already need ?st m' = Some st'"
        "st' = ?st\<lparr>qs_out := Standard ((rs @ new) @ hits env f already xs) cap\<rparr>" "merger_pending idx m' = mset xs + rest"
        "sorted_wrt (\<lambda>x y. fst y \<le> fst x) xs" "\<forall>x\<in>set xs. \<forall>y\<in>#rest. fst y \<le> fst x" "query_is_full st' \<or> rest = {#}"
        by auto
      then show ?thesis using d x(3,4)
        by (intro exI[of _ "x # xs"] exI[of _ rest] exI[of _ st']) (auto simp: hits_Cons new_def)
    qed
  qed
qed

section \<open>The newest matches\<close>

text \<open>The merging plans return the newest hits of their groups.\<close>

lemma merge_plan_spec:
  assumes r: "query_ready env f" and n: "need = needs_relays f \<or> NDB_FILTER_RELAYS \<in> set already"
    and db: "scan_order.in_order t idx" and ks: "\<forall>k\<in>set ks. wf_scan_key t k" "int (length ks) \<le> capacity" and st: "qs_out st = Standard rs cap"
  shows "\<exists>xs rest st'. merge_plan env f idx t since capacity ks already need st = Some (True, st') \<and>
    st' = st\<lparr>qs_out := Standard (rs @ hits env f already xs) cap\<rparr> \<and> (\<Sum>k\<in>#mset ks. mset (scan_range idx since k)) = mset xs + rest \<and>
    sorted_wrt (\<lambda>x y. fst y \<le> fst x) xs \<and> (\<forall>x\<in>set xs. \<forall>y\<in>#rest. fst y \<le> fst x) \<and> (query_is_full st' \<or> rest = {#})"
proof -
  obtain m where m: "ndb_index_merger_init True t since capacity = Some m" "merger_inv idx m" "merger_pending idx m = {#}"
    "im_scanners m = []" "im_since m = since" "im_key_type m = t" "int (im_capacity m) = max 1 capacity"
    using merger_init_inv[OF db] by metis
  have "length (im_scanners m) + length ks \<le> im_capacity m" using m(4,7) ks(2) by simp
  then obtain m' where m': "merger_add_all idx m ks = Some (True, m')" "merger_inv idx m'"
    "merger_pending idx m' = (\<Sum>k\<in>#mset ks. mset (scan_range idx since k))"
    using merger_add_all_spec[OF m(2), of ks] ks(1) m by auto
  obtain xs rest st' where d: "ndb_query_drain_merger env f idx already need st m' = Some st'"
    "st' = st\<lparr>qs_out := Standard (rs @ hits env f already xs) cap\<rparr>" "merger_pending idx m' = mset xs + rest"
    "sorted_wrt (\<lambda>x y. fst y \<le> fst x) xs" "\<forall>x\<in>set xs. \<forall>y\<in>#rest. fst y \<le> fst x" "query_is_full st' \<or> rest = {#}"
    using drain_spec[OF r n m'(2) st] by blast
  then show ?thesis using m(1) m'(1,3) by (intro exI[of _ xs] exI[of _ rest] exI[of _ st']) (simp add: merge_plan_def)
qed

text \<open>The entries of one kind in an interval of time, as pairs of time and note key.\<close>

definition kind_entries :: "ndb_dbs \<Rightarrow> u64 \<Rightarrow> u64 \<Rightarrow> u64 \<Rightarrow> (u64 \<times> u64) list" where
  "kind_entries db since until kind =
     map (\<lambda>(k, v). (ut_timestamp k, v)) (filter (\<lambda>(k, v). ut_u64 k = kind \<and> since \<le> ut_timestamp k \<and> ut_timestamp k < until) (db_note_kind db))"

definition kind_index_sorted :: "ndb_dbs \<Rightarrow> bool" where
  "kind_index_sorted db \<longleftrightarrow> sorted (map (\<lambda>(k, v). (ut_u64 k, ut_timestamp k)) (db_note_kind db))"

lemma kind_index_order: "kind_index_sorted db \<Longrightarrow> scan_order.in_order NDB_SCAN_KEY_U64_TS (kind_index db)"
proof -
  assume s: "kind_index_sorted db"
  have "sorted (map (\<lambda>e. scan_rank (fst e)) (kind_index db)) = sorted (map (\<lambda>(k, v). ((([] :: u8 list), ut_u64 k), ut_timestamp k, 0 :: u64)) (db_note_kind db))"
    by (simp add: kind_index_def comp_def split_def)
  also have "\<dots> = sorted_wrt (\<lambda>x y. (([] :: u8 list, ut_u64 (fst x)), ut_timestamp (fst x), 0 :: u64) \<le> (([], ut_u64 (fst y)), ut_timestamp (fst y), 0)) (db_note_kind db)"
    by (simp add: sorted_map split_def)
  also have "\<dots>"
    using s unfolding kind_index_sorted_def sorted_map
    by (rule sorted_wrt_mono_rel[rotated]) (auto simp: split_def less_eq_prod_def less_prod_def')
  finally have "sorted (map (\<lambda>e. scan_rank (fst e)) (kind_index db))" .
  then show ?thesis by (auto simp: scan_order.in_order_def kind_index_def)
qed

lemma scan_range_kind: "scan_range (kind_index db) since (U64_Key (ndb_u64_ts_init kind until)) = kind_entries db since until kind"
proof -
  have "filter (\<lambda>e. in_scan since (U64_Key (ndb_u64_ts_init kind until)) e \<and> scan_rank (fst e) < scan_rank (U64_Key (ndb_u64_ts_init kind until))) (kind_index db) =
      map (\<lambda>(k, v). (U64_Key k, v)) (filter (\<lambda>(k, v). ut_u64 k = kind \<and> since \<le> ut_timestamp k \<and> ut_timestamp k < until) (db_note_kind db))"
    unfolding kind_index_def filter_map
    by (intro arg_cong[of _ _ "map _"] filter_cong) (auto simp: scan_group_def scan_stamp_def ndb_u64_ts_init_def less_prod_def')
  then show ?thesis by (simp add: scan_range_def kind_entries_def comp_def split_def scan_item_def scan_stamp_def)
qed

lemma filter_time_total: "query_ready env f \<Longrightarrow> \<exists>t. filter_time f typ d = Some t"
  using find_elements_Some
  by (cases "ndb_filter_find_elements f typ") (fastforce simp: filter_time_def ndb_filter_get_int_def query_ready_def split: list.splits)+

lemma kinds_query:
  fixes env :: "'c query_env"
  assumes "query_ready env f" and "kind_index_sorted (qe_db env)" and "ndb_filter_find_elements f NDB_FILTER_KINDS = Some kinds"
    and "filter_time f NDB_FILTER_SINCE 0 = Some since" and "filter_time f NDB_FILTER_UNTIL (- 1) = Some until"
  shows "\<exists>xs rest rs. ndb_query_plan_execute_kinds env True f \<lparr>qs_limit = limit, qs_out = Standard [] cap\<rparr> =
      Some (True, \<lparr>qs_limit = limit, qs_out = Standard rs cap\<rparr>) \<and>
    rs = List.map_filter (\<lambda>x. query_hit env f [NDB_FILTER_KINDS] (snd x)) xs \<and>
    (\<Sum>k\<in>#mset (fe_elements kinds). mset (kind_entries (qe_db env) since until k)) = mset xs + rest \<and>
    sorted_wrt (\<lambda>x y. fst y \<le> fst x) xs \<and> (\<forall>x\<in>set xs. \<forall>y\<in>#rest. fst y \<le> fst x) \<and>
    (query_is_full \<lparr>qs_limit = limit, qs_out = Standard rs cap :: 'c query_out\<rparr> \<or> rest = {#})"
proof -
  let ?st = "\<lparr>qs_limit = limit, qs_out = Standard [] cap :: 'c query_out\<rparr>" and ?ks = "map (\<lambda>kind. U64_Key (ndb_u64_ts_init kind until)) (fe_elements kinds)"
  have "\<exists>xs rest st'. merge_plan env f (kind_index (qe_db env)) NDB_SCAN_KEY_U64_TS since (int (length (fe_elements kinds))) ?ks [NDB_FILTER_KINDS] (needs_relays f) ?st = Some (True, st') \<and>
    st' = ?st\<lparr>qs_out := Standard ([] @ hits env f [NDB_FILTER_KINDS] xs) cap\<rparr> \<and> (\<Sum>k\<in>#mset ?ks. mset (scan_range (kind_index (qe_db env)) since k)) = mset xs + rest \<and>
    sorted_wrt (\<lambda>x y. fst y \<le> fst x) xs \<and> (\<forall>x\<in>set xs. \<forall>y\<in>#rest. fst y \<le> fst x) \<and> (query_is_full st' \<or> rest = {#})"
    by (rule merge_plan_spec[OF assms(1) _ kind_index_order[OF assms(2)]]) simp_all
  then obtain xs rest where x: "merge_plan env f (kind_index (qe_db env)) NDB_SCAN_KEY_U64_TS since (int (length (fe_elements kinds))) ?ks [NDB_FILTER_KINDS] (needs_relays f) ?st =
      Some (True, \<lparr>qs_limit = limit, qs_out = Standard (hits env f [NDB_FILTER_KINDS] xs) cap\<rparr>)"
    "(\<Sum>k\<in>#mset ?ks. mset (scan_range (kind_index (qe_db env)) since k)) = mset xs + rest"
    "sorted_wrt (\<lambda>x y. fst y \<le> fst x) xs" "\<forall>x\<in>set xs. \<forall>y\<in>#rest. fst y \<le> fst x"
    "query_is_full \<lparr>qs_limit = limit, qs_out = Standard (hits env f [NDB_FILTER_KINDS] xs) cap :: 'c query_out\<rparr> \<or> rest = {#}" by auto
  have "(\<Sum>k\<in>#mset ?ks. mset (scan_range (kind_index (qe_db env)) since k)) = (\<Sum>k\<in>#mset (fe_elements kinds). mset (kind_entries (qe_db env) since until k))"
    by (simp add: scan_range_kind image_mset.compositionality comp_def)
  moreover have "ndb_query_plan_execute_kinds env True f ?st = Some (True, \<lparr>qs_limit = limit, qs_out = Standard (hits env f [NDB_FILTER_KINDS] xs) cap\<rparr>)"
    using x(1) assms(3-5) by (simp add: ndb_query_plan_execute_kinds_def)
  ultimately show ?thesis using x(2-) unfolding hits_def by (intro exI[of _ xs] exI[of _ rest] exI) auto
qed

text \<open>
  C29 A query by kinds returns the newest matches. The plan walks the merged kind index; what it returns
  are the notes that match the whole filter among the newest entries \<open>xs\<close> with one of the
  kinds, from \<open>since\<close> on and before \<open>until\<close>, newest first; and it stops short of the other entries only when
  the results are full.
\<close>

theorem kinds_query_newest:
  fixes env :: "'c query_env"
  assumes "query_ready env f" and "kind_index_sorted (qe_db env)" and "ndb_filter_find_elements f NDB_FILTER_KINDS = Some kinds"
    and "filter_time f NDB_FILTER_SINCE 0 = Some since" and "filter_time f NDB_FILTER_UNTIL (- 1) = Some until"
  shows "\<exists>xs rest rs. ndb_query_plan_execute_kinds env True f \<lparr>qs_limit = limit, qs_out = Standard [] cap\<rparr> =
      Some (True, \<lparr>qs_limit = limit, qs_out = Standard rs cap\<rparr>) \<and>
    rs = List.map_filter (\<lambda>x. query_hit env f [NDB_FILTER_KINDS] (snd x)) xs \<and>
    (\<Sum>k\<in>#mset (fe_elements kinds). mset (kind_entries (qe_db env) since until k)) = mset xs + rest \<and>
    sorted_wrt (\<lambda>x y. fst y \<le> fst x) xs \<and> (\<forall>x\<in>set xs. \<forall>y\<in>#rest. fst y \<le> fst x) \<and>
    (query_is_full \<lparr>qs_limit = limit, qs_out = Standard rs cap :: 'c query_out\<rparr> \<or> rest = {#})"
  using assms by (rule kinds_query)

theorem kinds_query_newest_witness:
  "\<exists>(env :: unit query_env) f (kinds :: ndb_filter_elements) since until. fe_elements kinds = [1, 7] \<and> length (db_note_kind (qe_db env)) = 2 \<and>
    (\<exists>xs rest rs. ndb_query_plan_execute_kinds env True f \<lparr>qs_limit = 1, qs_out = Standard [] 10\<rparr> =
      Some (True, \<lparr>qs_limit = 1, qs_out = Standard rs 10\<rparr>) \<and>
    rs = List.map_filter (\<lambda>x. query_hit env f [NDB_FILTER_KINDS] (snd x)) xs \<and>
    (\<Sum>k\<in>#mset (fe_elements kinds). mset (kind_entries (qe_db env) since until k)) = mset xs + rest \<and>
    sorted_wrt (\<lambda>x y. fst y \<le> fst x) xs \<and> (\<forall>x\<in>set xs. \<forall>y\<in>#rest. fst y \<le> fst x) \<and>
    (query_is_full \<lparr>qs_limit = 1, qs_out = Standard rs 10 :: unit query_out\<rparr> \<or> rest = {#}))"
proof -
  let ?kinds = "\<lparr>fe_type = NDB_FILTER_KINDS, fe_elem_type = NDB_ELEMENT_INT, fe_tag = 0, fe_elements = [1, 7]\<rparr>"
  let ?f = "\<lparr>f_fields = [?kinds], f_current = No_Field, f_alloc = True, f_elem_used = 32, f_elem_cap = 32, f_data = [], f_data_cap = 0, f_finalized = True\<rparr>"
  let ?n = "\<lambda>k t. \<lparr>nt_id = replicate 32 1, nt_pubkey = replicate 32 2, nt_created_at = t, nt_kind = k, nt_tags = []\<rparr>"
  let ?db = "\<lparr>db_note = [(5, ?n 1 100, 60), (6, ?n 7 90, 60)], db_note_id = [], db_note_kind = [(ndb_u64_ts_init 1 100, 5), (ndb_u64_ts_init 7 90, 6)],
    db_note_tags = [], db_note_pubkey = [], db_note_pubkey_kind = [], db_note_relay_kind = [], db_note_relays = \<lambda>_. []\<rparr>"
  let ?env = "\<lparr>qe_visitor = \<lambda>_ _. (False, ()), qe_cb = \<lambda>_ _. False, qe_db = ?db\<rparr>"
  have "query_ready ?env ?f"
    by (simp add: query_ready_def filter_wf_def closed_wf_def open_wf_def sorted_field_def one_value_def note_wf_def)
  moreover have "kind_index_sorted (qe_db ?env)" by (simp add: kind_index_sorted_def ndb_u64_ts_init_def)
  moreover have "ndb_filter_find_elements ?f NDB_FILTER_KINDS = Some ?kinds" "filter_time ?f NDB_FILTER_SINCE 0 = Some 0" "filter_time ?f NDB_FILTER_UNTIL (- 1) = Some (- 1)"
    by (simp_all add: ndb_filter_find_elements_def filter_time_def ndb_filter_get_int_def)
  ultimately have "\<exists>xs rest rs. ndb_query_plan_execute_kinds ?env True ?f \<lparr>qs_limit = 1, qs_out = Standard [] 10\<rparr> =
      Some (True, \<lparr>qs_limit = 1, qs_out = Standard rs 10\<rparr>) \<and>
    rs = List.map_filter (\<lambda>x. query_hit ?env ?f [NDB_FILTER_KINDS] (snd x)) xs \<and>
    (\<Sum>k\<in>#mset (fe_elements ?kinds). mset (kind_entries (qe_db ?env) 0 (- 1) k)) = mset xs + rest \<and>
    sorted_wrt (\<lambda>x y. fst y \<le> fst x) xs \<and> (\<forall>x\<in>set xs. \<forall>y\<in>#rest. fst y \<le> fst x) \<and>
    (query_is_full \<lparr>qs_limit = 1, qs_out = Standard rs 10 :: unit query_out\<rparr> \<or> rest = {#})"
    by (rule kinds_query_newest)
  then show ?thesis
    by (intro exI[of _ ?env] exI[of _ ?f] exI[of _ ?kinds] exI[of _ 0] exI[of _ "- 1"] conjI) (simp, simp, assumption)
qed

section \<open>Bounds on the results\<close>

text \<open>The results fit the array, and the limit if there is one.\<close>

definition bounded :: "u64 \<Rightarrow> nat \<Rightarrow> 'c ndb_query_state \<Rightarrow> bool" where
  "bounded limit cap st \<longleftrightarrow> qs_limit st = limit \<and>
     (\<exists>rs. qs_out st = Standard rs cap \<and> length rs \<le> cap \<and> (limit = 0 \<or> length rs \<le> unat limit))"

lemma visit_bounded:
  assumes "bounded l c st" "\<not> query_is_full st" "visit_note env f already need st nk = Some (r, st')"
  shows "bounded l c st'"
  using assms by (auto simp: bounded_def visit_note_def query_is_full_def push_query_result_def bind_eq_Some split: option.splits if_splits)

lemma ids_loop_bounded: "ids_loop env f need until st offs = Some st' \<Longrightarrow> bounded l c st \<Longrightarrow> bounded l c st'"
proof (induction env f need until st offs rule: ids_loop.induct)
  case (2 env f need until st off offs)
  show ?case
  proof (cases "query_is_full st")
    case False
    obtain i where i: "read_id f off = Some i" using 2(4) False by (auto simp: bind_eq_Some)
    show ?thesis
    proof (cases "ndb_cursor_start ndb_tsid_compare (db_note_id (qe_db env)) (ndb_tsid_init i until)")
      case None
      then show ?thesis using 2(1)[OF False i] 2(4,5) False i by simp
    next
      case (Some p)
      obtain k nk where e: "db_note_id (qe_db env) ! p = (k, nk)" by fastforce
      show ?thesis
        using 2(2)[OF False i Some refl e[symmetric]] 2(3)[OF False i Some refl e[symmetric]] 2(4,5) False i Some e
        by (auto simp: bind_eq_Some split: if_splits dest: visit_bounded)
    qed
  qed (use 2(4,5) in simp)
qed simp

lemma author_scan_bounded: "author_scan env f need since author st n = Some st' \<Longrightarrow> bounded l c st \<Longrightarrow> bounded l c st'"
proof (induction env f need since author st n rule: author_scan.induct)
  case (2 env f need since author st i)
  obtain k nk where e: "db_note_pubkey (qe_db env) ! i = (k, nk)" by fastforce
  show ?case using 2(1)[OF _ e[symmetric] refl] 2(2,3) e
    by (auto simp: bind_eq_Some split: if_splits dest: visit_bounded)
qed simp

lemma authors_loop_bounded: "authors_loop env f need since until st offs = Some st' \<Longrightarrow> bounded l c st \<Longrightarrow> bounded l c st'"
proof (induction env f need since until st offs rule: authors_loop.induct)
  case (2 env f need since until st off offs)
  obtain author st1 where st1: "read_id f off = Some author"
    "(case ndb_cursor_start ndb_tsid_compare (db_note_pubkey (qe_db env)) (ndb_tsid_init author until) of
        None \<Rightarrow> Some st | Some p \<Rightarrow> author_scan env f need since author st (Suc p)) = Some st1"
    "authors_loop env f need since until st1 offs = Some st'"
    using 2(2) by (auto simp: bind_eq_Some)
  have "bounded l c st1" using st1(2) 2(3) by (auto simp del: author_scan.simps split: option.splits dest: author_scan_bounded)
  then show ?case by (rule 2(1)[OF st1])
qed simp

lemma tag_scan_bounded: "tag_scan env f need letter tag st n = Some st' \<Longrightarrow> bounded l c st \<Longrightarrow> bounded l c st'"
proof (induction env f need letter tag st n rule: tag_scan.induct)
  case (2 env f need letter tag st i)
  obtain t v ts nk where e: "db_note_tags (qe_db env) ! i = ((t, v, ts), nk)" by (metis surj_pair)
  show ?case using 2(1)[OF _ e[symmetric] refl refl] 2(2,3) e
    by (auto simp: bind_eq_Some split: if_splits dest: visit_bounded)
qed simp

lemma tags_loop_bounded: "tags_loop env f tags need until st offs = Some (r, st') \<Longrightarrow> bounded l c st \<Longrightarrow> bounded l c st'"
proof (induction env f tags need until st offs rule: tags_loop.induct)
  case (2 env f tags need until st off offs)
  let ?len = "\<lambda>tag. word_of_nat (length tag) :: u8"
  obtain tag st1 where st1: "(if fe_elem_type tags = NDB_ELEMENT_ID then read_id f off else read_str f off) = Some tag"
    "unat (?len tag) + 9 > 255 \<Longrightarrow> st' = st"
    "\<not> unat (?len tag) + 9 > 255 \<Longrightarrow> (case ndb_cursor_start tag_index_cmp (db_note_tags (qe_db env)) (fe_tag tags, take (unat (?len tag)) tag, until) of
        None \<Rightarrow> Some st | Some p \<Rightarrow> tag_scan env f need (fe_tag tags) tag st (Suc p)) = Some st1"
    "\<not> unat (?len tag) + 9 > 255 \<Longrightarrow> tags_loop env f tags need until st1 offs = Some (r, st')"
    using 2(2) by (auto simp: bind_eq_Some Let_def simp del: tag_scan.simps split: if_splits)
  show ?case
  proof (cases "unat (?len tag) + 9 > 255")
    case False
    have "bounded l c st1" using st1(3)[OF False] 2(3) by (auto simp del: tag_scan.simps split: option.splits dest: tag_scan_bounded)
    then show ?thesis by (rule 2(1)[OF st1(1) refl False st1(3)[OF False] st1(4)[OF False]])
  qed (use st1(2) 2(3) in simp)
qed simp

lemma drain_bounded: "ndb_query_drain_merger env f idx already need st m = Some st' \<Longrightarrow> bounded l c st \<Longrightarrow> bounded l c st'"
proof (induction env f idx already need st m rule: ndb_query_drain_merger.induct)
  case (1 env f idx already need st m)
  show ?case using 1(2,3)
    by (subst (asm) ndb_query_drain_merger.simps)
      (auto split: if_splits option.splits prod.splits dest: visit_bounded 1(1))
qed

lemma merge_plan_bounded: "merge_plan env f idx t since n ks already need st = Some (r, st') \<Longrightarrow> bounded l c st \<Longrightarrow> bounded l c st'"
  by (auto simp: merge_plan_def bind_eq_Some split: option.splits if_splits dest: drain_bounded)

definition fits :: "nat \<Rightarrow> 'c ndb_query_state \<Rightarrow> bool" where
  "fits cap st \<longleftrightarrow> (\<exists>rs. qs_out st = Standard rs cap \<and> length rs \<le> cap)"

lemma bounded_fits: "bounded l c st \<Longrightarrow> fits c st"
  by (auto simp: bounded_def fits_def)

lemma all_notes_fits: "fits c st \<Longrightarrow> fits c (all_notes_loop visitor st es)"
  by (induction visitor st es rule: all_notes_loop.induct) (auto simp: fits_def push_query_result_def split: if_splits)

text \<open>The search plans are assumed to keep the bounds.\<close>

definition plan_bounded :: "'c search_plan \<Rightarrow> bool" where
  "plan_bounded p \<longleftrightarrow> (\<forall>f l c st r st'. p f st = Some (r, st') \<longrightarrow> bounded l c st \<longrightarrow> bounded l c st')"

lemmas plan_defs =
  ndb_query_plan_execute_ids_def ndb_query_plan_execute_authors_def ndb_query_plan_execute_created_at_def ndb_query_plan_execute_kinds_def
  ndb_query_plan_execute_author_kinds_def ndb_query_plan_execute_relay_kinds_def ndb_query_plan_execute_tags_def

lemmas plan_bounds = ids_loop_bounded authors_loop_bounded tags_loop_bounded merge_plan_bounded

lemma query_filter_bounded:
  assumes "ndb_query_filter ts ps env env_ok f st = Some (r, st')" "bounded l c st" "plan_bounded ts" "plan_bounded ps" "\<not> filter_is_empty f"
  shows "bounded l c st'"
proof -
  have "ndb_filter_plan f \<noteq> NDB_PLAN_ALL_NOTES" using assms(5) by (simp add: ndb_filter_plan_def Let_def)
  then show ?thesis using assms(1-4)
    by (cases "ndb_filter_plan f")
      (auto simp: ndb_query_filter_def plan_defs bind_eq_Some plan_bounded_def Let_def split: option.splits if_splits dest: plan_bounds)
qed

lemma query_filter_fits:
  assumes "ndb_query_filter ts ps env env_ok f st = Some (r, st')" "bounded l c st" "plan_bounded ts" "plan_bounded ps"
  shows "fits c st'"
proof (cases "filter_is_empty f")
  case True
  then show ?thesis using assms(1) bounded_fits[OF assms(2)]
    by (auto simp: ndb_query_filter_def ndb_filter_plan_def ndb_query_plan_all_notes_def all_notes_fits split: if_splits)
next
  case False
  then show ?thesis using query_filter_bounded[OF assms] bounded_fits by blast
qed

lemma query_one_bounds:
  assumes "query_one ts ps env env_ok cap f = Some (Some rs)" "plan_bounded ts" "plan_bounded ps"
  shows "length rs \<le> cap"
    and "\<lbrakk>\<not> filter_is_empty f; ndb_filter_get_int f NDB_FILTER_LIMIT = Some (Some n); 0 < n; n < 2 ^ 31; cap < 2 ^ 31\<rbrakk> \<Longrightarrow> length rs \<le> unat n"
proof -
  obtain l st where l: "ndb_query_state_fill_limit f (Some (int cap)) = Some l"
    and q: "ndb_query_filter ts ps env env_ok f \<lparr>qs_limit = l, qs_out = Standard [] cap\<rparr> = Some (True, st)" and rs: "rs = query_results st"
    using assms(1) by (auto simp: query_one_def bind_eq_Some split: if_splits)
  have b: "bounded l cap \<lparr>qs_limit = l, qs_out = Standard [] cap\<rparr>" by (simp add: bounded_def)
  show "length rs \<le> cap" using query_filter_fits[OF q b assms(2,3)] rs by (auto simp: fits_def query_results_def)
  assume n: "\<not> filter_is_empty f" "ndb_filter_get_int f NDB_FILTER_LIMIT = Some (Some n)" "0 < n" "n < 2 ^ 31" "cap < 2 ^ 31"
  have u: "uint n < 2 ^ 31" using n(4) by (simp add: word_less_def)
  have "sint (ucast n :: u32) = uint n"
    using u signed_take_bit_int_eq_self[of 31 "uint n"] order_trans[of "- (2 ^ 31)" 0 "uint n"] by (simp add: sint_uint unsigned_ucast_eq take_bit_int_eq_self signed_take_bit_take_bit)
  then have lv: "l = word_of_int (min (int cap) (uint n))" using l n(2) n(3)[unfolded word_gt_0] by (simp add: ndb_query_state_fill_limit_def)
  have ul: "uint l = min (int cap) (uint n)"
    using u unfolding lv by (simp add: uint_word_of_int_eq take_bit_int_eq_self min_def)
  from query_filter_bounded[OF q b assms(2,3) n(1)]
  have c: "length rs \<le> cap" "l = 0 \<or> length rs \<le> unat l" using rs by (auto simp: bounded_def query_results_def)
  show "length rs \<le> unat n"
  proof (cases "l = 0")
    case True
    then have "min (int cap) (uint n) = 0" using ul by simp
    moreover have "0 < uint n" using n(3) by (simp add: word_less_def)
    ultimately have "cap = 0" by (simp add: min_def split: if_splits)
    then show ?thesis using c(1) by simp
  next
    case False
    then have "length rs \<le> unat l" using c(2) by blast
    then have "int (length rs) \<le> int (unat l)" by (simp only: of_nat_le_iff)
    then have "int (length rs) \<le> int (unat n)" using ul by simp
    then show ?thesis by (simp only: of_nat_le_iff)
  qed
qed

interpretation newest_order: key_comparator compare_query_results "\<lambda>r. - uint (nt_created_at (qr_note r))" "\<lambda>_. True"
  by unfold_locales (auto simp: compare_query_results_def ord3_def word_less_def dest: unsigned_word_eqI)

lemma newest_sorted: "sorted_wrt (\<lambda>a b. nt_created_at (qr_note b) \<le> nt_created_at (qr_note a)) (qsort compare_query_results rs)"
  using newest_order.qsort_sorted[of rs] by (simp add: sorted_map word_le_def)

lemma query_bounds:
  assumes "ndb_query ts ps env env_ok cap fs = Some (Some rs)" and "cap < 2 ^ 31" and "plan_bounded ts" and "plan_bounded ps"
  shows "sorted_wrt (\<lambda>a b. nt_created_at (qr_note b) \<le> nt_created_at (qr_note a)) rs \<and> length rs \<le> cap \<and>
    (\<forall>f n. fs = [f] \<and> \<not> filter_is_empty f \<and> ndb_filter_get_int f NDB_FILTER_LIMIT = Some (Some n) \<and> 0 < n \<and> n < 2 ^ 31 \<longrightarrow> length rs \<le> unat n)"
proof (cases "\<exists>f. fs = [f]")
  case True
  then obtain f rs' where "fs = [f]" "query_one ts ps env env_ok cap f = Some (Some rs')" "rs = qsort compare_query_results rs'"
    using assms(1) by (auto simp: ndb_query_def)
  then show ?thesis using query_one_bounds[OF _ assms(3,4)] assms(2) newest_sorted by auto
next
  case False
  then obtain rs' where "rs = take cap (qsort compare_query_results rs')"
    using assms(1) by (auto simp: ndb_query_def split: list.splits if_splits)
  then show ?thesis using False newest_sorted by (auto intro: sorted_wrt_take)
qed



text \<open>
  C36 A second tag field is ignored. The plan for tags scans the index of the first tag field
  and takes all tag fields for matched, so a query for the notes with both a tag \<open>t = a\<close> and a tag \<open>p = b\<close> returns one that
  has only the first, and that the filter does not match.
\<close>

theorem second_tag_field_ignored:
  "\<exists>f0 f1 f note db. ndb_filter_init True = Some f0 \<and>
     build_fields f0 [(NDB_FILTER_TAGS, 116, [El_string (str ''a'')]), (NDB_FILTER_TAGS, 112, [El_string (str ''b'')])] = Some (True, f1) \<and>
     ndb_filter_end f1 = Some (True, f) \<and>
     ndb_query ts ps \<lparr>qe_visitor = visitor, qe_cb = cb, qe_db = db\<rparr> True 10 [f] = Some (Some [\<lparr>qr_note = note, qr_note_size = 60, qr_note_id = 1\<rparr>]) \<and>
     ndb_filter_matches cb f note = Some False"
proof -
  let ?els = "\<lambda>c k. \<lparr>fe_type = NDB_FILTER_TAGS, fe_elem_type = NDB_ELEMENT_STRING, fe_tag = c, fe_elements = [k]\<rparr>"
  let ?fa = "\<lparr>f_fields = [], f_current = No_Field, f_alloc = True, f_elem_used = 0, f_elem_cap = 65536, f_data = [], f_data_cap = 196608, f_finalized = False\<rparr>"
  let ?fb = "?fa\<lparr>f_fields := [?els 116 0, ?els 112 2], f_elem_used := 48, f_data := [97, 0, 98, 0]\<rparr>"
  let ?fc = "?fb\<lparr>f_elem_cap := 48, f_data_cap := 4, f_finalized := True\<rparr>"
  let ?n = "\<lparr>nt_id = replicate 32 1, nt_pubkey = replicate 32 2, nt_created_at = 150, nt_kind = 1, nt_tags = [[Packed_Str [116], Packed_Str [97]]]\<rparr>"
  let ?db = "\<lparr>db_note = [(1, ?n, 60)], db_note_id = [], db_note_kind = [], db_note_tags = [((116, [97], 150), 1)], db_note_pubkey = [],
    db_note_pubkey_kind = [], db_note_relay_kind = [], db_note_relays = \<lambda>_. []\<rparr>"
  let ?env = "\<lparr>qe_visitor = visitor, qe_cb = cb, qe_db = ?db\<rparr>"
  have i: "ndb_filter_init True = Some ?fa" by (simp add: ndb_filter_init_def ndb_filter_init_with_def Let_def)
  have b: "build_fields ?fa [(NDB_FILTER_TAGS, 116, [El_string (str ''a'')]), (NDB_FILTER_TAGS, 112, [El_string (str ''b'')])] = Some (True, ?fb)"
    by (simp add: ndb_filter_start_field_impl_def ndb_filter_add_str_element_def ndb_filter_add_str_element_len_def add_typed_element_def
        ndb_filter_set_elem_type_def ndb_filter_add_element_def data_push_str_def data_push_def Let_def ndb_filter_end_field_def str_def)
  have e: "ndb_filter_end ?fb = Some (True, ?fc)" by (simp add: ndb_filter_end_def Let_def)
  have r: "read_str ?fc 0 = Some [97]" "read_str ?fc 2 = Some [98]" by (simp_all add: read_str_def ndb_filter_elements_data_def)
  have m: "ndb_filter_matches cb ?fc ?n = Some False"
    by (simp add: ndb_filter_matches_def ndb_filter_matches_with_def field_matches_def ndb_tag_filter_matches_def tag_step_def single_letter_def r[simplified])
  have p: "ndb_filter_plan ?fc = NDB_PLAN_TAGS" by (simp add: ndb_filter_plan_def filter_is_empty_def ndb_filter_find_elements_def)
  have c: "ndb_cursor_start tag_index_cmp [((116, [97], 150), 1 :: u64)] (116, [97], - 1) = Some 0"
    by (simp add: ndb_cursor_start_def mdb_set_range_def tag_index_cmp_def ord3_def less_prod_def')
  have v: "visit_note ?env ?fc [NDB_FILTER_TAGS] False st 1 = Some (push_query_result visitor st \<lparr>qr_note = ?n, qr_note_size = 60, qr_note_id = 1\<rparr>)" for st
    by (simp add: visit_note_def ndb_get_note_by_key_def ndb_filter_matches_with_def ndb_query_result_init_def)
  have l: "ndb_query_state_fill_limit ?fc (Some 10) = Some 10"
    by (simp add: ndb_query_state_fill_limit_def ndb_filter_get_int_def ndb_filter_find_elements_def)
  have "ndb_query_plan_execute_tags ?env True ?fc \<lparr>qs_limit = 10, qs_out = Standard [] 10\<rparr> =
    Some (True, \<lparr>qs_limit = 10, qs_out = Standard [\<lparr>qr_note = ?n, qr_note_size = 60, qr_note_id = 1\<rparr>] 10\<rparr>)"
    using c r(1) v
    by (simp add: ndb_query_plan_execute_tags_def ndb_filter_find_elements_def filter_time_def ndb_filter_get_int_def needs_relays_def
        query_is_full_def push_query_result_def)
  then have "ndb_query ts ps ?env True 10 [?fc] = Some (Some [\<lparr>qr_note = ?n, qr_note_size = 60, qr_note_id = 1\<rparr>])"
    using l p by (simp add: ndb_query_def query_one_def ndb_query_filter_def query_results_def qsort_def)
  then show ?thesis using i b e m by blast
qed


end
