(* ===== verification/Hex.thy ===== *)
theory Hex
  imports Cursor
begin

text \<open>
  Hexadecimal text, \<open>src/src/hex.h\<close>: note ids, public keys and signatures enter and leave the
  library in this form. The source and destination arrays are byte lists; the length the
  code passes for the source is the length of the list.
\<close>

section \<open>Operations\<close>

text \<open>The designated initialisers of the table; every other entry is zero.\<close>

definition hex_entries :: "(u8 \<times> u8) list" where
  "hex_entries = [
     (48, 0), (49, 1), (50, 2), (51, 3), (52, 4), (53, 5), (54, 6), (55, 7), (56, 8), (57, 9),
     (97, 10), (98, 11), (99, 12), (100, 13), (101, 14), (102, 15),
     (65, 10), (66, 11), (67, 12), (68, 13), (69, 14), (70, 15)]"

definition hex_table :: "u8 \<Rightarrow> u8" where
  "hex_table c = (case map_of hex_entries c of None \<Rightarrow> 0 | Some v \<Rightarrow> v)"

definition char_to_hex :: "u8 \<Rightarrow> u8 option" where
  "char_to_hex c = (if hex_table c \<noteq> 0 \<or> c = 48 then Some (hex_table c) else None)"

text \<open>The result is the return value with the bytes written to \<open>buf\<close>.\<close>

fun hex_decode :: "u8 list \<Rightarrow> nat \<Rightarrow> bool \<times> u8 list" where
  "hex_decode (x # y # s) bufsize =
     (case (char_to_hex x, char_to_hex y) of
        (Some v1, Some v2) \<Rightarrow>
          if bufsize = 0 then (False, [])
          else let (r, out) = hex_decode s (bufsize - 1) in (r, (push_bit 4 v1 OR v2) # out)
      | _ \<Rightarrow> (False, []))"
| "hex_decode s bufsize = (length s = 0 \<and> bufsize = 0, [])"

text \<open>\<open>None\<close> is the call of \<open>abort\<close>.\<close>

definition hexchar :: "u32 \<Rightarrow> u8 option" where
  "hexchar val =
     (if val < 10 then Some (ucast (48 + val))
      else if val < 16 then Some (ucast (97 + val - 10))
      else None)"

primrec hex_encode_loop :: "u8 list \<Rightarrow> u8 list option" where
  "hex_encode_loop [] = Some []"
| "hex_encode_loop (b # bs) = do {
     let c = ucast b;
     hi \<leftarrow> hexchar (drop_bit 4 c);
     lo \<leftarrow> hexchar (c AND 0xF);
     rest \<leftarrow> hex_encode_loop bs;
     Some (hi # lo # rest) }"

definition hex_encode :: "u8 list \<Rightarrow> u8 list option" where
  "hex_encode bs = do { s \<leftarrow> hex_encode_loop bs; Some (s @ [0]) }"

section \<open>Round trips\<close>

lemma char_to_hex_cases: "char_to_hex c = Some v \<Longrightarrow> (c, v) \<in> set hex_entries"
  by (auto simp: char_to_hex_def hex_table_def split: option.splits if_splits dest: map_of_SomeD)
    (simp_all add: hex_entries_def)

lemma hexchar_char_to_hex:
  assumes "char_to_hex c = Some v"
  shows "v < 16 \<and> hexchar (ucast v) = Some (tolower c)"
proof -
  have "list_all (\<lambda>(c, v). v < 16 \<and> hexchar (ucast v) = Some (tolower c)) hex_entries"
    by (simp add: hex_entries_def hexchar_def tolower_def)
  with char_to_hex_cases[OF assms] show ?thesis by (fastforce simp: list_all_iff)
qed

lemma char_to_hex_hexchar:
  assumes "v < 16"
  obtains c where "hexchar v = Some c" "char_to_hex c = Some (ucast v)"
proof -
  have "list_all (\<lambda>v. case hexchar v of None \<Rightarrow> False | Some c \<Rightarrow> char_to_hex c = Some (ucast v))
      (map word_of_nat [0..<16])"
    by code_simp
  moreover have "v \<in> set (map word_of_nat [0..<16])"
    unfolding set_map by (rule image_eqI[of _ _ "unat v"]) (use assms in \<open>auto simp: word_less_nat_alt\<close>)
  ultimately have "case hexchar v of None \<Rightarrow> False | Some c \<Rightarrow> char_to_hex c = Some (ucast v)"
    unfolding list_all_iff by blast
  with that show ?thesis by (cases "hexchar v") simp_all
qed

lemma mask4: "(0xF :: u32) = mask 4"
  by (simp add: mask_eq_exp_minus_1)

lemma nibbles_join: "push_bit 4 (ucast (drop_bit 4 (ucast b :: u32))) OR ucast ((ucast b :: u32) AND 0xF) = (b :: u8)"
  unfolding mask4
  by (rule bit_word_eqI) (auto simp: bit_mask_iff bit_or_iff bit_and_iff bit_push_bit_iff bit_ucast_iff bit_drop_bit_eq)

lemma nibbles_split:
  assumes "v1 < (16 :: u8)" "v2 < 16"
  shows "drop_bit 4 (ucast (push_bit 4 v1 OR v2) :: u32) = ucast v1" "ucast (push_bit 4 v1 OR v2) AND 0xF = (ucast v2 :: u32)"
proof -
  have "v = take_bit 4 v" if "v < 16" for v :: u8
    using that by (simp add: word_less_nat_alt word_unat_eq_iff unsigned_take_bit_eq take_bit_nat_eq_self)
  then have b: "bit v1 i \<Longrightarrow> i < 4" "bit v2 i \<Longrightarrow> i < 4" for i
    using assms by (metis bit_take_bit_iff)+
  show "drop_bit 4 (ucast (push_bit 4 v1 OR v2) :: u32) = ucast v1"
    by (rule bit_word_eqI) (auto simp: bit_or_iff bit_push_bit_iff bit_ucast_iff bit_drop_bit_eq dest: b bit_imp_le_length)
  show "ucast (push_bit 4 v1 OR v2) AND 0xF = (ucast v2 :: u32)" unfolding mask4
    by (rule bit_word_eqI) (auto simp: bit_mask_iff bit_or_iff bit_and_iff bit_push_bit_iff bit_ucast_iff dest: b)
qed

lemma nibbles_less: "drop_bit 4 (ucast (b :: u8) :: u32) < 16" "(ucast b AND 0xF :: u32) < 16"
proof -
  have b: "unat b < 256" using unsigned_less[of b] by simp
  then have "unat (drop_bit 4 (ucast b :: u32)) = unat b div 16"
    unfolding unat_drop_bit_eq by (simp add: drop_bit_eq_div unsigned_ucast_eq take_bit_nat_eq_self)
  then show "drop_bit 4 (ucast b :: u32) < 16"
    using b by (simp add: word_less_nat_alt)
  show "(ucast b AND 0xF :: u32) < 16"
    using word_and_le1[of "ucast b :: u32" "0xF"] by (rule le_less_trans) simp
qed

lemma hex_loop_roundtrip:
  "\<exists>s. hex_encode_loop bs = Some s \<and> length s = 2 * length bs \<and> hex_decode s (length bs) = (True, bs)"
proof (induction bs)
  case Nil
  then show ?case by simp
next
  case (Cons b bs)
  then obtain s where s: "hex_encode_loop bs = Some s" "length s = 2 * length bs" "hex_decode s (length bs) = (True, bs)"
    by blast
  obtain hi where hi: "hexchar (drop_bit 4 (ucast b)) = Some hi" "char_to_hex hi = Some (ucast (drop_bit 4 (ucast b :: u32)))"
    using char_to_hex_hexchar[OF nibbles_less(1)] by blast
  obtain lo where lo: "hexchar (ucast b AND 0xF) = Some lo" "char_to_hex lo = Some (ucast (ucast b AND 0xF :: u32))"
    using char_to_hex_hexchar[OF nibbles_less(2)] by blast
  show ?case
    using s hi lo nibbles_join[of b] by (intro exI[of _ "hi # lo # s"]) (simp add: Let_def)
qed

text \<open>
  Encoding never aborts: it writes two lower-case digits for each byte and a NUL, and decoding
  those digits into a buffer of the original size gives back the original bytes.
\<close>

theorem hex_encode_decode:
  "\<exists>s. hex_encode bs = Some (s @ [0]) \<and> length s = 2 * length bs \<and> hex_decode s (length bs) = (True, bs)"
  using hex_loop_roundtrip[of bs] by (auto simp: hex_encode_def)

text \<open>
  What \<open>hex_decode\<close> accepts: it succeeds only on exactly two digits per byte of the destination,
  fills the destination completely, and the digits are those of the decoded bytes up to case.
\<close>

theorem hex_decode_sound:
  "hex_decode s bufsize = (True, bs) \<Longrightarrow>
     length s = 2 * bufsize \<and> length bs = bufsize \<and> hex_encode bs = Some (map tolower s @ [0])"
proof (induction s bufsize arbitrary: bs rule: hex_decode.induct)
  case (1 x y s bufsize)
  then obtain v1 v2 out where v: "char_to_hex x = Some v1" "char_to_hex y = Some v2" "bufsize \<noteq> 0"
    "hex_decode s (bufsize - 1) = (True, out)" "bs = (push_bit 4 v1 OR v2) # out"
    by (auto simp: Let_def split: option.splits if_splits prod.splits)
  note 2 = "1.IH"[OF refl v(1,2) v(3,4)]
  note 3 = hexchar_char_to_hex[OF v(1)] hexchar_char_to_hex[OF v(2)]
  have "hexchar (drop_bit 4 (ucast (push_bit 4 v1 OR v2))) = Some (tolower x)"
    "hexchar (ucast (push_bit 4 v1 OR v2) AND 0xF) = Some (tolower y)"
    using 3 nibbles_split[of v1 v2] by simp_all
  with 2 v(3,5) show ?case by (auto simp: hex_encode_def bind_eq_Some)
qed (auto simp: hex_encode_def)

theorem hex_decode_sound_witness:
  "hex_encode [0xAB, 0x0C] = Some (map tolower (str ''aB0C'') @ [0])"
proof -
  have "hex_decode (str ''aB0C'') 2 = (True, [0xAB, 0x0C])"
    by (simp add: str_def of_char_def char_to_hex_def hex_table_def hex_entries_def Let_def)
  from hex_decode_sound[OF this] show ?thesis by simp
qed

end
