(* ===== verification/Note_Store.thy ===== *)
theory Note_Store
  imports Hex Note_Filter
begin

text \<open>
  Notes as they are stored, in \<open>src/src/nostrdb.c\<close>: the builder that lays a note out, the accessors and the
  iterator that read it, and the functions that look for references in its tags.

  A stored note is its fixed header of 160 bytes and the bytes behind it: the tags, then the strings. The
  builder fills three disjoint parts of its buffer, the note, the strings and the index of strings,
  each modelled by its content and its capacity. \<open>None\<close> is a read outside of what was
  written, as in the other theories.
\<close>

section \<open>The note\<close>

record note_header =
  nh_version :: u8
  nh_flags :: u16
  nh_id :: "u8 list"
  nh_pubkey :: "u8 list"
  nh_sig :: "u8 list"
  nh_created_at :: u64
  nh_kind :: u32
  nh_content_length :: u32
  nh_content :: u32
  nh_strings :: u32
  nh_tags_count :: u16

record stored_note =
  sn_header :: note_header
  sn_data :: "u8 list"

text \<open>A packed string is a union: an offset of three bytes with a flag, or up to two characters, a NUL and the flag.\<close>

definition NDB_PACKED_STR :: u8 where
  "NDB_PACKED_STR = 1"

definition NDB_PACKED_ID :: u8 where
  "NDB_PACKED_ID = 2"

definition packed_flag :: "u32 \<Rightarrow> u8" where
  "packed_flag p = le_bytes 4 p ! 3"

definition ndb_offset_str :: "u32 \<Rightarrow> u32" where
  "ndb_offset_str offset = offset AND 0xFFFFFF"

definition set_packed_flag :: "u8 \<Rightarrow> u32 \<Rightarrow> u32" where
  "set_packed_flag flag p = le_word (take 3 (le_bytes 4 p) @ [flag])"

definition ndb_chars_to_packed_str :: "u8 \<Rightarrow> u8 \<Rightarrow> u32" where
  "ndb_chars_to_packed_str c1 c2 = le_word [c1, c2, 0, NDB_PACKED_STR]"

text \<open>The third byte, which the code leaves as it is, is taken as zero: no reader gets past the NUL before it.\<close>

definition ndb_char_to_packed_str :: "u8 \<Rightarrow> u32" where
  "ndb_char_to_packed_str c = le_word [c, 0, 0, NDB_PACKED_STR]"

section \<open>The builder\<close>

record ndb_builder =
  b_note :: note_header
  b_cur :: "u8 list"
  b_cur_cap :: nat
  b_strings :: "u8 list"
  b_strings_cap :: nat
  b_indices :: "u32 list"
  b_indices_cap :: nat
  b_tag :: "nat option"
  b_mem_size :: nat

definition empty_header :: note_header where
  "empty_header = \<lparr>nh_version = 0, nh_flags = 0, nh_id = replicate 32 0, nh_pubkey = replicate 32 0, nh_sig = replicate 64 0,
     nh_created_at = 0, nh_kind = 0, nh_content_length = 0, nh_content = 0, nh_strings = 0, nh_tags_count = 0\<rparr>"

text \<open>
  The inner option is the return value. The outer one is \<open>None\<close> for a buffer whose first part is
  smaller than the header, so that the header runs into the strings.
\<close>

definition ndb_builder_init :: "nat \<Rightarrow> ndb_builder option option" where
  "ndb_builder_init bufsize =
     (if bufsize < 320 then Some None
      else
        let str_indices_size = bufsize div 32; half = (bufsize - str_indices_size) div 2 in
        if half < 160 then None
        else Some (Some \<lparr>b_note = empty_header\<lparr>nh_strings := word_of_nat half, nh_version := 1\<rparr>, b_cur = [], b_cur_cap = half - 160,
               b_strings = [], b_strings_cap = half, b_indices = [], b_indices_cap = str_indices_size, b_tag = None, b_mem_size = bufsize\<rparr>))"

definition region_push :: "nat \<Rightarrow> u8 list \<Rightarrow> u8 list \<Rightarrow> u8 list option" where
  "region_push cap xs bs = (if length xs + length bs > cap then None else Some (xs @ bs))"

text \<open>
  Comparing with a stored string and looking for the NUL behind it: the result depends on bytes
  that were never written when the comparison gets past the strings.
\<close>

fun str_at :: "u8 list \<Rightarrow> u8 list \<Rightarrow> bool option" where
  "str_at s [] = None"
| "str_at [] (d # ds) = Some (d = 0)"
| "str_at (c # s) (d # ds) = (if c = d then str_at s ds else Some False)"

primrec find_loop :: "u8 list \<Rightarrow> u8 list \<Rightarrow> u32 list \<Rightarrow> u32 option option" where
  "find_loop strings s [] = Some None"
| "find_loop strings s (index # indices) = do {
     r \<leftarrow> str_at s (drop (unat index) strings);
     if r then Some (Some (ndb_offset_str index)) else find_loop strings s indices }"

definition ndb_builder_find_str :: "ndb_builder \<Rightarrow> u8 list \<Rightarrow> u32 option option" where
  "ndb_builder_find_str b s = find_loop (b_strings b) s (b_indices b)"

definition ndb_builder_push_str :: "ndb_builder \<Rightarrow> u8 list \<Rightarrow> u32 option \<times> ndb_builder" where
  "ndb_builder_push_str b s =
     (let loc = word_of_nat (length (b_strings b)) in
      case region_push (b_strings_cap b) (b_strings b) s of
        None \<Rightarrow> (None, b)
      | Some strings \<Rightarrow>
          (case region_push (b_strings_cap b) strings [0] of
             None \<Rightarrow> (None, b\<lparr>b_strings := strings\<rparr>)
           | Some strings \<Rightarrow>
               (Some (ndb_offset_str loc),
                b\<lparr>b_strings := strings,
                  b_indices := if 4 * (length (b_indices b) + 1) \<le> b_indices_cap b then b_indices b @ [loc] else b_indices b\<rparr>)))"

definition ndb_builder_push_packed_id :: "ndb_builder \<Rightarrow> u8 list \<Rightarrow> u32 option \<times> ndb_builder" where
  "ndb_builder_push_packed_id b i = apfst (map_option (set_packed_flag NDB_PACKED_ID)) (ndb_builder_push_str b (take 32 i))"

definition ndb_builder_try_compact_str :: "ndb_builder \<Rightarrow> u8 list \<Rightarrow> bool \<Rightarrow> u32 option \<times> ndb_builder" where
  "ndb_builder_try_compact_str b s pack_ids =
     (if length s = 0 then (Some (ndb_char_to_packed_str 0), b)
      else if length s = 1 then (Some (ndb_char_to_packed_str (s ! 0)), b)
      else if length s = 2 then (Some (ndb_chars_to_packed_str (s ! 0) (s ! 1)), b)
      else if pack_ids \<and> length s = 64 \<and> fst (hex_decode s 32) then ndb_builder_push_packed_id b (snd (hex_decode s 32))
      else (None, b))"

definition ndb_builder_push_unpacked_str :: "ndb_builder \<Rightarrow> u8 list \<Rightarrow> (u32 option \<times> ndb_builder) option" where
  "ndb_builder_push_unpacked_str b s = do {
     found \<leftarrow> ndb_builder_find_str b s;
     case found of Some p \<Rightarrow> Some (Some p, b) | None \<Rightarrow> Some (ndb_builder_push_str b s) }"

definition ndb_builder_make_str :: "ndb_builder \<Rightarrow> u8 list \<Rightarrow> bool \<Rightarrow> (u32 option \<times> ndb_builder) option" where
  "ndb_builder_make_str b s pack_ids =
     (case ndb_builder_try_compact_str b s pack_ids of
        (Some p, b) \<Rightarrow> Some (Some p, b)
      | (None, b) \<Rightarrow> ndb_builder_push_unpacked_str b s)"

definition ndb_builder_set_content :: "ndb_builder \<Rightarrow> u8 list \<Rightarrow> (bool \<times> ndb_builder) option" where
  "ndb_builder_set_content b content =
     (let b = b\<lparr>b_note := (b_note b)\<lparr>nh_content_length := word_of_nat (length content)\<rparr>\<rparr> in do {
        (p, b) \<leftarrow> ndb_builder_make_str b content False;
        case p of
          None \<Rightarrow> Some (False, b)
        | Some p \<Rightarrow> Some (True, b\<lparr>b_note := (b_note b)\<lparr>nh_content := p\<rparr>\<rparr>) })"

text \<open>The count goes up before the tag is known to fit.\<close>

definition ndb_builder_new_tag :: "ndb_builder \<Rightarrow> bool \<times> ndb_builder" where
  "ndb_builder_new_tag b =
     (let b = b\<lparr>b_note := (b_note b)\<lparr>nh_tags_count := nh_tags_count (b_note b) + 1\<rparr>, b_tag := Some (length (b_cur b))\<rparr> in
      case region_push (b_cur_cap b) (b_cur b) (le_bytes 2 (0 :: u16)) of
        None \<Rightarrow> (False, b)
      | Some bs \<Rightarrow> (True, b\<lparr>b_cur := bs\<rparr>))"

text \<open>Without a tag the count would be written through a pointer that was never set.\<close>

definition ndb_builder_finalize_tag :: "ndb_builder \<Rightarrow> u32 \<Rightarrow> (bool \<times> ndb_builder) option" where
  "ndb_builder_finalize_tag b offset =
     (case region_push (b_cur_cap b) (b_cur b) (le_bytes 4 offset) of
        None \<Rightarrow> Some (False, b)
      | Some bs \<Rightarrow>
          (case b_tag b of
             None \<Rightarrow> None
           | Some t \<Rightarrow>
               (let count = le_word (take 2 (drop t bs)) + 1 :: u16 in
                Some (True, b\<lparr>b_cur := take t bs @ le_bytes 2 count @ drop (t + 2) bs\<rparr>))))"

definition ndb_builder_push_tag_str :: "ndb_builder \<Rightarrow> u8 list \<Rightarrow> (bool \<times> ndb_builder) option" where
  "ndb_builder_push_tag_str b s = do {
     (p, b) \<leftarrow> ndb_builder_make_str b s True;
     case p of None \<Rightarrow> Some (False, b) | Some p \<Rightarrow> ndb_builder_finalize_tag b p }"

definition ndb_builder_push_tag_id :: "ndb_builder \<Rightarrow> u8 list \<Rightarrow> (bool \<times> ndb_builder) option" where
  "ndb_builder_push_tag_id b i =
     (case ndb_builder_push_packed_id b i of
        (None, b) \<Rightarrow> Some (False, b)
      | (Some p, b) \<Rightarrow> ndb_builder_finalize_tag b p)"

definition ndb_builder_set_pubkey :: "ndb_builder \<Rightarrow> u8 list \<Rightarrow> ndb_builder" where
  "ndb_builder_set_pubkey b pubkey = b\<lparr>b_note := (b_note b)\<lparr>nh_pubkey := take 32 pubkey\<rparr>\<rparr>"

definition ndb_builder_set_id :: "ndb_builder \<Rightarrow> u8 list \<Rightarrow> ndb_builder" where
  "ndb_builder_set_id b i = b\<lparr>b_note := (b_note b)\<lparr>nh_id := take 32 i\<rparr>\<rparr>"

definition ndb_builder_set_sig :: "ndb_builder \<Rightarrow> u8 list \<Rightarrow> ndb_builder" where
  "ndb_builder_set_sig b sig = b\<lparr>b_note := (b_note b)\<lparr>nh_sig := take 64 sig\<rparr>\<rparr>"

definition ndb_builder_set_kind :: "ndb_builder \<Rightarrow> u32 \<Rightarrow> ndb_builder" where
  "ndb_builder_set_kind b kind = b\<lparr>b_note := (b_note b)\<lparr>nh_kind := kind\<rparr>\<rparr>"

definition ndb_builder_set_created_at :: "ndb_builder \<Rightarrow> u64 \<Rightarrow> ndb_builder" where
  "ndb_builder_set_created_at b t = b\<lparr>b_note := (b_note b)\<lparr>nh_created_at := t\<rparr>\<rparr>"

record ndb_keypair =
  kp_pubkey :: "u8 list"
  kp_secret :: "u8 list"

text \<open>
  Finalising moves the strings behind the tags. Computing the id, in the rest of the buffer, and signing
  it are arguments here; the result is the note with its size, or \<open>None\<close> for 0.
\<close>

definition ndb_builder_finalize ::
  "(stored_note \<Rightarrow> nat \<Rightarrow> u8 list option option) \<Rightarrow> (ndb_keypair \<Rightarrow> u8 list \<Rightarrow> u8 list option) \<Rightarrow> ndb_builder \<Rightarrow> ndb_keypair option \<Rightarrow>
   (stored_note \<times> nat) option option" where
  "ndb_builder_finalize calculate_id sign_id b keypair =
     (let total_size = 160 + length (b_cur b) + length (b_strings b);
          note = \<lparr>sn_header = (b_note b)\<lparr>nh_strings := word_of_nat (160 + length (b_cur b))\<rparr>, sn_data = b_cur b @ b_strings b\<rparr>;
          aligned = (total_size + 7) div 8 * 8
      in case keypair of
           None \<Rightarrow> Some (Some (note, aligned))
         | Some kp \<Rightarrow>
             (let note = note\<lparr>sn_header := (sn_header note)\<lparr>nh_pubkey := kp_pubkey kp\<rparr>\<rparr> in do {
                i \<leftarrow> calculate_id note (b_mem_size b - total_size);
                case i of
                  None \<Rightarrow> Some None
                | Some i \<Rightarrow>
                    (let note = note\<lparr>sn_header := (sn_header note)\<lparr>nh_id := i\<rparr>\<rparr> in
                     case sign_id kp i of
                       None \<Rightarrow> Some None
                     | Some sig \<Rightarrow> Some (Some (note\<lparr>sn_header := (sn_header note)\<lparr>nh_sig := sig\<rparr>\<rparr>, aligned))) }))"

section \<open>Reading a note\<close>

text \<open>The bytes at an offset from the start of the note, behind the header.\<close>

definition note_bytes :: "stored_note \<Rightarrow> nat \<Rightarrow> nat \<Rightarrow> u8 list option" where
  "note_bytes note off n =
     (if 160 \<le> off \<and> off - 160 + n \<le> length (sn_data note) then Some (take n (drop (off - 160) (sn_data note))) else None)"

definition c_string :: "u8 list \<Rightarrow> u8 list option" where
  "c_string bs = (if 0 \<in> set bs then Some (takeWhile (\<lambda>c. c \<noteq> 0) bs) else None)"

definition ndb_note_str :: "stored_note \<Rightarrow> u32 \<Rightarrow> ndb_str option" where
  "ndb_note_str note p =
     (let flag = packed_flag p; off = unat (nh_strings (sn_header note)) + unat (p AND 0xFFFFFF) in
      if flag = NDB_PACKED_STR then map_option Packed_Str (c_string (take 3 (le_bytes 4 p)))
      else if flag = NDB_PACKED_ID then map_option Packed_Id (note_bytes note off 32)
      else if off < 160 then None
      else map_option Offset_Str (c_string (drop (off - 160) (sn_data note))))"

definition ndb_str_len :: "ndb_str \<Rightarrow> nat" where
  "ndb_str_len s = (case s of Packed_Id _ \<Rightarrow> 32 | Packed_Str bs \<Rightarrow> length bs | Offset_Str bs \<Rightarrow> length bs)"

definition ndb_note_content :: "stored_note \<Rightarrow> ndb_str option" where
  "ndb_note_content note = ndb_note_str note (nh_content (sn_header note))"

definition ndb_note_created_at :: "stored_note \<Rightarrow> u32" where
  "ndb_note_created_at note = ucast (nh_created_at (sn_header note))"

definition ndb_note_is_rumor :: "stored_note \<Rightarrow> bool" where
  "ndb_note_is_rumor note \<longleftrightarrow> nh_flags (sn_header note) AND 2 = 2"

definition ndb_note_rumor_receiver_pubkey :: "stored_note \<Rightarrow> u8 list option" where
  "ndb_note_rumor_receiver_pubkey note = (if \<not> ndb_note_is_rumor note then None else Some (take 32 (nh_sig (sn_header note))))"

definition ndb_note_rumor_giftwrap_id :: "stored_note \<Rightarrow> u8 list option" where
  "ndb_note_rumor_giftwrap_id note = (if \<not> ndb_note_is_rumor note then None else Some (drop 32 (nh_sig (sn_header note))))"

text \<open>The iterator points to a tag by its offset behind the header.\<close>

record ndb_iterator =
  it_tag :: "nat option"
  it_index :: int

definition ndb_tags_iterate_start :: ndb_iterator where
  "ndb_tags_iterate_start = \<lparr>it_tag = None, it_index = - 1\<rparr>"

definition ndb_tag_count :: "stored_note \<Rightarrow> nat \<Rightarrow> u16 option" where
  "ndb_tag_count note tag = map_option le_word (note_bytes note (160 + tag) 2)"

definition ndb_tag_str :: "stored_note \<Rightarrow> nat \<Rightarrow> nat \<Rightarrow> ndb_str option" where
  "ndb_tag_str note tag ind = do { bs \<leftarrow> note_bytes note (160 + tag + 2 + 4 * ind) 4; ndb_note_str note (le_word bs) }"

definition ndb_tags_iterate_next :: "stored_note \<Rightarrow> ndb_iterator \<Rightarrow> (bool \<times> ndb_iterator) option" where
  "ndb_tags_iterate_next note iter =
     (if it_index iter = - 1 then Some (nh_tags_count (sn_header note) \<noteq> 0, \<lparr>it_tag = Some 0, it_index = 0\<rparr>)
      else case it_tag iter of
        None \<Rightarrow> Some (nh_tags_count (sn_header note) \<noteq> 0, \<lparr>it_tag = Some 0, it_index = 0\<rparr>)
      | Some tag \<Rightarrow>
          if it_index iter + 1 < uint (nh_tags_count (sn_header note)) then do {
            n \<leftarrow> ndb_tag_count note tag;
            Some (True, \<lparr>it_tag = Some (tag + 2 + unat n * 4), it_index = it_index iter + 1\<rparr>) }
          else Some (False, iter\<lparr>it_index := it_index iter + 1\<rparr>))"

text \<open>All tags, by the loop every reader runs.\<close>

function tags_loop :: "stored_note \<Rightarrow> ndb_iterator \<Rightarrow> ndb_str list list option" where
  "tags_loop note iter =
     (case ndb_tags_iterate_next note iter of
        None \<Rightarrow> None
      | Some (False, iter) \<Rightarrow> Some []
      | Some (True, iter) \<Rightarrow> do {
          tag \<leftarrow> it_tag iter;
          n \<leftarrow> ndb_tag_count note tag;
          strs \<leftarrow> those (map (ndb_tag_str note tag) [0..<unat n]);
          rest \<leftarrow> tags_loop note iter;
          Some (strs # rest) })"
  by pat_completeness auto
termination
proof (relation "measure (\<lambda>(note, iter). if it_index iter = - 1 \<or> it_tag iter = None then Suc (nat (uint (nh_tags_count (sn_header note))))
    else nat (uint (nh_tags_count (sn_header note)) - it_index iter) + (if it_index iter < - 1 then 2 else 0))", goal_cases)
  case (2 sn iter p r iter')
  obtain n where n: "uint (nh_tags_count (sn_header sn)) = int n" "unat (nh_tags_count (sn_header sn)) = n" using of_nat_unat by metis
  have "0 < n" if "nh_tags_count (sn_header sn) \<noteq> 0" using that n(2) by (metis unat_gt_0)
  then show ?case using 2
    by (auto simp: ndb_tags_iterate_next_def bind_eq_Some n split: if_splits option.splits)
qed simp

declare tags_loop.simps [simp del]

definition note_tags :: "stored_note \<Rightarrow> ndb_str list list option" where
  "note_tags note = tags_loop note ndb_tags_iterate_start"

text \<open>What the filters read of a stored note.\<close>

definition note_view :: "stored_note \<Rightarrow> ndb_note option" where
  "note_view note = map_option (\<lambda>tags. \<lparr>nt_id = nh_id (sn_header note), nt_pubkey = nh_pubkey (sn_header note),
     nt_created_at = nh_created_at (sn_header note), nt_kind = nh_kind (sn_header note), nt_tags = tags\<rparr>) (note_tags note)"

section \<open>References in the tags\<close>

text \<open>The id of a tag of at least two elements whose packed name starts with the letter.\<close>

definition letter_tag_id :: "u8 \<Rightarrow> ndb_str list \<Rightarrow> u8 list option" where
  "letter_tag_id letter tag =
     (if length tag < 2 then None
      else case tag ! 0 of
        Packed_Str s \<Rightarrow>
          if s \<noteq> [] \<and> s ! 0 = letter then (case tag ! 1 of Packed_Id i \<Rightarrow> Some i | _ \<Rightarrow> None) else None
      | _ \<Rightarrow> None)"

fun ndb_note_last_id_tag :: "u8 \<Rightarrow> ndb_str list list \<Rightarrow> u8 list option \<Rightarrow> u8 list option" where
  "ndb_note_last_id_tag letter [] last' = last'"
| "ndb_note_last_id_tag letter (tag # tags) last' =
     (case letter_tag_id letter tag of
        None \<Rightarrow> ndb_note_last_id_tag letter tags last'
      | Some i \<Rightarrow> ndb_note_last_id_tag letter tags (Some i))"

fun ndb_note_first_tag_id :: "u8 \<Rightarrow> ndb_str list list \<Rightarrow> u8 list option" where
  "ndb_note_first_tag_id letter [] = None"
| "ndb_note_first_tag_id letter (tag # tags) =
     (case letter_tag_id letter tag of None \<Rightarrow> ndb_note_first_tag_id letter tags | Some i \<Rightarrow> Some i)"

text \<open>A tag by its name; the empty result has no string.\<close>

fun ndb_note_find_tag_str :: "ndb_str list list \<Rightarrow> u8 list \<Rightarrow> ndb_str option" where
  "ndb_note_find_tag_str [] name = None"
| "ndb_note_find_tag_str (tag # tags) name =
     (if length tag < 2 then ndb_note_find_tag_str tags name
      else case tag ! 0 of
        Packed_Id _ \<Rightarrow> ndb_note_find_tag_str tags name
      | Packed_Str s \<Rightarrow> if strcmp s name = 0 then Some (tag ! 1) else ndb_note_find_tag_str tags name
      | Offset_Str s \<Rightarrow> if strcmp s name = 0 then Some (tag ! 1) else ndb_note_find_tag_str tags name)"

record ndb_note_reply =
  nr_root :: "u8 list option"
  nr_reply :: "u8 list option"
  nr_mention :: "u8 list option"

text \<open>The marker of a tag is read only when it is a packed string.\<close>

definition reply_marker :: "ndb_str list \<Rightarrow> u8 list option" where
  "reply_marker tag = (if length tag \<ge> 4 then (case tag ! 3 of Packed_Str m \<Rightarrow> Some m | _ \<Rightarrow> None) else None)"

fun reply_loop :: "ndb_str list list \<Rightarrow> bool \<Rightarrow> bool \<Rightarrow> ndb_note_reply \<Rightarrow> ndb_note_reply" where
  "reply_loop [] any_marker first r = r"
| "reply_loop (tag # tags) any_marker first r =
     (if nr_root r \<noteq> None \<and> nr_reply r \<noteq> None \<and> nr_mention r \<noteq> None then r
      else case letter_tag_id 101 tag of
        None \<Rightarrow> reply_loop tags any_marker first r
      | Some i \<Rightarrow>
          (case reply_marker tag of
             Some m \<Rightarrow>
               reply_loop tags True first
                 (if strcmp m (str ''root'') = 0 then r\<lparr>nr_root := Some i\<rparr>
                  else if strcmp m (str ''reply'') = 0 then r\<lparr>nr_reply := Some i\<rparr>
                  else if strcmp m (str ''mention'') = 0 then r\<lparr>nr_mention := Some i\<rparr>
                  else r)
           | None \<Rightarrow>
               if \<not> any_marker \<and> first then reply_loop tags any_marker False (r\<lparr>nr_root := Some i\<rparr>)
               else if \<not> any_marker \<and> nr_reply r = None then reply_loop tags any_marker first (r\<lparr>nr_reply := Some i\<rparr>)
               else reply_loop tags any_marker first r))"

definition ndb_parse_reply :: "ndb_str list list \<Rightarrow> ndb_note_reply" where
  "ndb_parse_reply tags = reply_loop tags False True \<lparr>nr_root = None, nr_reply = None, nr_mention = None\<rparr>"

definition ndb_is_reply_to_root :: "ndb_note_reply \<Rightarrow> bool" where
  "ndb_is_reply_to_root r =
     (case (nr_root r, nr_reply r) of
        (Some root, None) \<Rightarrow> True
      | (Some root, Some reply) \<Rightarrow> memcmp root reply = 0
      | _ \<Rightarrow> False)"

section \<open>Packed strings\<close>

declare le_word.simps [simp del]

lemma le_bytes_le_word:
  assumes "length bs = k" "8 * k \<le> LENGTH('a)"
  shows "le_bytes k (le_word bs :: 'a::len word) = bs"
proof (rule nth_equalityI)
  fix i assume i: "i < length (le_bytes k (le_word bs :: 'a word))"
  then have k: "i < k" by simp
  have "bit (le_bytes k (le_word bs :: 'a word) ! i) j = bit (bs ! i) j" if "j < 8" for j
    using k that assms by (simp add: le_bytes_def bit_simps bit_le_word div_add1_eq)
  then show "le_bytes k (le_word bs :: 'a word) ! i = bs ! i" by (intro bit_word_eqI) simp
qed (simp add: assms(1))

lemma packed_flag_word [simp]: "length bs = 3 \<Longrightarrow> packed_flag (le_word (bs @ [f])) = f"
  by (simp add: packed_flag_def le_bytes_le_word nth_append)

lemma packed_flag_chars [simp]: "packed_flag (le_word [a, b, c, f]) = f"
  using packed_flag_word[of "[a, b, c]" f] by simp

lemma packed_flag_offset [simp]: "packed_flag (ndb_offset_str p) = 0"
proof -
  have m: "(0xFFFFFF :: u32) = mask 24" by (simp add: mask_eq_exp_minus_1)
  show ?thesis
    unfolding packed_flag_def ndb_offset_str_def m by (rule bit_word_eqI) (simp add: le_bytes_def bit_simps)
qed

lemma packed_flag_set [simp]: "packed_flag (set_packed_flag f p) = f"
  by (simp add: set_packed_flag_def)

lemma set_packed_flag_offset [simp]: "set_packed_flag f p AND 0xFFFFFF = p AND 0xFFFFFF"
proof -
  have m: "(0xFFFFFF :: u32) = mask 24" by (simp add: mask_eq_exp_minus_1)
  show ?thesis unfolding m
  proof (rule bit_word_eqI)
    fix i assume "i < LENGTH(32)"
    then show "bit (set_packed_flag f p AND mask 24) i = bit (p AND mask 24) i"
      by (auto simp: set_packed_flag_def bit_simps bit_le_word nth_append le_bytes_def div_add1_eq less_mult_imp_div_less)
  qed
qed

lemma offset_offset [simp]: "unat (ndb_offset_str p AND 0xFFFFFF) = unat p mod 2 ^ 24"
proof -
  have m: "(0xFFFFFF :: u32) = mask 24" by (simp add: mask_eq_exp_minus_1)
  have "ndb_offset_str p AND 0xFFFFFF = take_bit 24 p"
    unfolding ndb_offset_str_def m by (simp only: and.assoc and.idem take_bit_eq_mask)
  then have "unat (ndb_offset_str p AND 0xFFFFFF) = take_bit 24 (unat p)" by (simp only: unsigned_take_bit_eq)
  then show ?thesis by (simp only: take_bit_eq_mod)
qed

text \<open>What a packed string stands for, given the strings.\<close>

definition packed_reads :: "u8 list \<Rightarrow> u32 \<Rightarrow> ndb_str \<Rightarrow> bool" where
  "packed_reads strings p v \<longleftrightarrow>
     (let off = unat (p AND 0xFFFFFF) in
      if packed_flag p = NDB_PACKED_STR then map_option Packed_Str (c_string (take 3 (le_bytes 4 p))) = Some v
      else if packed_flag p = NDB_PACKED_ID then off + 32 \<le> length strings \<and> v = Packed_Id (take 32 (drop off strings))
      else map_option Offset_Str (c_string (drop off strings)) = Some v)"

lemma takeWhile_NUL: "0 \<notin> set s \<Longrightarrow> takeWhile (\<lambda>c. c \<noteq> 0) (s @ t) = s @ takeWhile (\<lambda>c. c \<noteq> 0) t" for s :: "u8 list"
  by (induction s) auto

lemma c_string_append: "c_string (drop off bs) = Some s \<Longrightarrow> c_string (drop off (bs @ t)) = Some s"
  by (auto simp: c_string_def takeWhile_append1 split: if_splits)

lemma packed_reads_append: "packed_reads strings p v \<Longrightarrow> packed_reads (strings @ t) p v"
  by (cases "packed_flag p = NDB_PACKED_ID") (auto simp: packed_reads_def Let_def c_string_append simp del: drop_append split: if_splits, simp)

lemma note_str_reads:
  assumes "packed_reads strings p v" "sn_data note' = cur @ strings" "unat (nh_strings (sn_header note')) = 160 + length cur"
  shows "ndb_note_str note' p = Some v"
proof -
  have "drop (unat (p AND 0xFFFFFF) + length cur) (cur @ strings) = drop (unat (p AND 0xFFFFFF)) strings" by simp
  then show ?thesis using assms by (auto simp: packed_reads_def ndb_note_str_def note_bytes_def Let_def add.commute split: if_splits)
qed

text \<open>The view a reader has of a string that was put in.\<close>

definition str_view :: "bool \<Rightarrow> u8 list \<Rightarrow> ndb_str" where
  "str_view pack_ids s =
     (if length s \<le> 2 then Packed_Str s
      else if pack_ids \<and> length s = 64 \<and> fst (hex_decode s 32) then Packed_Id (snd (hex_decode s 32))
      else Offset_Str s)"

lemma hex_decode_length: "fst (hex_decode s n) \<Longrightarrow> length (snd (hex_decode s n)) = n"
  by (induction s n rule: hex_decode.induct) (auto split: option.splits if_splits prod.splits)

lemma str_at_spec: "0 \<notin> set s \<Longrightarrow> 0 \<in> set bs \<Longrightarrow> str_at s bs = Some (s = takeWhile (\<lambda>c. c \<noteq> 0) bs)"
  by (induction s bs rule: str_at.induct) auto

lemma packed_three_reads:
  "length bs = 3 \<Longrightarrow> c_string bs = Some s \<Longrightarrow> packed_reads strings (le_word (bs @ [NDB_PACKED_STR])) (Packed_Str s)"
  by (simp add: packed_reads_def le_bytes_le_word)

lemma packed_chars_reads:
  "0 \<notin> set s \<Longrightarrow> length s \<le> 2 \<Longrightarrow> packed_reads strings (le_word (take 3 (s @ [0, 0, 0]) @ [NDB_PACKED_STR])) (Packed_Str s)"
proof -
  assume s: "0 \<notin> set s" "length s \<le> 2"
  have t: "take 3 (s @ [0, 0, 0]) = s @ replicate (3 - length s) 0" using s(2) by (cases s; cases "tl s") (auto simp: numeral_3_eq_3)
  have l: "length (s @ replicate (3 - length s) (0 :: u8)) = 3" using s(2) by simp
  have "c_string (s @ replicate (3 - length s) 0) = Some s"
    using s by (cases "3 - length s") (simp_all add: c_string_def takeWhile_NUL)
  then show ?thesis unfolding t using l by (intro packed_three_reads)
qed

text \<open>The strings of a builder: every index leads to a string with its NUL.\<close>

definition strings_ok :: "ndb_builder \<Rightarrow> bool" where
  "strings_ok b \<longleftrightarrow> b_strings_cap b \<le> 2 ^ 24 \<and> length (b_strings b) \<le> b_strings_cap b \<and> (\<forall>i\<in>set (b_indices b). 0 \<in> set (drop (unat i) (b_strings b)) \<and> unat i < 2 ^ 24)"

definition strings_grow :: "nat \<Rightarrow> ndb_builder \<Rightarrow> ndb_builder \<Rightarrow> bool" where
  "strings_grow n b b' \<longleftrightarrow> (\<exists>t ix. b' = b\<lparr>b_strings := b_strings b @ t, b_indices := ix\<rparr> \<and> length t \<le> n)"

lemma strings_grow_refl: "strings_grow n b b"
  unfolding strings_grow_def by (intro exI[of _ "[]"] exI[of _ "b_indices b"]) simp

lemma push_str_spec:
  assumes b: "strings_ok b" and room: "length (b_strings b) + length s + 1 \<le> b_strings_cap b"
  shows "\<exists>b'. ndb_builder_push_str b s = (Some (ndb_offset_str (word_of_nat (length (b_strings b)))), b') \<and> strings_ok b' \<and>
    strings_grow (length s + 1) b b' \<and> b_strings b' = b_strings b @ s @ [0]"
proof -
  have u: "unat (word_of_nat (length (b_strings b)) :: u32) = length (b_strings b)"
    using b room by (simp add: strings_ok_def unsigned_of_nat take_bit_nat_eq_self)
  let ?loc = "word_of_nat (length (b_strings b)) :: u32"
  let ?b = "b\<lparr>b_strings := b_strings b @ s @ [0], b_indices := if 4 * (length (b_indices b) + 1) \<le> b_indices_cap b then b_indices b @ [?loc] else b_indices b\<rparr>"
  have "ndb_builder_push_str b s = (Some (ndb_offset_str ?loc), ?b)" using room by (simp add: ndb_builder_push_str_def region_push_def Let_def)
  moreover have "strings_ok ?b" using b room by (auto simp: strings_ok_def u)
  moreover have "strings_grow (length s + 1) b ?b"
    unfolding strings_grow_def by (intro exI[of _ "s @ [0]"] exI[of _ "b_indices ?b"]) simp
  ultimately show ?thesis by (intro exI[of _ ?b]) simp
qed

lemma find_loop_spec:
  assumes "\<forall>i\<in>set ix. 0 \<in> set (drop (unat i) strings) \<and> unat i < 2 ^ 24" "0 \<notin> set s"
  shows "find_loop strings s ix = Some None \<or> (\<exists>i\<in>set ix. find_loop strings s ix = Some (Some (ndb_offset_str i)) \<and> c_string (drop (unat i) strings) = Some s)"
  using assms by (induction ix) (auto simp: str_at_spec c_string_def)

lemma offset_reads:
  "unat p < 2 ^ 24 \<Longrightarrow> c_string (drop (unat p) strings) = Some s \<Longrightarrow> packed_reads strings (ndb_offset_str p) (Offset_Str s)"
  by (simp add: packed_reads_def NDB_PACKED_STR_def NDB_PACKED_ID_def)

lemma offset_u: "length ss < 2 ^ 24 \<Longrightarrow> unat (word_of_nat (length ss) :: u32) = length ss"
  by (simp add: unsigned_of_nat take_bit_nat_eq_self)

lemma make_str_spec:
  assumes b: "strings_ok b" and room: "length (b_strings b) + length s + 1 \<le> b_strings_cap b" and s: "0 \<notin> set s"
  shows "\<exists>p b'. ndb_builder_make_str b s pack = Some (Some p, b') \<and> strings_ok b' \<and> strings_grow (length s + 1) b b' \<and>
    packed_reads (b_strings b') p (str_view pack s)"
proof -
  have l24: "length (b_strings b) < 2 ^ 24" using b room by (simp add: strings_ok_def)
  consider (short) "length s \<le> 2" | (id) "\<not> length s \<le> 2" "pack" "length s = 64" "fst (hex_decode s 32)"
    | (long) "\<not> length s \<le> 2" "\<not> (pack \<and> length s = 64 \<and> fst (hex_decode s 32))" by blast
  then show ?thesis
  proof cases
    case short
    define p where "p = (le_word (take 3 (s @ [0, 0, 0]) @ [NDB_PACKED_STR]) :: u32)"
    have "ndb_builder_try_compact_str b s pack = (Some p, b)"
      using short by (cases s; cases "tl s")
        (auto simp: ndb_builder_try_compact_str_def p_def ndb_char_to_packed_str_def ndb_chars_to_packed_str_def numeral_3_eq_3)
    then show ?thesis using b short packed_chars_reads[OF s short] strings_grow_refl
      by (simp add: ndb_builder_make_str_def str_view_def p_def)
  next
    case id
    let ?i = "snd (hex_decode s 32)"
    have li: "length ?i = 32" using id(4) by (rule hex_decode_length)
    obtain b' where p: "ndb_builder_push_str b ?i = (Some (ndb_offset_str (word_of_nat (length (b_strings b)))), b')" "strings_ok b'"
      "strings_grow (length ?i + 1) b b'" "b_strings b' = b_strings b @ ?i @ [0]"
      using push_str_spec[OF b, of ?i] room id(3) li by auto
    let ?p = "set_packed_flag NDB_PACKED_ID (ndb_offset_str (word_of_nat (length (b_strings b))))"
    have "packed_reads (b_strings b') ?p (Packed_Id ?i)"
      using l24 li by (simp add: packed_reads_def NDB_PACKED_STR_def NDB_PACKED_ID_def offset_u p(4))
    moreover have "strings_grow (length s + 1) b b'" using p(3) li id(3) by (auto simp: strings_grow_def)
    ultimately show ?thesis using id p(1,2) li
      by (auto simp: ndb_builder_make_str_def ndb_builder_try_compact_str_def ndb_builder_push_packed_id_def str_view_def)
  next
    case long
    have c: "ndb_builder_try_compact_str b s pack = (None, b)"
      using long by (auto simp: ndb_builder_try_compact_str_def)
    have v: "str_view pack s = Offset_Str s" using long by (auto simp: str_view_def)
    consider (new) "ndb_builder_find_str b s = Some None"
      | (old) i where "i \<in> set (b_indices b)" "ndb_builder_find_str b s = Some (Some (ndb_offset_str i))" "c_string (drop (unat i) (b_strings b)) = Some s"
      using find_loop_spec[of "b_indices b" "b_strings b" s] b s by (auto simp: strings_ok_def ndb_builder_find_str_def)
    then show ?thesis
    proof cases
      case new
      obtain b' where p: "ndb_builder_push_str b s = (Some (ndb_offset_str (word_of_nat (length (b_strings b)))), b')" "strings_ok b'"
        "strings_grow (length s + 1) b b'" "b_strings b' = b_strings b @ s @ [0]"
        using push_str_spec[OF b room] by blast
      have "c_string (s @ [0]) = Some s" using s by (simp add: c_string_def takeWhile_NUL)
      then have "packed_reads (b_strings b') (ndb_offset_str (word_of_nat (length (b_strings b)))) (Offset_Str s)"
        using l24 by (intro offset_reads) (simp_all add: offset_u p(4))
      then show ?thesis using c new p v by (simp add: ndb_builder_make_str_def ndb_builder_push_unpacked_str_def)
    next
      case old
      then have "packed_reads (b_strings b) (ndb_offset_str i) (Offset_Str s)"
        using b by (intro offset_reads) (auto simp: strings_ok_def)
      then show ?thesis using b c old v strings_grow_refl by (simp add: ndb_builder_make_str_def ndb_builder_push_unpacked_str_def)
    qed
  qed
qed

section \<open>Building and reading back\<close>

text \<open>The elements of a tag, given as strings or as ids.\<close>

datatype tag_elem = Tag_Str "u8 list" | Tag_Id "u8 list"

fun elem_view :: "tag_elem \<Rightarrow> ndb_str" where
  "elem_view (Tag_Str s) = str_view True s"
| "elem_view (Tag_Id i) = Packed_Id i"

fun elem_size :: "tag_elem \<Rightarrow> nat" where
  "elem_size (Tag_Str s) = length s + 1"
| "elem_size (Tag_Id i) = 33"

fun elem_ok :: "tag_elem \<Rightarrow> bool" where
  "elem_ok (Tag_Str s) = (0 \<notin> set s)"
| "elem_ok (Tag_Id i) = (length i = 32)"

fun push_elem :: "ndb_builder \<Rightarrow> tag_elem \<Rightarrow> (bool \<times> ndb_builder) option" where
  "push_elem b (Tag_Str s) = ndb_builder_push_tag_str b s"
| "push_elem b (Tag_Id i) = ndb_builder_push_tag_id b i"

fun push_elems :: "ndb_builder \<Rightarrow> tag_elem list \<Rightarrow> (bool \<times> ndb_builder) option" where
  "push_elems b [] = Some (True, b)"
| "push_elems b (e # es) = do { (r, b) \<leftarrow> push_elem b e; if \<not> r then Some (False, b) else push_elems b es }"

fun push_tags :: "ndb_builder \<Rightarrow> tag_elem list list \<Rightarrow> (bool \<times> ndb_builder) option" where
  "push_tags b [] = Some (True, b)"
| "push_tags b (t # ts) =
     (let (r, b) = ndb_builder_new_tag b in
      if \<not> r then Some (False, b)
      else do { (r, b) \<leftarrow> push_elems b t; if \<not> r then Some (False, b) else push_tags b ts })"

definition enc_tag :: "u32 list \<Rightarrow> u8 list" where
  "enc_tag ps = le_bytes 2 (word_of_nat (length ps) :: u16) @ concat (map (le_bytes 4) ps)"

lemma length_enc_tag [simp]: "length (enc_tag ps) = 2 + 4 * length ps"
  by (simp add: enc_tag_def length_concat comp_def sum_list_triv)

text \<open>What an operation on the current tag leaves alone.\<close>

definition same_frame :: "ndb_builder \<Rightarrow> ndb_builder \<Rightarrow> bool" where
  "same_frame b b' \<longleftrightarrow> b_note b' = b_note b \<and> b_cur_cap b' = b_cur_cap b \<and> b_strings_cap b' = b_strings_cap b \<and> b_mem_size b' = b_mem_size b"

definition grown :: "nat \<Rightarrow> ndb_builder \<Rightarrow> ndb_builder \<Rightarrow> bool" where
  "grown n b b' \<longleftrightarrow> same_frame b b' \<and> (\<exists>t. b_strings b' = b_strings b @ t \<and> length t \<le> n)"

lemma grown_trans: "grown m b b' \<Longrightarrow> grown n b' b'' \<Longrightarrow> grown (m + n) b b''"
  by (auto simp: grown_def same_frame_def)

lemma grown_reads: "grown n b b' \<Longrightarrow> packed_reads (b_strings b) p v \<Longrightarrow> packed_reads (b_strings b') p v"
  by (auto simp: grown_def packed_reads_append)

lemma grown_all_reads: "grown n b b' \<Longrightarrow> list_all2 (packed_reads (b_strings b)) ps vs \<Longrightarrow> list_all2 (packed_reads (b_strings b')) ps vs"
  by (erule list_all2_mono) (rule grown_reads)

lemma grown_length: "grown n b b' \<Longrightarrow> length (b_strings b') \<le> length (b_strings b) + n"
  by (auto simp: grown_def)

lemma strings_grow_grown: "strings_grow n b b' \<Longrightarrow> grown n b b' \<and> b_cur b' = b_cur b \<and> b_tag b' = b_tag b"
  by (auto simp: strings_grow_def grown_def same_frame_def)

lemma finalize_tag_spec:
  assumes "b_cur b = pre @ enc_tag ps" "b_tag b = Some (length pre)" "length (b_cur b) + 4 \<le> b_cur_cap b"
  shows "ndb_builder_finalize_tag b p = Some (True, b\<lparr>b_cur := pre @ enc_tag (ps @ [p])\<rparr>)"
proof -
  have w: "le_word (le_bytes 2 (word_of_nat (length ps) :: u16)) + 1 = (word_of_nat (length (ps @ [p])) :: u16)"
    by (simp add: le_word_le_bytes add.commute)
  show ?thesis using assms w
    by (simp add: ndb_builder_finalize_tag_def region_push_def enc_tag_def Let_def add.commute)
qed

lemma push_elem_spec:
  assumes b: "strings_ok b" and cur: "b_cur b = pre @ enc_tag ps" "b_tag b = Some (length pre)"
    and room: "length (b_cur b) + 4 \<le> b_cur_cap b" "length (b_strings b) + elem_size e \<le> b_strings_cap b" and e: "elem_ok e"
  shows "\<exists>p b'. push_elem b e = Some (True, b') \<and> strings_ok b' \<and> grown (elem_size e) b b' \<and>
    b_cur b' = pre @ enc_tag (ps @ [p]) \<and> b_tag b' = Some (length pre) \<and> packed_reads (b_strings b') p (elem_view e)"
proof -
  have fin: "\<exists>b'. ndb_builder_finalize_tag b1 p = Some (True, b') \<and> strings_ok b' \<and> grown (elem_size e) b b' \<and>
    b_cur b' = pre @ enc_tag (ps @ [p]) \<and> b_tag b' = Some (length pre) \<and> packed_reads (b_strings b') p (elem_view e)"
    if 1: "strings_ok b1" "strings_grow (elem_size e) b b1" "packed_reads (b_strings b1) p (elem_view e)" for b1 p
  proof -
    note g = strings_grow_grown[OF 1(2)]
    have "ndb_builder_finalize_tag b1 p = Some (True, b1\<lparr>b_cur := pre @ enc_tag (ps @ [p])\<rparr>)"
      using g cur room(1) by (intro finalize_tag_spec) (auto simp: grown_def same_frame_def)
    then show ?thesis using 1 g cur by (auto simp: grown_def same_frame_def strings_ok_def)
  qed
  show ?thesis
  proof (cases e)
    case (Tag_Str s)
    obtain p b1 where 1: "ndb_builder_make_str b s True = Some (Some p, b1)" "strings_ok b1" "strings_grow (length s + 1) b b1"
      "packed_reads (b_strings b1) p (str_view True s)"
      using make_str_spec[OF b, of s True] room(2) e Tag_Str by auto
    then show ?thesis using fin[of b1 p] Tag_Str by (auto simp: ndb_builder_push_tag_str_def)
  next
    case (Tag_Id i)
    have l24: "length (b_strings b) < 2 ^ 24" using b room(2) Tag_Id by (simp add: strings_ok_def)
    let ?p = "set_packed_flag NDB_PACKED_ID (ndb_offset_str (word_of_nat (length (b_strings b))))"
    obtain b1 where 1: "ndb_builder_push_str b i = (Some (ndb_offset_str (word_of_nat (length (b_strings b)))), b1)" "strings_ok b1"
      "strings_grow (length i + 1) b b1" "b_strings b1 = b_strings b @ i @ [0]"
      using push_str_spec[OF b, of i] room(2) e Tag_Id by auto
    have "packed_reads (b_strings b1) ?p (Packed_Id i)"
      using l24 e Tag_Id by (simp add: packed_reads_def NDB_PACKED_STR_def NDB_PACKED_ID_def offset_u 1(4))
    then show ?thesis using fin[of b1 ?p] 1(1-3) e Tag_Id by (auto simp: ndb_builder_push_tag_id_def ndb_builder_push_packed_id_def)
  qed
qed

lemma push_elems_spec:
  assumes "strings_ok b" "b_cur b = pre @ enc_tag ps" "b_tag b = Some (length pre)"
    and "length (b_cur b) + 4 * length es \<le> b_cur_cap b" "length (b_strings b) + sum_list (map elem_size es) \<le> b_strings_cap b" "\<forall>e\<in>set es. elem_ok e"
  shows "\<exists>qs b'. push_elems b es = Some (True, b') \<and> strings_ok b' \<and> grown (sum_list (map elem_size es)) b b' \<and>
    b_cur b' = pre @ enc_tag (ps @ qs) \<and> b_tag b' = Some (length pre) \<and> list_all2 (packed_reads (b_strings b')) qs (map elem_view es)"
  using assms
proof (induction es arbitrary: b ps)
  case Nil
  then show ?case by (auto simp: grown_def same_frame_def)
next
  case (Cons e es)
  obtain p b1 where 1: "push_elem b e = Some (True, b1)" "strings_ok b1" "grown (elem_size e) b b1"
    "b_cur b1 = pre @ enc_tag (ps @ [p])" "b_tag b1 = Some (length pre)" "packed_reads (b_strings b1) p (elem_view e)"
    using push_elem_spec[OF Cons.prems(1-3), of e] Cons.prems(4-6) by auto
  have c: "b_cur_cap b1 = b_cur_cap b" "b_strings_cap b1 = b_strings_cap b" using 1(3) by (auto simp: grown_def same_frame_def)
  have "length (b_strings b1) + sum_list (map elem_size es) \<le> b_strings_cap b1" using grown_length[OF 1(3)] Cons.prems(5) c by simp
  moreover have "length (b_cur b1) + 4 * length es \<le> b_cur_cap b1" using Cons.prems(2,4) 1(4) c by simp
  ultimately obtain qs b' where 2: "push_elems b1 es = Some (True, b')" "strings_ok b'" "grown (sum_list (map elem_size es)) b1 b'"
    "b_cur b' = pre @ enc_tag ((ps @ [p]) @ qs)" "b_tag b' = Some (length pre)" "list_all2 (packed_reads (b_strings b')) qs (map elem_view es)"
    using Cons.IH[OF 1(2,4,5)] Cons.prems(6) by auto
  have "list_all2 (packed_reads (b_strings b')) (p # qs) (map elem_view (e # es))" using 2(6) grown_reads[OF 2(3) 1(6)] by simp
  moreover have "grown (sum_list (map elem_size (e # es))) b b'" using grown_trans[OF 1(3) 2(3)] by simp
  ultimately show ?case using 1(1) 2(1,2,4,5) by (intro exI[of _ "p # qs"] exI[of _ b']) simp
qed

definition tag_room :: "tag_elem list \<Rightarrow> nat" where
  "tag_room t = 2 + 4 * length t"

definition tag_strings :: "tag_elem list \<Rightarrow> nat" where
  "tag_strings t = sum_list (map elem_size t)"

text \<open>The count of the tags changes in the header; everything else of the frame stays.\<close>

lemma push_tags_spec:
  assumes "strings_ok b" "length (b_cur b) + sum_list (map tag_room ts) \<le> b_cur_cap b"
    and "length (b_strings b) + sum_list (map tag_strings ts) \<le> b_strings_cap b" "\<forall>t\<in>set ts. \<forall>e\<in>set t. elem_ok e"
  shows "\<exists>pts b'. push_tags b ts = Some (True, b') \<and> strings_ok b' \<and>
    grown (sum_list (map tag_strings ts)) (b\<lparr>b_note := (b_note b)\<lparr>nh_tags_count := nh_tags_count (b_note b) + word_of_nat (length ts)\<rparr>\<rparr>) b' \<and>
    b_cur b' = b_cur b @ concat (map enc_tag pts) \<and> list_all2 (list_all2 (packed_reads (b_strings b'))) pts (map (map elem_view) ts)"
  using assms
proof (induction ts arbitrary: b)
  case Nil
  then show ?case by (auto simp: grown_def same_frame_def)
next
  case (Cons t ts)
  let ?b = "b\<lparr>b_note := (b_note b)\<lparr>nh_tags_count := nh_tags_count (b_note b) + 1\<rparr>, b_tag := Some (length (b_cur b)), b_cur := b_cur b @ enc_tag []\<rparr>"
  have n: "ndb_builder_new_tag b = (True, ?b)"
    using Cons.prems(2) by (simp add: ndb_builder_new_tag_def region_push_def tag_room_def enc_tag_def Let_def)
  obtain qs b1 where 1: "push_elems ?b t = Some (True, b1)" "strings_ok b1" "grown (tag_strings t) ?b b1"
    "b_cur b1 = b_cur b @ enc_tag qs" "list_all2 (packed_reads (b_strings b1)) qs (map elem_view t)"
    using push_elems_spec[of ?b "b_cur b" "[]" t] Cons.prems by (auto simp: strings_ok_def tag_room_def tag_strings_def)
  have c: "b_cur_cap b1 = b_cur_cap b" "b_strings_cap b1 = b_strings_cap b" "b_note b1 = b_note ?b" "b_mem_size b1 = b_mem_size b"
    using 1(3) by (auto simp: grown_def same_frame_def)
  have l: "length qs = length t" using 1(5) by (simp add: list_all2_lengthD[of _ qs "map elem_view t", simplified])
  have "length (b_cur b1) + sum_list (map tag_room ts) \<le> b_cur_cap b1" using Cons.prems(2) 1(4) c(1) l tag_room_def[of t] by simp
  moreover have "length (b_strings b1) + sum_list (map tag_strings ts) \<le> b_strings_cap b1" using Cons.prems(3) grown_length[OF 1(3)] c(2) by simp
  ultimately obtain pts b' where 2: "push_tags b1 ts = Some (True, b')" "strings_ok b'"
    "grown (sum_list (map tag_strings ts)) (b1\<lparr>b_note := (b_note b1)\<lparr>nh_tags_count := nh_tags_count (b_note b1) + word_of_nat (length ts)\<rparr>\<rparr>) b'"
    "b_cur b' = b_cur b1 @ concat (map enc_tag pts)" "list_all2 (list_all2 (packed_reads (b_strings b'))) pts (map (map elem_view) ts)"
    using Cons.IH[OF 1(2)] Cons.prems(4) by auto
  have g: "grown (sum_list (map tag_strings ts)) b1 (b'\<lparr>b_note := b_note b1\<rparr>)" using 2(3) by (auto simp: grown_def same_frame_def)
  have "list_all2 (packed_reads (b_strings b')) qs (map elem_view t)" using grown_all_reads[OF g 1(5)] by simp
  moreover have "grown (sum_list (map tag_strings (t # ts))) (b\<lparr>b_note := (b_note b)\<lparr>nh_tags_count := nh_tags_count (b_note b) + word_of_nat (length (t # ts))\<rparr>\<rparr>) b'"
    using 1(3) 2(3) c by (auto simp: grown_def same_frame_def algebra_simps)
  ultimately show ?case using n 1(1,4) 2(1,2,4,5) by (intro exI[of _ "qs # pts"] exI[of _ b']) simp
qed

text \<open>Reading the tags back.\<close>

lemma note_bytes_at: "sn_data note' = pre @ bs @ post \<Longrightarrow> length bs = n \<Longrightarrow> note_bytes note' (160 + length pre) n = Some bs"
  by (simp add: note_bytes_def)

lemma enc_tag_nth: "i < length ps \<Longrightarrow> \<exists>a c. enc_tag ps = a @ le_bytes 4 (ps ! i) @ c \<and> length a = 2 + 4 * i"
proof -
  assume i: "i < length ps"
  let ?f = "\<lambda>ps. concat (map (le_bytes 4) ps)"
  have "?f ps = ?f (take i ps) @ le_bytes 4 (ps ! i) @ ?f (drop (Suc i) ps)"
    using i by (subst id_take_nth_drop[OF i]) simp
  then show ?thesis using i
    by (intro exI[of _ "le_bytes 2 (word_of_nat (length ps) :: u16) @ ?f (take i ps)"] exI[of _ "?f (drop (Suc i) ps)"])
      (simp add: enc_tag_def length_concat comp_def sum_list_triv)
qed

lemma tag_read:
  assumes d: "sn_data note' = pre @ enc_tag ps @ post" and l: "length ps < 2 ^ 16"
    and v: "list_all2 (\<lambda>p v. ndb_note_str note' p = Some v) ps vs"
  shows "ndb_tag_count note' (length pre) = Some (word_of_nat (length ps))"
    and "those (map (ndb_tag_str note' (length pre)) [0..<unat (word_of_nat (length ps) :: u16)]) = Some vs"
proof -
  have c: "note_bytes note' (160 + length pre) 2 = Some (le_bytes 2 (word_of_nat (length ps) :: u16))"
    using d by (intro note_bytes_at) (simp_all add: enc_tag_def)
  then show "ndb_tag_count note' (length pre) = Some (word_of_nat (length ps))" by (simp add: ndb_tag_count_def le_word_le_bytes)
  have u: "unat (word_of_nat (length ps) :: u16) = length ps" using l by (simp add: unsigned_of_nat take_bit_nat_eq_self)
  have n: "length vs = length ps" using v by (simp add: list_all2_lengthD[symmetric])
  have "ndb_tag_str note' (length pre) i = Some (vs ! i)" if i: "i < length ps" for i
  proof -
    obtain a c where a: "enc_tag ps = a @ le_bytes 4 (ps ! i) @ c" "length a = 2 + 4 * i" using enc_tag_nth[OF i] by blast
    have "note_bytes note' (160 + length (pre @ a)) 4 = Some (le_bytes 4 (ps ! i))" using d a(1) by (intro note_bytes_at) simp_all
    moreover have "ndb_note_str note' (ps ! i) = Some (vs ! i)" using list_all2_nthD[OF v i] by simp
    ultimately show ?thesis using a(2) by (simp add: ndb_tag_str_def le_word_le_bytes add.assoc)
  qed
  then have "map (ndb_tag_str note' (length pre)) [0..<length ps] = map Some vs" by (intro nth_equalityI) (simp_all add: n)
  moreover have "those (map Some vs) = Some vs" for vs :: "ndb_str list" by (induction vs) simp_all
  ultimately show "those (map (ndb_tag_str note' (length pre)) [0..<unat (word_of_nat (length ps) :: u16)]) = Some vs" by (simp add: u)
qed

lemma tags_loop_spec:
  assumes "sn_data note' = pre @ enc_tag ps @ concat (map enc_tag pss) @ post" "length ps < 2 ^ 16" "\<forall>ps\<in>set pss. length ps < 2 ^ 16"
    and "list_all2 (list_all2 (\<lambda>p v. ndb_note_str note' p = Some v)) pss vss" "uint (nh_tags_count (sn_header note')) = int k + 1 + int (length pss)"
  shows "tags_loop note' \<lparr>it_tag = Some (length pre), it_index = int k\<rparr> = Some vss"
  using assms
proof (induction pss arbitrary: pre ps k vss)
  case Nil
  then show ?case by (subst tags_loop.simps) (simp add: ndb_tags_iterate_next_def)
next
  case (Cons qs pss)
  then obtain vs vss' where v: "vss = vs # vss'" "list_all2 (\<lambda>p v. ndb_note_str note' p = Some v) qs vs"
    "list_all2 (list_all2 (\<lambda>p v. ndb_note_str note' p = Some v)) pss vss'" by (auto simp: list_all2_Cons1)
  have u: "unat (word_of_nat (length ps) :: u16) = length ps" using Cons.prems(2) by (simp add: unsigned_of_nat take_bit_nat_eq_self)
  have c: "ndb_tag_count note' (length pre) = Some (word_of_nat (length ps))"
  proof -
    have "note_bytes note' (160 + length pre) 2 = Some (le_bytes 2 (word_of_nat (length ps) :: u16))"
      using Cons.prems(1) by (intro note_bytes_at) (simp_all add: enc_tag_def)
    then show ?thesis by (simp add: ndb_tag_count_def le_word_le_bytes)
  qed
  let ?pre = "pre @ enc_tag ps" and ?it = "\<lparr>it_tag = Some (length pre + 2 + length ps * 4), it_index = int (Suc k)\<rparr>"
  have l: "length ?pre = length pre + 2 + length ps * 4" by simp
  have nx: "ndb_tags_iterate_next note' \<lparr>it_tag = Some (length pre), it_index = int k\<rparr> = Some (True, ?it)"
    using c Cons.prems(5) by (simp add: ndb_tags_iterate_next_def u)
  have d: "sn_data note' = ?pre @ enc_tag qs @ concat (map enc_tag pss) @ post" using Cons.prems(1) by simp
  have r: "ndb_tag_count note' (length ?pre) = Some (word_of_nat (length qs))"
    "those (map (ndb_tag_str note' (length ?pre)) [0..<unat (word_of_nat (length qs) :: u16)]) = Some vs"
    by (rule tag_read[OF d _ v(2)]; use Cons.prems(3) in simp)+
  have "tags_loop note' \<lparr>it_tag = Some (length ?pre), it_index = int (Suc k)\<rparr> = Some vss'"
    by (rule Cons.IH[OF d]) (use Cons.prems(3,5) v(3) in simp_all)
  then show ?case using nx r unfolding l by (subst tags_loop.simps) (simp add: v(1))
qed

lemma note_tags_spec:
  assumes "sn_data note' = concat (map enc_tag pts) @ post" "\<forall>ps\<in>set pts. length ps < 2 ^ 16" "length pts < 2 ^ 16"
    and "list_all2 (list_all2 (\<lambda>p v. ndb_note_str note' p = Some v)) pts vss" "nh_tags_count (sn_header note') = word_of_nat (length pts)"
  shows "note_tags note' = Some vss"
proof -
  have u: "uint (word_of_nat (length pts) :: u16) = int (length pts)" using assms(3) by (simp add: unsigned_of_nat take_bit_nat_eq_self)
  show ?thesis
  proof (cases pts)
    case Nil
    then show ?thesis using assms by (simp add: note_tags_def tags_loop.simps ndb_tags_iterate_start_def ndb_tags_iterate_next_def)
  next
    case (Cons ps pss)
    then obtain vs vss' where v: "vss = vs # vss'" "list_all2 (\<lambda>p v. ndb_note_str note' p = Some v) ps vs"
      "list_all2 (list_all2 (\<lambda>p v. ndb_note_str note' p = Some v)) pss vss'" using assms(4) by (auto simp: list_all2_Cons1)
    have nx: "ndb_tags_iterate_next note' ndb_tags_iterate_start = Some (True, \<lparr>it_tag = Some 0, it_index = 0\<rparr>)"
    proof -
      have "uint (nh_tags_count (sn_header note')) \<noteq> 0" using u assms(5) Cons by simp
      then show ?thesis by (auto simp: ndb_tags_iterate_start_def ndb_tags_iterate_next_def)
    qed
    have d: "sn_data note' = [] @ enc_tag ps @ concat (map enc_tag pss) @ post" using assms(1) Cons by simp
    have r: "ndb_tag_count note' 0 = Some (word_of_nat (length ps))"
      "those (map (ndb_tag_str note' 0) [0..<unat (word_of_nat (length ps) :: u16)]) = Some vs"
      using tag_read[OF d _ v(2)] assms(2) Cons by simp_all
    have "tags_loop note' \<lparr>it_tag = Some (length ([] :: u8 list)), it_index = int 0\<rparr> = Some vss'"
      by (rule tags_loop_spec[OF d]) (use assms(2,5) Cons u v(3) in simp_all)
    then show ?thesis unfolding note_tags_def using nx r by (subst tags_loop.simps) (simp add: v(1))
  qed
qed

lemma unat32: "n < 2 ^ 32 \<Longrightarrow> unat (word_of_nat n :: u32) = n"
  by (simp add: unsigned_of_nat take_bit_nat_eq_self)

text \<open>A note from its tags and content, as the callers of the builder make one.\<close>

definition build_note :: "nat \<Rightarrow> u32 \<Rightarrow> u64 \<Rightarrow> tag_elem list list \<Rightarrow> u8 list \<Rightarrow> (stored_note \<times> nat) option option" where
  "build_note bufsize kind created_at tags content = do {
     b \<leftarrow> ndb_builder_init bufsize;
     case b of
       None \<Rightarrow> Some None
     | Some b \<Rightarrow> do {
         (r, b) \<leftarrow> push_tags (ndb_builder_set_created_at (ndb_builder_set_kind b kind) created_at) tags;
         if \<not> r then Some None
         else do {
           (r, b) \<leftarrow> ndb_builder_set_content b content;
           if \<not> r then Some None else ndb_builder_finalize (\<lambda>_ _. Some None) (\<lambda>_ _. None) b None } } }"

definition builder_half :: "nat \<Rightarrow> nat" where
  "builder_half bufsize = (bufsize - bufsize div 32) div 2"

text \<open>The header needs half of the buffer minus its share of the index: below 330 bytes it does not fit.\<close>

lemma builder_init_header_overlap: "320 \<le> n \<Longrightarrow> n < 330 \<Longrightarrow> ndb_builder_init n = None"
  by (auto simp: ndb_builder_init_def Let_def)

lemma init_spec:
  assumes "330 \<le> n" "n \<le> 2 ^ 24"
  shows "\<exists>b. ndb_builder_init n = Some (Some b) \<and> strings_ok b \<and> b_cur b = [] \<and> b_strings b = [] \<and> b_cur_cap b + 160 = builder_half n \<and>
    b_strings_cap b = builder_half n \<and> b_note b = empty_header\<lparr>nh_strings := word_of_nat (builder_half n), nh_version := 1\<rparr>"
  using assms by (auto simp: ndb_builder_init_def Let_def strings_ok_def builder_half_def)

lemma built_note_spec:
  assumes n: "330 \<le> n" "n \<le> 2 ^ 24"
    and room: "160 + sum_list (map tag_room tags) \<le> builder_half n" "sum_list (map tag_strings tags) + length content + 1 \<le> builder_half n"
    and ok: "\<forall>t\<in>set tags. \<forall>e\<in>set t. elem_ok e" "0 \<notin> set content" and l: "length tags < 2 ^ 16" "\<forall>t\<in>set tags. length t < 2 ^ 16"
  shows "\<exists>sn sz. build_note n kind created_at tags content = Some (Some (sn, sz)) \<and> 8 dvd sz \<and> 160 + length (sn_data sn) \<le> sz \<and> sz \<le> n \<and>
    note_tags sn = Some (map (map elem_view) tags) \<and> ndb_note_content sn = Some (str_view False content) \<and>
    nh_kind (sn_header sn) = kind \<and> nh_created_at (sn_header sn) = created_at"
proof -
  obtain b0 where b0: "ndb_builder_init n = Some (Some b0)" "strings_ok b0" "b_cur b0 = []" "b_strings b0 = []" "b_cur_cap b0 + 160 = builder_half n"
    "b_strings_cap b0 = builder_half n" "b_note b0 = empty_header\<lparr>nh_strings := word_of_nat (builder_half n), nh_version := 1\<rparr>"
    using init_spec[OF n] by blast
  define b where "b = ndb_builder_set_created_at (ndb_builder_set_kind b0 kind) created_at"
  have b: "strings_ok b" "b_cur b = []" "b_strings b = []" "b_cur_cap b + 160 = builder_half n" "b_strings_cap b = builder_half n"
    "nh_kind (b_note b) = kind" "nh_created_at (b_note b) = created_at" "nh_tags_count (b_note b) = 0"
    using b0 by (simp_all add: b_def ndb_builder_set_created_at_def ndb_builder_set_kind_def strings_ok_def empty_header_def)
  obtain pts b1 where 1: "push_tags b tags = Some (True, b1)" "strings_ok b1"
    "grown (sum_list (map tag_strings tags)) (b\<lparr>b_note := (b_note b)\<lparr>nh_tags_count := nh_tags_count (b_note b) + word_of_nat (length tags)\<rparr>\<rparr>) b1"
    "b_cur b1 = concat (map enc_tag pts)" "list_all2 (list_all2 (packed_reads (b_strings b1))) pts (map (map elem_view) tags)"
    using push_tags_spec[OF b(1), of tags] b ok(1) room by auto
  have g1: "length (b_strings b1) \<le> sum_list (map tag_strings tags)" "b_strings_cap b1 = builder_half n" "nh_tags_count (b_note b1) = word_of_nat (length tags)"
    "nh_kind (b_note b1) = kind" "nh_created_at (b_note b1) = created_at"
    using 1(3) b by (auto simp: grown_def same_frame_def)
  let ?b1 = "b1\<lparr>b_note := (b_note b1)\<lparr>nh_content_length := word_of_nat (length content)\<rparr>\<rparr>"
  have s1: "strings_ok ?b1" using 1(2) by (simp add: strings_ok_def)
  obtain p b2 where 2: "ndb_builder_make_str ?b1 content False = Some (Some p, b2)" "strings_ok b2" "strings_grow (length content + 1) ?b1 b2"
    "packed_reads (b_strings b2) p (str_view False content)"
    using make_str_spec[OF s1, of content False] g1 room(2) ok(2) by auto
  obtain t where t: "b_strings b2 = b_strings b1 @ t" "length t \<le> length content + 1" "b_cur b2 = b_cur b1" "b_note b2 = b_note ?b1"
    using 2(3) by (auto simp: strings_grow_def)
  define sz where "sz = (160 + length (b_cur b1) + length (b_strings b2) + 7) div 8 * 8"
  define sn where "sn = \<lparr>sn_header = (b_note b2)\<lparr>nh_content := p, nh_strings := word_of_nat (160 + length (b_cur b1))\<rparr>, sn_data = b_cur b1 @ b_strings b2\<rparr>"
  have built: "build_note n kind created_at tags content = Some (Some (sn, sz))"
    using b0(1) 1(1) 2(1) t by (simp add: build_note_def b_def[symmetric] ndb_builder_set_content_def Let_def ndb_builder_finalize_def sn_def sz_def)
  have lp: "length pts = length tags" using 1(5) by (simp add: list_all2_lengthD[of _ pts "map (map elem_view) tags", simplified])
  have lps: "length (pts ! i) = length (tags ! i)" if "i < length tags" for i
    using list_all2_nthD[OF 1(5), of i] lp that list_all2_lengthD by fastforce
  have cl: "length (b_cur b1) = sum_list (map tag_room tags)"
  proof -
    have "map (\<lambda>ps. length (enc_tag ps)) pts = map tag_room tags" by (intro nth_equalityI) (simp_all add: lp lps tag_room_def)
    then show ?thesis by (simp add: 1(4) length_concat comp_def del: length_enc_tag)
  qed
  have half: "2 * builder_half n + n div 32 \<le> n" by (simp add: builder_half_def)
  have st: "unat (word_of_nat (160 + length (b_cur b1)) :: u32) = 160 + length (b_cur b1)"
  proof (rule unat32)
    show "160 + length (b_cur b1) < 2 ^ 32" using cl room(1) n half by simp
  qed
  have rd: "ndb_note_str sn q = Some v" if "packed_reads (b_strings b2) q v" for q v
    by (rule note_str_reads[OF that, of _ "b_cur b1"]) (use st in \<open>simp_all add: sn_def\<close>)
  have "list_all2 (list_all2 (\<lambda>p v. ndb_note_str sn p = Some v)) pts (map (map elem_view) tags)"
    using 1(5) by (rule list_all2_mono) (auto intro!: rd packed_reads_append simp: t(1) elim!: list_all2_mono)
  moreover have lps16: "\<forall>ps\<in>set pts. length ps < 2 ^ 16" using lps lp l(2) by (metis in_set_conv_nth nth_mem)
  ultimately have "note_tags sn = Some (map (map elem_view) tags)"
    using lp l(1) lps16 by (intro note_tags_spec[of sn pts "b_strings b2"]) (simp_all add: sn_def 1(4) t(4) g1(3))
  moreover have "ndb_note_content sn = Some (str_view False content)" using rd[OF 2(4)] by (simp add: ndb_note_content_def sn_def)
  moreover have "8 dvd sz" "160 + length (sn_data sn) \<le> sz" by (simp_all add: sz_def sn_def)
  moreover have "sz \<le> n"
  proof -
    have "length (b_strings b2) \<le> builder_half n" using t(1,2) g1(1) room(2) by simp
    then have "160 + length (b_cur b1) + length (b_strings b2) \<le> 2 * builder_half n" using cl room(1) by simp
    moreover have "10 \<le> n div 32" using n(1) by simp
    ultimately show ?thesis using half unfolding sz_def by linarith
  qed
  moreover have "nh_kind (sn_header sn) = kind" "nh_created_at (sn_header sn) = created_at" using g1 t(4) by (simp_all add: sn_def)
  ultimately show ?thesis using built by blast
qed


text \<open>
  C15 A built note reads back as it was put in. When the buffer has room for it, every call succeeds, the size
  is aligned and within the buffer, and the iterator and the accessors return the tags, with
  short strings packed and hexadecimal ids as ids, and the content.
\<close>

theorem built_note_reads_back:
  assumes n: "330 \<le> n" "n \<le> 2 ^ 24"
    and room: "160 + sum_list (map tag_room tags) \<le> builder_half n" "sum_list (map tag_strings tags) + length content + 1 \<le> builder_half n"
    and ok: "\<forall>t\<in>set tags. \<forall>e\<in>set t. elem_ok e" "0 \<notin> set content" and l: "length tags < 2 ^ 16" "\<forall>t\<in>set tags. length t < 2 ^ 16"
  shows "\<exists>sn sz. build_note n kind created_at tags content = Some (Some (sn, sz)) \<and> 8 dvd sz \<and> 160 + length (sn_data sn) \<le> sz \<and> sz \<le> n \<and>
    note_tags sn = Some (map (map elem_view) tags) \<and> ndb_note_content sn = Some (str_view False content) \<and>
    nh_kind (sn_header sn) = kind \<and> nh_created_at (sn_header sn) = created_at"
  using assms by (rule built_note_spec)

theorem built_note_reads_back_witness:
  "\<exists>sn sz. build_note 1024 1 1700000000 [[Tag_Str (str ''t''), Tag_Str (str ''nostr'')], [Tag_Str (str ''e''), Tag_Id (replicate 32 7)], [Tag_Str (str ''x''), Tag_Str (replicate 64 97)]]
       (str ''hello'') = Some (Some (sn, sz)) \<and> sz \<le> 1024 \<and>
     note_tags sn = Some [[Packed_Str (str ''t''), Offset_Str (str ''nostr'')], [Packed_Str (str ''e''), Packed_Id (replicate 32 7)],
       [Packed_Str (str ''x''), Packed_Id (replicate 32 0xAA)]] \<and> ndb_note_content sn = Some (Offset_Str (str ''hello''))"
proof -
  let ?tags = "[[Tag_Str (str ''t''), Tag_Str (str ''nostr'')], [Tag_Str (str ''e''), Tag_Id (replicate 32 7)], [Tag_Str (str ''x''), Tag_Str (replicate 64 97)]]"
  have h: "hex_decode (replicate (2 * k) 97) k = (True, replicate k 0xAA)" for k
    by (induction k) (simp_all add: char_to_hex_def hex_table_def hex_entries_def)
  have v: "map (map elem_view) ?tags = [[Packed_Str (str ''t''), Offset_Str (str ''nostr'')], [Packed_Str (str ''e''), Packed_Id (replicate 32 7)],
       [Packed_Str (str ''x''), Packed_Id (replicate 32 0xAA)]]"
    using h[of 32] by (simp add: str_view_def str_def)
  have "\<exists>sn sz. build_note 1024 1 1700000000 ?tags (str ''hello'') = Some (Some (sn, sz)) \<and> 8 dvd sz \<and> 160 + length (sn_data sn) \<le> sz \<and> sz \<le> 1024 \<and>
    note_tags sn = Some (map (map elem_view) ?tags) \<and> ndb_note_content sn = Some (str_view False (str ''hello'')) \<and>
    nh_kind (sn_header sn) = 1 \<and> nh_created_at (sn_header sn) = 1700000000"
    by (rule built_note_reads_back) (simp_all add: builder_half_def tag_room_def tag_strings_def str_def)
  moreover have "str_view False (str ''hello'') = Offset_Str (str ''hello'')" by (simp add: str_view_def str_def)
  ultimately show ?thesis unfolding v by auto
qed

section \<open>Replies\<close>

lemma packed_str_short:
  assumes "note_tags sn = Some tags" "tag \<in> set tags" "Packed_Str s \<in> set tag"
  shows "length s \<le> 2"
proof -
  have str: "length s \<le> 2" if "ndb_note_str sn p = Some (Packed_Str s)" for p
  proof -
    have "c_string (take 3 (le_bytes 4 p)) = Some s" using that by (auto simp: ndb_note_str_def Let_def split: if_splits)
    then have "0 \<in> set (take 3 (le_bytes 4 p))" "s = takeWhile (\<lambda>c. c \<noteq> 0) (take 3 (le_bytes 4 p))"
      by (auto simp: c_string_def split: if_splits)
    moreover have "0 \<in> set bs \<Longrightarrow> length (takeWhile (\<lambda>c. c \<noteq> 0) bs) < length bs" for bs :: "u8 list" by (induction bs) auto
    ultimately have "length s < length (take 3 (le_bytes 4 p))" by blast
    then show ?thesis by simp
  qed
  have "tags_loop sn it = Some tags \<Longrightarrow> tag \<in> set tags \<Longrightarrow> \<exists>t i. ndb_tag_str sn t i = Some (Packed_Str s)" for it
  proof (induction sn it arbitrary: tags rule: tags_loop.induct)
    case (1 sn it)
    obtain r it' where n: "ndb_tags_iterate_next sn it = Some (r, it')"
      using 1(2) by (subst (asm) tags_loop.simps) (auto split: option.splits)
    show ?case
    proof (cases r)
      case False
      then show ?thesis using 1(2,3) n by (subst (asm) tags_loop.simps) simp
    next
      case True
      then obtain t k strs rest where k: "it_tag it' = Some t" "ndb_tag_count sn t = Some k" "those (map (ndb_tag_str sn t) [0..<unat k]) = Some strs"
        "tags_loop sn it' = Some rest" "tags = strs # rest"
        using 1(2) n by (subst (asm) tags_loop.simps) (auto simp: bind_eq_Some)
      show ?thesis
      proof (cases "tag = strs")
        case True
        have those: "those xs = Some ys \<Longrightarrow> y \<in> set ys \<Longrightarrow> Some y \<in> set xs" for xs :: "ndb_str option list" and ys y
          by (induction xs arbitrary: ys) (auto split: option.splits)
        have "Some (Packed_Str s) \<in> set (map (ndb_tag_str sn t) [0..<unat k])" using those[OF k(3)] assms(3) True by blast
        then show ?thesis by (metis (no_types, lifting) imageE list.set_map)
      next
        case False
        then show ?thesis using 1(1)[OF n[unfolded \<open>r\<close>[THEN eqTrueI]] refl refl k(1-4)] k(5) 1(3) by auto
      qed
    qed
  qed
  then obtain t i where "ndb_tag_str sn t i = Some (Packed_Str s)" using assms(1,2) unfolding note_tags_def by blast
  then show ?thesis using str by (auto simp: ndb_tag_str_def bind_eq_Some)
qed


lemma strcmp_eq_0: "strcmp as bs = 0 \<longleftrightarrow> as = bs"
  by (simp add: strcmp_ord3)

lemma letter_tag_id_take: "letter_tag_id c (take 2 tag) = letter_tag_id c tag"
  by (cases tag; cases "tl tag") (simp_all add: letter_tag_id_def numeral_2_eq_2 split: ndb_str.splits)

lemma reply_loop_mention:
  "\<forall>tag\<in>set tags. \<forall>m. reply_marker tag = Some m \<longrightarrow> length m \<le> 2 \<Longrightarrow> nr_mention (reply_loop tags am fi r) = nr_mention r"
proof (induction tags am fi r rule: reply_loop.induct)
  case (2 tag tags am fi r)
  have "m \<noteq> str ''root'' \<and> m \<noteq> str ''reply'' \<and> m \<noteq> str ''mention''" if "reply_marker tag = Some m" for m
    using 2(6) that by (auto simp: str_def)
  then show ?case using 2 by (auto simp: strcmp_eq_0 split: option.splits)
qed simp

lemma reply_loop_unmarked:
  "\<forall>tag\<in>set tags. reply_marker tag = None \<Longrightarrow> reply_loop tags am fi r = reply_loop (map (take 2) tags) am fi r"
proof (induction tags am fi r rule: reply_loop.induct)
  case (2 tag tags am fi r)
  have "reply_marker (take 2 tag) = None" by (simp add: reply_marker_def)
  then show ?case using 2 by (auto simp: letter_tag_id_take split: option.splits)
qed simp

text \<open>
  C20 Reply markers are never seen. A marker is taken from a tag only if it is a packed string, and those
  have at most two characters, so \<open>root\<close>, \<open>reply\<close> and \<open>mention\<close> are never recognised: no note has
  a mention, and with markers of three characters and more the root and the reply are those of the note without markers, given
  by the positions of the tags.
\<close>

theorem reply_markers_ignored:
  assumes "note_tags sn = Some tags"
  shows "nr_mention (ndb_parse_reply tags) = None \<and>
    ((\<forall>tag\<in>set tags. \<forall>m. length tag \<ge> 4 \<longrightarrow> tag ! 3 \<noteq> Packed_Str m) \<longrightarrow> ndb_parse_reply tags = ndb_parse_reply (map (take 2) tags))"
proof
  have "length m \<le> 2" if "tag \<in> set tags" "reply_marker tag = Some m" for tag m
  proof -
    have "length tag \<ge> 4" "tag ! 3 = Packed_Str m" using that(2) by (auto simp: reply_marker_def split: if_splits ndb_str.splits)
    then have "Packed_Str m \<in> set tag" by (metis nth_mem Suc_le_lessD eval_nat_numeral(2) numeral_3_eq_3 semiring_norm(26,27))
    then show ?thesis using packed_str_short[OF assms that(1)] by simp
  qed
  then show "nr_mention (ndb_parse_reply tags) = None" by (simp add: ndb_parse_reply_def reply_loop_mention)
  show "(\<forall>tag\<in>set tags. \<forall>m. length tag \<ge> 4 \<longrightarrow> tag ! 3 \<noteq> Packed_Str m) \<longrightarrow> ndb_parse_reply tags = ndb_parse_reply (map (take 2) tags)"
  proof
    assume "\<forall>tag\<in>set tags. \<forall>m. length tag \<ge> 4 \<longrightarrow> tag ! 3 \<noteq> Packed_Str m"
    then have "\<forall>tag\<in>set tags. reply_marker tag = None" by (auto simp: reply_marker_def split: ndb_str.splits)
    then show "ndb_parse_reply tags = ndb_parse_reply (map (take 2) tags)" unfolding ndb_parse_reply_def by (rule reply_loop_unmarked)
  qed
qed

theorem reply_markers_ignored_witness:
  "\<exists>sn sz tags. build_note 1024 1 0
       [[Tag_Str (str ''e''), Tag_Id (replicate 32 1), Tag_Str [], Tag_Str (str ''reply'')],
        [Tag_Str (str ''e''), Tag_Id (replicate 32 2), Tag_Str [], Tag_Str (str ''root'')]] [] = Some (Some (sn, sz)) \<and>
     note_tags sn = Some tags \<and> ndb_parse_reply tags = \<lparr>nr_root = Some (replicate 32 1), nr_reply = Some (replicate 32 2), nr_mention = None\<rparr>"
proof -
  let ?tags = "[[Tag_Str (str ''e''), Tag_Id (replicate 32 1), Tag_Str [], Tag_Str (str ''reply'')],
        [Tag_Str (str ''e''), Tag_Id (replicate 32 2), Tag_Str [], Tag_Str (str ''root'')]]"
  let ?v = "map (map elem_view) ?tags"
  have room: "160 + sum_list (map tag_room ?tags) \<le> builder_half 1024" "sum_list (map tag_strings ?tags) + length ([] :: u8 list) + 1 \<le> builder_half 1024"
    "\<forall>t\<in>set ?tags. \<forall>e\<in>set t. elem_ok e" "0 \<notin> set ([] :: u8 list)" "length ?tags < 2 ^ 16" "\<forall>t\<in>set ?tags. length t < 2 ^ 16" "330 \<le> (1024 :: nat)" "(1024 :: nat) \<le> 2 ^ 24"
    by (simp_all add: builder_half_def tag_room_def tag_strings_def str_def)
  obtain sn sz where n: "build_note 1024 1 0 ?tags [] = Some (Some (sn, sz))" "note_tags sn = Some ?v"
    using built_note_spec[OF room(7,8,1-6), of 1 0] by blast
  have m: "\<forall>tag\<in>set ?v. \<forall>m. length tag \<ge> 4 \<longrightarrow> tag ! 3 \<noteq> Packed_Str m" by (simp add: str_view_def str_def)
  have "ndb_parse_reply ?v = ndb_parse_reply (map (take 2) ?v)" using reply_markers_ignored[OF n(2)] m by blast
  also have "\<dots> = \<lparr>nr_root = Some (replicate 32 1), nr_reply = Some (replicate 32 2), nr_mention = None\<rparr>"
    by (simp add: ndb_parse_reply_def letter_tag_id_def reply_marker_def str_view_def str_def)
  finally show ?thesis using n by blast
qed

end
