(* ===== verification/Note_Json.thy ===== *)
theory Note_Json
  imports Note_Store
begin

text \<open>
  JSON, in \<open>src/src/nostrdb.c\<close>: writing notes and filters, the text whose hash is the id of a
  note, and unescaping strings into a note.

  A writer appends to an output of a given capacity; its result is \<open>None\<close> when a part did not fit, and
  the callers then give up. An outer \<open>None\<close> is undefined behaviour.
\<close>

section \<open>Writing strings\<close>

definition cursor_push_escaped_char :: "nat \<Rightarrow> u8 list \<Rightarrow> u8 \<Rightarrow> u8 list option" where
  "cursor_push_escaped_char cap out c =
     (if c = 34 then region_push cap out [92, 34]
      else if c = 92 then region_push cap out [92, 92]
      else if c = 8 then region_push cap out [92, 98]
      else if c = 12 then region_push cap out [92, 102]
      else if c = 10 then region_push cap out [92, 110]
      else if c = 13 then region_push cap out [92, 114]
      else if c = 9 then region_push cap out [92, 116]
      else region_push cap out [c])"

primrec push_escaped :: "nat \<Rightarrow> u8 list \<Rightarrow> u8 list \<Rightarrow> u8 list option" where
  "push_escaped cap [] out = Some out"
| "push_escaped cap (c # cs) out = do { out \<leftarrow> cursor_push_escaped_char cap out c; push_escaped cap cs out }"

definition cursor_push_jsonstr :: "nat \<Rightarrow> u8 list \<Rightarrow> u8 list \<Rightarrow> u8 list option" where
  "cursor_push_jsonstr cap s out = do {
     out \<leftarrow> region_push cap out [34];
     out \<leftarrow> push_escaped cap s out;
     region_push cap out [34] }"

text \<open>The argument of \<open>hexchar\<close> is a nibble, for which it does not abort.\<close>

primrec push_hex_loop :: "nat \<Rightarrow> u8 list \<Rightarrow> u8 list \<Rightarrow> u8 list option" where
  "push_hex_loop cap [] out = Some out"
| "push_hex_loop cap (b # bs) out = do {
     hi \<leftarrow> hexchar (drop_bit 4 (ucast b));
     out \<leftarrow> region_push cap out [hi];
     lo \<leftarrow> hexchar (ucast b AND 0xF);
     out \<leftarrow> region_push cap out [lo];
     push_hex_loop cap bs out }"

definition cursor_push_hex_str :: "nat \<Rightarrow> u8 list \<Rightarrow> u8 list \<Rightarrow> u8 list option" where
  "cursor_push_hex_str cap bs out =
     (if length bs mod 2 \<noteq> 0 then None
      else do {
        out \<leftarrow> region_push cap out [34];
        out \<leftarrow> push_hex_loop cap bs out;
        region_push cap out [34] })"

text \<open>The room is checked once, and one byte more than the text takes is asked for.\<close>

definition cursor_push_hex :: "nat \<Rightarrow> u8 list \<Rightarrow> u8 list \<Rightarrow> u8 list option" where
  "cursor_push_hex cap bs out =
     (if length out + length bs * 2 \<ge> cap then None else map_option (\<lambda>h. out @ h) (hex_encode_loop bs))"

text \<open>Decimal numbers, as \<open>snprintf\<close> prints them, in a buffer of 16 bytes.\<close>

fun decimal :: "nat \<Rightarrow> u8 list" where
  "decimal n = (if n < 10 then [word_of_nat (48 + n)] else decimal (n div 10) @ [word_of_nat (48 + n mod 10)])"

declare decimal.simps [simp del]

definition decimal_int :: "int \<Rightarrow> u8 list" where
  "decimal_int i = (if i < 0 then 45 # decimal (nat (- i)) else decimal (nat i))"

definition cursor_push_int_str :: "nat \<Rightarrow> u64 \<Rightarrow> u8 list \<Rightarrow> u8 list option" where
  "cursor_push_int_str cap num out = region_push cap out (take 15 (decimal (unat num)))"

section \<open>Writing notes\<close>

definition cursor_push_json_tag_str :: "nat \<Rightarrow> ndb_str \<Rightarrow> u8 list \<Rightarrow> u8 list option" where
  "cursor_push_json_tag_str cap s out =
     (case s of
        Packed_Id i \<Rightarrow> cursor_push_hex_str cap i out
      | Packed_Str s \<Rightarrow> cursor_push_jsonstr cap s out
      | Offset_Str s \<Rightarrow> cursor_push_jsonstr cap s out)"

text \<open>A comma behind every element but the last.\<close>

fun push_separated :: "nat \<Rightarrow> ('a \<Rightarrow> u8 list \<Rightarrow> u8 list option) \<Rightarrow> 'a list \<Rightarrow> u8 list \<Rightarrow> u8 list option" where
  "push_separated cap push [] out = Some out"
| "push_separated cap push [x] out = push x out"
| "push_separated cap push (x # y # xs) out = do {
     out \<leftarrow> push x out;
     out \<leftarrow> region_push cap out [44];
     push_separated cap push (y # xs) out }"

definition cursor_push_json_tag :: "nat \<Rightarrow> ndb_str list \<Rightarrow> u8 list \<Rightarrow> u8 list option" where
  "cursor_push_json_tag cap tag out = do {
     out \<leftarrow> region_push cap out [91];
     out \<leftarrow> push_separated cap (cursor_push_json_tag_str cap) tag out;
     region_push cap out [93] }"

definition cursor_push_json_tags :: "nat \<Rightarrow> ndb_str list list \<Rightarrow> u8 list \<Rightarrow> u8 list option" where
  "cursor_push_json_tags cap tags out = do {
     out \<leftarrow> region_push cap out [91];
     out \<leftarrow> push_separated cap (cursor_push_json_tag cap) tags out;
     region_push cap out [93] }"

definition str_bytes :: "ndb_str \<Rightarrow> u8 list" where
  "str_bytes s = (case s of Packed_Id i \<Rightarrow> takeWhile (\<lambda>c. c \<noteq> 0) i | Packed_Str s \<Rightarrow> s | Offset_Str s \<Rightarrow> s)"

text \<open>The time and the kind are printed with \<open>%d\<close>, that is as signed numbers.\<close>

definition ndb_event_commitment :: "stored_note \<Rightarrow> nat \<Rightarrow> u8 list option option" where
  "ndb_event_commitment note buflen = do {
     tags \<leftarrow> note_tags note;
     content \<leftarrow> ndb_note_content note;
     pubkey \<leftarrow> hex_encode_loop (nh_pubkey (sn_header note));
     Some (do {
       out \<leftarrow> region_push buflen [] (str ''[0,\"'');
       out \<leftarrow> region_push buflen out pubkey;
       out \<leftarrow> region_push buflen out (str ''\",'');
       out \<leftarrow> region_push buflen out (take 15 (decimal_int (sint (ucast (nh_created_at (sn_header note)) :: u32))));
       out \<leftarrow> region_push buflen out (str '','');
       out \<leftarrow> region_push buflen out (take 15 (decimal_int (sint (nh_kind (sn_header note)))));
       out \<leftarrow> region_push buflen out (str '','');
       out \<leftarrow> cursor_push_json_tags buflen tags out;
       out \<leftarrow> region_push buflen out (str '','');
       out \<leftarrow> cursor_push_jsonstr buflen (str_bytes content) out;
       region_push buflen out (str '']'') }) }"

definition ndb_calculate_id :: "(u8 list \<Rightarrow> u8 list) \<Rightarrow> stored_note \<Rightarrow> nat \<Rightarrow> u8 list option option" where
  "ndb_calculate_id sha256 note buflen = map_option (map_option sha256) (ndb_event_commitment note buflen)"

text \<open>The check of a note; parsing the key and verifying the signature are the library's.\<close>

definition ndb_note_verify :: "(u8 list \<Rightarrow> u8 list) \<Rightarrow> (u8 list \<Rightarrow> 'k option) \<Rightarrow> (u8 list \<Rightarrow> u8 list \<Rightarrow> 'k \<Rightarrow> bool) \<Rightarrow> nat \<Rightarrow> stored_note \<Rightarrow> bool option" where
  "ndb_note_verify sha256 xonly_parse schnorr_verify scratch_size note = do {
     i \<leftarrow> ndb_calculate_id sha256 note scratch_size;
     Some (case i of
       None \<Rightarrow> False
     | Some i \<Rightarrow>
         if memcmp i (nh_id (sn_header note)) \<noteq> 0 then False
         else (case xonly_parse (nh_pubkey (sn_header note)) of
           None \<Rightarrow> False
         | Some key \<Rightarrow> schnorr_verify (nh_sig (sn_header note)) i key)) }"

definition ndb_note_json :: "stored_note \<Rightarrow> nat \<Rightarrow> u8 list option option" where
  "ndb_note_json note buflen = do {
     tags \<leftarrow> note_tags note;
     content \<leftarrow> ndb_note_content note;
     Some (do {
       out \<leftarrow> region_push buflen [] (str ''{\"id\":\"'');
       out \<leftarrow> cursor_push_hex buflen (nh_id (sn_header note)) out;
       out \<leftarrow> region_push buflen out (str ''\",\"pubkey\":\"'');
       out \<leftarrow> cursor_push_hex buflen (nh_pubkey (sn_header note)) out;
       out \<leftarrow> region_push buflen out (str ''\",\"created_at\":'');
       out \<leftarrow> cursor_push_int_str buflen (ucast (ndb_note_created_at note)) out;
       out \<leftarrow> region_push buflen out (str '',\"kind\":'');
       out \<leftarrow> cursor_push_int_str buflen (ucast (nh_kind (sn_header note))) out;
       out \<leftarrow> region_push buflen out (str '',\"tags\":'');
       out \<leftarrow> cursor_push_json_tags buflen tags out;
       out \<leftarrow> region_push buflen out (str '',\"content\":'');
       out \<leftarrow> cursor_push_jsonstr buflen (str_bytes content) out;
       out \<leftarrow> region_push buflen out (str '',\"sig\":\"'');
       out \<leftarrow> cursor_push_hex buflen (nh_sig (sn_header note)) out;
       out \<leftarrow> region_push buflen out (str ''\"}'');
       region_push buflen out [0] }) }"

section \<open>Writing filters\<close>

text \<open>One element; the value of a custom element cannot be written.\<close>

definition push_json_elem :: "nat \<Rightarrow> ndb_filter \<Rightarrow> ndb_generic_element_type \<Rightarrow> u64 \<Rightarrow> u8 list \<Rightarrow> u8 list option option" where
  "push_json_elem cap f typ x out =
     (case typ of
        NDB_ELEMENT_CUSTOM \<Rightarrow> Some (Some out)
      | NDB_ELEMENT_STRING \<Rightarrow> map_option (\<lambda>s. cursor_push_jsonstr cap s out) (read_str f x)
      | NDB_ELEMENT_ID \<Rightarrow> map_option (\<lambda>i. cursor_push_hex_str cap i out) (read_id f x)
      | NDB_ELEMENT_INT \<Rightarrow> Some (cursor_push_int_str cap x out)
      | NDB_ELEMENT_UNKNOWN \<Rightarrow> Some None)"

fun push_json_elems :: "nat \<Rightarrow> ndb_filter \<Rightarrow> ndb_generic_element_type \<Rightarrow> u64 list \<Rightarrow> u8 list \<Rightarrow> u8 list option option" where
  "push_json_elems cap f typ [] out = Some (Some out)"
| "push_json_elems cap f typ (x # xs) out = do {
     r \<leftarrow> push_json_elem cap f typ x out;
     case (if xs = [] then r else Option.bind r (\<lambda>out. region_push cap out [44])) of
       None \<Rightarrow> Some None
     | Some out \<Rightarrow> push_json_elems cap f typ xs out }"

definition cursor_push_json_elem_array :: "nat \<Rightarrow> ndb_filter \<Rightarrow> ndb_filter_elements \<Rightarrow> u8 list \<Rightarrow> u8 list option option" where
  "cursor_push_json_elem_array cap f els out =
     (case region_push cap out [91] of
        None \<Rightarrow> Some None
      | Some out \<Rightarrow> map_option (\<lambda>r. Option.bind r (\<lambda>out. region_push cap out [93])) (push_json_elems cap f (fe_elem_type els) (fe_elements els) out))"

text \<open>The name of a field, then its elements or its only value; a field without elements has no first one to write.\<close>

definition push_named :: "nat \<Rightarrow> u8 list \<Rightarrow> (u8 list \<Rightarrow> u8 list option option) \<Rightarrow> u8 list \<Rightarrow> u8 list option option" where
  "push_named cap name push out = (case region_push cap out name of None \<Rightarrow> Some None | Some out \<Rightarrow> push out)"

definition push_json_int :: "nat \<Rightarrow> ndb_filter_elements \<Rightarrow> u8 list \<Rightarrow> u8 list option option" where
  "push_json_int cap els out = (case fe_elements els of [] \<Rightarrow> None | x # _ \<Rightarrow> Some (cursor_push_int_str cap x out))"

definition push_json_field :: "nat \<Rightarrow> ndb_filter \<Rightarrow> ndb_filter_elements \<Rightarrow> u8 list \<Rightarrow> u8 list option option" where
  "push_json_field cap f els out =
     (case fe_type els of
        NDB_FILTER_CUSTOM \<Rightarrow> Some (Some out)
      | NDB_FILTER_IDS \<Rightarrow> push_named cap (str ''\"ids\":'') (cursor_push_json_elem_array cap f els) out
      | NDB_FILTER_SEARCH \<Rightarrow>
          push_named cap (str ''\"search\":'')
            (\<lambda>out. case fe_elements els of [] \<Rightarrow> None | x # _ \<Rightarrow> map_option (\<lambda>s. cursor_push_jsonstr cap s out) (read_str f x)) out
      | NDB_FILTER_AUTHORS \<Rightarrow> push_named cap (str ''\"authors\":'') (cursor_push_json_elem_array cap f els) out
      | NDB_FILTER_KINDS \<Rightarrow> push_named cap (str ''\"kinds\":'') (cursor_push_json_elem_array cap f els) out
      | NDB_FILTER_TAGS \<Rightarrow>
          push_named cap (str ''\"#'') (push_named cap [fe_tag els] (push_named cap (str ''\":'') (cursor_push_json_elem_array cap f els))) out
      | NDB_FILTER_SINCE \<Rightarrow> push_named cap (str ''\"since\":'') (push_json_int cap els) out
      | NDB_FILTER_UNTIL \<Rightarrow> push_named cap (str ''\"until\":'') (push_json_int cap els) out
      | NDB_FILTER_LIMIT \<Rightarrow> push_named cap (str ''\"limit\":'') (push_json_int cap els) out
      | NDB_FILTER_RELAYS \<Rightarrow> push_named cap (str ''\"relays\":'') (cursor_push_json_elem_array cap f els) out)"

fun push_json_fields :: "nat \<Rightarrow> ndb_filter \<Rightarrow> ndb_filter_elements list \<Rightarrow> u8 list \<Rightarrow> u8 list option option" where
  "push_json_fields cap f [] out = Some (Some out)"
| "push_json_fields cap f (els # flds) out = do {
     r \<leftarrow> push_json_field cap f els out;
     case (if flds = [] then r else Option.bind r (\<lambda>out. region_push cap out [44])) of
       None \<Rightarrow> Some None
     | Some out \<Rightarrow> push_json_fields cap f flds out }"

definition ndb_filter_json :: "ndb_filter \<Rightarrow> nat \<Rightarrow> u8 list option option" where
  "ndb_filter_json f buflen =
     (if \<not> f_finalized f then Some None
      else case region_push buflen [] (str ''{'') of
        None \<Rightarrow> Some None
      | Some out \<Rightarrow> map_option (\<lambda>r. Option.bind r (\<lambda>out. Option.bind (region_push buflen out (str ''}'')) (\<lambda>out. region_push buflen out [0])))
          (push_json_fields buflen f (f_fields f) out))"

section \<open>Reading strings\<close>

definition cursor_push_unescaped_char :: "nat \<Rightarrow> u8 list \<Rightarrow> u8 \<Rightarrow> u8 \<Rightarrow> bool \<times> u8 list" where
  "cursor_push_unescaped_char cap out c1 c2 =
     (let push = (\<lambda>c out. case region_push cap out [c] of None \<Rightarrow> (False, out) | Some out \<Rightarrow> (True, out)) in
      if c2 = 116 then push 9 out
      else if c2 = 110 then push 10 out
      else if c2 = 114 then push 13 out
      else if c2 = 98 then push 8 out
      else if c2 = 102 then push 12 out
      else if c2 = 92 then push 92 out
      else if c2 = 47 then push 47 out
      else if c2 = 34 then push 34 out
      else if c2 = 117 then (False, out)
      else (case push c1 out of (r, out) \<Rightarrow> if r then push c2 out else (False, out)))"

definition push_chunk :: "nat \<Rightarrow> u8 list \<Rightarrow> u8 list \<Rightarrow> bool \<times> u8 list" where
  "push_chunk cap chunk out =
     (if chunk = [] then (True, out) else case region_push cap out chunk of None \<Rightarrow> (False, out) | Some out \<Rightarrow> (True, out))"

text \<open>The chunk is the text from \<open>start\<close> to \<open>p\<close>. A backslash at the very end stands for itself.\<close>

fun unescape_loop :: "nat \<Rightarrow> u8 list \<Rightarrow> u8 list \<Rightarrow> u8 list \<Rightarrow> bool \<times> u8 list" where
  "unescape_loop cap chunk [] out = push_chunk cap chunk out"
| "unescape_loop cap chunk [c] out = push_chunk cap (chunk @ [c]) out"
| "unescape_loop cap chunk (c # d # s) out =
     (if c = 92 then
        (let (r, out) = push_chunk cap chunk out in
         if \<not> r then (False, out)
         else let (r, out) = cursor_push_unescaped_char cap out c d in
              if \<not> r then (False, out) else unescape_loop cap [] s out)
      else unescape_loop cap (chunk @ [c]) (d # s) out)"

text \<open>The result is the packed string, if there is one, the length of the text, and the builder.\<close>

definition ndb_builder_make_json_str :: "ndb_builder \<Rightarrow> u8 list \<Rightarrow> bool \<Rightarrow> u32 option \<times> nat \<times> ndb_builder" where
  "ndb_builder_make_json_str b s pack_ids =
     (case ndb_builder_try_compact_str b s pack_ids of
        (Some p, b) \<Rightarrow> (Some p, length s, b)
      | (None, b) \<Rightarrow>
          (let p = ndb_offset_str (word_of_nat (length (b_strings b)));
               (r, out) = unescape_loop (b_strings_cap b) [] s (b_strings b);
               written = length out - length (b_strings b)
           in if \<not> r then (None, length s, b\<lparr>b_strings := out\<rparr>)
              else case region_push (b_strings_cap b) out [0] of
                     None \<Rightarrow> (None, written, b\<lparr>b_strings := out\<rparr>)
                   | Some out \<Rightarrow> (Some p, written, b\<lparr>b_strings := out\<rparr>)))"

definition ndb_builder_push_json_tag :: "ndb_builder \<Rightarrow> u8 list \<Rightarrow> (bool \<times> ndb_builder) option" where
  "ndb_builder_push_json_tag b s =
     (case ndb_builder_make_json_str b s True of
        (None, _, b) \<Rightarrow> Some (False, b)
      | (Some p, _, b) \<Rightarrow> ndb_builder_finalize_tag b p)"

section \<open>What the writers append\<close>

text \<open>A writer that appends a fixed text if it fits.\<close>

definition appends :: "nat \<Rightarrow> (u8 list \<Rightarrow> u8 list option) \<Rightarrow> u8 list \<Rightarrow> bool" where
  "appends cap f t \<longleftrightarrow> (\<forall>out. f out = region_push cap out t)"

named_theorems appends_intros \<open>writers and the text they append\<close>

lemma appends_push [appends_intros]: "appends cap (\<lambda>out. region_push cap out t) t"
  by (simp add: appends_def)

lemma appends_bind [appends_intros]: "appends cap f t \<Longrightarrow> appends cap g u \<Longrightarrow> appends cap (\<lambda>out. Option.bind (f out) g) (t @ u)"
  by (auto simp: appends_def region_push_def)

lemma appends_D: "appends cap f t \<Longrightarrow> f out = region_push cap out t"
  by (simp add: appends_def)

lemma region_push_Nil: "length out \<le> cap \<Longrightarrow> region_push cap out [] = Some out"
  by (simp add: region_push_def)

definition esc_char :: "u8 \<Rightarrow> u8 list" where
  "esc_char c = (if c = 34 then [92, 34] else if c = 92 then [92, 92] else if c = 8 then [92, 98] else if c = 12 then [92, 102]
     else if c = 10 then [92, 110] else if c = 13 then [92, 114] else if c = 9 then [92, 116] else [c])"

definition esc :: "u8 list \<Rightarrow> u8 list" where
  "esc s = concat (map esc_char s)"

lemma esc_Cons: "esc (c # s) = esc_char c @ esc s" and esc_Nil [simp]: "esc [] = []"
  by (simp_all add: esc_def)

lemma push_escaped_char: "cursor_push_escaped_char cap out c = region_push cap out (esc_char c)"
  by (simp add: cursor_push_escaped_char_def esc_char_def)

text \<open>Appending nothing, where the output may already be too long, is the one case the writers treat differently.\<close>

lemma push_escaped_spec: "length out \<le> cap \<Longrightarrow> push_escaped cap s out = region_push cap out (esc s)"
proof (induction s arbitrary: out)
  case (Cons c s)
  show ?case
  proof (cases "length out + length (esc_char c) \<le> cap")
    case True
    then have "push_escaped cap s (out @ esc_char c) = region_push cap (out @ esc_char c) (esc s)" by (intro Cons.IH) simp
    then show ?thesis using True by (simp add: push_escaped_char region_push_def esc_Cons)
  qed (simp add: push_escaped_char region_push_def esc_Cons)
qed (simp add: region_push_def)

definition json_str :: "u8 list \<Rightarrow> u8 list" where
  "json_str s = [34] @ esc s @ [34]"

lemma jsonstr_appends [appends_intros]: "appends cap (cursor_push_jsonstr cap s) (json_str s)"
proof -
  have "cursor_push_jsonstr cap s out = region_push cap out (json_str s)" for out
  proof (cases "length out + 1 \<le> cap")
    case True
    then show ?thesis by (simp add: cursor_push_jsonstr_def region_push_def push_escaped_spec json_str_def)
  qed (simp add: cursor_push_jsonstr_def region_push_def json_str_def)
  then show ?thesis by (simp add: appends_def)
qed

definition hex_text :: "u8 list \<Rightarrow> u8 list" where
  "hex_text bs = the (hex_encode_loop bs)"

lemma hex_nibbles: "\<exists>hi lo. hexchar (drop_bit 4 (ucast b)) = Some hi \<and> hexchar (ucast b AND 0xF) = Some lo" for b :: u8
  using nibbles_less[of b] by (auto simp: hexchar_def)

lemma hex_loop_Some: "hex_encode_loop bs = Some (hex_text bs)" and length_hex_text [simp]: "length (hex_text bs) = 2 * length bs"
proof -
  have "\<exists>t. hex_encode_loop bs = Some t \<and> length t = 2 * length bs"
  proof (induction bs)
    case (Cons b bs)
    then show ?case using hex_nibbles[of b] by (auto simp: Let_def)
  qed simp
  then show "hex_encode_loop bs = Some (hex_text bs)" "length (hex_text bs) = 2 * length bs" by (auto simp: hex_text_def)
qed

lemma push_hex_loop_spec: "length out \<le> cap \<Longrightarrow> push_hex_loop cap bs out = region_push cap out (hex_text bs)"
proof (induction bs arbitrary: out)
  case (Cons b bs)
  obtain hi lo where h: "hexchar (drop_bit 4 (ucast b)) = Some hi" "hexchar (ucast b AND 0xF) = Some lo" using hex_nibbles by blast
  have t: "hex_text (b # bs) = hi # lo # hex_text bs" using h hex_loop_Some[of bs] by (simp add: hex_text_def[of "b # bs"])
  show ?case
  proof (cases "length out + 2 \<le> cap")
    case True
    then have "push_hex_loop cap bs (out @ [hi, lo]) = region_push cap (out @ [hi, lo]) (hex_text bs)" by (intro Cons.IH) simp
    then show ?thesis using True h t by (simp add: region_push_def)
  next
    case False
    then show ?thesis using h t by (auto simp: region_push_def bind_eq_None_conv)
  qed
qed (simp add: region_push_def hex_text_def)

definition json_hex :: "u8 list \<Rightarrow> u8 list" where
  "json_hex bs = [34] @ hex_text bs @ [34]"

lemma hex_str_appends: "even (length bs) \<Longrightarrow> appends cap (cursor_push_hex_str cap bs) (json_hex bs)"
proof -
  assume e: "even (length bs)"
  have "cursor_push_hex_str cap bs out = region_push cap out (json_hex bs)" for out
  proof (cases "length out + 1 \<le> cap")
    case True
    then show ?thesis using e by (simp add: cursor_push_hex_str_def region_push_def push_hex_loop_spec json_hex_def even_iff_mod_2_eq_zero)
  qed (use e in \<open>simp add: cursor_push_hex_str_def region_push_def json_hex_def even_iff_mod_2_eq_zero\<close>)
  then show ?thesis by (simp add: appends_def)
qed

lemma push_hex_appends:
  "t \<noteq> [] \<Longrightarrow> appends cap g (t @ u) \<Longrightarrow> appends cap (\<lambda>out. Option.bind (cursor_push_hex cap bs out) g) (hex_text bs @ t @ u)"
  by (cases t) (auto simp: appends_def cursor_push_hex_def region_push_def hex_loop_Some)

fun join :: "u8 list list \<Rightarrow> u8 list" where
  "join [] = []"
| "join [t] = t"
| "join (t # ts) = t @ [44] @ join ts"

lemma push_separated_spec:
  "\<forall>x\<in>set xs. appends cap (push x) (text x) \<Longrightarrow> length out \<le> cap \<Longrightarrow> push_separated cap push xs out = region_push cap out (join (map text xs))"
proof (induction cap push xs out rule: push_separated.induct)
  case (3 cap push x y xs out)
  show ?case
  proof (cases "length out + length (text x) + 1 \<le> cap")
    case True
    then have x: "push x out = Some (out @ text x)" "region_push cap (out @ text x) [44] = Some ((out @ text x) @ [44])"
      using 3(2) by (auto simp: appends_def region_push_def)
    have "push_separated cap push (y # xs) ((out @ text x) @ [44]) = region_push cap ((out @ text x) @ [44]) (join (map text (y # xs)))"
      using 3(2) True by (intro 3(1)[OF x]) auto
    then show ?thesis using x True by (auto simp: region_push_def)
  next
    case False
    then show ?thesis using 3(2) by (auto simp: appends_def region_push_def)
  qed
qed (simp_all add: appends_def region_push_def)

text \<open>The strings of a note, with ids of 32 bytes.\<close>

definition json_elem :: "ndb_str \<Rightarrow> u8 list" where
  "json_elem s = (case s of Packed_Id i \<Rightarrow> json_hex i | Packed_Str s \<Rightarrow> json_str s | Offset_Str s \<Rightarrow> json_str s)"

definition json_tag :: "ndb_str list \<Rightarrow> u8 list" where
  "json_tag tag = [91] @ join (map json_elem tag) @ [93]"

definition json_tags :: "ndb_str list list \<Rightarrow> u8 list" where
  "json_tags tags = [91] @ join (map json_tag tags) @ [93]"

definition ids_even :: "ndb_str list list \<Rightarrow> bool" where
  "ids_even tags \<longleftrightarrow> (\<forall>tag\<in>set tags. \<forall>i. Packed_Id i \<in> set tag \<longrightarrow> even (length i))"

lemma json_tag_str_appends: "(\<And>i. s = Packed_Id i \<Longrightarrow> even (length i)) \<Longrightarrow> appends cap (cursor_push_json_tag_str cap s) (json_elem s)"
  using jsonstr_appends hex_str_appends
  by (cases s) (simp_all add: json_elem_def appends_def cursor_push_json_tag_str_def)

lemma bracketed_appends:
  assumes "\<And>out. length out \<le> cap \<Longrightarrow> f out = region_push cap out t"
  shows "appends cap (\<lambda>out. Option.bind (region_push cap out [91]) (\<lambda>out. Option.bind (f out) (\<lambda>out. region_push cap out [93]))) ([91] @ t @ [93])"
  using assms by (auto simp: appends_def region_push_def)

lemma json_tag_appends: "\<forall>i. Packed_Id i \<in> set tag \<longrightarrow> even (length i) \<Longrightarrow> appends cap (cursor_push_json_tag cap tag) (json_tag tag)"
  unfolding cursor_push_json_tag_def[abs_def] json_tag_def
  by (intro bracketed_appends push_separated_spec ballI json_tag_str_appends) auto

lemma json_tags_appends: "ids_even tags \<Longrightarrow> appends cap (cursor_push_json_tags cap tags) (json_tags tags)"
  unfolding cursor_push_json_tags_def[abs_def] json_tags_def
  by (intro bracketed_appends push_separated_spec ballI json_tag_appends) (auto simp: ids_even_def)

section \<open>The JSON of a note\<close>

definition commitment_text :: "stored_note \<Rightarrow> ndb_str list list \<Rightarrow> ndb_str \<Rightarrow> u8 list" where
  "commitment_text sn tags content =
     str ''[0,\"'' @ hex_text (nh_pubkey (sn_header sn)) @ str ''\",'' @ decimal_int (sint (ucast (nh_created_at (sn_header sn)) :: u32)) @ str '','' @
     decimal_int (sint (nh_kind (sn_header sn))) @ str '','' @ json_tags tags @ str '','' @ json_str (str_bytes content) @ str '']''"

definition note_text :: "stored_note \<Rightarrow> ndb_str list list \<Rightarrow> ndb_str \<Rightarrow> u8 list" where
  "note_text sn tags content =
     str ''{\"id\":\"'' @ hex_text (nh_id (sn_header sn)) @ str ''\",\"pubkey\":\"'' @ hex_text (nh_pubkey (sn_header sn)) @
     str ''\",\"created_at\":'' @ decimal (unat (ndb_note_created_at sn)) @ str '',\"kind\":'' @ decimal (unat (nh_kind (sn_header sn))) @
     str '',\"tags\":'' @ json_tags tags @ str '',\"content\":'' @ json_str (str_bytes content) @ str '',\"sig\":\"'' @ hex_text (nh_sig (sn_header sn)) @ str ''\"}''"

lemma decimal_length: "n < 10 ^ k \<Longrightarrow> 0 < k \<Longrightarrow> length (decimal n) \<le> k"
proof (induction n arbitrary: k rule: decimal.induct)
  case (1 n)
  show ?case
  proof (cases "n < 10")
    case False
    then obtain j where k: "k = Suc j" "0 < j" using 1(2,3) by (cases k; cases "k - 1") auto
    then have "length (decimal (n div 10)) \<le> j" using 1(1)[OF False, of j] 1(2) by (simp add: less_mult_imp_div_less mult.commute)
    then show ?thesis using False k by (subst decimal.simps) simp
  qed (use 1(3) in \<open>subst decimal.simps, simp\<close>)
qed

lemma decimal_u32: "length (decimal (unat (x :: u32))) \<le> 10"
proof (rule decimal_length)
  have "unat x < 2 ^ 32" using unsigned_less[of x] by simp
  then show "unat x < 10 ^ 10" by simp
qed simp

lemma decimal_s32: "length (decimal_int (sint (x :: u32))) \<le> 11"
proof -
  have "- (2 ^ 31) \<le> sint x" "sint x < 2 ^ 31" using sint_greater_eq[of x] sint_less[of x] by simp_all
  then have "nat (- sint x) < 10 ^ 10" "nat (sint x) < 10 ^ 10" by simp_all
  then have "length (decimal (nat (- sint x))) \<le> 10" "length (decimal (nat (sint x))) \<le> 10" by (simp_all add: decimal_length)
  then show ?thesis by (simp add: decimal_int_def)
qed

lemma int_str_appends: "appends cap (cursor_push_int_str cap (ucast (x :: u32))) (decimal (unat x))"
  using decimal_u32[of x] by (simp add: appends_def cursor_push_int_str_def)

lemma commitment_spec:
  assumes "note_tags sn = Some tags" "ndb_note_content sn = Some content" "ids_even tags"
  shows "ndb_event_commitment sn buflen = Some (region_push buflen [] (commitment_text sn tags content))"
proof -
  have "appends buflen (\<lambda>out. do {
       out \<leftarrow> region_push buflen out (str ''[0,\"'');
       out \<leftarrow> region_push buflen out (hex_text (nh_pubkey (sn_header sn)));
       out \<leftarrow> region_push buflen out (str ''\",'');
       out \<leftarrow> region_push buflen out (decimal_int (sint (ucast (nh_created_at (sn_header sn)) :: u32)));
       out \<leftarrow> region_push buflen out (str '','');
       out \<leftarrow> region_push buflen out (decimal_int (sint (nh_kind (sn_header sn))));
       out \<leftarrow> region_push buflen out (str '','');
       out \<leftarrow> cursor_push_json_tags buflen tags out;
       out \<leftarrow> region_push buflen out (str '','');
       out \<leftarrow> cursor_push_jsonstr buflen (str_bytes content) out;
       region_push buflen out (str '']'') }) (commitment_text sn tags content)"
    unfolding commitment_text_def by (intro appends_intros json_tags_appends[OF assms(3)])
  moreover have "take 15 (decimal_int (sint (ucast (nh_created_at (sn_header sn)) :: u32))) = decimal_int (sint (ucast (nh_created_at (sn_header sn)) :: u32))"
    "take 15 (decimal_int (sint (nh_kind (sn_header sn)))) = decimal_int (sint (nh_kind (sn_header sn)))"
    using decimal_s32[of "ucast (nh_created_at (sn_header sn))"] decimal_s32[of "nh_kind (sn_header sn)"] by simp_all
  ultimately show ?thesis using assms(1,2) by (simp add: ndb_event_commitment_def hex_loop_Some appends_def)
qed

lemma note_json_spec:
  assumes "note_tags sn = Some tags" "ndb_note_content sn = Some content" "ids_even tags"
  shows "ndb_note_json sn buflen = Some (region_push buflen [] (note_text sn tags content @ [0]))"
proof -
  have str_ne: "str ''\",\"pubkey\":\"'' \<noteq> []" "str ''\",\"created_at\":'' \<noteq> []" "str ''\"}'' \<noteq> []" by (simp_all add: str_def)
  have e: "appends buflen (\<lambda>out. do { out \<leftarrow> region_push buflen out (str ''\"}''); region_push buflen out [0] }) (str ''\"}'' @ [0])"
    by (intro appends_intros)
  have "appends buflen (\<lambda>out. do {
       out \<leftarrow> region_push buflen out (str ''{\"id\":\"'');
       out \<leftarrow> cursor_push_hex buflen (nh_id (sn_header sn)) out;
       out \<leftarrow> region_push buflen out (str ''\",\"pubkey\":\"'');
       out \<leftarrow> cursor_push_hex buflen (nh_pubkey (sn_header sn)) out;
       out \<leftarrow> region_push buflen out (str ''\",\"created_at\":'');
       out \<leftarrow> cursor_push_int_str buflen (ucast (ndb_note_created_at sn)) out;
       out \<leftarrow> region_push buflen out (str '',\"kind\":'');
       out \<leftarrow> cursor_push_int_str buflen (ucast (nh_kind (sn_header sn))) out;
       out \<leftarrow> region_push buflen out (str '',\"tags\":'');
       out \<leftarrow> cursor_push_json_tags buflen tags out;
       out \<leftarrow> region_push buflen out (str '',\"content\":'');
       out \<leftarrow> cursor_push_jsonstr buflen (str_bytes content) out;
       out \<leftarrow> region_push buflen out (str '',\"sig\":\"'');
       out \<leftarrow> cursor_push_hex buflen (nh_sig (sn_header sn)) out;
       out \<leftarrow> region_push buflen out (str ''\"}'');
       region_push buflen out [0] }) (note_text sn tags content @ [0])"
    unfolding note_text_def append_assoc
    by (intro appends_bind appends_push push_hex_appends[OF str_ne(1)] push_hex_appends[OF str_ne(2)] push_hex_appends[OF str_ne(3)] int_str_appends
        json_tags_appends[OF assms(3)] jsonstr_appends e)
  then show ?thesis using assms(1,2) by (simp add: ndb_note_json_def appends_def)
qed

section \<open>Unescaping\<close>

lemma unescape_plain: "c \<noteq> 92 \<Longrightarrow> unescape_loop cap chunk (c # s) out = unescape_loop cap (chunk @ [c]) s out"
  by (cases s) simp_all

lemma unescape_esc:
  "length out + length chunk + length s \<le> cap \<Longrightarrow> unescape_loop cap chunk (esc s) out = (True, out @ chunk @ s)"
proof (induction s arbitrary: chunk out)
  case Nil
  then show ?case by (simp add: push_chunk_def region_push_def)
next
  case (Cons c s)
  have ch: "push_chunk cap chunk out = (True, out @ chunk)" using Cons.prems by (simp add: push_chunk_def region_push_def)
  have n: "unescape_loop cap [] (esc s) (out @ chunk @ [c]) = (True, out @ chunk @ [c] @ s)" using Cons.IH[of "out @ chunk @ [c]" "[]"] Cons.prems by simp
  have u: "unescape_loop cap chunk (92 # d # esc s) out = (True, out @ chunk @ c # s)"
    if "cursor_push_unescaped_char cap (out @ chunk) 92 d = (True, out @ chunk @ [c])" for d
    using ch n that by simp
  have p: "region_push cap (out @ chunk) [c] = Some (out @ chunk @ [c])" using Cons.prems by (simp add: region_push_def)
  show ?case
  proof (cases "c \<in> {34, 92, 8, 12, 10, 13, 9}")
    case True
    then show ?thesis using u p by (auto simp: esc_Cons esc_char_def cursor_push_unescaped_char_def)
  next
    case False
    then have "esc (c # s) = c # esc s" "c \<noteq> 92" by (simp_all add: esc_Cons esc_char_def)
    then show ?thesis using Cons.IH[of out "chunk @ [c]"] Cons.prems by (simp add: unescape_plain)
  qed
qed


text \<open>
  C18 JSON text of a string, taken into a note, is the string again, unless it is one character with
  an escape: every other string that is too long to be packed reads back from the builder as it was before escaping.
\<close>

theorem json_string_roundtrip:
  assumes "strings_ok b" and "0 \<notin> set s" and "2 < length (esc s)" and "length (b_strings b) + length s + 1 \<le> b_strings_cap b"
  shows "\<exists>p b'. ndb_builder_make_json_str b (esc s) False = (Some p, length s, b') \<and> strings_ok b' \<and> packed_reads (b_strings b') p (Offset_Str s)"
proof -
  have l24: "length (b_strings b) < 2 ^ 24" using assms(1,4) by (simp add: strings_ok_def)
  let ?p = "ndb_offset_str (word_of_nat (length (b_strings b)))" and ?b = "b\<lparr>b_strings := b_strings b @ s @ [0]\<rparr>"
  have c: "ndb_builder_try_compact_str b (esc s) False = (None, b)" using assms(3) by (auto simp: ndb_builder_try_compact_str_def)
  have "unescape_loop (b_strings_cap b) [] (esc s) (b_strings b) = (True, b_strings b @ s)" using unescape_esc[of "b_strings b" "[]" s] assms(4) by simp
  then have "ndb_builder_make_json_str b (esc s) False = (Some ?p, length s, ?b)"
    using c assms(4) by (simp add: ndb_builder_make_json_str_def region_push_def Let_def)
  moreover have "strings_ok ?b" using assms(1,4) by (auto simp: strings_ok_def)
  moreover have "packed_reads (b_strings ?b) ?p (Offset_Str s)"
    using l24 assms(2) by (intro offset_reads) (simp_all add: offset_u c_string_def takeWhile_NUL)
  ultimately show ?thesis by (intro exI[of _ ?p] exI[of _ ?b]) simp
qed

theorem json_string_roundtrip_witness:
  "\<exists>b p b'. ndb_builder_init 1024 = Some (Some b) \<and> ndb_builder_make_json_str b (esc (str ''say \"hi\"'')) False = (Some p, 8, b') \<and>
     packed_reads (b_strings b') p (Offset_Str (str ''say \"hi\"''))"
proof -
  obtain b where b: "ndb_builder_init 1024 = Some (Some b)" "strings_ok b" "b_strings b = []" "b_strings_cap b = builder_half 1024"
    using init_spec[of 1024] by auto
  have "\<exists>p b'. ndb_builder_make_json_str b (esc (str ''say \"hi\"'')) False = (Some p, length (str ''say \"hi\"''), b') \<and> strings_ok b' \<and>
      packed_reads (b_strings b') p (Offset_Str (str ''say \"hi\"''))"
    by (rule json_string_roundtrip[OF b(2)]) (simp_all add: b(3,4) builder_half_def str_def esc_def esc_char_def)
  moreover have "length (str ''say \"hi\"'') = 8" by (simp add: str_def)
  ultimately show ?thesis using b(1) by auto
qed

text \<open>
  C21 A string of one escaped character is not unescaped: text of two bytes is packed before escapes are looked at, so
  the JSON content for a line break is stored as a backslash and an \<open>n\<close>, and is not what the builder
  stores for the line break itself.
\<close>

theorem single_escape_kept:
  assumes "c \<in> {34, 92, 8, 12, 10, 13, 9}"
  shows "\<exists>p. ndb_builder_make_json_str b (esc [c]) pack_ids = (Some p, 2, b) \<and> packed_reads (b_strings b) p (Packed_Str (esc [c])) \<and>
    (\<exists>q. ndb_builder_make_str b [c] pack_ids = Some (Some q, b) \<and> packed_reads (b_strings b) q (Packed_Str [c]) \<and> p \<noteq> q)"
proof -
  obtain d where d: "esc [c] = [92, d]" "d \<noteq> 0" using assms by (auto simp: esc_def esc_char_def)
  have c0: "c \<noteq> 0" using assms by auto
  let ?p = "ndb_chars_to_packed_str 92 d" and ?q = "ndb_char_to_packed_str c"
  have p: "packed_reads (b_strings b) ?p (Packed_Str [92, d])"
    using packed_chars_reads[of "[92, d]"] d(2) by (simp add: ndb_chars_to_packed_str_def numeral_3_eq_3)
  have q: "packed_reads (b_strings b) ?q (Packed_Str [c])"
    using packed_chars_reads[of "[c]"] c0 by (simp add: ndb_char_to_packed_str_def numeral_3_eq_3)
  have "?p \<noteq> ?q"
  proof
    assume "?p = ?q"
    then have "packed_reads (b_strings b) ?p (Packed_Str [c])" using q by simp
    then show False using p by (simp add: packed_reads_def ndb_chars_to_packed_str_def)
  qed
  then show ?thesis using p q d(1)
    by (intro exI[of _ ?p]) (simp add: ndb_builder_make_json_str_def ndb_builder_make_str_def ndb_builder_try_compact_str_def)
qed

theorem single_escape_kept_witness:
  "\<exists>b p. ndb_builder_init 1024 = Some (Some b) \<and> ndb_builder_make_json_str b (str [CHR 0x5C, CHR ''n'']) False = (Some p, 2, b) \<and>
     packed_reads (b_strings b) p (Packed_Str [92, 110])"
proof -
  obtain b where b: "ndb_builder_init 1024 = Some (Some b)" using init_spec[of 1024] by auto
  have e: "esc [10] = str [CHR 0x5C, CHR ''n'']" "esc [10] = [92, 110]" by (simp_all add: esc_def esc_char_def str_def)
  from single_escape_kept[of 10 b False] show ?thesis using b e by auto
qed

text \<open>The serialisation the protocol asks for, with the numbers as they are.\<close>

definition nip01_text :: "stored_note \<Rightarrow> ndb_str list list \<Rightarrow> ndb_str \<Rightarrow> u8 list" where
  "nip01_text sn tags content =
     str ''[0,\"'' @ hex_text (nh_pubkey (sn_header sn)) @ str ''\",'' @ decimal (unat (nh_created_at (sn_header sn))) @ str '','' @
     decimal (unat (nh_kind (sn_header sn))) @ str '','' @ json_tags tags @ str '','' @ json_str (str_bytes content) @ str '']''"

lemma sint_small: "uint x < 2 ^ 31 \<Longrightarrow> sint (x :: u32) = uint x"
  using signed_take_bit_int_eq_self[of 31 "uint x"] order_trans[of "- (2 ^ 31)" 0 "uint x"] by (simp add: sint_uint)

lemma decimal_int_small: "uint x < 2 ^ 31 \<Longrightarrow> decimal_int (sint (x :: u32)) = decimal (unat x)"
  by (simp add: sint_small decimal_int_def)

lemma uint_low32: "uint x < 2 ^ 32 \<Longrightarrow> uint (ucast (x :: u64) :: u32) = uint x"
  by (simp add: unsigned_ucast_eq take_bit_int_eq_self)

text \<open>
  C16 The id of a note is the hash of its serialisation: for times and kinds below \<open>2^31\<close>, \<open>ndb_calculate_id\<close> hashes exactly
  the text of the protocol, strings escaped and ids in hexadecimal, and fails exactly when the buffer is too small for it.
\<close>

theorem id_hashes_serialisation:
  assumes "note_tags sn = Some tags" and "ndb_note_content sn = Some content" and "ids_even tags"
    and "nh_created_at (sn_header sn) < 2 ^ 31" and "nh_kind (sn_header sn) < 2 ^ 31"
  shows "ndb_calculate_id sha256 sn buflen =
    Some (if length (nip01_text sn tags content) \<le> buflen then Some (sha256 (nip01_text sn tags content)) else None)"
proof -
  have t: "uint (nh_created_at (sn_header sn)) < 2 ^ 31" "uint (nh_kind (sn_header sn)) < 2 ^ 31" using assms(4,5) by (simp_all add: word_less_def)
  then have u: "uint (ucast (nh_created_at (sn_header sn)) :: u32) = uint (nh_created_at (sn_header sn))" by (intro uint_low32) simp
  then have "unat (ucast (nh_created_at (sn_header sn)) :: u32) = unat (nh_created_at (sn_header sn))" by (simp only: unat_eq_nat_uint)
  then have "commitment_text sn tags content = nip01_text sn tags content"
    using t u by (simp add: commitment_text_def nip01_text_def decimal_int_small)
  then show ?thesis using commitment_spec[OF assms(1-3), of buflen] by (simp add: ndb_calculate_id_def region_push_def)
qed

text \<open>From 2038 on the time is written with a minus sign.\<close>

lemma commitment_time_negative:
  assumes "note_tags sn = Some tags" "ndb_note_content sn = Some content" "ids_even tags" "2 ^ 31 \<le> uint (nh_created_at (sn_header sn))"
    "uint (nh_created_at (sn_header sn)) < 2 ^ 32" "length (commitment_text sn tags content) \<le> buflen"
  shows "\<exists>rest. ndb_event_commitment sn buflen = Some (Some (str ''[0,\"'' @ hex_text (nh_pubkey (sn_header sn)) @ str ''\",'' @ 45 # rest))"
proof -
  let ?x = "ucast (nh_created_at (sn_header sn)) :: u32"
  have u: "uint ?x = uint (nh_created_at (sn_header sn))" using assms(5) by (rule uint_low32)
  have "sint ?x < 0"
  proof -
    have "signed_take_bit 31 (uint ?x) = (uint ?x + 2 ^ 31) mod 2 ^ 32 - 2 ^ 31" by (simp add: signed_take_bit_eq_take_bit_shift take_bit_eq_mod)
    also have "\<dots> = uint ?x + 2 ^ 31 - 2 ^ 32 - 2 ^ 31"
      using assms(4,5) u mod_pos_pos_trivial[of "uint ?x + 2 ^ 31 - 2 ^ 32" "2 ^ 32"] minus_mod_self2[of "uint ?x + 2 ^ 31" "2 ^ 32 :: int"]
      by (simp add: algebra_simps)
    finally show ?thesis using assms(5) u by (simp add: sint_uint)
  qed
  then show ?thesis using commitment_spec[OF assms(1-3), of buflen] assms(6) by (auto simp: commitment_text_def decimal_int_def region_push_def)
qed

text \<open>
  C17 \<open>ndb_note_json\<close> writes exactly the JSON object of the note and a NUL, and fails exactly when they do not fit.
\<close>

theorem note_json_written:
  assumes "note_tags sn = Some tags" and "ndb_note_content sn = Some content" and "ids_even tags"
  shows "ndb_note_json sn buflen = Some (if length (note_text sn tags content) < buflen then Some (note_text sn tags content @ [0]) else None)"
  using note_json_spec[OF assms, of buflen] by (simp add: region_push_def Suc_le_eq)

text \<open>A built note, for the examples.\<close>

lemma example_note:
  obtains sn where "note_tags sn = Some [[Packed_Str (str ''t''), Offset_Str (str ''a\"b'')]]" "ndb_note_content sn = Some (Offset_Str (str ''hello''))"
    "nh_created_at (sn_header sn) = 1700000000" "nh_kind (sn_header sn) = 1"
proof -
  let ?tags = "[[Tag_Str (str ''t''), Tag_Str (str ''a\"b'')]]"
  have room: "160 + sum_list (map tag_room ?tags) \<le> builder_half 1024" "sum_list (map tag_strings ?tags) + length (str ''hello'') + 1 \<le> builder_half 1024"
    "\<forall>t\<in>set ?tags. \<forall>e\<in>set t. elem_ok e" "0 \<notin> set (str ''hello'')" "length ?tags < 2 ^ 16" "\<forall>t\<in>set ?tags. length t < 2 ^ 16" "330 \<le> (1024 :: nat)" "(1024 :: nat) \<le> 2 ^ 24"
    by (simp_all add: builder_half_def tag_room_def tag_strings_def str_def)
  have v: "map (map elem_view) ?tags = [[Packed_Str (str ''t''), Offset_Str (str ''a\"b'')]]" "str_view False (str ''hello'') = Offset_Str (str ''hello'')"
    by (simp_all add: str_view_def str_def)
  show ?thesis using built_note_spec[OF room(7,8,1-6), of 1 1700000000] that unfolding v by blast
qed

theorem note_json_written_witness:
  "\<exists>sn. nh_kind (sn_header sn) = 1 \<and> ndb_note_json sn 10 = Some None"
proof -
  obtain sn where n: "note_tags sn = Some [[Packed_Str (str ''t''), Offset_Str (str ''a\"b'')]]" "ndb_note_content sn = Some (Offset_Str (str ''hello''))"
    "nh_created_at (sn_header sn) = 1700000000" "nh_kind (sn_header sn) = 1" by (rule example_note)
  have "ndb_note_json sn 10 = Some (if length (note_text sn [[Packed_Str (str ''t''), Offset_Str (str ''a\"b'')]] (Offset_Str (str ''hello''))) < 10
      then Some (note_text sn [[Packed_Str (str ''t''), Offset_Str (str ''a\"b'')]] (Offset_Str (str ''hello'')) @ [0]) else None)"
    by (rule note_json_written[OF n(1,2)]) (simp add: ids_even_def)
  moreover have "\<not> length (note_text sn tags c) < 10" for tags c by (simp add: note_text_def str_def)
  ultimately show ?thesis using n(4) by auto
qed

theorem id_hashes_serialisation_witness:
  "\<exists>sn text. ndb_calculate_id (\<lambda>bs. take 3 bs) sn 1000 = Some (if length text \<le> 1000 then Some (take 3 text) else None) \<and>
     (\<exists>pk. text = str ''[0,\"'' @ pk @ str ''\",1700000000,1,[[\"t\",\"a'' @ [92, 34] @ str ''b\"]],\"hello\"]'')"
proof -
  obtain sn where n: "note_tags sn = Some [[Packed_Str (str ''t''), Offset_Str (str ''a\"b'')]]" "ndb_note_content sn = Some (Offset_Str (str ''hello''))"
    "nh_created_at (sn_header sn) = 1700000000" "nh_kind (sn_header sn) = 1" by (rule example_note)
  let ?t = "nip01_text sn [[Packed_Str (str ''t''), Offset_Str (str ''a\"b'')]] (Offset_Str (str ''hello''))"
  have "ndb_calculate_id (\<lambda>bs. take 3 bs) sn 1000 = Some (if length ?t \<le> 1000 then Some (take 3 ?t) else None)"
    by (rule id_hashes_serialisation[OF n(1,2)]) (simp_all add: ids_even_def n(3,4))
  moreover have "?t = str ''[0,\"'' @ hex_text (nh_pubkey (sn_header sn)) @ str ''\",1700000000,1,[[\"t\",\"a'' @ [92, 34] @ str ''b\"]],\"hello\"]''"
    by (simp add: nip01_text_def n(3,4) decimal.simps json_tags_def json_tag_def json_elem_def json_str_def esc_def esc_char_def str_bytes_def str_def)
  ultimately show ?thesis by blast
qed

text \<open>
  \<open>ndb_filter_json\<close> cuts numbers to 15 digits: they are printed into a buffer of 16 bytes, and a filter with a time
  in microseconds is written with a tenth of it.
\<close>

theorem filter_json_cuts_numbers:
  "\<exists>f0 f1 f. ndb_filter_init True = Some f0 \<and> build_fields f0 [(NDB_FILTER_UNTIL, 0, [El_integer 1700000000123456])] = Some (True, f1) \<and>
     ndb_filter_end f1 = Some (True, f) \<and> ndb_filter_get_int f NDB_FILTER_UNTIL = Some (Some 1700000000123456) \<and>
     ndb_filter_json f 100 = Some (Some (str ''{\"until\":170000000012345}'' @ [0]))"
proof -
  let ?fa = "\<lparr>f_fields = [], f_current = No_Field, f_alloc = True, f_elem_used = 0, f_elem_cap = 65536, f_data = [], f_data_cap = 196608, f_finalized = False\<rparr>"
  let ?els = "\<lparr>fe_type = NDB_FILTER_UNTIL, fe_elem_type = NDB_ELEMENT_INT, fe_tag = 0, fe_elements = [1700000000123456]\<rparr>"
  let ?fb = "?fa\<lparr>f_fields := [?els], f_elem_used := 24\<rparr>"
  let ?fc = "?fb\<lparr>f_elem_cap := 24, f_data_cap := 0, f_finalized := True\<rparr>"
  have "ndb_filter_init True = Some ?fa" by (simp add: ndb_filter_init_def ndb_filter_init_with_def Let_def)
  moreover have "build_fields ?fa [(NDB_FILTER_UNTIL, 0, [El_integer 1700000000123456])] = Some (True, ?fb)"
    by (simp add: ndb_filter_start_field_impl_def ndb_filter_add_int_element_def add_typed_element_def
        ndb_filter_set_elem_type_def ndb_filter_add_element_def Let_def ndb_filter_end_field_def)
  moreover have "ndb_filter_end ?fb = Some (True, ?fc)" by (simp add: ndb_filter_end_def Let_def)
  moreover have "ndb_filter_get_int ?fc NDB_FILTER_UNTIL = Some (Some 1700000000123456)" by (simp add: ndb_filter_get_int_def ndb_filter_find_elements_def)
  moreover have "ndb_filter_json ?fc 100 = Some (Some (str ''{\"until\":170000000012345}'' @ [0]))"
    by (simp add: ndb_filter_json_def push_json_field_def push_named_def push_json_int_def cursor_push_int_str_def decimal.simps region_push_def str_def)
  ultimately show ?thesis by blast
qed

text \<open>A custom field writes nothing but its comma.\<close>

lemma custom_field_leaves_comma:
  "ndb_filter_json \<lparr>f_fields = [\<lparr>fe_type = NDB_FILTER_LIMIT, fe_elem_type = NDB_ELEMENT_INT, fe_tag = 0, fe_elements = [5]\<rparr>,
       \<lparr>fe_type = NDB_FILTER_CUSTOM, fe_elem_type = NDB_ELEMENT_CUSTOM, fe_tag = 0, fe_elements = [0]\<rparr>],
     f_current = No_Field, f_alloc = True, f_elem_used = 48, f_elem_cap = 48, f_data = replicate 16 0, f_data_cap = 16, f_finalized = True\<rparr> 100 =
   Some (Some (str ''{\"limit\":5,}'' @ [0]))"
  by (simp add: ndb_filter_json_def push_json_field_def push_named_def push_json_int_def cursor_push_int_str_def decimal.simps region_push_def str_def)

end
