(* ===== verification/Json_Parse.thy ===== *)
theory Json_Parse
  imports Note_Json
begin

text \<open>
  Reading JSON, in \<open>src/src/nostrdb.c\<close>: notes, filters and the messages of relays and clients, from the
  tokens of the tokenizer.

  The tokenizer is not modelled: its tokens are given, each with its type, its place in the text and
  the number of its children. A token past the last one is memory that was not written, and reading it is
  undefined.
\<close>

section \<open>Tokens\<close>

datatype jsmntype = JSMN_UNDEFINED | JSMN_OBJECT | JSMN_ARRAY | JSMN_STRING | JSMN_PRIMITIVE

record jsmntok =
  tk_type :: jsmntype
  tk_start :: nat
  tk_end :: nat
  tk_size :: nat

record ndb_json_parser =
  jp_json :: "u8 list"
  jp_builder :: ndb_builder
  jp_toks :: "jsmntok list"
  jp_i :: nat

definition tok_at :: "jsmntok list \<Rightarrow> nat \<Rightarrow> jsmntok option" where
  "tok_at toks i = (if i < length toks then Some (toks ! i) else None)"

definition tok_text :: "u8 list \<Rightarrow> jsmntok \<Rightarrow> u8 list" where
  "tok_text json tok = take (tk_end tok - tk_start tok) (drop (tk_start tok) json)"

definition jsoneq :: "u8 list \<Rightarrow> jsmntok \<Rightarrow> u8 list \<Rightarrow> bool" where
  "jsoneq json tok s \<longleftrightarrow> tk_type tok = JSMN_STRING \<and> tok_text json tok = s"

text \<open>The digits at the start of a text.\<close>

fun parse_digits :: "u8 list \<Rightarrow> nat \<Rightarrow> nat \<Rightarrow> (nat \<times> nat) option" where
  "parse_digits [] number digits = Some (number, digits)"
| "parse_digits (c # s) number digits =
     (if c < 48 \<or> c > 57 then Some (number, digits)
      else
        let digit = unat (c - 48) in
        if number > (2 ^ 32 - 1 - digit) div 10 then None
        else parse_digits s (number * 10 + digit) (digits + 1))"

definition parse_unsigned_int :: "u8 list \<Rightarrow> u32 option" where
  "parse_unsigned_int s =
     (case parse_digits s 0 0 of
        None \<Rightarrow> None
      | Some (number, digits) \<Rightarrow> if digits = 0 then None else Some (word_of_nat number))"

section \<open>Notes\<close>

fun push_json_tags :: "ndb_builder \<Rightarrow> u8 list \<Rightarrow> jsmntok list \<Rightarrow> nat \<Rightarrow> nat \<Rightarrow> (bool \<times> ndb_builder) option" where
  "push_json_tags b json toks i 0 = Some (True, b)"
| "push_json_tags b json toks i (Suc n) = do {
     tok \<leftarrow> tok_at toks i;
     (r, b) \<leftarrow> ndb_builder_push_json_tag b (tok_text json tok);
     if \<not> r then Some (False, b) else push_json_tags b json toks (i + 1) n }"

definition ndb_builder_tag_from_json_array :: "ndb_builder \<Rightarrow> u8 list \<Rightarrow> jsmntok list \<Rightarrow> nat \<Rightarrow> (bool \<times> ndb_builder) option" where
  "ndb_builder_tag_from_json_array b json toks array = do {
     tok \<leftarrow> tok_at toks array;
     if tk_size tok = 0 then Some (False, b)
     else
       let (r, b) = ndb_builder_new_tag b in
       if \<not> r then Some (False, b) else push_json_tags b json toks (array + 1) (tk_size tok) }"

fun process_tags_loop :: "ndb_builder \<Rightarrow> u8 list \<Rightarrow> jsmntok list \<Rightarrow> nat \<Rightarrow> nat \<Rightarrow> (bool \<times> ndb_builder) option" where
  "process_tags_loop b json toks tag 0 = Some (True, b)"
| "process_tags_loop b json toks tag (Suc n) = do {
     (r, b) \<leftarrow> ndb_builder_tag_from_json_array b json toks (tag + 1);
     if \<not> r then Some (False, b)
     else do { tok \<leftarrow> tok_at toks (tag + 1); process_tags_loop b json toks (tag + 1 + tk_size tok) n } }"

definition ndb_builder_process_json_tags :: "ndb_builder \<Rightarrow> u8 list \<Rightarrow> jsmntok list \<Rightarrow> nat \<Rightarrow> (bool \<times> ndb_builder) option" where
  "ndb_builder_process_json_tags b json toks array = do {
     tok \<leftarrow> tok_at toks array;
     if tk_size tok = 0 then Some (True, b) else process_tags_loop b json toks array (tk_size tok) }"


definition NDB_PARSED_ID :: u32 where "NDB_PARSED_ID = 1"
definition NDB_PARSED_PUBKEY :: u32 where "NDB_PARSED_PUBKEY = 2"
definition NDB_PARSED_SIG :: u32 where "NDB_PARSED_SIG = 4"
definition NDB_PARSED_CREATED_AT :: u32 where "NDB_PARSED_CREATED_AT = 8"
definition NDB_PARSED_KIND :: u32 where "NDB_PARSED_KIND = 16"
definition NDB_PARSED_CONTENT :: u32 where "NDB_PARSED_CONTENT = 32"
definition NDB_PARSED_TAGS :: u32 where "NDB_PARSED_TAGS = 64"
definition NDB_PARSED_ALL :: u32 where "NDB_PARSED_ALL = 127"

text \<open>The state of the loop: the buffer for decoded text, which keeps what it held, the parsed fields and the builder.\<close>

record note_parse =
  np_hexbuf :: "u8 list"
  np_parsed :: u32
  np_builder :: ndb_builder

text \<open>Decoding is not checked: what was not written stays.\<close>

definition decode_into :: "u8 list \<Rightarrow> u8 list \<Rightarrow> u8 list" where
  "decode_into text hexbuf = (let out = snd (hex_decode text (length hexbuf)) in out @ drop (length out) hexbuf)"

text \<open>The value behind a key that was recognised: the flag is false when the parser gives up.\<close>

definition note_value :: "u8 list \<Rightarrow> jsmntok list \<Rightarrow> jsmntok \<Rightarrow> nat \<Rightarrow> note_parse \<Rightarrow> (bool \<times> nat \<times> note_parse) option" where
  "note_value json toks tok i np =
     (let key = tok_text json tok; c = key ! 0; value = toks ! (i + 1); text = tok_text json value; buf = decode_into text (np_hexbuf np) in
      if c = 112 \<and> jsoneq json tok (str ''pubkey'') then
        Some (True, i, np\<lparr>np_hexbuf := buf, np_parsed := np_parsed np OR NDB_PARSED_PUBKEY, np_builder := ndb_builder_set_pubkey (np_builder np) buf\<rparr>)
      else if key = str ''id'' then
        Some (True, i, np\<lparr>np_hexbuf := buf, np_parsed := np_parsed np OR NDB_PARSED_ID, np_builder := ndb_builder_set_id (np_builder np) buf\<rparr>)
      else if key = str ''sig'' then
        Some (True, i, np\<lparr>np_hexbuf := buf, np_parsed := np_parsed np OR NDB_PARSED_SIG, np_builder := ndb_builder_set_sig (np_builder np) buf\<rparr>)
      else if c = 107 \<and> jsoneq json tok (str ''kind'') then
        (if tk_type value \<noteq> JSMN_PRIMITIVE then Some (False, i, np)
         else case parse_unsigned_int text of
           None \<Rightarrow> Some (False, i, np)
         | Some n \<Rightarrow> Some (True, i, np\<lparr>np_parsed := np_parsed np OR NDB_PARSED_KIND, np_builder := ndb_builder_set_kind (np_builder np) n\<rparr>))
      else if c = 99 \<and> jsoneq json tok (str ''created_at'') then
        (if tk_type value \<noteq> JSMN_PRIMITIVE then Some (False, i, np)
         else case parse_unsigned_int text of
           None \<Rightarrow> Some (False, i, np)
         | Some n \<Rightarrow> Some (True, i, np\<lparr>np_parsed := np_parsed np OR NDB_PARSED_CREATED_AT, np_builder := ndb_builder_set_created_at (np_builder np) (ucast n)\<rparr>))
      else if c = 99 \<and> jsoneq json tok (str ''content'') then
        (case ndb_builder_make_json_str (np_builder np) text False of
           (None, _, b) \<Rightarrow> Some (False, i, np\<lparr>np_builder := b\<rparr>)
         | (Some p, written, b) \<Rightarrow>
             Some (True, i, np\<lparr>np_parsed := np_parsed np OR NDB_PARSED_CONTENT,
               np_builder := b\<lparr>b_note := (b_note b)\<lparr>nh_content_length := word_of_nat written, nh_content := p\<rparr>\<rparr>\<rparr>))
      else if c = 116 \<and> jsoneq json tok (str ''tags'') then do {
        (_, b) \<leftarrow> ndb_builder_process_json_tags (np_builder np) json toks (i + 1);
        Some (True, i + tk_size value, np\<lparr>np_parsed := np_parsed np OR NDB_PARSED_TAGS, np_builder := b\<rparr>) }
      else Some (True, i, np))"

text \<open>Every token is looked at, the values of the fields too.\<close>

function note_loop :: "u8 list \<Rightarrow> jsmntok list \<Rightarrow> nat \<Rightarrow> note_parse \<Rightarrow> (bool \<times> note_parse) option" where
  "note_loop json toks i np =
     (if i < length toks then
        (let tok = toks ! i in
         if tok_text json tok = [] \<or> i + 1 \<ge> length toks then note_loop json toks (i + 1) np
         else case note_value json toks tok i np of
           None \<Rightarrow> None
         | Some (r, j, np) \<Rightarrow> if \<not> r then Some (False, np) else note_loop json toks (max i j + 1) np)
      else Some (True, np))"
  by pat_completeness auto
termination
  by (relation "measure (\<lambda>(json, toks, i, np). length toks - i)") auto

declare note_loop.simps [simp del]

definition ndb_parse_json_note_custom :: "u8 list \<Rightarrow> ndb_json_parser \<Rightarrow> u32 \<Rightarrow> (stored_note \<times> nat) option option" where
  "ndb_parse_json_note_custom hexbuf parser parse_cond = do {
     tok \<leftarrow> tok_at (jp_toks parser) (jp_i parser);
     if tk_type tok \<noteq> JSMN_OBJECT then Some None
     else do {
       (r, np) \<leftarrow> note_loop (jp_json parser) (jp_toks parser) (jp_i parser + 1) \<lparr>np_hexbuf = hexbuf, np_parsed = 0, np_builder = jp_builder parser\<rparr>;
       if \<not> r then Some None
       else if np_parsed np AND parse_cond \<noteq> parse_cond then Some None
       else ndb_builder_finalize (\<lambda>_ _. Some None) (\<lambda>_ _. None) (np_builder np) None } }"

definition ndb_parse_json_note :: "u8 list \<Rightarrow> ndb_json_parser \<Rightarrow> (stored_note \<times> nat) option option" where
  "ndb_parse_json_note hexbuf parser = ndb_parse_json_note_custom hexbuf parser NDB_PARSED_ALL"

section \<open>Messages\<close>

text \<open>A message to the client: its type, the subscription, and the note or the result of a command.\<close>

datatype ndb_tce =
    Tce_Event "u8 list" stored_note nat
  | Tce_Ok "u8 list" bool "u8 list"
  | Tce_Eose "u8 list"
  | Tce_Auth "u8 list"

definition ndb_client_event_from_json :: "u8 list \<Rightarrow> ndb_json_parser \<Rightarrow> (stored_note \<times> nat) option option" where
  "ndb_client_event_from_json hexbuf parser = do {
     t0 \<leftarrow> tok_at (jp_toks parser) 0;
     if tk_type t0 = JSMN_OBJECT then ndb_parse_json_note hexbuf (parser\<lparr>jp_i := 0\<rparr>)
     else if length (jp_toks parser) \<le> 3 \<or> tk_type t0 \<noteq> JSMN_ARRAY then Some None
     else do {
       t1 \<leftarrow> tok_at (jp_toks parser) 1;
       if tk_type t1 \<noteq> JSMN_STRING then Some None
       else if tok_text (jp_json parser) t1 = str ''EVENT'' then ndb_parse_json_note hexbuf (parser\<lparr>jp_i := 2\<rparr>)
       else Some None } }"

definition ndb_ws_event_from_json :: "u8 list \<Rightarrow> ndb_json_parser \<Rightarrow> ndb_tce option option" where
  "ndb_ws_event_from_json hexbuf parser =
     (let toks = jp_toks parser; text = tok_text (jp_json parser);
          event = (\<lambda>subid i. map_option (map_option (\<lambda>(note, sz). Tce_Event subid note sz)) (ndb_parse_json_note hexbuf (parser\<lparr>jp_i := i\<rparr>)))
      in do {
       t0 \<leftarrow> tok_at toks 0;
       if tk_type t0 = JSMN_OBJECT then event [] 0
       else if length toks < 3 \<or> tk_type t0 \<noteq> JSMN_ARRAY then Some None
       else do {
         t1 \<leftarrow> tok_at toks 1;
         t2 \<leftarrow> tok_at toks 2;
         if tk_type t1 \<noteq> JSMN_STRING then Some None
         else if text t1 = str ''EVENT'' then
           (if tk_type t2 \<noteq> JSMN_STRING then Some None else event (text t2) 3)
         else if text t1 = str ''EOSE'' then
           Some (if tk_type t2 \<noteq> JSMN_STRING then None else Some (Tce_Eose (text t2)))
         else if text t1 = str ''OK'' then
           (if length toks \<noteq> 5 then Some None
            else if tk_type t2 \<noteq> JSMN_STRING then Some None
            else if tk_type (toks ! 3) \<noteq> JSMN_PRIMITIVE \<or> text (toks ! 3) = [] then Some None
            else if tk_type (toks ! 4) \<noteq> JSMN_STRING then Some None
            else Some (Some (Tce_Ok (text t2) (text (toks ! 3) ! 0 = 116) (text (toks ! 4)))))
         else if text t1 = str ''AUTH'' then
           Some (if tk_type t2 \<noteq> JSMN_STRING then None else Some (Tce_Auth (text t2)))
         else Some None } })"

section \<open>Filters\<close>

text \<open>The field of a key, with the letter of a tag; \<open>None\<close> is an unknown one. A tag letter of zero starts no tag field.\<close>

definition ndb_filter_parse_field :: "u8 list \<Rightarrow> (ndb_filter_fieldtype \<times> u8) option" where
  "ndb_filter_parse_field tok =
     (if tok = [] then None
      else if tok = str ''authors'' then Some (NDB_FILTER_AUTHORS, 0)
      else if tok = str ''ids'' then Some (NDB_FILTER_IDS, 0)
      else if tok = str ''kinds'' then Some (NDB_FILTER_KINDS, 0)
      else if length tok = 2 \<and> tok ! 0 = 35 then Some (NDB_FILTER_TAGS, tok ! 1)
      else if tok = str ''since'' then Some (NDB_FILTER_SINCE, 0)
      else if tok = str ''until'' then Some (NDB_FILTER_UNTIL, 0)
      else if tok = str ''limit'' then Some (NDB_FILTER_LIMIT, 0)
      else if tok = str ''search'' then Some (NDB_FILTER_SEARCH, 0)
      else None)"

fun parse_ids_loop :: "u8 list \<Rightarrow> jsmntok list \<Rightarrow> nat \<Rightarrow> nat \<Rightarrow> ndb_filter \<Rightarrow> (bool \<times> nat \<times> ndb_filter) option" where
  "parse_ids_loop json toks i 0 f = Some (True, i, f)"
| "parse_ids_loop json toks i (Suc n) f = do {
     tok \<leftarrow> tok_at toks i;
     let text = tok_text json tok;
     if tk_type tok \<noteq> JSMN_STRING then Some (False, i, f)
     else if length text \<noteq> 64 then Some (False, i, f)
     else case hex_decode text 32 of
       (False, _) \<Rightarrow> Some (False, i, f)
     | (True, hexbuf) \<Rightarrow> do {
         (r, f) \<leftarrow> ndb_filter_add_id_element f hexbuf;
         if \<not> r then Some (False, i, f) else parse_ids_loop json toks (i + 1) n f } }"

text \<open>The arrays are entered at their token, and left at their last element.\<close>

definition ndb_filter_parse_json_ids :: "u8 list \<Rightarrow> jsmntok list \<Rightarrow> nat \<Rightarrow> ndb_filter \<Rightarrow> (bool \<times> nat \<times> ndb_filter) option" where
  "ndb_filter_parse_json_ids json toks i f = do {
     tok \<leftarrow> tok_at toks i;
     if tk_type tok \<noteq> JSMN_ARRAY then Some (False, i + 1, f)
     else map_option (\<lambda>(r, i, f). (r, if r then i - 1 else i, f)) (parse_ids_loop json toks (i + 1) (tk_size tok) f) }"

text \<open>The first element decides whether the elements are ids; the later ones are decoded from 64 characters of the text wherever they end.\<close>

fun parse_elems_loop :: "u8 list \<Rightarrow> jsmntok list \<Rightarrow> nat \<Rightarrow> nat \<Rightarrow> ndb_generic_element_type option \<Rightarrow> ndb_filter \<Rightarrow> (bool \<times> nat \<times> ndb_filter) option" where
  "parse_elems_loop json toks i 0 typ f = Some (True, i, f)"
| "parse_elems_loop json toks i (Suc n) typ f = do {
     tok \<leftarrow> tok_at toks i;
     let text = tok_text json tok;
     let text64 = take 64 (drop (tk_start tok) json);
     if tk_type tok \<noteq> JSMN_STRING then Some (False, i, f)
     else do {
       (typ, r, f) \<leftarrow>
         (case typ of
            None \<Rightarrow>
              if length text = 64 \<and> fst (hex_decode text 32)
              then map_option (Pair NDB_ELEMENT_ID) (ndb_filter_add_id_element f (snd (hex_decode text 32)))
              else map_option (Pair NDB_ELEMENT_STRING) (ndb_filter_add_str_element_len f text)
          | Some NDB_ELEMENT_ID \<Rightarrow>
              if \<not> fst (hex_decode text64 32) then Some (NDB_ELEMENT_ID, False, f)
              else map_option (Pair NDB_ELEMENT_ID) (ndb_filter_add_id_element f (snd (hex_decode text64 32)))
          | Some typ \<Rightarrow> map_option (Pair typ) (ndb_filter_add_str_element_len f text));
       if \<not> r then Some (False, i, f) else parse_elems_loop json toks (i + 1) n (Some typ) f } }"

definition ndb_filter_parse_json_elems :: "u8 list \<Rightarrow> jsmntok list \<Rightarrow> nat \<Rightarrow> ndb_filter \<Rightarrow> (bool \<times> nat \<times> ndb_filter) option" where
  "ndb_filter_parse_json_elems json toks i f = do {
     tok \<leftarrow> tok_at toks i;
     if tk_type tok \<noteq> JSMN_ARRAY then Some (False, i + 1, f)
     else map_option (\<lambda>(r, i, f). (r, if r then i - 1 else i, f)) (parse_elems_loop json toks (i + 1) (tk_size tok) None f) }"

definition ndb_filter_parse_json_str :: "u8 list \<Rightarrow> jsmntok list \<Rightarrow> nat \<Rightarrow> ndb_filter \<Rightarrow> (bool \<times> nat \<times> ndb_filter) option" where
  "ndb_filter_parse_json_str json toks i f = do {
     tok \<leftarrow> tok_at toks i;
     if tk_type tok \<noteq> JSMN_STRING then Some (False, i, f)
     else map_option (\<lambda>(r, f). (r, i, f)) (ndb_filter_add_str_element_len f (tok_text json tok)) }"

definition ndb_filter_parse_json_int :: "u8 list \<Rightarrow> jsmntok list \<Rightarrow> nat \<Rightarrow> ndb_filter \<Rightarrow> (bool \<times> nat \<times> ndb_filter) option" where
  "ndb_filter_parse_json_int json toks i f = do {
     tok \<leftarrow> tok_at toks i;
     if tk_type tok \<noteq> JSMN_PRIMITIVE then Some (False, i, f)
     else case parse_unsigned_int (tok_text json tok) of
       None \<Rightarrow> Some (False, i, f)
     | Some n \<Rightarrow> map_option (\<lambda>(r, f). (r, i, f)) (ndb_filter_add_int_element f (ucast n)) }"

fun parse_ints_loop :: "u8 list \<Rightarrow> jsmntok list \<Rightarrow> nat \<Rightarrow> nat \<Rightarrow> ndb_filter \<Rightarrow> (bool \<times> nat \<times> ndb_filter) option" where
  "parse_ints_loop json toks i 0 f = Some (True, i, f)"
| "parse_ints_loop json toks i (Suc n) f = do {
     (r, i, f) \<leftarrow> ndb_filter_parse_json_int json toks i f;
     if \<not> r then Some (False, i, f) else parse_ints_loop json toks (i + 1) n f }"

definition ndb_filter_parse_json_ints :: "u8 list \<Rightarrow> jsmntok list \<Rightarrow> nat \<Rightarrow> ndb_filter \<Rightarrow> (bool \<times> nat \<times> ndb_filter) option" where
  "ndb_filter_parse_json_ints json toks i f = do {
     tok \<leftarrow> tok_at toks i;
     if tk_type tok \<noteq> JSMN_ARRAY then Some (False, i + 1, f)
     else map_option (\<lambda>(r, i, f). (r, if r then i - 1 else i, f)) (parse_ints_loop json toks (i + 1) (tk_size tok) f) }"

text \<open>The value of a field.\<close>

definition parse_filter_value :: "ndb_filter_fieldtype \<Rightarrow> u8 list \<Rightarrow> jsmntok list \<Rightarrow> nat \<Rightarrow> ndb_filter \<Rightarrow> (bool \<times> nat \<times> ndb_filter) option" where
  "parse_filter_value field json toks i f =
     (case field of
        NDB_FILTER_CUSTOM \<Rightarrow> Some (True, i, f)
      | NDB_FILTER_AUTHORS \<Rightarrow> ndb_filter_parse_json_ids json toks i f
      | NDB_FILTER_IDS \<Rightarrow> ndb_filter_parse_json_ids json toks i f
      | NDB_FILTER_SEARCH \<Rightarrow> ndb_filter_parse_json_str json toks i f
      | NDB_FILTER_SINCE \<Rightarrow> ndb_filter_parse_json_int json toks i f
      | NDB_FILTER_UNTIL \<Rightarrow> ndb_filter_parse_json_int json toks i f
      | NDB_FILTER_LIMIT \<Rightarrow> ndb_filter_parse_json_int json toks i f
      | NDB_FILTER_KINDS \<Rightarrow> ndb_filter_parse_json_ints json toks i f
      | NDB_FILTER_RELAYS \<Rightarrow> ndb_filter_parse_json_elems json toks i f
      | NDB_FILTER_TAGS \<Rightarrow> ndb_filter_parse_json_elems json toks i f)"

text \<open>Behind an unknown key one token is skipped.\<close>

function filter_loop :: "u8 list \<Rightarrow> jsmntok list \<Rightarrow> nat \<Rightarrow> ndb_filter \<Rightarrow> (bool \<times> ndb_filter) option" where
  "filter_loop json toks i f =
     (if i < length toks then
        (case ndb_filter_parse_field (tok_text json (toks ! i)) of
           None \<Rightarrow> filter_loop json toks (i + 2) f
         | Some (field, tag) \<Rightarrow>
             (case (if tag \<noteq> 0 then ndb_filter_start_tag_field f tag else ndb_filter_start_field f field) of
                None \<Rightarrow> None
              | Some (r, f) \<Rightarrow>
                  if \<not> r then Some (False, f)
                  else (case parse_filter_value field json toks (i + 1) f of
                    None \<Rightarrow> None
                  | Some (r, j, f) \<Rightarrow>
                      if \<not> r then Some (False, f)
                      else (case ndb_filter_end_field f of None \<Rightarrow> None | Some f \<Rightarrow> filter_loop json toks (max i j + 1) f))))
      else Some (True, f))"
  by pat_completeness auto
termination
  by (relation "measure (\<lambda>(json, toks, i, f). length toks - i)") auto

declare filter_loop.simps [simp del]

definition ndb_filter_parse_json :: "u8 list \<Rightarrow> jsmntok list \<Rightarrow> ndb_filter \<Rightarrow> (bool \<times> ndb_filter) option" where
  "ndb_filter_parse_json json toks f = do {
     t0 \<leftarrow> tok_at toks 0;
     if tk_type t0 \<noteq> JSMN_OBJECT then Some (False, f)
     else do { (r, f) \<leftarrow> filter_loop json toks 1 f; if \<not> r then Some (False, f) else ndb_filter_end f } }"

definition ndb_filter_from_json :: "u8 list \<Rightarrow> jsmntok list \<Rightarrow> ndb_filter \<Rightarrow> (bool \<times> ndb_filter) option" where
  "ndb_filter_from_json json toks f =
     (if f_finalized f then Some (False, f)
      else if length toks < 1 then Some (False, f)
      else ndb_filter_parse_json json toks f)"

section \<open>Numbers\<close>

lemma parse_digits_append:
  "\<forall>c\<in>set xs. 48 \<le> c \<and> c \<le> 57 \<Longrightarrow>
   parse_digits (xs @ ys) number digits = (case parse_digits xs number digits of None \<Rightarrow> None | Some (number, digits) \<Rightarrow> parse_digits ys number digits)"
  by (induction xs number digits rule: parse_digits.induct) (auto simp: Let_def not_less)

lemma digit_char: "d < 10 \<Longrightarrow> unat (word_of_nat (48 + d) - 48 :: u8) = d \<and> 48 \<le> (word_of_nat (48 + d) :: u8) \<and> (word_of_nat (48 + d) :: u8) \<le> 57"
proof -
  assume d: "d < 10"
  then have "d \<in> {0, 1, 2, 3, 4, 5, 6, 7, 8, 9}" by auto
  then show ?thesis by (elim insertE emptyE) simp_all
qed

lemma decimal_digits: "\<forall>c\<in>set (decimal n). 48 \<le> c \<and> c \<le> 57"
proof (induction n rule: decimal.induct)
  case (1 n)
  have "n mod 10 < 10" by simp
  then show ?case using 1 digit_char by (subst decimal.simps) auto
qed

lemma parse_digit: "d < 10 \<Longrightarrow> parse_digits [word_of_nat (48 + d)] number k = (if number * 10 + d < 2 ^ 32 then Some (number * 10 + d, k + 1) else None)"
  using digit_char[of d] by (simp add: Let_def not_less del: of_nat_add) linarith

lemma decimal_small: "n < 10 \<Longrightarrow> decimal n = [word_of_nat (48 + n)]"
  by (subst decimal.simps) (simp del: of_nat_add)

lemma decimal_large: "\<not> n < 10 \<Longrightarrow> decimal n = decimal (n div 10) @ [word_of_nat (48 + n mod 10)]"
  by (subst decimal.simps) (simp del: of_nat_add)

lemma parse_decimal_digits: "parse_digits (decimal n) 0 0 = (if n < 2 ^ 32 then Some (n, length (decimal n)) else None)"
proof (induction n rule: decimal.induct)
  case (1 n)
  show ?case
  proof (cases "n < 10")
    case True
    then show ?thesis using parse_digit[OF True, of 0 0] by (simp add: decimal_small del: of_nat_add)
  next
    case False
    have m: "n div 10 * 10 + n mod 10 = n" by simp
    have "parse_digits (decimal n) 0 0 =
        (case (if n div 10 < 2 ^ 32 then Some (n div 10, length (decimal (n div 10))) else None) of None \<Rightarrow> None | Some (number, digits) \<Rightarrow> parse_digits [word_of_nat (48 + n mod 10)] number digits)"
      unfolding decimal_large[OF False] parse_digits_append[OF decimal_digits] 1[OF False] ..
    also have "\<dots> = (if n < 2 ^ 32 then Some (n, length (decimal n)) else None)"
      using parse_digit[of "n mod 10" "n div 10" "length (decimal (n div 10))"] m by (auto simp: decimal_large[OF False] simp del: of_nat_add)
    finally show ?thesis .
  qed
qed

lemma decimal_nonempty: "decimal n \<noteq> []"
  by (subst decimal.simps) simp

text \<open>
  C19 Numbers are read as they are written, and one that does not fit 32 bits is refused rather than wrapped.
\<close>

theorem parse_unsigned_int_decimal:
  "parse_unsigned_int (decimal n) = (if n < 2 ^ 32 then Some (word_of_nat n) else None)"
  using decimal_nonempty[of n] by (simp add: parse_unsigned_int_def parse_decimal_digits)

section \<open>Filters with unknown fields\<close>

definition relays_json :: "u8 list" where
  "relays_json = str ''{\"relays\":[\"wss://a\"],\"kinds\":[1]}''"

text \<open>Its tokens: the object, the key and its array, the key and its array.\<close>

definition relays_toks :: "jsmntok list" where
  "relays_toks = map (\<lambda>(t, s, e, n). \<lparr>tk_type = t, tk_start = s, tk_end = e, tk_size = n\<rparr>)
     [(JSMN_OBJECT, 0, 34, 2), (JSMN_STRING, 2, 8, 1), (JSMN_ARRAY, 10, 21, 1), (JSMN_STRING, 12, 19, 0),
      (JSMN_STRING, 23, 28, 1), (JSMN_ARRAY, 30, 33, 1), (JSMN_PRIMITIVE, 31, 32, 0)]"

text \<open>
  C23 A filter with relays does not survive its own JSON. \<open>ndb_filter_json\<close> writes a field of relays, which
  the parser does not know; behind an unknown key it skips one token, not the whole value, so that the keys and values get
  out of step: the filter for kind 1 on one relay is read as a filter without any field, which every note matches.
\<close>

theorem relay_filter_read_as_empty:
  "\<exists>f0 f1 f g. ndb_filter_init True = Some f0 \<and>
     build_fields f0 [(NDB_FILTER_RELAYS, 0, [El_string (str ''wss://a'')]), (NDB_FILTER_KINDS, 0, [El_integer 1])] = Some (True, f1) \<and>
     ndb_filter_end f1 = Some (True, f) \<and> ndb_filter_json f 100 = Some (Some (relays_json @ [0])) \<and>
     map (tok_text relays_json) (tl relays_toks) = [str ''relays'', str ''[\"wss://a\"]'', str ''wss://a'', str ''kinds'', str ''[1]'', str ''1''] \<and>
     ndb_filter_from_json relays_json relays_toks f0 = Some (True, g) \<and> f_fields g = [] \<and> ndb_filter_matches cb g note = Some True"
proof -
  let ?fa = "\<lparr>f_fields = [], f_current = No_Field, f_alloc = True, f_elem_used = 0, f_elem_cap = 65536, f_data = [], f_data_cap = 196608, f_finalized = False\<rparr>"
  let ?rel = "\<lparr>fe_type = NDB_FILTER_RELAYS, fe_elem_type = NDB_ELEMENT_STRING, fe_tag = 0, fe_elements = [0]\<rparr>"
  let ?kinds = "\<lparr>fe_type = NDB_FILTER_KINDS, fe_elem_type = NDB_ELEMENT_INT, fe_tag = 0, fe_elements = [1]\<rparr>"
  let ?fb = "?fa\<lparr>f_fields := [?rel, ?kinds], f_elem_used := 48, f_data := [119, 115, 115, 58, 47, 47, 97, 0]\<rparr>"
  let ?fc = "?fb\<lparr>f_elem_cap := 48, f_data_cap := 8, f_finalized := True\<rparr>"
  let ?g = "?fa\<lparr>f_elem_cap := 0, f_alloc := False, f_data_cap := 0, f_finalized := True\<rparr>"
  have "ndb_filter_init True = Some ?fa" by (simp add: ndb_filter_init_def ndb_filter_init_with_def Let_def)
  moreover have "build_fields ?fa [(NDB_FILTER_RELAYS, 0, [El_string (str ''wss://a'')]), (NDB_FILTER_KINDS, 0, [El_integer 1])] = Some (True, ?fb)"
    by (simp add: ndb_filter_start_field_impl_def ndb_filter_add_int_element_def ndb_filter_add_str_element_def ndb_filter_add_str_element_len_def add_typed_element_def
        ndb_filter_set_elem_type_def ndb_filter_add_element_def data_push_str_def data_push_def Let_def ndb_filter_end_field_def sort_filter_elements_def
        ndb_filter_elem_is_ptr_def qsort_def str_def)
  moreover have "ndb_filter_end ?fb = Some (True, ?fc)" by (simp add: ndb_filter_end_def Let_def str_def)
  moreover have "ndb_filter_json ?fc 100 = Some (Some (relays_json @ [0]))"
  proof -
    have r: "read_str ?fc 0 = Some [119, 115, 115, 58, 47, 47, 97]" by (simp add: read_str_def ndb_filter_elements_data_def)
    show ?thesis
      by (simp add: ndb_filter_json_def push_json_field_def push_named_def cursor_push_json_elem_array_def push_json_elem_def r[simplified]
          cursor_push_jsonstr_def cursor_push_escaped_char_def cursor_push_int_str_def decimal_small region_push_def relays_json_def str_def)
  qed
  moreover have texts: "map (tok_text relays_json) (tl relays_toks) = [str ''relays'', str ''[\"wss://a\"]'', str ''wss://a'', str ''kinds'', str ''[1]'', str ''1'']"
    by (simp add: relays_toks_def relays_json_def tok_text_def str_def)
  moreover have "ndb_filter_from_json relays_json relays_toks ?fa = Some (True, ?g)"
  proof -
    have t: "tok_text relays_json (relays_toks ! 1) = str ''relays''" "tok_text relays_json (relays_toks ! 3) = str ''wss://a''"
      "tok_text relays_json (relays_toks ! 5) = str ''[1]''" by (simp_all add: relays_toks_def relays_json_def tok_text_def str_def)
    have l: "length relays_toks = 7" by (simp add: relays_toks_def)
    have f: "ndb_filter_parse_field (str ''relays'') = None" "ndb_filter_parse_field (str ''wss://a'') = None" "ndb_filter_parse_field (str ''[1]'') = None"
      by (simp_all add: ndb_filter_parse_field_def str_def)
    have "filter_loop relays_json relays_toks 7 ?fa = Some (True, ?fa)" by (subst filter_loop.simps) (simp add: l)
    then have "filter_loop relays_json relays_toks 5 ?fa = Some (True, ?fa)" by (subst filter_loop.simps) (simp add: l t f)
    then have "filter_loop relays_json relays_toks 3 ?fa = Some (True, ?fa)" by (subst filter_loop.simps) (simp add: l t f)
    then have "filter_loop relays_json relays_toks 1 ?fa = Some (True, ?fa)" using t(1) by (subst filter_loop.simps) (simp add: l f numeral_3_eq_3)
    then show ?thesis
      by (simp add: ndb_filter_from_json_def ndb_filter_parse_json_def tok_at_def l ndb_filter_end_def Let_def) (simp add: relays_toks_def)
  qed
  moreover have "ndb_filter_matches cb ?g note = Some True" by (simp add: ndb_filter_matches_def ndb_filter_matches_with_def)
  ultimately show ?thesis
    by (intro exI[of _ ?fa] exI[of _ ?fb] exI[of _ ?fc] exI[of _ ?g]) simp
qed


section \<open>Notes\<close>

lemma note_loop_end: "i \<ge> length toks \<Longrightarrow> note_loop json toks i np = Some (True, np)"
  by (subst note_loop.simps) simp

lemma note_loop_last: "i + 1 = length toks \<Longrightarrow> note_loop json toks i np = Some (True, np)"
  by (subst note_loop.simps) (simp add: note_loop_end)

lemma note_loop_step:
  "i + 1 < length toks \<Longrightarrow> tok_text json (toks ! i) \<noteq> [] \<Longrightarrow> note_value json toks (toks ! i) i np = Some (True, j, np') \<Longrightarrow> i \<le> j \<Longrightarrow>
   note_loop json toks i np = note_loop json toks (j + 1) np'"
  by (subst note_loop.simps) (simp add: max_def)

lemma decode_into_key: "length key = 64 \<Longrightarrow> length hexbuf = 64 \<Longrightarrow> fst (hex_decode key 32) \<Longrightarrow>
  take 32 (decode_into key hexbuf) = snd (hex_decode key 32) \<and> length (decode_into key hexbuf) = 64"
proof -
  assume a: "length key = 64" "length hexbuf = 64" "fst (hex_decode key 32)"
  have more: "fst (hex_decode s n) \<Longrightarrow> snd (hex_decode s (n + k)) = snd (hex_decode s n)" for s n k
  proof (induction s n rule: hex_decode.induct)
    case (1 x y s n)
    obtain v w m where v: "char_to_hex x = Some v" "char_to_hex y = Some w" "n = Suc m" "fst (hex_decode s m)"
      using 1(2) by (cases n) (auto split: option.splits prod.splits)
    then show ?case using 1(1)[OF refl v(1,2)] by (simp add: split_def)
  qed simp_all
  have "snd (hex_decode key 64) = snd (hex_decode key 32)" using more[OF a(3), of 32] by simp
  moreover have "length (snd (hex_decode key 32)) = 32" using a(3) by (rule hex_decode_length)
  ultimately show ?thesis using a(2) by (simp add: decode_into_def Let_def)
qed

text \<open>A note in the usual order of its fields, with a content of two characters.\<close>

definition short_note_json :: "u8 list \<Rightarrow> u8 list" where
  "short_note_json content =
     str ''{\"id\":\"'' @ replicate 64 97 @ str ''\",\"pubkey\":\"'' @ replicate 64 98 @ str ''\",\"created_at\":1700000000,\"kind\":1,\"tags\":[],\"content\":\"'' @
     content @ str ''\",\"sig\":\"'' @ replicate 128 99 @ str ''\"}''"

definition short_note_toks :: "jsmntok list" where
  "short_note_toks = map (\<lambda>(t, s, e, n). \<lparr>tk_type = t, tk_start = s, tk_end = e, tk_size = n\<rparr>)
     [(JSMN_OBJECT, 0, 344, 7), (JSMN_STRING, 2, 4, 1), (JSMN_STRING, 7, 71, 0), (JSMN_STRING, 74, 80, 1), (JSMN_STRING, 83, 147, 0),
      (JSMN_STRING, 150, 160, 1), (JSMN_PRIMITIVE, 162, 172, 0), (JSMN_STRING, 174, 178, 1), (JSMN_PRIMITIVE, 180, 181, 0),
      (JSMN_STRING, 183, 187, 1), (JSMN_ARRAY, 189, 191, 0), (JSMN_STRING, 193, 200, 1), (JSMN_STRING, 203, 205, 0), (JSMN_STRING, 208, 211, 1),
      (JSMN_STRING, 214, 342, 0)]"

lemma short_note_texts:
  assumes "length content = 2"
  shows "tok_text (short_note_json content) (short_note_toks ! 1) = str ''id''" "tok_text (short_note_json content) (short_note_toks ! 2) = replicate 64 97"
    "tok_text (short_note_json content) (short_note_toks ! 3) = str ''pubkey''" "tok_text (short_note_json content) (short_note_toks ! 4) = replicate 64 98"
    "tok_text (short_note_json content) (short_note_toks ! 5) = str ''created_at''" "tok_text (short_note_json content) (short_note_toks ! 6) = str ''1700000000''"
    "tok_text (short_note_json content) (short_note_toks ! 7) = str ''kind''" "tok_text (short_note_json content) (short_note_toks ! 8) = str ''1''"
    "tok_text (short_note_json content) (short_note_toks ! 9) = str ''tags''" "tok_text (short_note_json content) (short_note_toks ! 10) = str ''[]''"
    "tok_text (short_note_json content) (short_note_toks ! 11) = str ''content''" "tok_text (short_note_json content) (short_note_toks ! 12) = content"
    "tok_text (short_note_json content) (short_note_toks ! 13) = str ''sig''" "tok_text (short_note_json content) (short_note_toks ! 14) = replicate 128 99"
  using assms by (simp_all add: short_note_json_def short_note_toks_def tok_text_def str_def)


lemma short_note_shape:
  "length short_note_toks = 15" "tk_type (short_note_toks ! 0) = JSMN_OBJECT" "tk_type (short_note_toks ! 3) = JSMN_STRING" "tk_type (short_note_toks ! 5) = JSMN_STRING"
  "tk_type (short_note_toks ! 6) = JSMN_PRIMITIVE" "tk_type (short_note_toks ! 7) = JSMN_STRING" "tk_type (short_note_toks ! 8) = JSMN_PRIMITIVE"
  "tk_type (short_note_toks ! 9) = JSMN_STRING" "tk_size (short_note_toks ! 10) = 0" "tk_type (short_note_toks ! 11) = JSMN_STRING" "tk_type (short_note_toks ! 12) = JSMN_STRING"
  by (simp_all add: short_note_toks_def)

lemma hex_aa: "hex_decode (replicate (2 * k) 97) k = (True, replicate k 0xAA)" "hex_decode (replicate (2 * k) 98) k = (True, replicate k 0xBB)"
  by (induction k) (simp_all add: char_to_hex_def hex_table_def hex_entries_def)

text \<open>The fields up to the content.\<close>

lemma short_note_prefix:
  assumes c: "length content = 2" and h: "length hexbuf = 64"
  shows "\<exists>np. note_loop (short_note_json content) short_note_toks 1 \<lparr>np_hexbuf = hexbuf, np_parsed = 0, np_builder = b\<rparr> =
      note_loop (short_note_json content) short_note_toks 12 np \<and>
    take 32 (np_hexbuf np) = replicate 32 0xBB \<and> length (np_hexbuf np) = 64 \<and> np_parsed np = 123 \<and>
    nh_id (b_note (np_builder np)) = replicate 32 0xAA \<and> nh_pubkey (b_note (np_builder np)) = replicate 32 0xBB"
proof -
  let ?j = "short_note_json content" and ?t = "short_note_toks" and ?np = "\<lparr>np_hexbuf = hexbuf, np_parsed = 0, np_builder = b\<rparr>"
  note t = short_note_texts[OF c] and sh = short_note_shape
  have a: "take 32 (decode_into (replicate 64 97) buf) = replicate 32 0xAA \<and> length (decode_into (replicate 64 97) buf) = 64"
    and bb: "take 32 (decode_into (replicate 64 98) buf) = replicate 32 0xBB \<and> length (decode_into (replicate 64 98) buf) = 64" if "length buf = 64" for buf
    using decode_into_key[of "replicate 64 97" buf] decode_into_key[of "replicate 64 98" buf] hex_aa[of 32] that by simp_all
  define h1 where "h1 = decode_into (replicate 64 97) hexbuf"
  define h2 where "h2 = decode_into (replicate 64 98) h1"
  have h1: "take 32 h1 = replicate 32 0xAA" "length h1 = 64" using a[OF h] by (simp_all add: h1_def)
  have h2: "take 32 h2 = replicate 32 0xBB" "length h2 = 64" using bb[OF h1(2)] by (simp_all add: h2_def)
  define np1 where "np1 = \<lparr>np_hexbuf = h1, np_parsed = NDB_PARSED_ID, np_builder = ndb_builder_set_id b h1\<rparr>"
  define np3 where "np3 = \<lparr>np_hexbuf = h2, np_parsed = 3, np_builder = ndb_builder_set_pubkey (np_builder np1) h2\<rparr>"
  define np5 where "np5 = \<lparr>np_hexbuf = h2, np_parsed = 11, np_builder = ndb_builder_set_created_at (np_builder np3) 1700000000\<rparr>"
  define np7 where "np7 = \<lparr>np_hexbuf = h2, np_parsed = 27, np_builder = ndb_builder_set_kind (np_builder np5) 1\<rparr>"
  define np9 where "np9 = np7\<lparr>np_parsed := 91\<rparr>"
  have nt: "parse_unsigned_int (str ''1700000000'') = Some 1700000000" "parse_unsigned_int (str ''1'') = Some 1"
    by (simp_all add: parse_unsigned_int_def str_def)
  have v1: "note_value ?j ?t (?t ! 1) 1 ?np = Some (True, 1, np1)"
    using t(1,2) by (simp add: note_value_def Let_def np1_def h1_def NDB_PARSED_ID_def numeral_2_eq_2) (simp add: str_def)
  have v3: "note_value ?j ?t (?t ! 3) 3 np1 = Some (True, 3, np3)"
    using t(3,4) sh by (simp add: note_value_def Let_def np1_def np3_def h2_def jsoneq_def NDB_PARSED_ID_def NDB_PARSED_PUBKEY_def) (simp add: str_def)
  have v5: "note_value ?j ?t (?t ! 5) 5 np3 = Some (True, 5, np5)"
    using t(5,6) sh by (simp add: note_value_def Let_def np3_def np5_def jsoneq_def NDB_PARSED_CREATED_AT_def nt) (simp add: str_def)
  have v7: "note_value ?j ?t (?t ! 7) 7 np5 = Some (True, 7, np7)"
    using t(7,8) sh by (simp add: note_value_def Let_def np5_def np7_def jsoneq_def NDB_PARSED_KIND_def nt) (simp add: str_def)
  have pt: "ndb_builder_process_json_tags b' ?j ?t 10 = Some (True, b')" for b'
    using sh by (simp add: ndb_builder_process_json_tags_def tok_at_def)
  have v9: "note_value ?j ?t (?t ! 9) 9 np7 = Some (True, 9, np9)"
    using t(9,10) sh by (simp add: note_value_def Let_def np7_def np9_def jsoneq_def NDB_PARSED_TAGS_def pt) (simp add: str_def)
  obtain p where mk: "ndb_builder_make_json_str b' content False = (Some p, 2, b')" for b'
    using c by (auto simp: ndb_builder_make_json_str_def ndb_builder_try_compact_str_def)
  define np11 where "np11 = np9\<lparr>np_parsed := 123, np_builder := (np_builder np9)\<lparr>b_note := (b_note (np_builder np9))\<lparr>nh_content_length := 2, nh_content := p\<rparr>\<rparr>\<rparr>"
  have v11: "note_value ?j ?t (?t ! 11) 11 np9 = Some (True, 11, np11)"
    using t(11,12) sh by (simp add: note_value_def Let_def np9_def np11_def np7_def jsoneq_def NDB_PARSED_CONTENT_def mk) (simp add: str_def)
  have skip: "note_value ?j ?t (?t ! k) k np = Some (True, k, np)"
    if "tok_text ?j (?t ! k) = w" "w \<noteq> []" "w ! 0 \<notin> {112, 107, 99, 116}" "w \<noteq> str ''id''" "w \<noteq> str ''sig''" for k w np
    using that by (simp add: note_value_def Let_def)
  have s2: "note_value ?j ?t (?t ! 2) 2 np = Some (True, 2, np)" for np by (rule skip[OF t(2)]) (simp_all add: str_def list_eq_iff_nth_eq)
  have s4: "note_value ?j ?t (?t ! 4) 4 np = Some (True, 4, np)" for np by (rule skip[OF t(4)]) (simp_all add: str_def list_eq_iff_nth_eq)
  have s6: "note_value ?j ?t (?t ! 6) 6 np = Some (True, 6, np)" for np by (rule skip[OF t(6)]) (simp_all add: str_def)
  have s8: "note_value ?j ?t (?t ! 8) 8 np = Some (True, 8, np)" for np by (rule skip[OF t(8)]) (simp_all add: str_def)
  have s10: "note_value ?j ?t (?t ! 10) 10 np = Some (True, 10, np)" for np by (rule skip[OF t(10)]) (simp_all add: str_def)
  have ne: "str ''id'' \<noteq> []" "str ''pubkey'' \<noteq> []" "str ''created_at'' \<noteq> []" "str ''1700000000'' \<noteq> []" "str ''kind'' \<noteq> []" "str ''1'' \<noteq> []"
    "str ''tags'' \<noteq> []" "str ''[]'' \<noteq> []" "str ''content'' \<noteq> []" by (simp_all add: str_def)
  have "note_loop ?j ?t 1 ?np = note_loop ?j ?t 2 np1" using note_loop_step[OF _ _ v1] t(1) sh ne by (simp add: numeral_2_eq_2)
  also have "\<dots> = note_loop ?j ?t 3 np1" using note_loop_step[OF _ _ s2] t(2) sh by simp
  also have "\<dots> = note_loop ?j ?t 4 np3" using note_loop_step[OF _ _ v3] t(3) sh ne by simp
  also have "\<dots> = note_loop ?j ?t 5 np3" using note_loop_step[OF _ _ s4] t(4) sh by simp
  also have "\<dots> = note_loop ?j ?t 6 np5" using note_loop_step[OF _ _ v5] t(5) sh ne by simp
  also have "\<dots> = note_loop ?j ?t 7 np5" using note_loop_step[OF _ _ s6] t(6) sh ne by simp
  also have "\<dots> = note_loop ?j ?t 8 np7" using note_loop_step[OF _ _ v7] t(7) sh ne by simp
  also have "\<dots> = note_loop ?j ?t 9 np7" using note_loop_step[OF _ _ s8] t(8) sh ne by simp
  also have "\<dots> = note_loop ?j ?t 10 np9" using note_loop_step[OF _ _ v9] t(9) sh ne by simp
  also have "\<dots> = note_loop ?j ?t 11 np9" using note_loop_step[OF _ _ s10] t(10) sh ne by simp
  also have "\<dots> = note_loop ?j ?t 12 np11" using note_loop_step[OF _ _ v11] t(11) sh ne by simp
  finally have "note_loop ?j ?t 1 ?np = note_loop ?j ?t 12 np11" .
  then show ?thesis using h1 h2
    by (intro exI[of _ np11]) (simp add: np11_def np9_def np7_def np5_def np3_def np1_def ndb_builder_set_id_def ndb_builder_set_pubkey_def
        ndb_builder_set_kind_def ndb_builder_set_created_at_def)
qed


text \<open>
  C22 A note whose content is the word \<open>id\<close> gets a wrong id. The parser looks at values as well as at keys, so it takes the
  content for the key and decodes what follows, which is no number: the id becomes what the buffer still holds, the
  public key. With any other content of two characters that is not a key, the id is that of the JSON text.
\<close>

theorem content_taken_for_key:
  assumes "length hexbuf = 64" and "ndb_builder_init n = Some (Some b)" and "length content = 2"
    and "content = str ''id'' \<or> content ! 0 \<notin> {112, 107, 99, 116}"
  shows "\<exists>sn sz. ndb_parse_json_note hexbuf \<lparr>jp_json = short_note_json content, jp_builder = b, jp_toks = short_note_toks, jp_i = 0\<rparr> = Some (Some (sn, sz)) \<and>
    nh_pubkey (sn_header sn) = replicate 32 0xBB \<and>
    nh_id (sn_header sn) = (if content = str ''id'' then replicate 32 0xBB else replicate 32 0xAA)"
proof -
  let ?j = "short_note_json content" and ?t = "short_note_toks"
  note t = short_note_texts[OF assms(3)] and sh = short_note_shape
  obtain np where np: "note_loop ?j ?t 1 \<lparr>np_hexbuf = hexbuf, np_parsed = 0, np_builder = b\<rparr> = note_loop ?j ?t 12 np"
    "take 32 (np_hexbuf np) = replicate 32 0xBB" "length (np_hexbuf np) = 64" "np_parsed np = 123"
    "nh_id (b_note (np_builder np)) = replicate 32 0xAA" "nh_pubkey (b_note (np_builder np)) = replicate 32 0xBB"
    using short_note_prefix[OF assms(3,1)] by blast
  have keep: "decode_into (str ''sig'') buf = buf" for buf
    by (simp add: decode_into_def str_def char_to_hex_def hex_table_def hex_entries_def)
  define np12 where "np12 = (if content = str ''id'' then np\<lparr>np_parsed := np_parsed np OR NDB_PARSED_ID, np_builder := ndb_builder_set_id (np_builder np) (np_hexbuf np)\<rparr> else np)"
  have len3: "content \<noteq> str ''sig''" "content \<noteq> []" using assms(3) by (auto simp: str_def)
  have v12: "note_value ?j ?t (?t ! 12) 12 np = Some (True, 12, np12)"
  proof (cases "content = str ''id''")
    case True
    then have "content ! 0 = 105" by (simp add: str_def)
    then show ?thesis using t(12,13) True keep by (simp add: note_value_def Let_def np12_def)
  next
    case False
    then show ?thesis using t(12,13) assms(4) len3 by (simp add: note_value_def Let_def np12_def)
  qed
  have p12: "np_parsed np12 = 123" using np(4) by (simp add: np12_def NDB_PARSED_ID_def)
  define np13 where "np13 = np12\<lparr>np_hexbuf := decode_into (replicate 128 99) (np_hexbuf np12), np_parsed := 127,
    np_builder := ndb_builder_set_sig (np_builder np12) (decode_into (replicate 128 99) (np_hexbuf np12))\<rparr>"
  have v13: "note_value ?j ?t (?t ! 13) 13 np12 = Some (True, 13, np13)"
    using t(13,14) p12 by (simp add: note_value_def Let_def np13_def NDB_PARSED_SIG_def) (simp add: str_def)
  have "note_loop ?j ?t 1 \<lparr>np_hexbuf = hexbuf, np_parsed = 0, np_builder = b\<rparr> = note_loop ?j ?t 13 np12"
    using np(1) note_loop_step[OF _ _ v12] t(12) sh len3 by simp
  also have "\<dots> = note_loop ?j ?t 14 np13" using note_loop_step[OF _ _ v13] t(13) sh by (simp add: str_def)
  also have "\<dots> = Some (True, np13)" by (rule note_loop_last) (simp add: sh)
  finally have l: "note_loop ?j ?t 1 \<lparr>np_hexbuf = hexbuf, np_parsed = 0, np_builder = b\<rparr> = Some (True, np13)" .
  define sn where "sn = \<lparr>sn_header = (b_note (np_builder np13))\<lparr>nh_strings := word_of_nat (160 + length (b_cur (np_builder np13)))\<rparr>,
    sn_data = b_cur (np_builder np13) @ b_strings (np_builder np13)\<rparr>"
  define sz where "sz = (160 + length (b_cur (np_builder np13)) + length (b_strings (np_builder np13)) + 7) div 8 * 8"
  have "ndb_parse_json_note hexbuf \<lparr>jp_json = ?j, jp_builder = b, jp_toks = ?t, jp_i = 0\<rparr> = Some (Some (sn, sz))"
    using l sh by (simp add: ndb_parse_json_note_def ndb_parse_json_note_custom_def tok_at_def np13_def NDB_PARSED_ALL_def ndb_builder_finalize_def sn_def sz_def Let_def)
  moreover have "nh_pubkey (sn_header sn) = replicate 32 0xBB" "nh_id (sn_header sn) = (if content = str ''id'' then replicate 32 0xBB else replicate 32 0xAA)"
    using np by (auto simp: sn_def np13_def np12_def ndb_builder_set_sig_def ndb_builder_set_id_def)
  ultimately show ?thesis by blast
qed

theorem content_taken_for_key_witness:
  "\<exists>b sn sz. ndb_builder_init 1024 = Some (Some b) \<and>
     ndb_parse_json_note (replicate 64 0) \<lparr>jp_json = short_note_json (str ''id''), jp_builder = b, jp_toks = short_note_toks, jp_i = 0\<rparr> = Some (Some (sn, sz)) \<and>
     nh_id (sn_header sn) = replicate 32 0xBB \<and> take 71 (short_note_json (str ''id'')) = str ''{\"id\":\"'' @ replicate 64 97"
proof -
  obtain b where b: "ndb_builder_init 1024 = Some (Some b)" using init_spec[of 1024] by auto
  have "\<exists>sn sz. ndb_parse_json_note (replicate 64 0) \<lparr>jp_json = short_note_json (str ''id''), jp_builder = b, jp_toks = short_note_toks, jp_i = 0\<rparr> = Some (Some (sn, sz)) \<and>
    nh_pubkey (sn_header sn) = replicate 32 0xBB \<and> nh_id (sn_header sn) = (if str ''id'' = str ''id'' then replicate 32 0xBB else replicate 32 0xAA)"
    by (rule content_taken_for_key[OF _ b]) (simp_all add: str_def)
  moreover have "take 71 (short_note_json (str ''id'')) = str ''{\"id\":\"'' @ replicate 64 97" by (simp add: short_note_json_def str_def)
  ultimately show ?thesis using b by auto
qed

text \<open>An event message of three tokens is taken for complete, and the type of a fourth one is read.\<close>

lemma short_event_reads_past_tokens:
  assumes "length (jp_toks p) = 3" "tk_type (jp_toks p ! 0) = JSMN_ARRAY" "tk_type (jp_toks p ! 1) = JSMN_STRING" "tk_type (jp_toks p ! 2) = JSMN_STRING"
    and "tok_text (jp_json p) (jp_toks p ! 1) = str ''EVENT''"
  shows "ndb_ws_event_from_json hexbuf p = None"
  using assms by (simp add: ndb_ws_event_from_json_def tok_at_def ndb_parse_json_note_def ndb_parse_json_note_custom_def Let_def)

end
