(* ===== verification/Subscriptions.thy ===== *)
theory Subscriptions
  imports Note_Filter Queue "HOL-Library.Sublist"
begin

text \<open>
  The monitor of subscriptions, in \<open>src/src/nostrdb.c\<close>: subscribing with a group of filters,
  the notification of the subscribers when notes have been written, polling and unsubscribing.

  Every operation holds the mutex of the monitor from its first to its last access, so each is one
  function on the state of the monitor. That state is the list of the live subscriptions, the first
  \<open>num_subscriptions\<close> slots of the array, together with the static counter of
  \<open>ndb_subscribe\<close>. A waiting thread is a result of its own, as in \<open>Queue\<close>.
\<close>

section \<open>Data\<close>

record ndb_subscription =
  sub_id :: u64
  sub_group :: "ndb_filter option list"
  sub_inbox :: prot_queue

record ndb_monitor =
  mo_subscriptions :: "ndb_subscription list"
  mo_subids :: u64
  mo_has_cb :: bool

record written_note =
  wn_note_id :: u64
  wn_note :: ndb_note

abbreviation MAX_SUBSCRIPTIONS :: nat where
  "MAX_SUBSCRIPTIONS \<equiv> 256"

abbreviation DEFAULT_QUEUE_SIZE :: nat where
  "DEFAULT_QUEUE_SIZE \<equiv> 32768"

section \<open>Operations\<close>

definition ndb_monitor_init :: "bool \<Rightarrow> ndb_monitor" where
  "ndb_monitor_init has_cb = \<lparr>mo_subscriptions = [], mo_subids = 0, mo_has_cb = has_cb\<rparr>"

text \<open>The inner loop of \<open>ndb_notify_subscriptions\<close>: the number of notes pushed, and the inbox.\<close>

fun notify_notes :: "(u8 list \<Rightarrow> ndb_note \<Rightarrow> bool) \<Rightarrow> ndb_filter option list \<Rightarrow> prot_queue \<Rightarrow> written_note list \<Rightarrow> (nat \<times> prot_queue) option" where
  "notify_notes cb grp q [] = Some (0, q)"
| "notify_notes cb grp q (w # ws) = do {
     hit \<leftarrow> ndb_filter_group_matches cb grp (wn_note w);
     if hit then do {
       (r, q) \<leftarrow> prot_queue_push q (le_bytes 8 (wn_note_id w));
       (n, q) \<leftarrow> notify_notes cb grp q ws;
       Some (if r then n + 1 else n, q) }
     else notify_notes cb grp q ws }"

text \<open>The outer loop: the subscriptions for which the callback is called, and all of them with their new inboxes.\<close>

fun notify_subs :: "(u8 list \<Rightarrow> ndb_note \<Rightarrow> bool) \<Rightarrow> bool \<Rightarrow> written_note list \<Rightarrow> ndb_subscription list \<Rightarrow> (u64 list \<times> ndb_subscription list) option" where
  "notify_subs cb has_cb wrote [] = Some ([], [])"
| "notify_subs cb has_cb wrote (s # ss) = do {
     (pushed, q) \<leftarrow> notify_notes cb (sub_group s) (sub_inbox s) wrote;
     (called, ss) \<leftarrow> notify_subs cb has_cb wrote ss;
     Some ((if has_cb \<and> pushed > 0 then sub_id s # called else called), s\<lparr>sub_inbox := q\<rparr> # ss) }"

definition ndb_notify_subscriptions ::
  "(u8 list \<Rightarrow> ndb_note \<Rightarrow> bool) \<Rightarrow> ndb_monitor \<Rightarrow> written_note list \<Rightarrow> (u64 list \<times> ndb_monitor) option" where
  "ndb_notify_subscriptions cb m wrote = do {
     (called, ss) \<leftarrow> notify_subs cb (mo_has_cb m) wrote (mo_subscriptions m);
     Some (called, m\<lparr>mo_subscriptions := ss\<rparr>) }"

fun find_sub :: "u64 \<Rightarrow> ndb_subscription list \<Rightarrow> nat option" where
  "find_sub subid [] = None"
| "find_sub subid (s # ss) = (if sub_id s = subid then Some 0 else map_option Suc (find_sub subid ss))"

definition ndb_monitor_find_subscription :: "ndb_monitor \<Rightarrow> u64 \<Rightarrow> nat option" where
  "ndb_monitor_find_subscription m subid = find_sub subid (mo_subscriptions m)"

text \<open>The inbox of subscription \<open>i\<close> is polled; its elements are read as the 64-bit keys of notes.\<close>

definition poll_inbox :: "ndb_monitor \<Rightarrow> nat \<Rightarrow> int \<Rightarrow> (u64 list \<times> ndb_monitor) option" where
  "poll_inbox m i capacity = do {
     let s = mo_subscriptions m ! i;
     (n, data, q) \<leftarrow> prot_queue_try_pop_all (sub_inbox s) capacity;
     Some (map le_word (chunks 8 data (nat n)), m\<lparr>mo_subscriptions := (mo_subscriptions m)[i := s\<lparr>sub_inbox := q\<rparr>]\<rparr>) }"

definition ndb_poll_for_notes :: "ndb_monitor \<Rightarrow> u64 \<Rightarrow> int \<Rightarrow> (u64 list \<times> ndb_monitor) option" where
  "ndb_poll_for_notes m subid capacity =
     (if subid = 0 then Some ([], m)
      else (case ndb_monitor_find_subscription m subid of
              None \<Rightarrow> Some ([], m)
            | Some i \<Rightarrow> poll_inbox m i capacity))"

text \<open>One round of the loop of \<open>ndb_wait_for_notes\<close>: the inner \<open>None\<close> waits for the next notification.\<close>

definition ndb_wait_for_notes :: "ndb_monitor \<Rightarrow> u64 \<Rightarrow> int \<Rightarrow> (u64 list \<times> ndb_monitor) option option" where
  "ndb_wait_for_notes m subid capacity =
     (if subid = 0 then Some (Some ([], m))
      else (case ndb_monitor_find_subscription m subid of
              None \<Rightarrow> Some (Some ([], m))
            | Some i \<Rightarrow> do {
                (ids, m) \<leftarrow> poll_inbox m i capacity;
                Some (if ids \<noteq> [] then Some (ids, m) else None) }))"

definition ndb_filter_group_destroy :: "ndb_filter option list \<Rightarrow> ndb_filter option list" where
  "ndb_filter_group_destroy grp = map (map_option ndb_filter_destroy) grp"

definition ndb_subscription_destroy :: "ndb_subscription \<Rightarrow> ndb_subscription" where
  "ndb_subscription_destroy s =
     s\<lparr>sub_group := ndb_filter_group_destroy (sub_group s), sub_inbox := (sub_inbox s)\<lparr>q_buf := []\<rparr>, sub_id := 0\<rparr>"

text \<open>The subscriptions are destroyed one by one; none is left in the state of the monitor.\<close>

definition ndb_monitor_destroy :: "ndb_monitor \<Rightarrow> ndb_monitor" where
  "ndb_monitor_destroy m = m\<lparr>mo_subscriptions := []\<rparr>"

definition ndb_unsubscribe :: "ndb_monitor \<Rightarrow> u64 \<Rightarrow> bool \<times> ndb_monitor" where
  "ndb_unsubscribe m subid =
     (case ndb_monitor_find_subscription m subid of
        None \<Rightarrow> (False, m)
      | Some i \<Rightarrow>
          let ss = (mo_subscriptions m)[i := ndb_subscription_destroy (mo_subscriptions m ! i)];
              elems_to_move = (length ss - 1) - i
          in (True, m\<lparr>mo_subscriptions := take i ss @ take elems_to_move (drop (i + 1) ss)\<rparr>))"

definition ndb_num_subscriptions :: "ndb_monitor \<Rightarrow> nat" where
  "ndb_num_subscriptions m = length (mo_subscriptions m)"

text \<open>
  \<open>malloc_ok\<close> says whether the copies of the filters can be allocated, and \<open>buf\<close> is what
  \<open>malloc\<close> returns for the inbox: a buffer with arbitrary contents, or no bytes for a null pointer,
  which the code does not check. A failed call leaves its identifier used.
\<close>

definition ndb_subscribe :: "bool \<Rightarrow> u8 list \<Rightarrow> ndb_monitor \<Rightarrow> ndb_filter list \<Rightarrow> (u64 \<times> ndb_monitor) option" where
  "ndb_subscribe malloc_ok buf m filters =
     (if length (mo_subscriptions m) + 1 \<ge> MAX_SUBSCRIPTIONS then Some (0, m)
      else let subid = mo_subids m + 1; m = m\<lparr>mo_subids := subid\<rparr>;
               (r, grp) = ndb_filter_group_add_filters malloc_ok ndb_filter_group_init filters
           in if \<not> r then Some (0, m)
              else do {
                q \<leftarrow> prot_queue_init buf (word_of_nat (8 * DEFAULT_QUEUE_SIZE)) 8;
                Some (subid, m\<lparr>mo_subscriptions := mo_subscriptions m @ [\<lparr>sub_id = subid, sub_group = grp, sub_inbox = q\<rparr>]\<rparr>) })"

section \<open>What a group asks for\<close>

definition filter_ready :: "ndb_filter \<Rightarrow> bool" where
  "filter_ready f \<longleftrightarrow> filter_wf f \<and> (\<forall>els\<in>set (f_fields f). field_ready els \<and> fe_type els \<noteq> NDB_FILTER_RELAYS)"

definition group_ready :: "ndb_filter option list \<Rightarrow> bool" where
  "group_ready grp \<longleftrightarrow> (\<forall>x\<in>set grp. \<exists>f. x = Some f \<and> filter_ready f)"

definition filter_hits :: "(u8 list \<Rightarrow> ndb_note \<Rightarrow> bool) \<Rightarrow> ndb_note \<Rightarrow> ndb_filter \<Rightarrow> bool" where
  "filter_hits cb note f \<longleftrightarrow> (\<forall>els\<in>set (f_fields f). spec_matches cb note [] (abs_field (f_data f) els))"

definition group_hits :: "(u8 list \<Rightarrow> ndb_note \<Rightarrow> bool) \<Rightarrow> ndb_filter option list \<Rightarrow> ndb_note \<Rightarrow> bool" where
  "group_hits cb grp note \<longleftrightarrow> grp = [] \<or> (\<exists>f. Some f \<in> set grp \<and> filter_hits cb note f)"

lemma ready_filter_matches: "filter_ready f \<Longrightarrow> note_wf note \<Longrightarrow> ndb_filter_matches cb f note = Some (filter_hits cb note f)"
  using matches_meaning[of f "note" None cb "[]"] by (auto simp: filter_ready_def ndb_filter_matches_def filter_hits_def)

lemma group_meaning:
  assumes "group_ready grp" "note_wf note"
  shows "ndb_filter_group_matches cb grp note = Some (group_hits cb grp note)"
proof -
  have "group_loop cb fs note = Some (\<exists>f. Some f \<in> set fs \<and> filter_hits cb note f)" if "group_ready fs" for fs
    using that
  proof (induction fs)
    case (Cons x fs)
    then obtain f where "x = Some f" "filter_ready f" "group_ready fs" by (auto simp: group_ready_def)
    then show ?case using Cons.IH assms(2) by (auto simp: ready_filter_matches)
  qed simp
  then show ?thesis using assms(1) by (simp add: ndb_filter_group_matches_def group_hits_def)
qed

lemma clone_wf: "filter_wf f \<Longrightarrow> 0 \<le> f_elem_cap f \<Longrightarrow> filter_wf (f\<lparr>f_alloc := True, f_elem_used := f_elem_cap f\<rparr>)"
  by (cases "f_current f") (simp_all add: filter_wf_def)

lemma group_add_filters_ready:
  "\<forall>f\<in>set fs. filter_ready f \<and> 0 \<le> f_elem_cap f \<Longrightarrow> group_ready grp \<Longrightarrow>
   ndb_filter_group_add_filters malloc_ok grp fs = (True, grp') \<Longrightarrow> group_ready grp'"
proof (induction fs arbitrary: grp)
  case (Cons f fs)
  have "filter_ready c" if "ndb_filter_clone malloc_ok f = Some c" for c
    using that Cons.prems(1) clone_wf[of f] by (auto simp: ndb_filter_clone_def filter_ready_def split: if_splits)
  then have "group_ready (grp @ [Some c])" if "ndb_filter_clone malloc_ok f = Some c" for c
    using that Cons.prems(2) by (simp add: group_ready_def)
  then show ?case using Cons by (auto simp: ndb_filter_group_add_def Let_def split: if_splits)
qed simp

section \<open>The invariant and the mailboxes\<close>

definition inbox_wf :: "prot_queue \<Rightarrow> bool" where
  "inbox_wf q \<longleftrightarrow> queue_wf q \<and> q_es q = 8 \<and> q_cap q = DEFAULT_QUEUE_SIZE"

definition monitor_wf :: "ndb_monitor \<Rightarrow> bool" where
  "monitor_wf m \<longleftrightarrow> length (mo_subscriptions m) < MAX_SUBSCRIPTIONS \<and> distinct (map sub_id (mo_subscriptions m)) \<and>
     (\<forall>s\<in>set (mo_subscriptions m). 0 < sub_id s \<and> sub_id s \<le> mo_subids m \<and> inbox_wf (sub_inbox s) \<and> group_ready (sub_group s))"

definition pending :: "prot_queue \<Rightarrow> u64 list" where
  "pending q = map le_word (queue_items q)"

text \<open>A monitor as a map from the identifiers to the group and the keys that wait in the inbox.\<close>

definition boxes :: "ndb_monitor \<Rightarrow> u64 \<Rightarrow> (ndb_filter option list \<times> u64 list) option" where
  "boxes m = map_of (map (\<lambda>s. (sub_id s, (sub_group s, pending (sub_inbox s)))) (mo_subscriptions m))"

lemma inbox_push:
  assumes "inbox_wf q"
  shows "ok (prot_queue_push q (le_bytes 8 (x :: u64))) (\<lambda>(r, q'). inbox_wf q' \<and> r = (length (pending q) < DEFAULT_QUEUE_SIZE) \<and>
    pending q' = take DEFAULT_QUEUE_SIZE (pending q @ [x]))"
proof -
  have w: "queue_wf q" "q_es q = 8" "q_cap q = DEFAULT_QUEUE_SIZE" using assms by (auto simp: inbox_wf_def)
  have l: "length (queue_items q) \<le> DEFAULT_QUEUE_SIZE" using w by (auto simp: queue_wf_def)
  show ?thesis
    by (rule ok_conseq[OF push_spec[OF w(1), of "le_bytes 8 x"]])
      (use w l in \<open>auto simp: inbox_wf_def same_shape_def pending_def le_word_le_bytes\<close>)
qed

lemma pending_small: "inbox_wf q \<Longrightarrow> length (pending q) \<le> DEFAULT_QUEUE_SIZE"
  by (auto simp: inbox_wf_def pending_def queue_wf_def)

lemma take_take_append: "take n (take n xs @ ys) = take n (xs @ ys)"
  by (cases "length xs \<le> n") (simp_all)

lemma notify_notes_spec:
  assumes "group_ready grp"
  shows "\<forall>w\<in>set ws. note_wf (wn_note w) \<Longrightarrow> inbox_wf q \<Longrightarrow>
    ok (notify_notes cb grp q ws) (\<lambda>(n, q'). inbox_wf q' \<and>
      pending q' = take DEFAULT_QUEUE_SIZE (pending q @ map wn_note_id (filter (\<lambda>w. group_hits cb grp (wn_note w)) ws)) \<and>
      n = length (pending q') - length (pending q))"
proof (induction ws arbitrary: q)
  case Nil
  then show ?case using pending_small[of q] by simp
next
  case (Cons w ws)
  show ?case
  proof (cases "group_hits cb grp (wn_note w)")
    case True
    let ?hits = "map wn_note_id (filter (\<lambda>w. group_hits cb grp (wn_note w)) ws)"
    obtain r q1 where q1: "prot_queue_push q (le_bytes 8 (wn_note_id w)) = Some (r, q1)" "inbox_wf q1"
      "r = (length (pending q) < DEFAULT_QUEUE_SIZE)" "pending q1 = take DEFAULT_QUEUE_SIZE (pending q @ [wn_note_id w])"
      using inbox_push[OF Cons.prems(2), of "wn_note_id w"] by (auto simp: ok_iff simp del: take_append)
    obtain n q2 where q2: "notify_notes cb grp q1 ws = Some (n, q2)" "inbox_wf q2"
      "pending q2 = take DEFAULT_QUEUE_SIZE (pending q1 @ ?hits)" "n = length (pending q2) - length (pending q1)"
      using Cons.IH[OF _ q1(2)] Cons.prems(1) by (auto simp: ok_iff)
    have "pending q2 = take DEFAULT_QUEUE_SIZE (pending q @ wn_note_id w # ?hits)"
      unfolding q2(3) q1(4) take_take_append by simp
    moreover have "(if r then n + 1 else n) = length (pending q2) - length (pending q)"
      using pending_small[OF Cons.prems(2)] pending_small[OF q1(2)] unfolding q2(3,4) q1(3,4) by (auto simp: min_def)
    ultimately show ?thesis using True Cons.prems(1) q1(1) q2(1,2) by (simp add: group_meaning[OF assms])
  next
    case False
    then show ?thesis using Cons by (simp add: group_meaning[OF assms])
  qed
qed

section \<open>Each operation on the mailboxes\<close>

lemma find_sub_Some: "find_sub sid ss = Some i \<Longrightarrow> i < length ss \<and> sub_id (ss ! i) = sid"
  by (induction ss arbitrary: i) (auto split: if_splits)

lemma find_sub_None: "find_sub sid ss = None \<longleftrightarrow> sid \<notin> sub_id ` set ss"
  by (induction ss) auto

definition entry :: "ndb_subscription \<Rightarrow> u64 \<times> ndb_filter option list \<times> u64 list" where
  "entry s = (sub_id s, (sub_group s, pending (sub_inbox s)))"

lemma boxes_entry: "boxes m = map_of (map entry (mo_subscriptions m))"
  by (simp add: boxes_def entry_def[abs_def])

lemma fst_entry [simp]: "fst (entry s) = sub_id s"
  by (simp add: entry_def)

lemma map_of_update:
  assumes "distinct (map fst xs)" "i < length xs" "fst (xs ! i) = fst y"
  shows "map_of (xs[i := y]) = (map_of xs)(fst y \<mapsto> snd y)"
  using assms
proof (induction xs arbitrary: i)
  case (Cons x xs)
  then show ?case
  proof (cases i)
    case (Suc j)
    then have "fst x \<noteq> fst (xs ! j)" using Cons.prems by (metis distinct.simps(2) length_map list.simps(9) nth_Cons_Suc nth_map nth_mem Suc_less_eq length_Cons)
    then show ?thesis using Cons.IH[of j] Cons.prems Suc by (cases x) (auto simp: fun_upd_twist)
  qed auto
qed simp

lemma boxes_update:
  assumes "monitor_wf m" "i < length (mo_subscriptions m)" "sub_id s' = sub_id (mo_subscriptions m ! i)"
  shows "boxes (m\<lparr>mo_subscriptions := (mo_subscriptions m)[i := s']\<rparr>) =
    (boxes m)(sub_id s' \<mapsto> (sub_group s', pending (sub_inbox s')))"
  unfolding boxes_entry using assms
  by (simp add: map_update map_of_update monitor_wf_def comp_def) (simp add: entry_def)

lemma boxes_at:
  "monitor_wf m \<Longrightarrow> i < length (mo_subscriptions m) \<Longrightarrow>
   boxes m (sub_id (mo_subscriptions m ! i)) = Some (sub_group (mo_subscriptions m ! i), pending (sub_inbox (mo_subscriptions m ! i)))"
  unfolding boxes_def by (intro map_of_is_SomeI) (auto simp: monitor_wf_def comp_def)

lemma boxes_None: "boxes m sid = None \<longleftrightarrow> sid \<notin> sub_id ` set (mo_subscriptions m)"
  by (simp add: boxes_def map_of_eq_None_iff image_image)

text \<open>What a notification does to one subscription: the matching notes join the inbox as far as there is room.\<close>

definition deliver :: "u64 list \<Rightarrow> u64 list \<Rightarrow> u64 list" where
  "deliver old new = take DEFAULT_QUEUE_SIZE (old @ new)"

definition hit_ids :: "(u8 list \<Rightarrow> ndb_note \<Rightarrow> bool) \<Rightarrow> ndb_filter option list \<Rightarrow> written_note list \<Rightarrow> u64 list" where
  "hit_ids cb grp ws = map wn_note_id (filter (\<lambda>w. group_hits cb grp (wn_note w)) ws)"

definition notified :: "(u8 list \<Rightarrow> ndb_note \<Rightarrow> bool) \<Rightarrow> written_note list \<Rightarrow> ndb_subscription \<Rightarrow> ndb_subscription \<Rightarrow> bool" where
  "notified cb ws s s' \<longleftrightarrow> sub_id s' = sub_id s \<and> sub_group s' = sub_group s \<and> inbox_wf (sub_inbox s') \<and>
     pending (sub_inbox s') = deliver (pending (sub_inbox s)) (hit_ids cb (sub_group s) ws)"

lemma notify_subs_spec:
  assumes ws: "\<forall>w\<in>set ws. note_wf (wn_note w)"
  shows "\<forall>s\<in>set ss. inbox_wf (sub_inbox s) \<and> group_ready (sub_group s) \<Longrightarrow>
    ok (notify_subs cb has_cb ws ss) (\<lambda>(called, ss'). list_all2 (notified cb ws) ss ss' \<and> set called \<subseteq> sub_id ` set ss)"
proof (induction ss)
  case (Cons s ss)
  then have s: "inbox_wf (sub_inbox s)" "group_ready (sub_group s)" by auto
  obtain n q where q: "notify_notes cb (sub_group s) (sub_inbox s) ws = Some (n, q)" "notified cb ws s (s\<lparr>sub_inbox := q\<rparr>)"
    using notify_notes_spec[OF s(2) ws s(1), of cb]
    by (auto simp: ok_iff notified_def deliver_def hit_ids_def simp del: take_append)
  have "\<forall>s\<in>set ss. inbox_wf (sub_inbox s) \<and> group_ready (sub_group s)" using Cons.prems by auto
  note IH = Cons.IH[OF this]
  show ?case unfolding notify_subs.simps q(1)
    by (simp, intro ok_bindI[OF IH]) (auto simp: q)
qed simp

lemma notified_boxes:
  "list_all2 (notified cb ws) ss ss' \<Longrightarrow> map_of (map entry ss') sid =
    map_option (\<lambda>(grp, p). (grp, deliver p (hit_ids cb grp ws))) (map_of (map entry ss) sid)"
  by (induction rule: list_all2_induct) (auto simp: notified_def entry_def)

lemma notify_spec:
  assumes wf: "monitor_wf m" and ws: "\<forall>w\<in>set ws. note_wf (wn_note w)"
  shows "ok (ndb_notify_subscriptions cb m ws) (\<lambda>(called, m'). monitor_wf m' \<and> set called \<subseteq> dom (boxes m) \<and>
    boxes m' = (\<lambda>sid. map_option (\<lambda>(grp, p). (grp, deliver p (hit_ids cb grp ws))) (boxes m sid)))"
proof -
  have "\<forall>s\<in>set (mo_subscriptions m). inbox_wf (sub_inbox s) \<and> group_ready (sub_group s)"
    using wf by (simp add: monitor_wf_def)
  from notify_subs_spec[OF ws this, of cb "mo_has_cb m"]
  obtain called ss' where r: "notify_subs cb (mo_has_cb m) ws (mo_subscriptions m) = Some (called, ss')"
    "list_all2 (notified cb ws) (mo_subscriptions m) ss'" "set called \<subseteq> sub_id ` set (mo_subscriptions m)" by (auto simp: ok_iff)
  have ids: "map sub_id ss' = map sub_id (mo_subscriptions m)"
    using r(2) by (induction rule: list_all2_induct) (auto simp: notified_def)
  have "\<forall>s'\<in>set ss'. \<exists>s\<in>set (mo_subscriptions m). notified cb ws s s'"
    using r(2) by (induction rule: list_all2_induct) auto
  then have "monitor_wf (m\<lparr>mo_subscriptions := ss'\<rparr>)"
    using wf ids list_all2_lengthD[OF r(2)] by (fastforce simp: monitor_wf_def notified_def)
  moreover have "set called \<subseteq> dom (boxes m)" using r(3) boxes_None[of m] by blast
  ultimately show ?thesis using r(1) notified_boxes[OF r(2)]
    by (auto simp: ndb_notify_subscriptions_def boxes_entry)
qed

lemma chunks_Nil [simp]: "chunks es d n = [] \<longleftrightarrow> n = 0"
  by (simp add: chunks_def)

lemma inbox_pop:
  assumes "inbox_wf q"
  shows "ok (prot_queue_try_pop_all q (int mx)) (\<lambda>(n, data, q'). inbox_wf q' \<and>
    pending q = map le_word (chunks 8 data (nat n)) @ pending q' \<and>
    (0 < mx \<longrightarrow> pending q \<noteq> [] \<longrightarrow> 0 < n) \<and> nat n \<le> mx)"
proof -
  have w: "queue_wf q" "q_es q = 8" "q_cap q = DEFAULT_QUEUE_SIZE" using assms by (auto simp: inbox_wf_def)
  from pop_elems_spec[OF w(1), of mx] show ?thesis
    by (auto simp: pop_elems_def ok_iff bind_eq_Some inbox_wf_def same_shape_def w pending_def)
qed

lemma poll_inbox_spec:
  assumes wf: "monitor_wf m" and i: "i < length (mo_subscriptions m)" and sid: "sub_id (mo_subscriptions m ! i) = sid"
  shows "ok (poll_inbox m i (int mx)) (\<lambda>(ids, m'). monitor_wf m' \<and>
    (\<exists>grp p'. boxes m sid = Some (grp, ids @ p') \<and> boxes m' = (boxes m)(sid \<mapsto> (grp, p')) \<and>
      length ids \<le> mx \<and> (0 < mx \<longrightarrow> ids @ p' \<noteq> [] \<longrightarrow> ids \<noteq> [])))"
proof -
  let ?s = "mo_subscriptions m ! i"
  have s: "inbox_wf (sub_inbox ?s)" "group_ready (sub_group ?s)" "0 < sub_id ?s" "sub_id ?s \<le> mo_subids m"
    using wf i by (auto simp: monitor_wf_def)
  obtain n data q where q: "prot_queue_try_pop_all (sub_inbox ?s) (int mx) = Some (n, data, q)" "inbox_wf q"
    "pending (sub_inbox ?s) = map le_word (chunks 8 data (nat n)) @ pending q"
    "0 < mx \<longrightarrow> pending (sub_inbox ?s) \<noteq> [] \<longrightarrow> 0 < n" "nat n \<le> mx"
    using inbox_pop[OF s(1), of mx] unfolding ok_iff by blast
  define m' where "m' = m\<lparr>mo_subscriptions := (mo_subscriptions m)[i := ?s\<lparr>sub_inbox := q\<rparr>]\<rparr>"
  have d: "distinct (map sub_id ((mo_subscriptions m)[i := ?s\<lparr>sub_inbox := q\<rparr>]))"
    using wf i list_update_id[of "map sub_id (mo_subscriptions m)" i] by (simp add: map_update monitor_wf_def)
  have "monitor_wf m'"
    using wf s q(2) d by (auto simp: monitor_wf_def m'_def dest!: set_update_subset_insert[THEN subsetD])
  moreover have "boxes m' = (boxes m)(sid \<mapsto> (sub_group ?s, pending q))"
    using boxes_update[OF wf i, of "?s\<lparr>sub_inbox := q\<rparr>"] sid by (simp add: m'_def)
  moreover have "boxes m sid = Some (sub_group ?s, pending (sub_inbox ?s))" using boxes_at[OF wf i] sid by simp
  moreover have "poll_inbox m i (int mx) = Some (map le_word (chunks 8 data (nat n)), m')"
    using q(1) by (simp add: poll_inbox_def m'_def)
  moreover have "ids = [] \<longleftrightarrow> n \<le> 0" if "ids = map le_word (chunks 8 data (nat n))" for ids :: "u64 list"
    using that by (simp add: length_0_conv[symmetric] del: length_0_conv)
  ultimately show ?thesis using q(3-5) by auto
qed

lemma boxes_zero: "monitor_wf m \<Longrightarrow> boxes m 0 = None"
  by (auto simp: boxes_None monitor_wf_def)

text \<open>What a poll of one mailbox does to the monitor.\<close>

definition polled :: "ndb_monitor \<Rightarrow> u64 \<Rightarrow> nat \<Rightarrow> u64 list \<Rightarrow> ndb_monitor \<Rightarrow> bool" where
  "polled m sid mx ids m' \<longleftrightarrow>
     (case boxes m sid of
        None \<Rightarrow> ids = [] \<and> m' = m
      | Some (grp, p) \<Rightarrow> \<exists>p'. p = ids @ p' \<and> boxes m' = (boxes m)(sid \<mapsto> (grp, p')) \<and> length ids \<le> mx \<and> (0 < mx \<longrightarrow> p \<noteq> [] \<longrightarrow> ids \<noteq> []))"

lemma find_subscription:
  "ndb_monitor_find_subscription m sid = None \<longleftrightarrow> boxes m sid = None"
  by (simp add: ndb_monitor_find_subscription_def find_sub_None boxes_None)

lemma poll_spec:
  assumes wf: "monitor_wf m"
  shows "ok (ndb_poll_for_notes m sid (int mx)) (\<lambda>(ids, m'). monitor_wf m' \<and> polled m sid mx ids m')"
proof (cases "ndb_monitor_find_subscription m sid")
  case None
  then have "boxes m sid = None" by (simp add: find_subscription)
  then show ?thesis using None wf by (auto simp: ndb_poll_for_notes_def polled_def)
next
  case (Some i)
  then have "i < length (mo_subscriptions m) \<and> sub_id (mo_subscriptions m ! i) = sid"
    by (simp add: find_sub_Some ndb_monitor_find_subscription_def)
  moreover have "sid \<noteq> 0" using Some find_subscription[of m sid] boxes_zero[OF wf] by auto
  ultimately show ?thesis using Some poll_inbox_spec[OF wf, of i sid mx]
    by (auto simp: ndb_poll_for_notes_def polled_def elim!: ok_conseq)
qed

lemma wait_spec:
  assumes wf: "monitor_wf m"
  shows "ok (ndb_wait_for_notes m sid (int mx)) (\<lambda>r. case r of
      None \<Rightarrow> \<exists>grp p. boxes m sid = Some (grp, p) \<and> (0 < mx \<longrightarrow> p = [])
    | Some (ids, m') \<Rightarrow> monitor_wf m' \<and> polled m sid mx ids m')"
proof (cases "ndb_monitor_find_subscription m sid")
  case None
  then have "boxes m sid = None" by (simp add: find_subscription)
  then show ?thesis using None wf by (auto simp: ndb_wait_for_notes_def polled_def)
next
  case (Some i)
  then have "i < length (mo_subscriptions m) \<and> sub_id (mo_subscriptions m ! i) = sid"
    by (simp add: find_sub_Some ndb_monitor_find_subscription_def)
  moreover have "sid \<noteq> 0" using Some find_subscription[of m sid] boxes_zero[OF wf] by auto
  ultimately show ?thesis using Some poll_inbox_spec[OF wf, of i sid mx]
    by (auto simp: ndb_wait_for_notes_def polled_def ok_iff)
qed

lemma boxes_remove:
  assumes "distinct (map sub_id ss)" "i < length ss"
  shows "map_of (map entry (take i ss @ drop (i + 1) ss)) = (map_of (map entry ss))(sub_id (ss ! i) := None)"
  using assms
proof (induction ss arbitrary: i)
  case (Cons s ss)
  show ?case
  proof (cases i)
    case 0
    have "sub_id s \<notin> fst ` set (map entry ss)" using Cons.prems(1) by (auto simp: image_image)
    then have "map_of (map entry ss) (sub_id s) = None" by (simp only: map_of_eq_None_iff not_False_eq_True)
    then show ?thesis using 0 by (simp add: fun_eq_iff)
  next
    case (Suc j)
    have "sub_id s \<noteq> sub_id (ss ! j)" using Cons.prems Suc by (auto simp: image_iff)
    then show ?thesis using Cons.IH[of j] Cons.prems Suc by (simp add: fun_eq_iff)
  qed
qed simp

lemma unsubscribe_spec:
  assumes wf: "monitor_wf m" and r: "ndb_unsubscribe m sid = (r, m')"
  shows "monitor_wf m' \<and> r = (sid \<in> dom (boxes m)) \<and> boxes m' = (boxes m)(sid := None) \<and> mo_subids m' = mo_subids m"
proof (cases "ndb_monitor_find_subscription m sid")
  case None
  then show ?thesis using wf r find_subscription[of m sid] by (auto simp: ndb_unsubscribe_def fun_eq_iff)
next
  case (Some i)
  then have i: "i < length (mo_subscriptions m)" "sub_id (mo_subscriptions m ! i) = sid"
    using find_sub_Some by (auto simp: ndb_monitor_find_subscription_def)
  have m': "m' = m\<lparr>mo_subscriptions := take i (mo_subscriptions m) @ drop (i + 1) (mo_subscriptions m)\<rparr>" "r"
    using r Some i by (auto simp: ndb_unsubscribe_def Let_def)
  have d: "distinct (map sub_id (mo_subscriptions m))" using wf by (simp add: monitor_wf_def)
  then have "distinct (map sub_id (take i (mo_subscriptions m) @ drop (i + 1) (mo_subscriptions m)))"
    using set_take_disj_set_drop_if_distinct[OF d, of i "i + 1"] d by (simp add: take_map[symmetric] drop_map[symmetric] distinct_take distinct_drop)
  then have "monitor_wf m'" using wf i unfolding m' monitor_wf_def
    by (auto dest: in_set_takeD in_set_dropD)
  moreover have "sid \<in> dom (boxes m)" using Some find_subscription[of m sid] by auto
  ultimately show ?thesis using boxes_remove[OF d i(1)] i(2) m' by (simp add: boxes_entry)
qed

lemma inbox_init:
  assumes "length buf = 8 * DEFAULT_QUEUE_SIZE"
  shows "ok (prot_queue_init buf (word_of_nat (8 * DEFAULT_QUEUE_SIZE)) 8) (\<lambda>q. inbox_wf q \<and> pending q = [])"
  using init_wf[of 8 DEFAULT_QUEUE_SIZE buf] assms by (auto simp: inbox_wf_def pending_def elim!: ok_conseq)

text \<open>
  The buffer is what \<open>malloc\<close> returned, and fewer than \<open>2 ^ 64 - 1\<close> identifiers have been
  given out: one more would wrap the counter.
\<close>

lemma subscribe_spec:
  assumes wf: "monitor_wf m" and fs: "\<forall>f\<in>set fs. filter_ready f \<and> 0 \<le> f_elem_cap f" and buf: "length buf = 8 * DEFAULT_QUEUE_SIZE"
    and c: "mo_subids m \<noteq> - 1"
  shows "ok (ndb_subscribe malloc_ok buf m fs) (\<lambda>(sid, m'). monitor_wf m' \<and>
    (if sid = 0 then boxes m' = boxes m
     else boxes m sid = None \<and> (\<exists>grp. ndb_filter_group_add_filters malloc_ok [] fs = (True, grp) \<and> boxes m' = (boxes m)(sid \<mapsto> (grp, [])))))"
proof (cases "length (mo_subscriptions m) + 1 \<ge> MAX_SUBSCRIPTIONS")
  case True
  then show ?thesis using wf by (simp add: ndb_subscribe_def)
next
  case False
  have u: "unat (mo_subids m + 1) = Suc (unat (mo_subids m))"
    using unatSuc[of "mo_subids m"] c by (metis add.commute add_eq_0_iff2 add.inverse_inverse)
  have up: "s \<le> mo_subids m + 1" if "s \<le> mo_subids m" for s :: u64 using that u by (simp add: word_le_nat_alt)
  have c0: "0 < mo_subids m + 1" using u by (simp add: word_less_nat_alt)
  have lt: "\<not> mo_subids m + 1 \<le> mo_subids m" using u by (simp add: word_le_nat_alt)
  have wf1: "monitor_wf (m\<lparr>mo_subids := mo_subids m + 1\<rparr>)" using wf up by (auto simp: monitor_wf_def)
  show ?thesis
  proof (cases "ndb_filter_group_add_filters malloc_ok ndb_filter_group_init fs")
    case (Pair r grp)
    show ?thesis
    proof (cases r)
      case False
      then show ?thesis using Pair wf1 \<open>\<not> length (mo_subscriptions m) + 1 \<ge> MAX_SUBSCRIPTIONS\<close>
        by (simp add: ndb_subscribe_def Let_def boxes_def)
    next
      case True
      have g: "group_ready grp"
        using group_add_filters_ready[OF fs, of ndb_filter_group_init malloc_ok grp] Pair True
        by (simp add: ndb_filter_group_init_def group_ready_def)
      obtain q where q: "prot_queue_init buf (word_of_nat (8 * DEFAULT_QUEUE_SIZE)) 8 = Some q" "inbox_wf q" "pending q = []"
        using inbox_init[OF buf] unfolding ok_iff by blast
      let ?s = "\<lparr>sub_id = mo_subids m + 1, sub_group = grp, sub_inbox = q\<rparr>"
      let ?m = "m\<lparr>mo_subids := mo_subids m + 1, mo_subscriptions := mo_subscriptions m @ [?s]\<rparr>"
      have fresh: "mo_subids m + 1 \<notin> sub_id ` set (mo_subscriptions m)" using wf lt by (auto simp: monitor_wf_def)
      then have "monitor_wf ?m" using wf1 g q(2) c0 False by (auto simp: monitor_wf_def)
      moreover have "boxes ?m = (boxes m)(mo_subids m + 1 \<mapsto> (grp, []))"
        using fresh q(3) boxes_None[of m "mo_subids m + 1"]
        by (auto simp: boxes_def map_add_def fun_eq_iff split: option.splits)
      moreover have "ndb_subscribe malloc_ok buf m fs = Some (mo_subids m + 1, ?m)"
        using Pair True q(1) False by (simp add: ndb_subscribe_def Let_def)
      ultimately show ?thesis using fresh Pair True c0 by (auto simp: boxes_None ndb_filter_group_init_def)
    qed
  qed
qed

section \<open>Mailboxes\<close>

text \<open>
  The interface between the writer and the pollers, without queues, groups of filters or
  locks: named boxes of bounded size, into which written items are put as far as they match and there
  is room, and out of which they are taken in order.
\<close>

datatype ('i, 'g, 'w, 'v) mail_event = Opened 'i 'g | Written "'w list" | Taken 'i "'v list" | Closed 'i | Unchanged

inductive steps :: "('m \<Rightarrow> 'e \<Rightarrow> 'm \<Rightarrow> bool) \<Rightarrow> 'm \<Rightarrow> 'e list \<Rightarrow> 'm \<Rightarrow> bool" for step where
  none: "steps step m [] m"
| more: "step m e m1 \<Longrightarrow> steps step m1 es m2 \<Longrightarrow> steps step m (e # es) m2"

inductive_cases steps_Cons: "steps step m (e # es) m2"
inductive_simps steps_Nil [simp]: "steps step m [] m2"

lemma steps_inv: "steps step m es m' \<Longrightarrow> (\<And>m e m'. P m \<Longrightarrow> step m e m' \<Longrightarrow> P m') \<Longrightarrow> P m \<Longrightarrow> P m'"
  by (induction rule: steps.induct) auto

fun taken :: "'i \<Rightarrow> ('i, 'g, 'w, 'v) mail_event list \<Rightarrow> 'v list" where
  "taken i [] = []"
| "taken i (Taken j xs # es) = (if i = j then xs @ taken i es else taken i es)"
| "taken i (_ # es) = taken i es"

fun sent :: "('w list \<Rightarrow> 'v list) \<Rightarrow> ('i, 'g, 'w, 'v) mail_event list \<Rightarrow> 'v list" where
  "sent pick [] = []"
| "sent pick (Written ws # es) = pick ws @ sent pick es"
| "sent pick (_ # es) = sent pick es"

locale mailboxes =
  fixes good :: "'m \<Rightarrow> bool"
    and box :: "'m \<Rightarrow> 'i \<Rightarrow> ('g \<times> 'v list) option"
    and pick :: "'g \<Rightarrow> 'w list \<Rightarrow> 'v list"
    and room :: nat
    and step :: "'m \<Rightarrow> ('i, 'g, 'w, 'v) mail_event \<Rightarrow> 'm \<Rightarrow> bool"
  assumes good_step: "good m \<Longrightarrow> step m e m' \<Longrightarrow> good m'"
    and open_law: "good m \<Longrightarrow> step m (Opened i g) m' \<Longrightarrow> box m i = None \<and> box m' = (box m)(i \<mapsto> (g, []))"
    and write_law: "good m \<Longrightarrow> step m (Written ws) m' \<Longrightarrow>
      box m' i = map_option (\<lambda>(g, p). (g, take room (p @ pick g ws))) (box m i)"
    and take_law: "good m \<Longrightarrow> step m (Taken i xs) m' \<Longrightarrow>
      (case box m i of None \<Rightarrow> box m' = box m | Some (g, p) \<Rightarrow> \<exists>p'. p = xs @ p' \<and> box m' = (box m)(i \<mapsto> (g, p')))"
    and close_law: "good m \<Longrightarrow> step m (Closed i) m' \<Longrightarrow> box m' = (box m)(i := None)"
    and skip_law: "good m \<Longrightarrow> step m Unchanged m' \<Longrightarrow> box m' = box m"
begin

lemma box_step:
  assumes "good m" "step m e m'" "box m i = Some (g, p)" "e \<noteq> Closed i"
  obtains p' where "box m' i = Some (g, p')" "taken i [e] @ p' = take room (p @ sent (pick g) [e]) \<or> taken i [e] @ p' = p @ sent (pick g) [e]"
proof (cases e)
  case (Opened j h)
  then show ?thesis using open_law[of m j h m'] assms that by (cases "i = j") auto
next
  case (Written ws)
  then show ?thesis using write_law[of m ws m' i] assms that by auto
next
  case (Taken j xs)
  then show ?thesis using take_law[of m j xs m'] assms that by (cases "i = j") (auto split: option.splits)
next
  case (Closed j)
  then show ?thesis using close_law[of m j m'] assms that by auto
next
  case Unchanged
  then show ?thesis using skip_law[of m m'] assms that by auto
qed

lemma taken_Cons: "taken i (e # es) = taken i [e] @ taken i es"
  by (cases e) auto

lemma sent_Cons: "sent f (e # es) = sent f [e] @ sent f es"
  by (cases e) auto

lemma mail_delivered:
  "steps step m es m' \<Longrightarrow> good m \<Longrightarrow> box m i = Some (g, p) \<Longrightarrow> Closed i \<notin> set es \<Longrightarrow>
   \<exists>p'. box m' i = Some (g, p') \<and> subseq (taken i es @ p') (p @ sent (pick g) es) \<and>
     (length (p @ sent (pick g) es) \<le> room \<longrightarrow> taken i es @ p' = p @ sent (pick g) es)"
proof (induction arbitrary: p rule: steps.induct)
  case (none m)
  then show ?case by simp
next
  case (more m e m1 es m2)
  obtain p1 where p1: "box m1 i = Some (g, p1)"
    "taken i [e] @ p1 = take room (p @ sent (pick g) [e]) \<or> taken i [e] @ p1 = p @ sent (pick g) [e]"
    using box_step[OF more.prems(1) more.hyps(1) more.prems(2)] more.prems(3) by auto
  obtain p' where p': "box m2 i = Some (g, p')" "subseq (taken i es @ p') (p1 @ sent (pick g) es)"
    "length (p1 @ sent (pick g) es) \<le> room \<longrightarrow> taken i es @ p' = p1 @ sent (pick g) es"
    using more.IH[OF good_step[OF more.prems(1) more.hyps(1)] p1(1)] more.prems(3) by auto
  let ?all = "p @ sent (pick g) [e] @ sent (pick g) es"
  have "subseq (taken i [e] @ taken i es @ p') (taken i [e] @ p1 @ sent (pick g) es)"
    by (intro list_emb_append_mono p'(2)) simp
  moreover have "subseq (taken i [e] @ p1) (p @ sent (pick g) [e])" using p1(2) by (metis prefix_imp_subseq subseq_order.order_refl take_is_prefix)
  then have "subseq ((taken i [e] @ p1) @ sent (pick g) es) ((p @ sent (pick g) [e]) @ sent (pick g) es)"
    by (rule list_emb_append_mono) simp
  ultimately have s: "subseq (taken i [e] @ taken i es @ p') ?all" by (simp add: subseq_order.order_trans)
  have "taken i [e] @ taken i es @ p' = ?all" if l: "length ?all \<le> room"
  proof -
    have a: "taken i [e] @ p1 = p @ sent (pick g) [e]" using p1(2) l by auto
    have "length (taken i [e]) + length p1 = length p + length (sent (pick g) [e])" using arg_cong[OF a, of length] by (simp only: length_append)
    then have "length (p1 @ sent (pick g) es) \<le> room" using l by simp
    then show ?thesis using p'(3) a by (metis append.assoc)
  qed
  then show ?case using s p'(1) by (simp add: taken_Cons[of i e es] sent_Cons[of _ e es])
qed

end

section \<open>The monitor is a system of mailboxes\<close>

type_synonym monitor_event = "(u64, ndb_filter option list, written_note, u64) mail_event"

text \<open>The calls of the program on the monitor, in any order, with what they return.\<close>

inductive mon_step :: "(u8 list \<Rightarrow> ndb_note \<Rightarrow> bool) \<Rightarrow> ndb_monitor \<Rightarrow> monitor_event \<Rightarrow> ndb_monitor \<Rightarrow> bool" for cb where
  subscribe: "ndb_subscribe malloc_ok buf m fs = Some (sid, m') \<Longrightarrow> \<forall>f\<in>set fs. filter_ready f \<and> 0 \<le> f_elem_cap f \<Longrightarrow>
    length buf = 8 * DEFAULT_QUEUE_SIZE \<Longrightarrow> mo_subids m \<noteq> - 1 \<Longrightarrow> sid \<noteq> 0 \<Longrightarrow>
    ndb_filter_group_add_filters malloc_ok [] fs = (r, grp) \<Longrightarrow> mon_step cb m (Opened sid grp) m'"
| rejected: "ndb_subscribe malloc_ok buf m fs = Some (0, m') \<Longrightarrow> \<forall>f\<in>set fs. filter_ready f \<and> 0 \<le> f_elem_cap f \<Longrightarrow>
    length buf = 8 * DEFAULT_QUEUE_SIZE \<Longrightarrow> mo_subids m \<noteq> - 1 \<Longrightarrow> mon_step cb m Unchanged m'"
| notify: "ndb_notify_subscriptions cb m ws = Some (called, m') \<Longrightarrow> \<forall>w\<in>set ws. note_wf (wn_note w) \<Longrightarrow> mon_step cb m (Written ws) m'"
| poll: "ndb_poll_for_notes m sid (int mx) = Some (ids, m') \<Longrightarrow> mon_step cb m (Taken sid ids) m'"
| wait: "ndb_wait_for_notes m sid (int mx) = Some (Some (ids, m')) \<Longrightarrow> mon_step cb m (Taken sid ids) m'"
| unsubscribe: "ndb_unsubscribe m sid = (r, m') \<Longrightarrow> mon_step cb m (Closed sid) m'"

inductive_cases mon_opened: "mon_step cb m (Opened sid grp) m'"
inductive_cases mon_written: "mon_step cb m (Written ws) m'"
inductive_cases mon_taken: "mon_step cb m (Taken sid ids) m'"
inductive_cases mon_closed: "mon_step cb m (Closed sid) m'"
inductive_cases mon_unchanged: "mon_step cb m Unchanged m'"

lemma mon_step_wf: "mon_step cb m e m' \<Longrightarrow> monitor_wf m \<Longrightarrow> monitor_wf m'"
proof (induction rule: mon_step.induct)
  case (subscribe malloc_ok buf m fs sid m' r grp)
  from ok_D[OF subscribe_spec[OF subscribe.prems subscribe.hyps(2-4)] subscribe.hyps(1)] show ?case by simp
next
  case (rejected malloc_ok buf m fs m')
  from ok_D[OF subscribe_spec[OF rejected.prems rejected.hyps(2-4)] rejected.hyps(1)] show ?case by simp
next
  case (notify m ws called m')
  from ok_D[OF notify_spec[OF notify.prems notify.hyps(2)] notify.hyps(1)] show ?case by simp
next
  case (poll m sid mx ids m')
  from ok_D[OF poll_spec[OF poll.prems] poll.hyps(1)] show ?case by simp
next
  case (wait m sid mx ids m')
  from ok_D[OF wait_spec[OF wait.prems] wait.hyps(1)] show ?case by simp
next
  case (unsubscribe m sid r m')
  from unsubscribe_spec[OF unsubscribe.prems unsubscribe.hyps(1)] show ?case by simp
qed

lemma polled_box:
  "polled m sid mx ids m' \<Longrightarrow>
   (case boxes m sid of None \<Rightarrow> boxes m' = boxes m | Some (grp, p) \<Rightarrow> \<exists>p'. p = ids @ p' \<and> boxes m' = (boxes m)(sid \<mapsto> (grp, p')))"
  by (auto simp: polled_def split: option.splits)

interpretation mon: mailboxes monitor_wf boxes "hit_ids cb" DEFAULT_QUEUE_SIZE "mon_step cb" for cb
proof unfold_locales
  show "monitor_wf m'" if "monitor_wf m" "mon_step cb m e m'" for m e m' cb
    using mon_step_wf that by blast
  show "boxes m i = None \<and> boxes m' = (boxes m)(i \<mapsto> (g, []))" if "monitor_wf m" "mon_step cb m (Opened i g) m'" for m i g m' cb
    using that(2)
    by (rule mon_opened) (use ok_D[OF subscribe_spec[OF that(1)]] in force)
  show "boxes m' i = map_option (\<lambda>(g, p). (g, take DEFAULT_QUEUE_SIZE (p @ hit_ids cb g ws))) (boxes m i)"
    if "monitor_wf m" "mon_step cb m (Written ws) m'" for m ws m' i cb
    using that(2)
    by (rule mon_written) (use ok_D[OF notify_spec[OF that(1)]] in \<open>fastforce simp: deliver_def\<close>)
  show "case boxes m i of None \<Rightarrow> boxes m' = boxes m | Some (g, p) \<Rightarrow> \<exists>p'. p = xs @ p' \<and> boxes m' = (boxes m)(i \<mapsto> (g, p'))"
    if "monitor_wf m" "mon_step cb m (Taken i xs) m'" for m i xs m' cb
    using that(2)
  proof (rule mon_taken)
    fix mx assume "ndb_poll_for_notes m i (int mx) = Some (xs, m')"
    from ok_D[OF poll_spec[OF that(1)] this] polled_box show ?thesis by blast
  next
    fix mx assume "ndb_wait_for_notes m i (int mx) = Some (Some (xs, m'))"
    from ok_D[OF wait_spec[OF that(1)] this] polled_box[of m i mx xs m'] show ?thesis by simp
  qed
  show "boxes m' = (boxes m)(i := None)" if "monitor_wf m" "mon_step cb m (Closed i) m'" for m i m' cb
    using that(2) by (rule mon_closed) (use unsubscribe_spec[OF that(1)] in blast)
  show "boxes m' = boxes m" if "monitor_wf m" "mon_step cb m Unchanged m'" for m m' cb
    using that(2)
    by (rule mon_unchanged) (use ok_D[OF subscribe_spec[OF that(1)]] in force)
qed

lemma monitor_init_wf: "monitor_wf (ndb_monitor_init has_cb)"
  by (simp add: monitor_wf_def ndb_monitor_init_def)

lemma monitor_reach_wf: "steps (mon_step cb) (ndb_monitor_init has_cb) es m \<Longrightarrow> monitor_wf m"
  by (rule steps_inv[where P = monitor_wf]) (use mon_step_wf monitor_init_wf in blast)+

section \<open>The properties\<close>

text \<open>The keys of the written notes that one of the filters asks for; no filter asks for everything.\<close>

definition wanted :: "(u8 list \<Rightarrow> ndb_note \<Rightarrow> bool) \<Rightarrow> ndb_filter list \<Rightarrow> written_note list \<Rightarrow> u64 list" where
  "wanted cb fs ws = map wn_note_id (filter (\<lambda>w. fs = [] \<or> (\<exists>f\<in>set fs. filter_hits cb (wn_note w) f)) ws)"

lemma group_add_filters_clones:
  "ndb_filter_group_add_filters malloc_ok grp fs = (True, grp') \<Longrightarrow>
   \<exists>cs. grp' = grp @ map Some cs \<and> list_all2 (\<lambda>f c. f_fields c = f_fields f \<and> f_data c = f_data f) fs cs"
proof (induction fs arbitrary: grp)
  case (Cons f fs)
  then obtain c where c: "ndb_filter_clone malloc_ok f = Some c" "ndb_filter_group_add_filters malloc_ok (grp @ [Some c]) fs = (True, grp')"
    by (auto simp: ndb_filter_group_add_def Let_def split: if_splits)
  have "f_fields c = f_fields f \<and> f_data c = f_data f" using c(1) by (auto simp: ndb_filter_clone_def split: if_splits)
  moreover obtain cs where "grp' = (grp @ [Some c]) @ map Some cs" "list_all2 (\<lambda>f c. f_fields c = f_fields f \<and> f_data c = f_data f) fs cs"
    using Cons.IH[OF c(2)] by blast
  ultimately show ?case by (intro exI[of _ "c # cs"]) simp
qed simp

lemma clones_wanted:
  assumes "ndb_filter_group_add_filters malloc_ok [] fs = (True, grp)"
  shows "hit_ids cb grp = wanted cb fs"
proof -
  obtain cs where cs: "grp = map Some cs" "list_all2 (\<lambda>f c. f_fields c = f_fields f \<and> f_data c = f_data f) fs cs"
    using group_add_filters_clones[OF assms] by auto
  have "(\<exists>c\<in>set cs. filter_hits cb n c) = (\<exists>f\<in>set fs. filter_hits cb n f)" for n
    using cs(2) by (induction rule: list_all2_induct) (auto simp: filter_hits_def)
  moreover have "cs = [] \<longleftrightarrow> fs = []" using cs(2) by auto
  ultimately have "group_hits cb grp n = (fs = [] \<or> (\<exists>f\<in>set fs. filter_hits cb n f))" for n
    unfolding group_hits_def cs(1) by auto
  then show ?thesis by (simp add: hit_ids_def wanted_def fun_eq_iff)
qed

text \<open>
  C37 A subscriber gets its notes: after \<open>ndb_subscribe\<close> has returned an identifier, whatever the
  threads call next, as long as nobody unsubscribes it, the keys handed out by polling and waiting
  followed by those still in its inbox are, in order and without repetition, keys of the written
  notes that match one of the filters; and they are all of them if there are at most 32768.
\<close>

theorem subscription_delivers:
  assumes "monitor_wf m" "\<forall>f\<in>set fs. filter_ready f \<and> 0 \<le> f_elem_cap f" "length buf = 8 * 32768" "mo_subids m \<noteq> - 1"
    and "ndb_subscribe malloc_ok buf m fs = Some (sid, m1)" "sid \<noteq> 0"
    and "steps (mon_step cb) m1 es m2" "Closed sid \<notin> set es"
  shows "\<exists>grp rest. boxes m2 sid = Some (grp, rest) \<and> subseq (taken sid es @ rest) (sent (wanted cb fs) es) \<and>
    (length (sent (wanted cb fs) es) \<le> 32768 \<longrightarrow> taken sid es @ rest = sent (wanted cb fs) es)"
proof -
  have s: "monitor_wf m1" "\<exists>grp. ndb_filter_group_add_filters malloc_ok [] fs = (True, grp) \<and> boxes m1 = (boxes m)(sid \<mapsto> (grp, []))"
    using ok_D[OF subscribe_spec[OF assms(1-4)] assms(5)] assms(6) by auto
  then obtain grp where grp: "ndb_filter_group_add_filters malloc_ok [] fs = (True, grp)" "boxes m1 sid = Some (grp, [])" by auto
  from mon.mail_delivered[OF assms(7) s(1) grp(2) assms(8)] show ?thesis
    by (intro exI[of _ grp]) (simp add: clones_wanted[OF grp(1)])
qed

theorem subscription_delivers_witness:
  "\<exists>sid m1 called m2 ids m3. let f = \<lparr>f_fields = [\<lparr>fe_type = NDB_FILTER_KINDS, fe_elem_type = NDB_ELEMENT_INT, fe_tag = 0, fe_elements = [1, 7]\<rparr>],
        f_current = No_Field, f_alloc = True, f_elem_used = 32, f_elem_cap = 32, f_data = [], f_data_cap = 0, f_finalized = True\<rparr>;
      n = \<lambda>kind. \<lparr>nt_id = replicate 32 1, nt_pubkey = replicate 32 2, nt_created_at = 150, nt_kind = kind, nt_tags = []\<rparr> in
     ndb_subscribe True (replicate 262144 0) (ndb_monitor_init False) [f] = Some (sid, m1) \<and>
     ndb_notify_subscriptions (\<lambda>_ _. False) m1 [\<lparr>wn_note_id = 5, wn_note = n 3\<rparr>, \<lparr>wn_note_id = 6, wn_note = n 7\<rparr>] = Some (called, m2) \<and>
     ndb_poll_for_notes m2 sid 10 = Some (ids, m3) \<and> (\<exists>grp rest. boxes m3 sid = Some (grp, rest) \<and> ids @ rest = [6])"
proof -
  define f :: ndb_filter where "f = \<lparr>f_fields = [\<lparr>fe_type = NDB_FILTER_KINDS, fe_elem_type = NDB_ELEMENT_INT, fe_tag = 0, fe_elements = [1, 7]\<rparr>],
        f_current = No_Field, f_alloc = True, f_elem_used = 32, f_elem_cap = 32, f_data = [], f_data_cap = 0, f_finalized = True\<rparr>"
  define n :: "u32 \<Rightarrow> ndb_note" where "n = (\<lambda>kind. \<lparr>nt_id = replicate 32 1, nt_pubkey = replicate 32 2, nt_created_at = 150, nt_kind = kind, nt_tags = []\<rparr>)"
  let ?ws = "[\<lparr>wn_note_id = 5, wn_note = n 3\<rparr>, \<lparr>wn_note_id = 6, wn_note = n 7\<rparr>]" and ?cb = "\<lambda>_ _. False"
  have f: "\<forall>g\<in>set [f]. filter_ready g \<and> 0 \<le> f_elem_cap g"
    by (simp add: filter_ready_def f_def filter_wf_def closed_wf_def open_wf_def sorted_field_def one_value_def field_ready_def)
  have b: "length (replicate 262144 0 :: u8 list) = 8 * 32768" by simp
  have c: "mo_subids (ndb_monitor_init False) \<noteq> - 1" by (simp add: ndb_monitor_init_def)
  have n: "\<forall>w\<in>set ?ws. note_wf (wn_note w)" by (simp add: note_wf_def n_def)
  obtain sid m1 where s: "ndb_subscribe True (replicate 262144 0) (ndb_monitor_init False) [f] = Some (sid, m1)" "monitor_wf m1"
    using subscribe_spec[OF monitor_init_wf f b c, of True] unfolding ok_iff by blast
  have "sid = 1" using s(1)
    by (auto simp: ndb_subscribe_def ndb_monitor_init_def Let_def ndb_filter_group_init_def ndb_filter_group_add_def ndb_filter_clone_def f_def bind_eq_Some)
  then have sid: "sid \<noteq> 0" by simp
  obtain called m2 where m2: "ndb_notify_subscriptions ?cb m1 ?ws = Some (called, m2)" "monitor_wf m2"
    using notify_spec[OF s(2) n, of ?cb] unfolding ok_iff by blast
  obtain ids m3 where m3: "ndb_poll_for_notes m2 sid (int 10) = Some (ids, m3)"
    using poll_spec[OF m2(2), of sid 10] unfolding ok_iff by blast
  have run: "steps (mon_step ?cb) m1 [Written ?ws, Taken sid ids] m3"
    by (rule steps.more[of "mon_step ?cb", OF mon_step.notify[OF m2(1) n] steps.more[of "mon_step ?cb", OF mon_step.poll[OF m3] steps.none]])
  have "\<exists>grp rest. boxes m3 sid = Some (grp, rest) \<and> subseq (ids @ rest) [6] \<and> ids @ rest = [6]"
    using subscription_delivers[OF monitor_init_wf f b c s(1) sid run]
    by (simp add: wanted_def filter_hits_def f_def n_def abs_field_def)
  then show ?thesis using s(1) m2(1) m3 unfolding Let_def f_def[symmetric] n_def[symmetric] by auto
qed



text \<open>
  Unsubscribing removes the subscription and no other; its identifier is not handed out again, since
  the counter only grows.
\<close>

lemma unsubscribed_gone:
  assumes "monitor_wf m" "ndb_unsubscribe m sid = (r, m1)"
  shows "ndb_poll_for_notes m1 sid (int mx) = Some ([], m1)" "other \<noteq> sid \<Longrightarrow> boxes m1 other = boxes m other"
proof -
  have u: "monitor_wf m1" "boxes m1 = (boxes m)(sid := None)" using unsubscribe_spec[OF assms] by auto
  then show "ndb_poll_for_notes m1 sid (int mx) = Some ([], m1)"
    using find_subscription[of m1 sid] by (simp add: ndb_poll_for_notes_def)
  show "boxes m1 other = boxes m other" if "other \<noteq> sid" using u that by simp
qed

text \<open>
  A filter with relays in a subscription: the notification has no relays to compare with, and the
  assertion in \<open>ndb_filter_matches_with\<close> aborts the program.
\<close>

lemma relay_subscription_aborts:
  assumes "mo_subscriptions m = [s]" "sub_group s = [Some f]" "f_fields f = [els]" "fe_type els = NDB_FILTER_RELAYS"
  shows "ndb_notify_subscriptions cb m (w # ws) = None"
  using assms by (simp add: ndb_notify_subscriptions_def ndb_filter_group_matches_def ndb_filter_matches_def
    ndb_filter_matches_with_def field_matches_def)

end
