(* ===== verification/Binmoji.thy ===== *)
theory Binmoji
  imports Prelude
begin

text \<open>
  Emoji in 64 bits, \<open>src/src/binmoji.c\<close>: the first code point, a hash of the others, and the skin tones.
  A text is the list of the bytes from its start to the end of the memory that may be read, its NUL
  included; a read behind that is undefined. The table of hashes is generated and is an argument.
\<close>

section \<open>Data and hash\<close>

record binmoji =
  bj_primary_codepoint :: u32
  bj_component_list :: "u32 list"
  bj_component_hash :: u32
  bj_skin_tone1 :: u8
  bj_skin_tone2 :: u8
  bj_flags :: u8

type_synonym hash_table = "(u32 \<times> u32 list) list"

definition crc32_bit :: "u32 \<Rightarrow> u32 \<Rightarrow> nat \<Rightarrow> u32" where
  "crc32_bit item crc j =
     (let b = drop_bit (31 - j) item AND 1 in
      if drop_bit 31 crc XOR b \<noteq> 0 then push_bit 1 crc XOR 0x04C11DB7 else push_bit 1 crc)"

definition crc32 :: "u32 list \<Rightarrow> u32" where
  "crc32 data =
     (if data = [] then 0
      else foldl (\<lambda>crc item. foldl (crc32_bit item) crc [0..<32]) 0xFFFFFFFF data)"

section \<open>Parsing\<close>

definition is_base_emoji :: "u32 \<Rightarrow> bool" where
  "is_base_emoji codepoint =
     (if 0x1F3FB \<le> codepoint \<and> codepoint \<le> 0x1F3FF then False
      else if codepoint = 0x200D then False else True)"

definition low6 :: "u8 \<Rightarrow> u32" where
  "low6 b = ucast (b AND 0x3F)"

text \<open>The code point at the start of the text and its length; a byte that starts none is skipped.\<close>

definition codepoint_at :: "u8 list \<Rightarrow> (nat \<times> u32) option option" where
  "codepoint_at s =
     (case s of
        [] \<Rightarrow> None
      | a # r \<Rightarrow>
          if a < 0x80 then Some (Some (1, ucast a))
          else if a AND 0xE0 = 0xC0 then
            (case r of b # _ \<Rightarrow> Some (Some (2, push_bit 6 (ucast (a AND 0x1F)) OR low6 b)) | _ \<Rightarrow> None)
          else if a AND 0xF0 = 0xE0 then
            (case r of b # c # _ \<Rightarrow> Some (Some (3, push_bit 12 (ucast (a AND 0x0F)) OR push_bit 6 (low6 b) OR low6 c)) | _ \<Rightarrow> None)
          else if a AND 0xF8 = 0xF0 then
            (case r of b # c # d # _ \<Rightarrow>
                Some (Some (4, push_bit 18 (ucast (a AND 0x07)) OR push_bit 12 (low6 b) OR push_bit 6 (low6 c) OR low6 d))
             | _ \<Rightarrow> None)
          else Some None)"

definition binmoji_add :: "u32 \<Rightarrow> binmoji \<Rightarrow> binmoji" where
  "binmoji_add codepoint bj =
     (if 0x1F3FB \<le> codepoint \<and> codepoint \<le> 0x1F3FF then
        let tone_val = ucast (codepoint - 0x1F3FB) + 1 in
        if bj_skin_tone1 bj = 0 then bj\<lparr>bj_skin_tone1 := tone_val\<rparr>
        else if bj_skin_tone2 bj = 0 then bj\<lparr>bj_skin_tone2 := tone_val\<rparr> else bj
      else if is_base_emoji codepoint then
        if bj_primary_codepoint bj = 0 then bj\<lparr>bj_primary_codepoint := codepoint\<rparr>
        else if length (bj_component_list bj) < 16 then bj\<lparr>bj_component_list := bj_component_list bj @ [codepoint]\<rparr>
        else bj
      else bj)"

definition binmoji_zero :: binmoji where
  "binmoji_zero = \<lparr>bj_primary_codepoint = 0, bj_component_list = [], bj_component_hash = 0, bj_skin_tone1 = 0, bj_skin_tone2 = 0, bj_flags = 0\<rparr>"

lemma codepoint_at_advances: "codepoint_at s = Some (Some (n, c)) \<Longrightarrow> 1 \<le> n \<and> s \<noteq> []"
  by (auto simp: codepoint_at_def split: list.splits if_splits)

function parse_codepoints :: "u8 list \<Rightarrow> binmoji \<Rightarrow> binmoji option" where
  "parse_codepoints s bj =
     (case s of
        [] \<Rightarrow> None
      | a # r \<Rightarrow>
          if a = 0 then Some bj
          else (case codepoint_at s of
              None \<Rightarrow> None
            | Some None \<Rightarrow> parse_codepoints r bj
            | Some (Some (n, c)) \<Rightarrow> parse_codepoints (drop n s) (binmoji_add c bj)))"
  by pat_completeness auto
termination
  by (relation "measure (\<lambda>(s, b). length s)") (auto dest: codepoint_at_advances)

declare parse_codepoints.simps [simp del]

definition binmoji_parse :: "u8 list \<Rightarrow> binmoji option" where
  "binmoji_parse s =
     map_option (\<lambda>bj. bj\<lparr>bj_component_hash := crc32 (bj_component_list bj)\<rparr>) (parse_codepoints s binmoji_zero)"

section \<open>The 64-bit form\<close>

definition binmoji_encode :: "binmoji \<Rightarrow> u64" where
  "binmoji_encode bj =
     push_bit 42 (ucast (bj_primary_codepoint bj AND 0x3FFFFF)) OR
     push_bit 10 (ucast (bj_component_hash bj AND 0xFFFFFFFF)) OR
     push_bit 7 (ucast (bj_skin_tone1 bj AND 0x7)) OR
     push_bit 4 (ucast (bj_skin_tone2 bj AND 0x7)) OR
     push_bit 0 (ucast (bj_flags bj AND 0xF))"

text \<open>\<open>bsearch\<close> in the table, which is sorted by hash.\<close>

definition lookup_binmoji_by_hash :: "hash_table \<Rightarrow> u32 \<Rightarrow> u32 list option" where
  "lookup_binmoji_by_hash table h = map_of table h"

definition binmoji_decode :: "hash_table \<Rightarrow> u64 \<Rightarrow> binmoji" where
  "binmoji_decode table id' =
     (let h = ucast (drop_bit 10 id' AND 0xFFFFFFFF) in
      \<lparr>bj_primary_codepoint = ucast (drop_bit 42 id' AND 0x3FFFFF),
       bj_component_list = (if h \<noteq> 0 then (case lookup_binmoji_by_hash table h of None \<Rightarrow> [] | Some cs \<Rightarrow> cs) else []),
       bj_component_hash = h,
       bj_skin_tone1 = ucast (drop_bit 7 id' AND 0x7),
       bj_skin_tone2 = ucast (drop_bit 4 id' AND 0x7),
       bj_flags = ucast (drop_bit 0 id' AND 0xF)\<rparr>)"

definition USER_FLAG_MASK :: u64 where
  "USER_FLAG_MASK = push_bit 3 1"

definition binmoji_set_user_flag :: "u64 \<Rightarrow> bool \<Rightarrow> u64" where
  "binmoji_set_user_flag bj enable = (if enable then bj OR USER_FLAG_MASK else bj AND NOT USER_FLAG_MASK)"

definition binmoji_get_user_flag :: "u64 \<Rightarrow> bool" where
  "binmoji_get_user_flag bj \<longleftrightarrow> bj AND USER_FLAG_MASK = USER_FLAG_MASK"

section \<open>Back to text\<close>

definition utf8_bytes :: "u32 \<Rightarrow> u8 list" where
  "utf8_bytes c =
     (if c < 0x80 then [ucast c]
      else if c < 0x800 then [0xC0 OR ucast (drop_bit 6 c), 0x80 OR ucast (c AND 0x3F)]
      else if c < 0x10000 then [0xE0 OR ucast (drop_bit 12 c), 0x80 OR ucast (drop_bit 6 c AND 0x3F), 0x80 OR ucast (c AND 0x3F)]
      else [0xF0 OR ucast (drop_bit 18 c), 0x80 OR ucast (drop_bit 12 c AND 0x3F), 0x80 OR ucast (drop_bit 6 c AND 0x3F), 0x80 OR ucast (c AND 0x3F)])"

text \<open>The output is what was written so far; a code point that does not fit is left out.\<close>

definition append_utf8 :: "nat \<Rightarrow> u8 list \<Rightarrow> u32 \<Rightarrow> u8 list" where
  "append_utf8 buf_size out codepoint =
     (if codepoint \<ge> 0x110000 then out
      else if length out + length (utf8_bytes codepoint) \<ge> buf_size then out
      else out @ utf8_bytes codepoint)"

fun append_components :: "nat \<Rightarrow> bool \<Rightarrow> u8 \<Rightarrow> u8 list \<Rightarrow> u32 list \<Rightarrow> u8 list" where
  "append_components size' no_zwj tone2 out [] = out"
| "append_components size' no_zwj tone2 out (p # cs) =
     (let needs_zwj = (p \<noteq> 0xFE0F \<and> p \<noteq> 0x20E3 \<and> \<not> no_zwj);
          out = (if needs_zwj then append_utf8 size' out 0x200D else out);
          out = append_utf8 size' out p;
          out = (if cs = [] \<and> tone2 > 0 then append_utf8 size' out (0x1F3FB + ucast tone2 - 1) else out)
      in append_components size' no_zwj tone2 out cs)"

text \<open>The result is a C string: the bytes before the first NUL.\<close>

definition binmoji_to_string :: "binmoji \<Rightarrow> nat \<Rightarrow> u8 list" where
  "binmoji_to_string bj size' =
     (let cs = bj_component_list bj; p = bj_primary_codepoint bj;
          is_country_flag = (0x1F1E6 \<le> p \<and> p \<le> 0x1F1FF);
          is_subdivision_flag = (p = 0x1F3F4 \<and> cs \<noteq> [] \<and> 0xE0020 \<le> hd cs \<and> hd cs \<le> 0xE007F);
          out = (if p > 0 then append_utf8 size' [] p else []);
          out = (if bj_skin_tone1 bj > 0 then append_utf8 size' out (0x1F3FB + ucast (bj_skin_tone1 bj) - 1) else out);
          out = append_components size' (is_country_flag \<or> is_subdivision_flag) (bj_skin_tone2 bj) out cs
      in takeWhile (\<lambda>b. b \<noteq> 0) out)"

section \<open>Encoding and decoding\<close>

lemma bit_field: "n + k \<le> 64 \<Longrightarrow>
    bit (push_bit n (ucast (x AND mask k)) :: u64) i \<longleftrightarrow> n \<le> i \<and> i < n + k \<and> bit x (i - n)" for x :: "'a::len word"
  by (auto simp: bit_push_bit_iff bit_ucast_iff bit_and_iff bit_mask_iff dest: bit_imp_le_length)

lemma field_masks: "(0x3FFFFF :: u32) = mask 22" "(0xFFFFFFFF :: u32) = mask 32" "(0x7 :: u8) = mask 3" "(0xF :: u8) = mask 4"
  by (simp_all add: mask_eq_exp_minus_1)

lemma encode_bit:
  "bit (binmoji_encode bj) i \<longleftrightarrow>
     42 \<le> i \<and> i < 64 \<and> bit (bj_primary_codepoint bj) (i - 42) \<or>
     10 \<le> i \<and> i < 42 \<and> bit (bj_component_hash bj) (i - 10) \<or>
     7 \<le> i \<and> i < 10 \<and> bit (bj_skin_tone1 bj) (i - 7) \<or>
     4 \<le> i \<and> i < 7 \<and> bit (bj_skin_tone2 bj) (i - 4) \<or>
     i < 4 \<and> bit (bj_flags bj) i"
  unfolding binmoji_encode_def field_masks bit_or_iff bit_field[of 42 22, simplified] bit_field[of 10 32, simplified]
    bit_field[of 7 3, simplified] bit_field[of 4 3, simplified] by (simp add: bit_field[of 0 4, simplified])

lemma wide_masks: "(0x3FFFFF :: u64) = mask 22" "(0xFFFFFFFF :: u64) = mask 32" "(0x7 :: u64) = mask 3" "(0xF :: u64) = mask 4"
  by (simp_all add: mask_eq_exp_minus_1)

lemma bit_drop_mask: "bit (ucast (drop_bit n x AND mask k) :: 'a::len word) i \<longleftrightarrow> i < LENGTH('a) \<and> i < k \<and> bit x (n + i)" for x :: u64
  by (auto simp: bit_ucast_iff bit_and_iff bit_mask_iff bit_drop_bit_eq dest: bit_imp_le_length)

text \<open>The fields of a decoded identifier are those that were encoded, within the widths of the format.\<close>

lemma decode_encode_fields:
  shows "bj_primary_codepoint (binmoji_decode table (binmoji_encode bj)) = bj_primary_codepoint bj AND mask 22" "bj_component_hash (binmoji_decode table (binmoji_encode bj)) = bj_component_hash bj"
    "bj_skin_tone1 (binmoji_decode table (binmoji_encode bj)) = bj_skin_tone1 bj AND mask 3" "bj_skin_tone2 (binmoji_decode table (binmoji_encode bj)) = bj_skin_tone2 bj AND mask 3"
    "bj_flags (binmoji_decode table (binmoji_encode bj)) = bj_flags bj AND mask 4"
  unfolding binmoji_decode_def Let_def wide_masks binmoji.simps
  by (rule bit_word_eqI, simp only: bit_drop_mask, (auto simp: encode_bit bit_and_iff bit_mask_iff)[1])+

lemma and_mask_small: "x < 2 ^ k \<Longrightarrow> x AND mask k = x" for x :: "'a::len word"
  by (rule less_mask_eq)

definition binmoji_wf :: "hash_table \<Rightarrow> binmoji \<Rightarrow> bool" where
  "binmoji_wf table bj \<longleftrightarrow> bj_primary_codepoint bj < 2 ^ 22 \<and> bj_skin_tone1 bj < 8 \<and> bj_skin_tone2 bj < 8 \<and> bj_flags bj < 16 \<and>
     bj_component_hash bj = crc32 (bj_component_list bj) \<and>
     (if bj_component_hash bj = 0 then bj_component_list bj = [] else map_of table (bj_component_hash bj) = Some (bj_component_list bj))"

lemma decode_encode:
  assumes "binmoji_wf table bj"
  shows "binmoji_decode table (binmoji_encode bj) = bj"
proof -
  let ?r = "binmoji_decode table (binmoji_encode bj)"
  have f: "bj_primary_codepoint ?r = bj_primary_codepoint bj" "bj_component_hash ?r = bj_component_hash bj"
    "bj_skin_tone1 ?r = bj_skin_tone1 bj" "bj_skin_tone2 ?r = bj_skin_tone2 bj" "bj_flags ?r = bj_flags bj"
    using assms unfolding decode_encode_fields by (simp_all add: binmoji_wf_def and_mask_small)
  have "bj_component_list ?r = (if bj_component_hash ?r \<noteq> 0 then (case map_of table (bj_component_hash ?r) of None \<Rightarrow> [] | Some cs \<Rightarrow> cs) else [])"
    by (simp add: binmoji_decode_def lookup_binmoji_by_hash_def Let_def)
  then have "bj_component_list ?r = bj_component_list bj" using assms f(2) by (auto simp: binmoji_wf_def)
  with f show ?thesis by simp
qed

lemma encode_user_flag: "bj_flags bj < 8 \<Longrightarrow> \<not> binmoji_get_user_flag (binmoji_encode bj)"
proof -
  assume "bj_flags bj < 8"
  then have "\<not> bit (bj_flags bj) 3" using and_mask_small[of "bj_flags bj" 3] bit_and_iff[of "bj_flags bj" "mask 3" 3] by (simp add: bit_mask_iff)
  then have "\<not> bit (binmoji_encode bj) 3" by (simp add: encode_bit)
  moreover have "bit USER_FLAG_MASK 3" by (simp add: USER_FLAG_MASK_def bit_simps)
  ultimately show ?thesis unfolding binmoji_get_user_flag_def by (metis bit_and_iff)
qed

section \<open>Code points\<close>

lemma utf8_bytes_nonzero: "0 < c \<Longrightarrow> 0 \<notin> set (utf8_bytes c)"
proof -
  have "x OR (y :: u8) \<noteq> 0" if "x \<noteq> 0" for x y :: u8
    using that by (metis or_eq_0_iff)
  moreover have "(ucast c :: u8) \<noteq> 0" if "0 < c" "c < 0x80"
  proof
    assume "(ucast c :: u8) = 0"
    then have "unat (ucast c :: u8) = 0" by simp
    then show False using that by (simp add: unsigned_ucast_eq word_less_nat_alt take_bit_nat_eq_self)
  qed
  ultimately show "0 < c \<Longrightarrow> ?thesis" by (auto simp: utf8_bytes_def)
qed

lemma byte_masks: "(0x3F :: u8) = mask 6" "(0x1F :: u8) = mask 5" "(0x0F :: u8) = mask 4" "(0x07 :: u8) = mask 3"
  by (simp_all add: mask_eq_exp_minus_1)

lemma high_bits_small: "(\<And>i. k \<le> i \<Longrightarrow> \<not> bit x i) \<Longrightarrow> k < LENGTH('a) \<Longrightarrow> x < 2 ^ k" for x :: "'a::len word"
proof -
  assume a: "\<And>i. k \<le> i \<Longrightarrow> \<not> bit x i" "k < LENGTH('a)"
  have "x = take_bit k x" by (rule bit_word_eqI) (use a(1) not_le in \<open>auto simp: bit_take_bit_iff\<close>)
  then show ?thesis using a(2) by (metis take_bit_eq_mask and_mask_less_size word_size)
qed

lemma codepoint_at_bound:
  assumes "codepoint_at s = Some (Some (n, c))"
  shows "c < 2 ^ 22"
proof (rule high_bits_small)
  fix i :: nat
  have b: "\<not> bit (ucast (a AND mask k) :: u32) j" if "k \<le> j" for a :: u8 and k j using that by (simp add: bit_simps)
  have "\<not> bit (ucast a :: u32) j" if "8 \<le> j" for a :: u8 and j using that by (auto simp: bit_ucast_iff dest: bit_imp_le_length)
  then show "\<not> bit c i" if "22 \<le> i" using assms that unfolding codepoint_at_def low6_def byte_masks
    by (auto simp: b bit_or_iff bit_push_bit_iff split: list.splits if_splits)
qed simp

lemma parse_codepoints_wf:
  "parse_codepoints s bj = Some bj' \<Longrightarrow> bj_primary_codepoint bj < 2 ^ 22 \<and> bj_skin_tone1 bj < 8 \<and> bj_skin_tone2 bj < 8 \<and> bj_flags bj = 0 \<Longrightarrow>
   bj_primary_codepoint bj' < 2 ^ 22 \<and> bj_skin_tone1 bj' < 8 \<and> bj_skin_tone2 bj' < 8 \<and> bj_flags bj' = 0"
proof (induction s bj rule: parse_codepoints.induct)
  case (1 s bj)
  have tone: "(ucast (c - 0x1F3FB) + 1 :: u8) < 8" if "0x1F3FB \<le> c" "c \<le> 0x1F3FF" for c :: u32
  proof -
    have "unat (c - 0x1F3FB) = unat c - 0x1F3FB" using that(1) by (simp add: unat_sub)
    then have u: "unat (c - 0x1F3FB) \<le> 4" using that(2) by (simp add: word_le_nat_alt)
    then have "unat (ucast (c - 0x1F3FB) :: u8) \<le> 4" by (simp add: unsigned_ucast_eq take_bit_nat_eq_self)
    then have "unat (ucast (c - 0x1F3FB) + 1 :: u8) \<le> 5" by (simp add: unat_word_ariths)
    then show ?thesis by (simp add: word_less_nat_alt)
  qed
  show ?case
  proof (cases s)
    case Nil
    then show ?thesis using 1(3) by (simp add: parse_codepoints.simps)
  next
    case (Cons a r)
    show ?thesis
    proof (cases "a = 0 \<or> codepoint_at s = None \<or> codepoint_at s = Some None")
      case True
      then show ?thesis using 1(1)[of a r] 1(3,4) Cons by (auto simp: parse_codepoints.simps[of "a # r"] split: if_splits)
    next
      case False
      then obtain n c where c: "codepoint_at s = Some (Some (n, c))" by auto
      have "bj_primary_codepoint (binmoji_add c bj) < 2 ^ 22 \<and> bj_skin_tone1 (binmoji_add c bj) < 8 \<and> bj_skin_tone2 (binmoji_add c bj) < 8 \<and> bj_flags (binmoji_add c bj) = 0"
        using 1(4) codepoint_at_bound[OF c] tone[of c] by (auto simp: binmoji_add_def Let_def)
      then show ?thesis using 1(2)[OF Cons _ c] False 1(3) c Cons by (auto simp: parse_codepoints.simps[of "a # r"])
    qed
  qed
qed

lemma append_utf8_longer: "length out \<le> length (append_utf8 n out c)"
  by (simp add: append_utf8_def)

lemma append_components_longer: "length out \<le> length (append_components n z t out cs)"
proof (induction n z t out cs rule: append_components.induct)
  case (2 n z t out p cs)
  show ?case using 2[OF refl refl refl refl] append_utf8_longer
    by (simp add: Let_def) (smt (verit) append_utf8_longer le_trans)
qed simp

lemma append_utf8_size: "m \<le> n \<Longrightarrow> length (append_utf8 n out c) < m \<Longrightarrow> append_utf8 m out c = append_utf8 n out c"
  by (auto simp: append_utf8_def split: if_splits)

lemma append_components_size:
  "m \<le> n \<Longrightarrow> length (append_components n z t out cs) < m \<Longrightarrow> append_components m z t out cs = append_components n z t out cs"
proof (induction cs arbitrary: out)
  case (Cons p cs)
  define o1 where "o1 = (\<lambda>k. if p \<noteq> 0xFE0F \<and> p \<noteq> 0x20E3 \<and> \<not> z then append_utf8 k out 0x200D else out)"
  define o2 where "o2 = (\<lambda>k. append_utf8 k (o1 k) p)"
  define o3 where "o3 = (\<lambda>k. if cs = [] \<and> t > 0 then append_utf8 k (o2 k) (0x1F3FB + ucast t - 1) else o2 k)"
  have e: "append_components k z t out (p # cs) = append_components k z t (o3 k) cs" for k
    by (simp add: o1_def o2_def o3_def Let_def)
  have l: "length (append_components n z t (o3 n) cs) < m" using Cons.prems(2) e by simp
  then have l3: "length (o3 n) < m" using append_components_longer le_less_trans by blast
  then have l2: "length (o2 n) < m" using append_utf8_longer[of "o2 n" n "0x1F3FB + ucast t - 1"] by (auto simp: o3_def split: if_splits)
  then have l1: "length (o1 n) < m" using append_utf8_longer le_less_trans unfolding o2_def by blast
  have "o1 m = o1 n" using append_utf8_size[OF Cons.prems(1)] l1 by (auto simp: o1_def)
  then have "o2 m = o2 n" using append_utf8_size[OF Cons.prems(1)] l2 by (auto simp: o2_def)
  then have "o3 m = o3 n" using append_utf8_size[OF Cons.prems(1)] l3 by (auto simp: o3_def)
  then show ?case using Cons.IH[OF Cons.prems(1) l] unfolding e by simp
qed simp

lemma append_utf8_nonzero: "0 \<notin> set out \<Longrightarrow> 0 < c \<Longrightarrow> 0 \<notin> set (append_utf8 n out c)"
  using utf8_bytes_nonzero by (auto simp: append_utf8_def)

lemma tone_codepoint_nonzero: "t > 0 \<Longrightarrow> 0 < (0x1F3FB + ucast (t :: u8) - 1 :: u32)"
proof -
  have "unat (ucast t :: u32) \<le> 255" using unsigned_less[of t, where 'a = nat] by simp
  then have "unat (127994 + ucast t :: u32) = 127994 + unat t" by (simp add: unat_word_ariths)
  then show "0 < (0x1F3FB + ucast t - 1 :: u32)" by (simp add: word_less_nat_alt)
qed

lemma append_components_nonzero:
  "0 \<notin> set out \<Longrightarrow> 0 \<notin> set cs \<Longrightarrow> 0 \<notin> set (append_components n z t out cs)"
proof (induction cs arbitrary: out)
  case (Cons p cs)
  define o1 where "o1 = (if p \<noteq> 0xFE0F \<and> p \<noteq> 0x20E3 \<and> \<not> z then append_utf8 n out 0x200D else out)"
  define o2 where "o2 = append_utf8 n o1 p"
  define o3 where "o3 = (if cs = [] \<and> t > 0 then append_utf8 n o2 (0x1F3FB + ucast t - 1) else o2)"
  have "0 \<notin> set o1" using Cons.prems(1) by (simp add: o1_def append_utf8_nonzero)
  then have "0 \<notin> set o2" using Cons.prems(2) by (simp add: o2_def append_utf8_nonzero word_gt_0)
  then have "0 \<notin> set o3" using append_utf8_nonzero[OF _ tone_codepoint_nonzero] by (auto simp: o3_def)
  moreover have "append_components n z t out (p # cs) = append_components n z t o3 cs"
    by (simp add: o1_def o2_def o3_def Let_def)
  ultimately show ?case using Cons.IH Cons.prems(2) by simp
qed simp

text \<open>A buffer that holds the text with its NUL holds all of it, whatever its size.\<close>

lemma to_string_size:
  assumes "m \<le> n" "length (binmoji_to_string bj n) < m" "0 \<notin> set (bj_component_list bj)"
  shows "binmoji_to_string bj m = binmoji_to_string bj n"
proof -
  let ?cs = "bj_component_list bj" and ?p = "bj_primary_codepoint bj"
  define z where "z = ((0x1F1E6 \<le> ?p \<and> ?p \<le> 0x1F1FF) \<or> (?p = 0x1F3F4 \<and> ?cs \<noteq> [] \<and> 0xE0020 \<le> hd ?cs \<and> hd ?cs \<le> 0xE007F))"
  define o1 where "o1 = (\<lambda>k. if ?p > 0 then append_utf8 k [] ?p else [])"
  define o2 where "o2 = (\<lambda>k. if bj_skin_tone1 bj > 0 then append_utf8 k (o1 k) (0x1F3FB + ucast (bj_skin_tone1 bj) - 1) else o1 k)"
  define o3 where "o3 = (\<lambda>k. append_components k z (bj_skin_tone2 bj) (o2 k) ?cs)"
  have e: "binmoji_to_string bj k = takeWhile (\<lambda>b. b \<noteq> 0) (o3 k)" for k
    unfolding binmoji_to_string_def Let_def z_def o1_def o2_def o3_def by (rule refl)
  have "0 \<notin> set (o1 n)" by (simp add: o1_def append_utf8_nonzero)
  then have "0 \<notin> set (o2 n)" using tone_codepoint_nonzero[of "bj_skin_tone1 bj"] by (simp add: o2_def append_utf8_nonzero)
  then have "0 \<notin> set (o3 n)" using assms(3) by (simp add: o3_def append_components_nonzero)
  then have "takeWhile (\<lambda>b. b \<noteq> 0) (o3 n) = o3 n" by (intro takeWhile_eq_all_conv[THEN iffD2]) auto
  then have l3: "length (o3 n) < m" using assms(2) unfolding e by (simp only:)
  then have l2: "length (o2 n) < m" using append_components_longer[of "o2 n" n z "bj_skin_tone2 bj" ?cs] by (simp add: o3_def)
  then have l1: "length (o1 n) < m"
    using append_utf8_longer[of "o1 n" n "0x1F3FB + ucast (bj_skin_tone1 bj) - 1"] by (auto simp: o2_def split: if_splits)
  have "o1 m = o1 n" using append_utf8_size[OF assms(1)] l1 by (auto simp: o1_def)
  then have "o2 m = o2 n" using append_utf8_size[OF assms(1)] l2 by (auto simp: o2_def)
  then have "o3 m = o3 n" using append_components_size[OF assms(1)] l3 by (auto simp: o3_def)
  then show ?thesis using e by simp
qed

text \<open>
  A text that ends within a code point is read past its NUL: a first byte of a longer sequence
  skips the bytes after it without looking at them.
\<close>

lemma truncated_text_read_past_nul: "binmoji_parse [0xE2, 0] = None"
  by (simp add: binmoji_parse_def parse_codepoints.simps codepoint_at_def)

end
