(* ===== verification/Note_Meta.thy ===== *)
theory Note_Meta
  imports Binmoji Note_Store Bolt11
begin

text \<open>
  Metadata of notes, \<open>src/src/metadata.c\<close>, and the counters kept in it by \<open>src/src/nostrdb.c\<close>: replies,
  quotes, reposts, reactions by their text, and zaps.

  A metadata record is its header and its entries of 16 bytes; the table of data behind the entries
  is always empty. The unions of an entry are words: \<open>aux2\<close> holds flags or reposts, \<open>aux\<close> a count,
  and the payload a reaction, an amount, or the three counters of replies and quotes. The
  database of metadata is a map from note ids. A new entry starts with what the scratch buffer
  holds, an argument.
\<close>

section \<open>Reactions\<close>

type_synonym reaction_str = u64

definition packed_flag_byte :: "reaction_str \<Rightarrow> u8" where
  "packed_flag_byte r = le_bytes 8 r ! 0"

definition packed_chars :: "reaction_str \<Rightarrow> u8 list" where
  "packed_chars r = tl (le_bytes 8 r)"

definition ndb_reaction_str_is_emoji :: "reaction_str \<Rightarrow> bool" where
  "ndb_reaction_str_is_emoji r \<longleftrightarrow> \<not> binmoji_get_user_flag r"

definition ndb_reaction_set_emoji :: "u8 list \<Rightarrow> reaction_str option" where
  "ndb_reaction_set_emoji s = map_option binmoji_encode (binmoji_parse s)"

text \<open>The loop over the seven bytes of the packed string; \<open>n\<close> counts down from 7.\<close>

fun set_str_loop :: "nat \<Rightarrow> u8 list \<Rightarrow> u8 list \<Rightarrow> bool \<times> u8 list" where
  "set_str_loop 0 s out = (False, out)"
| "set_str_loop (Suc n) s out =
     (let c = (case s of [] \<Rightarrow> 0 | c # _ \<Rightarrow> c) in
      if n = 0 \<and> c \<noteq> 0 then (False, out)
      else if c = 0 then (True, out @ [c])
      else set_str_loop n (tl s) (out @ [c]))"

definition ndb_reaction_set_str :: "u8 list \<Rightarrow> (bool \<times> reaction_str) option" where
  "ndb_reaction_set_str s =
     (let r = binmoji_set_user_flag 0 True in
      if packed_flag_byte r = 0 then None
      else let (res, cs) = set_str_loop 7 s [] in
           Some (res, le_word (packed_flag_byte r # cs @ drop (length cs) (packed_chars r))))"

definition ndb_reaction_to_str :: "hash_table \<Rightarrow> reaction_str \<Rightarrow> u8 list" where
  "ndb_reaction_to_str table r =
     (if ndb_reaction_str_is_emoji r then binmoji_to_string (binmoji_decode table r) 128
      else takeWhile (\<lambda>b. b \<noteq> 0) (packed_chars r))"

text \<open>The text is given without its NUL, followed by what lies behind the NUL in memory.\<close>

definition ndb_reaction_set :: "u8 list \<Rightarrow> u8 list \<Rightarrow> (bool \<times> reaction_str) option" where
  "ndb_reaction_set s after = do {
     bj \<leftarrow> binmoji_parse (s @ 0 # after);
     if strcmp (binmoji_to_string bj 136) s = 0 then Some (True, binmoji_encode bj)
     else ndb_reaction_set_str s }"

section \<open>Metadata\<close>

record ndb_note_meta_entry =
  me_type :: u16
  me_aux2 :: u16
  me_aux :: u32
  me_payload :: u64

record ndb_note_meta =
  nm_version :: u8
  nm_count :: u16
  nm_data_table_size :: u32
  nm_flags :: u64
  nm_entries :: "ndb_note_meta_entry list"

definition NDB_NOTE_META_COUNTS :: u16 where
  "NDB_NOTE_META_COUNTS = 100"

definition NDB_NOTE_META_REACTION :: u16 where
  "NDB_NOTE_META_REACTION = 200"

definition NDB_NOTE_META_ZAP :: u16 where
  "NDB_NOTE_META_ZAP = 300"

definition NDB_NOTE_META_ZAP_UNVERIFIED :: u16 where
  "NDB_NOTE_META_ZAP_UNVERIFIED = 302"

definition ndb_note_meta_header_init :: ndb_note_meta where
  "ndb_note_meta_header_init = \<lparr>nm_version = 1, nm_count = 0, nm_data_table_size = 0, nm_flags = 0, nm_entries = []\<rparr>"

definition ndb_note_meta_entries_size :: "ndb_note_meta \<Rightarrow> nat" where
  "ndb_note_meta_entries_size meta = 16 * unat (nm_count meta)"

definition ndb_note_meta_total_size :: "ndb_note_meta \<Rightarrow> nat option" where
  "ndb_note_meta_total_size meta =
     (let total_size = 16 + unat (nm_data_table_size meta) + ndb_note_meta_entries_size meta in
      if total_size mod 8 \<noteq> 0 then None else Some total_size)"

text \<open>A builder is its buffer size, the part used, and the record in it.\<close>

record ndb_note_meta_builder =
  mb_size :: nat
  mb_used :: nat
  mb_meta :: ndb_note_meta

definition ndb_note_meta_builder_init :: "nat \<Rightarrow> ndb_note_meta_builder option" where
  "ndb_note_meta_builder_init bufsize =
     (if 16 > bufsize then None else Some \<lparr>mb_size = bufsize, mb_used = 16, mb_meta = ndb_note_meta_header_init\<rparr>)"

text \<open>The new entry is the last one.\<close>

definition ndb_note_meta_add_entry :: "ndb_note_meta_entry \<Rightarrow> ndb_note_meta_builder \<Rightarrow> (bool \<times> ndb_note_meta_builder) option" where
  "ndb_note_meta_add_entry junk b =
     (if mb_used b = 0 then None
      else if mb_used b + 16 > mb_size b then Some (False, b)
      else let m = mb_meta b in
        Some (True, b\<lparr>mb_used := mb_used b + 16, mb_meta := m\<lparr>nm_count := nm_count m + 1, nm_entries := nm_entries m @ [junk]\<rparr>\<rparr>))"

definition ndb_note_meta_set_flags :: "ndb_note_meta \<Rightarrow> u32 \<Rightarrow> ndb_note_meta" where
  "ndb_note_meta_set_flags meta flags = meta\<lparr>nm_flags := ucast flags\<rparr>"

definition compare_entries :: "ndb_note_meta_entry \<Rightarrow> ndb_note_meta_entry \<Rightarrow> int" where
  "compare_entries a b =
     (let res = uint (me_type a) - uint (me_type b) in
      if res = 0 \<and> me_type a = NDB_NOTE_META_REACTION then
        (if me_payload a < me_payload b then -1 else if me_payload a > me_payload b then 1 else 0)
      else res)"

definition ndb_note_meta_entry_at :: "ndb_note_meta \<Rightarrow> int \<Rightarrow> ndb_note_meta_entry option" where
  "ndb_note_meta_entry_at meta i =
     (if i \<ge> uint (nm_count meta) then None else Some (nm_entries meta ! nat i))"

text \<open>Sorting covers as many entries as the count says.\<close>

definition ndb_note_meta_build :: "ndb_note_meta_builder \<Rightarrow> ndb_note_meta option" where
  "ndb_note_meta_build b =
     (let m = mb_meta b; n = unat (nm_count m) in
      if mb_used b = 0 then None
      else Some (if n > 1 then m\<lparr>nm_entries := qsort compare_entries (take n (nm_entries m)) @ drop n (nm_entries m)\<rparr> else m))"

fun find_entry :: "u16 \<Rightarrow> u64 option \<Rightarrow> ndb_note_meta_entry list \<Rightarrow> nat option" where
  "find_entry typ payload [] = None"
| "find_entry typ payload (e # es) =
     (if me_type e \<noteq> typ then map_option Suc (find_entry typ payload es)
      else if payload \<noteq> None \<and> payload \<noteq> Some (me_payload e) then map_option Suc (find_entry typ payload es)
      else Some 0)"

definition ndb_note_meta_find_entry :: "ndb_note_meta \<Rightarrow> u16 \<Rightarrow> u64 option \<Rightarrow> nat option" where
  "ndb_note_meta_find_entry meta typ payload =
     (if nm_count meta = 0 then None else find_entry typ payload (take (unat (nm_count meta)) (nm_entries meta)))"

section \<open>Entries\<close>

definition ndb_note_meta_reaction_set :: "u32 \<Rightarrow> reaction_str \<Rightarrow> ndb_note_meta_entry \<Rightarrow> ndb_note_meta_entry" where
  "ndb_note_meta_reaction_set cnt r e =
     e\<lparr>me_type := NDB_NOTE_META_REACTION, me_aux2 := 0, me_aux := cnt, me_payload := r\<rparr>"

text \<open>The payload of the counters: direct replies, quotes, replies in the thread.\<close>

definition counts_payload :: "u16 \<Rightarrow> u16 \<Rightarrow> u32 \<Rightarrow> u64" where
  "counts_payload direct_replies quotes thread_replies =
     ucast direct_replies OR push_bit 16 (ucast quotes) OR push_bit 32 (ucast thread_replies)"

definition counts_direct_replies :: "ndb_note_meta_entry \<Rightarrow> u16" where
  "counts_direct_replies e = ucast (me_payload e)"

definition counts_quotes :: "ndb_note_meta_entry \<Rightarrow> u16" where
  "counts_quotes e = ucast (drop_bit 16 (me_payload e))"

definition counts_thread_replies :: "ndb_note_meta_entry \<Rightarrow> u32" where
  "counts_thread_replies e = ucast (drop_bit 32 (me_payload e))"

definition ndb_note_meta_counts_set :: "u32 \<Rightarrow> u16 \<Rightarrow> u16 \<Rightarrow> u32 \<Rightarrow> u16 \<Rightarrow> ndb_note_meta_entry \<Rightarrow> ndb_note_meta_entry" where
  "ndb_note_meta_counts_set total_reactions quotes direct_replies thread_replies reposts e =
     e\<lparr>me_type := NDB_NOTE_META_COUNTS, me_aux := total_reactions, me_aux2 := reposts,
       me_payload := counts_payload direct_replies quotes thread_replies\<rparr>"

definition ndb_note_meta_zap_set :: "u32 \<Rightarrow> u64 \<Rightarrow> ndb_note_meta_entry \<Rightarrow> ndb_note_meta_entry" where
  "ndb_note_meta_zap_set cnt msats e = e\<lparr>me_type := NDB_NOTE_META_ZAP, me_aux := cnt, me_payload := msats\<rparr>"

definition ndb_note_meta_zap_unverified_set :: "u32 \<Rightarrow> u64 \<Rightarrow> ndb_note_meta_entry \<Rightarrow> ndb_note_meta_entry" where
  "ndb_note_meta_zap_unverified_set cnt msats e = e\<lparr>me_type := NDB_NOTE_META_ZAP_UNVERIFIED, me_aux := cnt, me_payload := msats\<rparr>"

definition bump_direct_replies :: "ndb_note_meta_entry \<Rightarrow> ndb_note_meta_entry" where
  "bump_direct_replies e = e\<lparr>me_payload := counts_payload (counts_direct_replies e + 1) (counts_quotes e) (counts_thread_replies e)\<rparr>"

definition bump_quotes :: "ndb_note_meta_entry \<Rightarrow> ndb_note_meta_entry" where
  "bump_quotes e = e\<lparr>me_payload := counts_payload (counts_direct_replies e) (counts_quotes e + 1) (counts_thread_replies e)\<rparr>"

definition bump_thread_replies :: "ndb_note_meta_entry \<Rightarrow> ndb_note_meta_entry" where
  "bump_thread_replies e = e\<lparr>me_payload := counts_payload (counts_direct_replies e) (counts_quotes e) (counts_thread_replies e + 1)\<rparr>"

definition bump_reposts :: "ndb_note_meta_entry \<Rightarrow> ndb_note_meta_entry" where
  "bump_reposts e = e\<lparr>me_aux2 := me_aux2 e + 1\<rparr>"

definition bump_aux :: "ndb_note_meta_entry \<Rightarrow> ndb_note_meta_entry" where
  "bump_aux e = e\<lparr>me_aux := me_aux e + 1\<rparr>"

definition add_zap :: "u64 \<Rightarrow> ndb_note_meta_entry \<Rightarrow> ndb_note_meta_entry" where
  "add_zap msats e = e\<lparr>me_aux := me_aux e + 1, me_payload := me_payload e + msats\<rparr>"

section \<open>Cloning with an entry\<close>

datatype ndb_meta_clone_result = NDB_META_CLONE_FAILED | NDB_META_CLONE_EXISTING_ENTRY ndb_note_meta nat | NDB_META_CLONE_NEW_ENTRY ndb_note_meta nat

definition ndb_note_meta_clone_with_entry ::
  "ndb_note_meta option \<Rightarrow> u16 \<Rightarrow> u64 option \<Rightarrow> ndb_note_meta_entry \<Rightarrow> nat \<Rightarrow> ndb_meta_clone_result option" where
  "ndb_note_meta_clone_with_entry meta typ payload junk bufsize =
     (case meta of
        None \<Rightarrow> do {
          b \<leftarrow> ndb_note_meta_builder_init bufsize;
          (r, b) \<leftarrow> ndb_note_meta_add_entry junk b;
          if \<not> r then None
          else do { m \<leftarrow> ndb_note_meta_build b; Some (NDB_META_CLONE_NEW_ENTRY m 0) } }
      | Some meta \<Rightarrow> do {
          size' \<leftarrow> ndb_note_meta_total_size meta;
          if size' > bufsize then Some NDB_META_CLONE_FAILED
          else (case ndb_note_meta_find_entry meta typ payload of
              Some i \<Rightarrow> Some (NDB_META_CLONE_EXISTING_ENTRY meta i)
            | None \<Rightarrow>
                if size' + 16 > bufsize then Some NDB_META_CLONE_FAILED
                else do {
                  b \<leftarrow> ndb_note_meta_builder_init bufsize;
                  let b = b\<lparr>mb_used := size', mb_meta := meta\<rparr>;
                  let e = junk\<lparr>me_type := typ, me_payload := (case payload of None \<Rightarrow> 0 | Some p \<Rightarrow> p)\<rparr>;
                  (r, b) \<leftarrow> ndb_note_meta_add_entry e b;
                  if \<not> r then None
                  else do {
                    m \<leftarrow> ndb_note_meta_build b;
                    i \<leftarrow> ndb_note_meta_find_entry m typ payload;
                    Some (NDB_META_CLONE_NEW_ENTRY m i) } }) })"

section \<open>The counters\<close>

type_synonym meta_db = "u8 list \<Rightarrow> ndb_note_meta option"

text \<open>
  The scratch buffer by its size and the contents of the next entry, and whether the writes to the
  database succeed.
\<close>

record stats_env =
  se_size :: nat
  se_junk :: ndb_note_meta_entry
  se_put_ok :: "u16 \<Rightarrow> u8 list \<Rightarrow> bool"

text \<open>What all counters have in common: clone, set or change the entry, write the record back.\<close>

definition update_meta ::
  "stats_env \<Rightarrow> meta_db \<Rightarrow> u8 list \<Rightarrow> u16 \<Rightarrow> u64 option \<Rightarrow> (ndb_note_meta_entry \<Rightarrow> ndb_note_meta_entry) \<Rightarrow>
   (ndb_note_meta_entry \<Rightarrow> ndb_note_meta_entry) \<Rightarrow> (bool \<times> meta_db) option" where
  "update_meta env db id' typ payload fresh bump = do {
     cres \<leftarrow> ndb_note_meta_clone_with_entry (db id') typ payload (se_junk env) (se_size env);
     let put = (\<lambda>m. do {
       size' \<leftarrow> ndb_note_meta_total_size m;
       Some (if se_put_ok env typ id' then (True, db(id' \<mapsto> m)) else (False, db)) });
     case cres of
       NDB_META_CLONE_FAILED \<Rightarrow> Some (False, db)
     | NDB_META_CLONE_NEW_ENTRY m i \<Rightarrow> put (m\<lparr>nm_entries := (nm_entries m)[i := fresh (nm_entries m ! i)]\<rparr>)
     | NDB_META_CLONE_EXISTING_ENTRY m i \<Rightarrow> put (m\<lparr>nm_entries := (nm_entries m)[i := bump (nm_entries m ! i)]\<rparr>) }"

definition ndb_increment_quote_metadata :: "stats_env \<Rightarrow> meta_db \<Rightarrow> u8 list \<Rightarrow> (bool \<times> meta_db) option" where
  "ndb_increment_quote_metadata env db id' =
     update_meta env db id' NDB_NOTE_META_COUNTS None (ndb_note_meta_counts_set 0 1 0 0 0) bump_quotes"

definition ndb_increment_direct_reply_metadata :: "stats_env \<Rightarrow> meta_db \<Rightarrow> u8 list \<Rightarrow> (bool \<times> meta_db) option" where
  "ndb_increment_direct_reply_metadata env db id' =
     update_meta env db id' NDB_NOTE_META_COUNTS None (ndb_note_meta_counts_set 0 0 1 0 0) bump_direct_replies"

definition ndb_increment_thread_reply_metadata :: "stats_env \<Rightarrow> meta_db \<Rightarrow> u8 list \<Rightarrow> (bool \<times> meta_db) option" where
  "ndb_increment_thread_reply_metadata env db id' =
     update_meta env db id' NDB_NOTE_META_COUNTS None (ndb_note_meta_counts_set 0 0 0 1 0) bump_thread_replies"

definition ndb_increment_repost_metadata :: "stats_env \<Rightarrow> meta_db \<Rightarrow> u8 list \<Rightarrow> (bool \<times> meta_db) option" where
  "ndb_increment_repost_metadata env db id' =
     update_meta env db id' NDB_NOTE_META_COUNTS None (ndb_note_meta_counts_set 0 0 0 0 1) bump_reposts"

definition ndb_increment_total_reactions :: "stats_env \<Rightarrow> meta_db \<Rightarrow> u8 list \<Rightarrow> (bool \<times> meta_db) option" where
  "ndb_increment_total_reactions env db id' =
     update_meta env db id' NDB_NOTE_META_COUNTS None (ndb_note_meta_counts_set 1 0 0 0 0) bump_aux"

text \<open>The letters of the tags: \<open>e\<close> is 101, \<open>q\<close> is 113.\<close>

definition ndb_process_repost_stats :: "stats_env \<Rightarrow> meta_db \<Rightarrow> ndb_str list list \<Rightarrow> meta_db option" where
  "ndb_process_repost_stats env db tags =
     (case ndb_note_first_tag_id 101 tags of
        None \<Rightarrow> Some db
      | Some i \<Rightarrow> map_option snd (ndb_increment_repost_metadata env db i))"

definition ndb_process_note_stats :: "stats_env \<Rightarrow> meta_db \<Rightarrow> ndb_str list list \<Rightarrow> meta_db option" where
  "ndb_process_note_stats env db tags = do {
     db \<leftarrow> (case ndb_note_first_tag_id 113 tags of
         None \<Rightarrow> Some db
       | Some i \<Rightarrow> map_option snd (ndb_increment_quote_metadata env db i));
     let reply = ndb_parse_reply tags;
     let reply_id = (if ndb_is_reply_to_root reply then nr_root reply else nr_reply reply);
     db \<leftarrow> (case reply_id of
         None \<Rightarrow> Some db
       | Some i \<Rightarrow> map_option snd (ndb_increment_direct_reply_metadata env db i));
     (case nr_root reply of
         None \<Rightarrow> Some db
       | Some i \<Rightarrow> map_option snd (ndb_increment_thread_reply_metadata env db i)) }"

text \<open>A reaction that does not fit is counted as \<open>+\<close>, which is 43.\<close>

definition reaction_key :: "u8 list \<Rightarrow> u8 list \<Rightarrow> reaction_str option" where
  "reaction_key content after = do {
     (r, s) \<leftarrow> ndb_reaction_set content after;
     if r then Some s
     else do { (r, s) \<leftarrow> ndb_reaction_set [43] []; if r then Some s else None } }"

definition ndb_process_reaction ::
  "stats_env \<Rightarrow> meta_db \<Rightarrow> ndb_str list list \<Rightarrow> u8 list \<Rightarrow> u8 list \<Rightarrow> (bool \<times> u8 list option \<times> meta_db) option" where
  "ndb_process_reaction env db tags content after =
     (case ndb_note_last_id_tag 101 tags None of
        None \<Rightarrow> Some (False, None, db)
      | Some liked \<Rightarrow> do {
          s \<leftarrow> reaction_key content after;
          (r, db) \<leftarrow> update_meta env db liked NDB_NOTE_META_REACTION (Some s) (ndb_note_meta_reaction_set 1 s) bump_aux;
          Some (r, Some liked, db) })"

definition ndb_write_reaction_stats ::
  "stats_env \<Rightarrow> meta_db \<Rightarrow> ndb_str list list \<Rightarrow> u8 list \<Rightarrow> u8 list \<Rightarrow> (bool \<times> meta_db) option" where
  "ndb_write_reaction_stats env db tags content after = do {
     (r, liked, db) \<leftarrow> ndb_process_reaction env db tags content after;
     case liked of
       Some liked \<Rightarrow> if r then ndb_increment_total_reactions env db liked else Some (False, db)
     | None \<Rightarrow> Some (False, db) }"

definition ndb_parse_zap_bolt11 :: "ndb_str list list \<Rightarrow> u64 option option" where
  "ndb_parse_zap_bolt11 tags =
     (let decode = (\<lambda>s. do {
        inv \<leftarrow> bolt11_decode_minimal s;
        case inv of
          Inl e \<Rightarrow> Some None
        | Inr b \<Rightarrow> Some (Some (case b11_msat b of None \<Rightarrow> 0 | Some x \<Rightarrow> x)) }) in
      case ndb_note_find_tag_str tags (str ''bolt11'') of
        None \<Rightarrow> Some None
      | Some (Packed_Id _) \<Rightarrow> Some None
      | Some (Packed_Str s) \<Rightarrow> decode s
      | Some (Offset_Str s) \<Rightarrow> decode s)"

definition ndb_write_unverified_zap_stats :: "stats_env \<Rightarrow> meta_db \<Rightarrow> ndb_str list list \<Rightarrow> (bool \<times> meta_db) option" where
  "ndb_write_unverified_zap_stats env db tags =
     (case ndb_note_last_id_tag 101 tags None of
        None \<Rightarrow> Some (False, db)
      | Some zapped_id \<Rightarrow> do {
          msats \<leftarrow> ndb_parse_zap_bolt11 tags;
          case msats of
            None \<Rightarrow> Some (False, db)
          | Some msats \<Rightarrow> update_meta env db zapped_id NDB_NOTE_META_ZAP_UNVERIFIED None (ndb_note_meta_zap_unverified_set 1 msats) (add_zap msats) })"

text \<open>
  What a new note does to the metadata of the notes it speaks of, by its kind: the calls from \<open>ndb_write_note\<close>.
\<close>

definition write_stats :: "stats_env \<Rightarrow> bool \<Rightarrow> meta_db \<Rightarrow> ndb_note \<Rightarrow> u8 list \<Rightarrow> u8 list \<Rightarrow> meta_db option" where
  "write_stats env no_stats db n content after =
     (let kind = nt_kind n in
      if kind = 1 \<or> kind = 30023 then ndb_process_note_stats env db (nt_tags n)
      else if kind = 7 \<and> \<not> no_stats then map_option snd (ndb_write_reaction_stats env db (nt_tags n) content after)
      else if kind = 6 \<or> kind = 16 then ndb_process_repost_stats env db (nt_tags n)
      else if kind = 9735 \<and> \<not> no_stats then map_option snd (ndb_write_unverified_zap_stats env db (nt_tags n))
      else Some db)"

section \<open>Well-formed metadata\<close>

text \<open>An entry is found by its type, a reaction by its text as well.\<close>

definition entry_key :: "ndb_note_meta_entry \<Rightarrow> u16 \<times> u64" where
  "entry_key e = (me_type e, if me_type e = NDB_NOTE_META_REACTION then me_payload e else 0)"

interpretation entry_order: key_comparator "\<lambda>a b. sgn (compare_entries a b)" entry_key "\<lambda>_. True"
  by unfold_locales
    (auto simp: compare_entries_def Let_def entry_key_def ord3_def less_prod_def' word_less_def sgn_if word_uint_eq_iff)

lemma insert_by_sgn: "insert_by (\<lambda>a b. sgn (cmp a b)) x ys = insert_by cmp x ys"
  by (induction ys) (auto simp: sgn_if)

lemma qsort_sgn: "qsort (\<lambda>a b. sgn (cmp a b)) xs = qsort cmp xs"
  unfolding qsort_def by (induction xs) (auto simp: insert_by_sgn)

lemma qsort_entries_sorted: "sorted (map entry_key (qsort compare_entries es))"
  using entry_order.qsort_sorted[of es] by (simp add: qsort_sgn)

definition meta_wf :: "ndb_note_meta \<Rightarrow> bool" where
  "meta_wf m \<longleftrightarrow> unat (nm_count m) = length (nm_entries m) \<and> nm_data_table_size m = 0 \<and> nm_entries m \<noteq> [] \<and>
     distinct (map entry_key (nm_entries m)) \<and> sorted (map entry_key (nm_entries m))"

definition meta_at :: "ndb_note_meta option \<Rightarrow> u16 \<times> u64 \<Rightarrow> ndb_note_meta_entry option" where
  "meta_at m k = (case m of None \<Rightarrow> None | Some m \<Rightarrow> map_of (map (\<lambda>e. (entry_key e, e)) (nm_entries m)) k)"

text \<open>The arguments of a search and the key they stand for.\<close>

definition key_args :: "u16 \<Rightarrow> u64 option \<Rightarrow> u16 \<times> u64 \<Rightarrow> bool" where
  "key_args typ payload k \<longleftrightarrow> (payload \<noteq> None \<longleftrightarrow> typ = NDB_NOTE_META_REACTION) \<and> k = (typ, case payload of None \<Rightarrow> 0 | Some p \<Rightarrow> p)"

lemma entry_key_match:
  assumes "key_args typ payload k"
  shows "entry_key e = k \<longleftrightarrow> me_type e = typ \<and> (payload = None \<or> payload = Some (me_payload e))"
  using assms by (auto simp: key_args_def entry_key_def split: option.splits)

lemma find_entry_spec:
  assumes "key_args typ payload k"
  shows "case find_entry typ payload es of
      None \<Rightarrow> k \<notin> entry_key ` set es
    | Some i \<Rightarrow> i < length es \<and> entry_key (es ! i) = k"
proof (induction es)
  case (Cons e es)
  then show ?case using entry_key_match[OF assms, of e] by (auto split: option.splits)
qed simp

lemma meta_find:
  assumes "meta_wf m" "key_args typ payload k"
  shows "case ndb_note_meta_find_entry m typ payload of
      None \<Rightarrow> k \<notin> entry_key ` set (nm_entries m)
    | Some i \<Rightarrow> i < length (nm_entries m) \<and> entry_key (nm_entries m ! i) = k"
  using find_entry_spec[OF assms(2), of "nm_entries m"] assms(1)
  by (auto simp: ndb_note_meta_find_entry_def meta_wf_def)

lemma map_of_entries: "distinct (map entry_key es) \<Longrightarrow> i < length es \<Longrightarrow> map_of (map (\<lambda>e. (entry_key e, e)) es) (entry_key (es ! i)) = Some (es ! i)"
  by (intro map_of_is_SomeI) (auto simp: comp_def)

lemma map_of_entries_update:
  assumes "distinct (map entry_key es)" "i < length es" "entry_key e = entry_key (es ! i)"
  shows "map_of (map (\<lambda>e. (entry_key e, e)) (es[i := e])) = (map_of (map (\<lambda>e. (entry_key e, e)) es))(entry_key e \<mapsto> e)"
  using assms
proof (induction es arbitrary: i)
  case (Cons x es)
  show ?case
  proof (cases i)
    case (Suc j)
    then have "entry_key x \<noteq> entry_key e" using Cons.prems by (auto simp: image_iff)
    then show ?thesis using Cons.IH[of j] Cons.prems Suc by (auto intro!: ext)
  qed (use Cons.prems in \<open>auto intro!: ext\<close>)
qed simp

lemma total_size_wf: "meta_wf m \<Longrightarrow> ndb_note_meta_total_size m = Some (16 + 16 * length (nm_entries m))"
  by (simp add: ndb_note_meta_total_size_def meta_wf_def ndb_note_meta_entries_size_def)

lemma meta_wf_update:
  assumes "meta_wf m" "i < length (nm_entries m)" "entry_key e = entry_key (nm_entries m ! i)"
  shows "meta_wf (m\<lparr>nm_entries := (nm_entries m)[i := e]\<rparr>)"
proof -
  have "map entry_key ((nm_entries m)[i := e]) = map entry_key (nm_entries m)"
    using assms(2,3) by (metis list_update_id map_update nth_map)
  then show ?thesis using assms(1) by (auto simp: meta_wf_def)
qed

lemma meta_wf_insert:
  assumes wf: "meta_wf m" and new: "entry_key e \<notin> entry_key ` set (nm_entries m)" and n: "length (nm_entries m) < 65535"
  defines "m' \<equiv> m\<lparr>nm_count := nm_count m + 1, nm_entries := qsort compare_entries (nm_entries m @ [e])\<rparr>"
  shows "meta_wf m'" "map_of (map (\<lambda>e. (entry_key e, e)) (nm_entries m')) = (map_of (map (\<lambda>e. (entry_key e, e)) (nm_entries m)))(entry_key e \<mapsto> e)"
proof -
  let ?es = "nm_entries m @ [e]" and ?f = "\<lambda>e. (entry_key e, e)"
  have d: "distinct (map entry_key ?es)" using wf new by (auto simp: meta_wf_def)
  have ms: "mset (map entry_key (qsort compare_entries ?es)) = mset (map entry_key ?es)" by simp
  have d': "distinct (map entry_key (qsort compare_entries ?es))" using d ms mset_eq_imp_distinct_iff by blast
  have "unat (nm_count m + 1) = unat (nm_count m) + 1" using wf n by (simp add: meta_wf_def unat_word_ariths)
  moreover have "length (qsort compare_entries ?es) = length (nm_entries m) + 1" by (simp only: length_qsort) simp
  moreover have "meta_wf (m\<lparr>nm_count := nm_count m + 1, nm_entries := q\<rparr>)"
    if "unat (nm_count m + 1) = unat (nm_count m) + 1" "length q = length (nm_entries m) + 1" "distinct (map entry_key q)" "sorted (map entry_key q)" for q
    using wf that by (cases q) (auto simp: meta_wf_def)
  ultimately show "meta_wf m'" using d' qsort_entries_sorted[of ?es] unfolding m'_def by blast
  have "map_of (map ?f (qsort compare_entries ?es)) = map_of (map ?f ?es)"
    using d d' by (intro map_of_inject_set[THEN iffD2]) (simp_all add: comp_def)
  also have "\<dots> = (map_of (map ?f (nm_entries m)))(entry_key e \<mapsto> e)"
  proof
    fix k
    have "entry_key e = k \<Longrightarrow> map_of (map ?f (nm_entries m)) k = None" using new by (auto simp: map_of_eq_None_iff image_image)
    then show "map_of (map ?f ?es) k = ((map_of (map ?f (nm_entries m)))(entry_key e \<mapsto> e)) k"
      by (cases "map_of (map ?f (nm_entries m)) k") (auto simp add: map_add_def)
  qed
  finally show "map_of (map ?f (nm_entries m')) = (map_of (map ?f (nm_entries m)))(entry_key e \<mapsto> e)" by (simp add: m'_def)
qed

section \<open>Counting\<close>

definition opt_wf :: "ndb_note_meta option \<Rightarrow> bool" where
  "opt_wf m \<longleftrightarrow> (case m of None \<Rightarrow> True | Some m \<Rightarrow> meta_wf m)"

definition entries_of :: "ndb_note_meta option \<Rightarrow> nat" where
  "entries_of m = (case m of None \<Rightarrow> 0 | Some m \<Rightarrow> length (nm_entries m))"

text \<open>
  One step of a counter on the record of a note: the entry with the key is changed, or made where there
  was none; all others stay as they are.
\<close>

lemma update_meta_spec:
  assumes wf: "opt_wf (db id')" and k: "key_args typ payload k"
    and room: "32 + 16 * entries_of (db id') \<le> se_size env" "entries_of (db id') < 65535"
    and fresh: "\<And>e. entry_key (fresh e) = k" and bump: "\<And>e. entry_key e = k \<Longrightarrow> entry_key (bump e) = k"
    and put: "se_put_ok env typ id'"
  shows "ok (update_meta env db id' typ payload fresh bump) (\<lambda>(r, db'). r \<and> (\<exists>m junk. db' = db(id' \<mapsto> m) \<and> meta_wf m \<and>
    entries_of (Some m) \<le> entries_of (db id') + 1 \<and>
    meta_at (Some m) = (meta_at (db id'))(k \<mapsto> (case meta_at (db id') k of None \<Rightarrow> fresh junk | Some e \<Rightarrow> bump e))))"
proof (cases "db id'")
  case None
  let ?m = "\<lambda>e. \<lparr>nm_version = 1, nm_count = 1, nm_data_table_size = 0, nm_flags = 0, nm_entries = [e]\<rparr>"
  have c: "ndb_note_meta_clone_with_entry None typ payload (se_junk env) (se_size env) = Some (NDB_META_CLONE_NEW_ENTRY (?m (se_junk env)) 0)"
    using room None by (simp add: ndb_note_meta_clone_with_entry_def ndb_note_meta_builder_init_def ndb_note_meta_add_entry_def
      ndb_note_meta_build_def ndb_note_meta_header_init_def entries_of_def Let_def)
  have w: "meta_wf (?m (fresh (se_junk env)))" by (simp add: meta_wf_def)
  have a: "meta_at (Some (?m (fresh (se_junk env)))) = (meta_at None)(k \<mapsto> fresh (se_junk env))" by (auto simp: meta_at_def fresh fun_eq_iff)
  have u: "update_meta env db id' typ payload fresh bump = Some (True, db(id' \<mapsto> ?m (fresh (se_junk env))))"
    using None c put total_size_wf[OF w] by (simp add: update_meta_def Let_def)
  show ?thesis unfolding u using None w a by (auto simp: entries_of_def meta_at_def[of None])
next
  case (Some m)
  have m: "meta_wf m" using wf Some by (simp add: opt_wf_def)
  have sz: "ndb_note_meta_total_size m = Some (16 + 16 * length (nm_entries m))" by (rule total_size_wf[OF m])
  have le: "16 + 16 * length (nm_entries m) + 16 \<le> se_size env" using room Some by (simp add: entries_of_def)
  have d: "distinct (map entry_key (nm_entries m))" using m by (simp add: meta_wf_def)
  show ?thesis
  proof (cases "ndb_note_meta_find_entry m typ payload")
    case (Some i)
    let ?m = "m\<lparr>nm_entries := (nm_entries m)[i := bump (nm_entries m ! i)]\<rparr>"
    have i: "i < length (nm_entries m)" "entry_key (nm_entries m ! i) = k" using meta_find[OF m k] Some by auto
    have w: "meta_wf ?m" by (rule meta_wf_update[OF m i(1)]) (simp add: bump i(2))
    have u: "update_meta env db id' typ payload fresh bump = Some (True, db(id' \<mapsto> ?m))"
      using \<open>db id' = Some m\<close> Some sz le put total_size_wf[OF w]
      by (simp add: update_meta_def ndb_note_meta_clone_with_entry_def Let_def)
    have "meta_at (Some m) k = Some (nm_entries m ! i)" using map_of_entries[OF d i(1)] i(2) by (simp add: meta_at_def)
    moreover have "meta_at (Some ?m) = (meta_at (Some m))(k \<mapsto> bump (nm_entries m ! i))"
      using map_of_entries_update[OF d i(1), of "bump (nm_entries m ! i)"] i(2) bump[OF i(2)] by (auto simp: meta_at_def intro!: ext)
    ultimately show ?thesis unfolding u using \<open>db id' = Some m\<close> w by (auto simp: entries_of_def)
  next
    case None
    define e where "e = (se_junk env)\<lparr>me_type := typ, me_payload := (case payload of None \<Rightarrow> 0 | Some p \<Rightarrow> p)\<rparr>"
    have ek: "entry_key e = k" using entry_key_match[OF k, of e] k by (auto simp: e_def key_args_def split: option.splits)
    have new: "entry_key e \<notin> entry_key ` set (nm_entries m)" using meta_find[OF m k] None ek by simp
    define m1 where "m1 = m\<lparr>nm_count := nm_count m + 1, nm_entries := qsort compare_entries (nm_entries m @ [e])\<rparr>"
    have n: "length (nm_entries m) < 65535" using room Some by (simp add: entries_of_def)
    note ins = meta_wf_insert[OF m new n, folded m1_def]
    have cnt: "unat (nm_count m + 1) = length (nm_entries m @ [e])"
      using m n by (simp add: meta_wf_def unat_word_ariths)
    have "length (nm_entries m) \<noteq> 0" using m by (simp add: meta_wf_def)
    then have b: "ndb_note_meta_build \<lparr>mb_size = se_size env, mb_used = 32 + 16 * length (nm_entries m),
        mb_meta = m\<lparr>nm_count := nm_count m + 1, nm_entries := nm_entries m @ [e]\<rparr>\<rparr> = Some m1"
      using cnt by (simp add: ndb_note_meta_build_def m1_def Let_def)
    obtain i where i: "ndb_note_meta_find_entry m1 typ payload = Some i" "i < length (nm_entries m1)" "entry_key (nm_entries m1 ! i) = k"
    proof (cases "ndb_note_meta_find_entry m1 typ payload")
      case None
      then have "k \<notin> entry_key ` set (nm_entries m1)" using meta_find[OF ins(1) k] by simp
      then show ?thesis using ek by (simp add: m1_def)
    qed (use meta_find[OF ins(1) k] that in auto)
    have c: "ndb_note_meta_clone_with_entry (Some m) typ payload (se_junk env) (se_size env) = Some (NDB_META_CLONE_NEW_ENTRY m1 i)"
      using None sz le b i(1) by (simp add: ndb_note_meta_clone_with_entry_def ndb_note_meta_builder_init_def ndb_note_meta_add_entry_def Let_def e_def)
    let ?m = "m1\<lparr>nm_entries := (nm_entries m1)[i := fresh (nm_entries m1 ! i)]\<rparr>"
    have w: "meta_wf ?m" by (rule meta_wf_update[OF ins(1) i(2)]) (simp add: fresh i(3))
    have u: "update_meta env db id' typ payload fresh bump = Some (True, db(id' \<mapsto> ?m))"
      using Some c put total_size_wf[OF w] by (simp add: update_meta_def Let_def)
    have d1: "distinct (map entry_key (nm_entries m1))" using ins(1) by (simp add: meta_wf_def)
    have a: "meta_at (Some m) k = None" using new ek by (auto simp: meta_at_def map_of_eq_None_iff image_image)
    have "meta_at (Some ?m) = (meta_at (Some m1))(k \<mapsto> fresh (nm_entries m1 ! i))"
      using map_of_entries_update[OF d1 i(2), of "fresh (nm_entries m1 ! i)"] i(3) fresh by (auto simp: meta_at_def intro!: ext)
    moreover have "meta_at (Some m1) = (meta_at (Some m))(k \<mapsto> e)" using ins(2) ek by (auto simp: meta_at_def intro!: ext)
    ultimately have "meta_at (Some ?m) = (meta_at (Some m))(k \<mapsto> fresh (nm_entries m1 ! i))" by (simp only: fun_upd_upd)
    then show ?thesis unfolding u using Some w a by (auto simp: entries_of_def m1_def)
  qed
qed

text \<open>The counters of a note as its metadata records them; no entry is zero.\<close>

record note_counts =
  nc_total_reactions :: u32
  nc_quotes :: u16
  nc_direct_replies :: u16
  nc_thread_replies :: u32
  nc_reposts :: u16

definition counts_of :: "ndb_note_meta_entry \<Rightarrow> note_counts" where
  "counts_of e = \<lparr>nc_total_reactions = me_aux e, nc_quotes = counts_quotes e, nc_direct_replies = counts_direct_replies e,
     nc_thread_replies = counts_thread_replies e, nc_reposts = me_aux2 e\<rparr>"

definition no_counts :: note_counts where
  "no_counts = \<lparr>nc_total_reactions = 0, nc_quotes = 0, nc_direct_replies = 0, nc_thread_replies = 0, nc_reposts = 0\<rparr>"

definition counts_key :: "u16 \<times> u64" where
  "counts_key = (NDB_NOTE_META_COUNTS, 0)"

definition note_counts_at :: "ndb_note_meta option \<Rightarrow> note_counts" where
  "note_counts_at m = (case meta_at m counts_key of None \<Rightarrow> no_counts | Some e \<Rightarrow> counts_of e)"

definition reaction_count :: "ndb_note_meta option \<Rightarrow> reaction_str \<Rightarrow> u32" where
  "reaction_count m r = (case meta_at m (NDB_NOTE_META_REACTION, r) of None \<Rightarrow> 0 | Some e \<Rightarrow> me_aux e)"

definition zap_totals :: "ndb_note_meta option \<Rightarrow> u32 \<times> u64" where
  "zap_totals m = (case meta_at m (NDB_NOTE_META_ZAP_UNVERIFIED, 0) of None \<Rightarrow> (0, 0) | Some e \<Rightarrow> (me_aux e, me_payload e))"

lemma counts_payload_fields [simp]:
  "counts_direct_replies (e\<lparr>me_payload := counts_payload d q t\<rparr>) = d"
  "counts_quotes (e\<lparr>me_payload := counts_payload d q t\<rparr>) = q"
  "counts_thread_replies (e\<lparr>me_payload := counts_payload d q t\<rparr>) = t"
proof -
  show "counts_direct_replies (e\<lparr>me_payload := counts_payload d q t\<rparr>) = d"
    by (rule bit_word_eqI) (auto simp: counts_direct_replies_def counts_payload_def bit_simps)
  show "counts_quotes (e\<lparr>me_payload := counts_payload d q t\<rparr>) = q"
    by (rule bit_word_eqI) (auto simp: counts_quotes_def counts_payload_def bit_simps dest: bit_imp_le_length)
  show "counts_thread_replies (e\<lparr>me_payload := counts_payload d q t\<rparr>) = t"
    by (rule bit_word_eqI) (auto simp: counts_thread_replies_def counts_payload_def bit_simps dest: bit_imp_le_length)
qed

text \<open>Two more entries fit into the buffer, and into the count of the header.\<close>

definition has_room :: "nat \<Rightarrow> stats_env \<Rightarrow> ndb_note_meta option \<Rightarrow> bool" where
  "has_room n env m \<longleftrightarrow> 16 + 16 * (entries_of m + n) \<le> se_size env \<and> entries_of m + n \<le> 65535"

text \<open>All that is recorded about a note.\<close>

record note_stats =
  ns_counts :: note_counts
  ns_reactions :: "reaction_str \<Rightarrow> u32"
  ns_zaps :: "u32 \<times> u64"

definition stats_at :: "ndb_note_meta option \<Rightarrow> note_stats" where
  "stats_at m = \<lparr>ns_counts = note_counts_at m, ns_reactions = reaction_count m, ns_zaps = zap_totals m\<rparr>"

lemma has_room_less: "has_room n env m \<Longrightarrow> entries_of m' + k \<le> entries_of m + n \<Longrightarrow> has_room k env m'"
  by (auto simp: has_room_def)

text \<open>A counter on one note succeeds and does \<open>g\<close> to what is recorded about it.\<close>

definition counted :: "meta_db \<Rightarrow> u8 list \<Rightarrow> (note_stats \<Rightarrow> note_stats) \<Rightarrow> bool \<times> meta_db \<Rightarrow> bool" where
  "counted db id' g res \<longleftrightarrow> fst res \<and> (\<exists>m. snd res = db(id' \<mapsto> m) \<and> meta_wf m \<and>
    entries_of (Some m) \<le> entries_of (db id') + 1 \<and> stats_at (Some m) = g (stats_at (db id')))"

definition add_quote :: "note_stats \<Rightarrow> note_stats" where
  "add_quote s = s\<lparr>ns_counts := ns_counts s\<lparr>nc_quotes := nc_quotes (ns_counts s) + 1\<rparr>\<rparr>"

definition add_direct_reply :: "note_stats \<Rightarrow> note_stats" where
  "add_direct_reply s = s\<lparr>ns_counts := ns_counts s\<lparr>nc_direct_replies := nc_direct_replies (ns_counts s) + 1\<rparr>\<rparr>"

definition add_thread_reply :: "note_stats \<Rightarrow> note_stats" where
  "add_thread_reply s = s\<lparr>ns_counts := ns_counts s\<lparr>nc_thread_replies := nc_thread_replies (ns_counts s) + 1\<rparr>\<rparr>"

definition add_repost :: "note_stats \<Rightarrow> note_stats" where
  "add_repost s = s\<lparr>ns_counts := ns_counts s\<lparr>nc_reposts := nc_reposts (ns_counts s) + 1\<rparr>\<rparr>"

definition add_total_reaction :: "note_stats \<Rightarrow> note_stats" where
  "add_total_reaction s = s\<lparr>ns_counts := ns_counts s\<lparr>nc_total_reactions := nc_total_reactions (ns_counts s) + 1\<rparr>\<rparr>"

definition add_reaction :: "reaction_str \<Rightarrow> note_stats \<Rightarrow> note_stats" where
  "add_reaction r s = s\<lparr>ns_reactions := (ns_reactions s)(r := ns_reactions s r + 1)\<rparr>"

definition add_zap_of :: "u64 \<Rightarrow> note_stats \<Rightarrow> note_stats" where
  "add_zap_of msats s = s\<lparr>ns_zaps := (fst (ns_zaps s) + 1, snd (ns_zaps s) + msats)\<rparr>"

lemmas add_defs = add_quote_def add_direct_reply_def add_thread_reply_def add_repost_def add_total_reaction_def

lemma counted_step:
  assumes wf: "opt_wf (db id')" and room: "has_room 1 env (db id')" and put: "se_put_ok env typ id'" and k: "key_args typ payload k"
    and fresh: "\<And>e. entry_key (fresh e) = k" and bump: "\<And>e. entry_key e = k \<Longrightarrow> entry_key (bump e) = k"
    and g: "\<And>m junk. meta_at m = (meta_at (db id'))(k \<mapsto> (case meta_at (db id') k of None \<Rightarrow> fresh junk | Some e \<Rightarrow> bump e)) \<Longrightarrow> stats_at m = g (stats_at (db id'))"
  shows "ok (update_meta env db id' typ payload fresh bump) (counted db id' g)"
proof -
  have r: "32 + 16 * entries_of (db id') \<le> se_size env" "entries_of (db id') < 65535" using room by (simp_all add: has_room_def)
  show ?thesis
  proof (rule ok_conseq[OF update_meta_spec[where db = db and id' = id' and fresh = fresh and bump = bump, OF wf k r fresh bump put]])
    fix x assume "case x of (r, db') \<Rightarrow> r \<and> (\<exists>m junk. db' = db(id' \<mapsto> m) \<and> meta_wf m \<and>
      entries_of (Some m) \<le> entries_of (db id') + 1 \<and>
      meta_at (Some m) = (meta_at (db id'))(k \<mapsto> (case meta_at (db id') k of None \<Rightarrow> fresh junk | Some e \<Rightarrow> bump e)))"
    then obtain m junk where "fst x" "snd x = db(id' \<mapsto> m)" "meta_wf m" "entries_of (Some m) \<le> entries_of (db id') + 1"
      and "meta_at (Some m) = (meta_at (db id'))(k \<mapsto> (case meta_at (db id') k of None \<Rightarrow> fresh junk | Some e \<Rightarrow> bump e))"
      by (cases x) auto
    then show "counted db id' g x" using g unfolding counted_def by blast
  qed
qed

text \<open>The types of the entries are different.\<close>

lemma meta_types [simp]:
  "NDB_NOTE_META_REACTION \<noteq> NDB_NOTE_META_COUNTS" "NDB_NOTE_META_COUNTS \<noteq> NDB_NOTE_META_REACTION"
  "NDB_NOTE_META_REACTION \<noteq> NDB_NOTE_META_ZAP_UNVERIFIED" "NDB_NOTE_META_ZAP_UNVERIFIED \<noteq> NDB_NOTE_META_REACTION"
  "NDB_NOTE_META_COUNTS \<noteq> NDB_NOTE_META_ZAP_UNVERIFIED" "NDB_NOTE_META_ZAP_UNVERIFIED \<noteq> NDB_NOTE_META_COUNTS"
  by (simp_all add: NDB_NOTE_META_COUNTS_def NDB_NOTE_META_REACTION_def NDB_NOTE_META_ZAP_UNVERIFIED_def)

text \<open>A counter in the common entry; \<open>f\<close> is what it does to the counts.\<close>

lemma count_step:
  assumes a: "opt_wf (db id')" "has_room 1 env (db id')" "se_put_ok env NDB_NOTE_META_COUNTS id'"
    and fresh: "\<And>e. me_type (fresh e) = NDB_NOTE_META_COUNTS \<and> counts_of (fresh e) = f no_counts"
    and bump: "\<And>e. me_type (bump e) = me_type e \<and> counts_of (bump e) = f (counts_of e)"
  shows "ok (update_meta env db id' NDB_NOTE_META_COUNTS None fresh bump) (counted db id' (\<lambda>s. s\<lparr>ns_counts := f (ns_counts s)\<rparr>))"
proof (rule counted_step[where db = db and id' = id' and fresh = fresh and bump = bump and k = counts_key, OF a])
  show "key_args NDB_NOTE_META_COUNTS None counts_key" by (simp add: key_args_def counts_key_def)
  show "entry_key (fresh e) = counts_key" for e using fresh[of e] by (simp add: entry_key_def counts_key_def)
  show "entry_key (bump e) = counts_key" if "entry_key e = counts_key" for e
    using bump[of e] that by (auto simp: entry_key_def counts_key_def)
next
  fix m junk
  assume m: "meta_at m = (meta_at (db id'))(counts_key \<mapsto> (case meta_at (db id') counts_key of None \<Rightarrow> fresh junk | Some e \<Rightarrow> bump e))"
  have "note_counts_at m = f (note_counts_at (db id'))" using fresh bump by (simp add: note_counts_at_def m split: option.splits)
  moreover have "reaction_count m = reaction_count (db id')" by (rule ext) (simp add: reaction_count_def m counts_key_def)
  moreover have "zap_totals m = zap_totals (db id')" by (simp add: zap_totals_def m counts_key_def)
  ultimately show "stats_at m = stats_at (db id')\<lparr>ns_counts := f (ns_counts (stats_at (db id')))\<rparr>" by (simp add: stats_at_def)
qed

lemmas counter_defs = ndb_note_meta_counts_set_def bump_quotes_def bump_direct_replies_def bump_thread_replies_def bump_reposts_def
  bump_aux_def counts_of_def no_counts_def

lemma counts_set_of: "counts_of (ndb_note_meta_counts_set tr q d t rp e) =
    \<lparr>nc_total_reactions = tr, nc_quotes = q, nc_direct_replies = d, nc_thread_replies = t, nc_reposts = rp\<rparr>"
  by (simp add: counts_of_def ndb_note_meta_counts_set_def)

lemma fields_of_payload [simp]:
  "counts_quotes (me_aux2_update f e) = counts_quotes e" "counts_quotes (me_aux_update h e) = counts_quotes e"
  "counts_direct_replies (me_aux2_update f e) = counts_direct_replies e" "counts_direct_replies (me_aux_update h e) = counts_direct_replies e"
  "counts_thread_replies (me_aux2_update f e) = counts_thread_replies e" "counts_thread_replies (me_aux_update h e) = counts_thread_replies e"
  by (simp_all add: counts_quotes_def counts_direct_replies_def counts_thread_replies_def)

text \<open>Each counter adds one to its field and leaves everything else alone.\<close>

lemma counters_step:
  assumes a: "opt_wf (db id')" "has_room 1 env (db id')" "se_put_ok env NDB_NOTE_META_COUNTS id'"
  shows "ok (ndb_increment_quote_metadata env db id') (counted db id' add_quote)"
    "ok (ndb_increment_direct_reply_metadata env db id') (counted db id' add_direct_reply)"
    "ok (ndb_increment_thread_reply_metadata env db id') (counted db id' add_thread_reply)"
    "ok (ndb_increment_repost_metadata env db id') (counted db id' add_repost)"
    "ok (ndb_increment_total_reactions env db id') (counted db id' add_total_reaction)"
proof -
  show "ok (ndb_increment_quote_metadata env db id') (counted db id' add_quote)"
    unfolding ndb_increment_quote_metadata_def add_quote_def by (rule count_step[where db = db and id' = id' and f = "\<lambda>c. c\<lparr>nc_quotes := nc_quotes c + 1\<rparr>", OF a]) (simp_all add: counts_set_of, simp_all add: counter_defs)
  show "ok (ndb_increment_direct_reply_metadata env db id') (counted db id' add_direct_reply)"
    unfolding ndb_increment_direct_reply_metadata_def add_direct_reply_def by (rule count_step[where db = db and id' = id' and f = "\<lambda>c. c\<lparr>nc_direct_replies := nc_direct_replies c + 1\<rparr>", OF a]) (simp_all add: counts_set_of, simp_all add: counter_defs)
  show "ok (ndb_increment_thread_reply_metadata env db id') (counted db id' add_thread_reply)"
    unfolding ndb_increment_thread_reply_metadata_def add_thread_reply_def by (rule count_step[where db = db and id' = id' and f = "\<lambda>c. c\<lparr>nc_thread_replies := nc_thread_replies c + 1\<rparr>", OF a]) (simp_all add: counts_set_of, simp_all add: counter_defs)
  show "ok (ndb_increment_repost_metadata env db id') (counted db id' add_repost)"
    unfolding ndb_increment_repost_metadata_def add_repost_def by (rule count_step[where db = db and id' = id' and f = "\<lambda>c. c\<lparr>nc_reposts := nc_reposts c + 1\<rparr>", OF a]) (simp_all add: counts_set_of, simp_all add: counter_defs)
  show "ok (ndb_increment_total_reactions env db id') (counted db id' add_total_reaction)"
    unfolding ndb_increment_total_reactions_def add_total_reaction_def by (rule count_step[where db = db and id' = id' and f = "\<lambda>c. c\<lparr>nc_total_reactions := nc_total_reactions c + 1\<rparr>", OF a]) (simp_all add: counts_set_of, simp_all add: counter_defs)
qed

text \<open>A reaction is counted under its text, a zap by its amount.\<close>

lemma reaction_step:
  assumes a: "opt_wf (db id')" "has_room 1 env (db id')" "se_put_ok env NDB_NOTE_META_REACTION id'"
  shows "ok (update_meta env db id' NDB_NOTE_META_REACTION (Some r) (ndb_note_meta_reaction_set 1 r) bump_aux) (counted db id' (add_reaction r))"
proof (rule counted_step[where db = db and id' = id' and k = "(NDB_NOTE_META_REACTION, r)", OF a])
  show "key_args NDB_NOTE_META_REACTION (Some r) (NDB_NOTE_META_REACTION, r)" by (simp add: key_args_def)
  show "entry_key (ndb_note_meta_reaction_set 1 r e) = (NDB_NOTE_META_REACTION, r)" for e by (simp add: entry_key_def ndb_note_meta_reaction_set_def)
  show "entry_key (bump_aux e) = (NDB_NOTE_META_REACTION, r)" if "entry_key e = (NDB_NOTE_META_REACTION, r)" for e
    using that by (auto simp: entry_key_def bump_aux_def split: if_splits)
next
  fix m junk
  assume m: "meta_at m = (meta_at (db id'))((NDB_NOTE_META_REACTION, r) \<mapsto> (case meta_at (db id') (NDB_NOTE_META_REACTION, r) of
    None \<Rightarrow> ndb_note_meta_reaction_set 1 r junk | Some e \<Rightarrow> bump_aux e))"
  have "reaction_count m = (reaction_count (db id'))(r := reaction_count (db id') r + 1)"
    by (rule ext) (simp add: reaction_count_def m ndb_note_meta_reaction_set_def bump_aux_def split: option.splits)
  moreover have "note_counts_at m = note_counts_at (db id')" by (simp add: note_counts_at_def m counts_key_def)
  moreover have "zap_totals m = zap_totals (db id')" by (simp add: zap_totals_def m)
  ultimately show "stats_at m = add_reaction r (stats_at (db id'))" by (simp add: stats_at_def add_reaction_def)
qed

lemma zap_step:
  assumes a: "opt_wf (db id')" "has_room 1 env (db id')" "se_put_ok env NDB_NOTE_META_ZAP_UNVERIFIED id'"
  shows "ok (update_meta env db id' NDB_NOTE_META_ZAP_UNVERIFIED None (ndb_note_meta_zap_unverified_set 1 msats) (add_zap msats)) (counted db id' (add_zap_of msats))"
proof (rule counted_step[where db = db and id' = id' and k = "(NDB_NOTE_META_ZAP_UNVERIFIED, 0)", OF a])
  show "key_args NDB_NOTE_META_ZAP_UNVERIFIED None (NDB_NOTE_META_ZAP_UNVERIFIED, 0)" by (simp add: key_args_def)
  show "entry_key (ndb_note_meta_zap_unverified_set 1 msats e) = (NDB_NOTE_META_ZAP_UNVERIFIED, 0)" for e
    by (simp add: entry_key_def ndb_note_meta_zap_unverified_set_def)
  show "entry_key (add_zap msats e) = (NDB_NOTE_META_ZAP_UNVERIFIED, 0)" if "entry_key e = (NDB_NOTE_META_ZAP_UNVERIFIED, 0)" for e
    using that by (auto simp: entry_key_def add_zap_def split: if_splits)
next
  fix m junk
  assume m: "meta_at m = (meta_at (db id'))((NDB_NOTE_META_ZAP_UNVERIFIED, 0) \<mapsto> (case meta_at (db id') (NDB_NOTE_META_ZAP_UNVERIFIED, 0) of
    None \<Rightarrow> ndb_note_meta_zap_unverified_set 1 msats junk | Some e \<Rightarrow> add_zap msats e))"
  have "reaction_count m = reaction_count (db id')" by (rule ext) (simp add: reaction_count_def m)
  moreover have "note_counts_at m = note_counts_at (db id')" by (simp add: note_counts_at_def m counts_key_def)
  moreover have "zap_totals m = (fst (zap_totals (db id')) + 1, snd (zap_totals (db id')) + msats)"
    by (simp add: zap_totals_def m ndb_note_meta_zap_unverified_set_def add_zap_def split: option.splits)
  ultimately show "stats_at m = add_zap_of msats (stats_at (db id'))" by (simp add: stats_at_def add_zap_of_def)
qed

section \<open>What notes do to the counters\<close>

text \<open>The updates of one note: which notes it speaks of, and what it changes there.\<close>

definition note_updates :: "bool \<Rightarrow> ndb_note \<Rightarrow> u8 list \<Rightarrow> u8 list \<Rightarrow> (u8 list \<times> (note_stats \<Rightarrow> note_stats)) list" where
  "note_updates no_stats n content after =
     (let kind = nt_kind n; tags = nt_tags n;
          on = (\<lambda>i g. case i of None \<Rightarrow> [] | Some i \<Rightarrow> [(i, g)]);
          reply = ndb_parse_reply tags in
      if kind = 1 \<or> kind = 30023 then
        on (ndb_note_first_tag_id 113 tags) add_quote @
        on (if ndb_is_reply_to_root reply then nr_root reply else nr_reply reply) add_direct_reply @
        on (nr_root reply) add_thread_reply
      else if kind = 7 \<and> \<not> no_stats then
        (case reaction_key content after of
           None \<Rightarrow> []
         | Some r \<Rightarrow> on (ndb_note_last_id_tag 101 tags None) (add_reaction r) @ on (ndb_note_last_id_tag 101 tags None) add_total_reaction)
      else if kind = 6 \<or> kind = 16 then on (ndb_note_first_tag_id 101 tags) add_repost
      else if kind = 9735 \<and> \<not> no_stats then
        (case ndb_parse_zap_bolt11 tags of
           Some (Some msats) \<Rightarrow> on (ndb_note_last_id_tag 101 tags None) (add_zap_of msats)
         | _ \<Rightarrow> [])
      else [])"

fun apply_update :: "(u8 list \<Rightarrow> note_stats) \<Rightarrow> u8 list \<times> (note_stats \<Rightarrow> note_stats) \<Rightarrow> u8 list \<Rightarrow> note_stats" where
  "apply_update st (i, g) = st(i := g (st i))"

definition db_stats :: "meta_db \<Rightarrow> u8 list \<Rightarrow> note_stats" where
  "db_stats db i = stats_at (db i)"

text \<open>Every write succeeds, and every record takes \<open>n\<close> more entries.\<close>

definition stats_ready :: "nat \<Rightarrow> stats_env \<Rightarrow> meta_db \<Rightarrow> bool" where
  "stats_ready n env db \<longleftrightarrow> (\<forall>i. opt_wf (db i) \<and> has_room n env (db i)) \<and> (\<forall>typ i. se_put_ok env typ i)"

definition tracked :: "nat \<Rightarrow> stats_env \<Rightarrow> meta_db \<Rightarrow> (u8 list \<times> (note_stats \<Rightarrow> note_stats)) list \<Rightarrow> meta_db \<Rightarrow> bool" where
  "tracked n env db us db' \<longleftrightarrow> stats_ready n env db' \<and> db_stats db' = foldl apply_update (db_stats db) us"

lemma stats_ready_mono: "stats_ready n env db \<Longrightarrow> m \<le> n \<Longrightarrow> stats_ready m env db"
  unfolding stats_ready_def by (meson add_le_cancel_left has_room_less le_refl)

lemma tracked_none: "stats_ready n env db \<Longrightarrow> m \<le> n \<Longrightarrow> tracked m env db [] db"
  by (simp add: tracked_def stats_ready_mono)

lemma tracked_append: "tracked n env db us db1 \<Longrightarrow> tracked m env db1 vs db2 \<Longrightarrow> tracked m env db (us @ vs) db2"
  by (simp add: tracked_def)

lemma stats_ready_one: "stats_ready (Suc n) env db \<Longrightarrow> opt_wf (db i) \<and> has_room 1 env (db i) \<and> se_put_ok env typ i"
  by (auto simp: stats_ready_def has_room_def dest: spec[of _ i])

lemma counted_tracked:
  assumes "counted db i g (r, db')" "stats_ready (Suc n) env db"
  shows "r \<and> tracked n env db [(i, g)] db'"
proof -
  obtain m where m: "r" "db' = db(i \<mapsto> m)" "meta_wf m" "entries_of (Some m) \<le> entries_of (db i) + 1" "stats_at (Some m) = g (stats_at (db i))"
    using assms(1) by (auto simp: counted_def)
  have room: "has_room (Suc n) env (db j)" "opt_wf (db j)" for j using assms(2) by (simp_all add: stats_ready_def)
  have "has_room n env (db' j)" for j
    using room(1)[of j] room(1)[of i] m(2,4) by (auto simp: has_room_def)
  moreover have "opt_wf (db' j)" for j using room(2)[of j] m(2,3) by (simp add: opt_wf_def)
  moreover have "db_stats db' = (db_stats db)(i := g (db_stats db i))" using m(2,5) by (auto simp: db_stats_def fun_eq_iff)
  ultimately show ?thesis using m(1) assms(2) by (simp add: tracked_def stats_ready_def)
qed

text \<open>A counter that is called with an id, and its result dropped.\<close>

lemma tracked_step:
  assumes "ok (f db i) (counted db i g)" "stats_ready (Suc n) env db"
  shows "\<exists>db'. f db i = Some (True, db') \<and> tracked n env db [(i, g)] db'"
proof -
  obtain res where "f db i = Some res" "counted db i g res" using assms(1) by (auto simp: ok_iff)
  then show ?thesis using counted_tracked[OF _ assms(2)] by (cases res) auto
qed

lemma tracked_opt:
  assumes "\<And>i. x = Some i \<Longrightarrow> ok (f db i) (counted db i g)" "stats_ready (Suc n) env db"
  shows "\<exists>db'. (case x of None \<Rightarrow> Some db | Some i \<Rightarrow> map_option snd (f db i)) = Some db' \<and>
    tracked n env db (case x of None \<Rightarrow> [] | Some i \<Rightarrow> [(i, g)]) db'"
proof (cases x)
  case None
  then show ?thesis using tracked_none[OF assms(2)] by simp
next
  case (Some i)
  then show ?thesis using tracked_step[of f db i, OF assms(1)[OF Some] assms(2)] by auto
qed

lemma process_note_stats_tracked:
  assumes "stats_ready (Suc (Suc (Suc n))) env db" "nt_kind x = 1 \<or> nt_kind x = 30023"
  shows "\<exists>db'. ndb_process_note_stats env db (nt_tags x) = Some db' \<and> tracked n env db (note_updates no_stats x content after) db'"
proof -
  define tags where "tags = nt_tags x"
  define reply where "reply = ndb_parse_reply tags"
  define rid where "rid = (if ndb_is_reply_to_root reply then nr_root reply else nr_reply reply)"
  let ?on = "\<lambda>i g. case i of None \<Rightarrow> [] | Some i \<Rightarrow> [(i, g)]"
  obtain db1 where 1: "(case ndb_note_first_tag_id 113 tags of None \<Rightarrow> Some db | Some i \<Rightarrow> map_option snd (ndb_increment_quote_metadata env db i)) = Some db1"
      "tracked (Suc (Suc n)) env db (?on (ndb_note_first_tag_id 113 tags) add_quote) db1"
    using tracked_opt[of _ "ndb_increment_quote_metadata env", OF counters_step(1)[of db] assms(1)] stats_ready_one[OF assms(1)] by blast
  then have r1: "stats_ready (Suc (Suc n)) env db1" by (simp add: tracked_def)
  obtain db2 where 2: "(case rid of None \<Rightarrow> Some db1 | Some i \<Rightarrow> map_option snd (ndb_increment_direct_reply_metadata env db1 i)) = Some db2"
      "tracked (Suc n) env db1 (?on rid add_direct_reply) db2"
    using tracked_opt[of _ "ndb_increment_direct_reply_metadata env", OF counters_step(2)[of db1] r1] stats_ready_one[OF r1] by blast
  then have r2: "stats_ready (Suc n) env db2" by (simp add: tracked_def)
  obtain db3 where 3: "(case nr_root reply of None \<Rightarrow> Some db2 | Some i \<Rightarrow> map_option snd (ndb_increment_thread_reply_metadata env db2 i)) = Some db3"
      "tracked n env db2 (?on (nr_root reply) add_thread_reply) db3"
    using tracked_opt[of _ "ndb_increment_thread_reply_metadata env", OF counters_step(3)[of db2] r2] stats_ready_one[OF r2] by blast
  have "ndb_process_note_stats env db tags = Some db3"
    unfolding ndb_process_note_stats_def Let_def reply_def[symmetric] rid_def[symmetric] using 1(1) 2(1) 3(1) by (simp only: Option.bind.bind_lunit)
  moreover have "tracked n env db (note_updates no_stats x content after) db3"
    using tracked_append[OF tracked_append[OF 1(2) 2(2)] 3(2)] assms(2)
    by (simp only: note_updates_def Let_def tags_def[symmetric] reply_def[symmetric] rid_def[symmetric] if_True append_assoc)
  ultimately show ?thesis by (auto simp: tags_def)
qed

lemma process_reaction_tracked:
  assumes ready: "stats_ready (Suc (Suc n)) env db" and key: "reaction_key content after = Some r"
  shows "\<exists>b db'. ndb_write_reaction_stats env db tags content after = Some (b, db') \<and>
    tracked n env db (case ndb_note_last_id_tag 101 tags None of None \<Rightarrow> [] | Some i \<Rightarrow> [(i, add_reaction r), (i, add_total_reaction)]) db'"
proof (cases "ndb_note_last_id_tag 101 tags None")
  case None
  then show ?thesis using tracked_none[OF ready] by (intro exI[of _ False] exI[of _ db]) (simp add: ndb_write_reaction_stats_def ndb_process_reaction_def)
next
  case (Some i)
  obtain db1 where 1: "update_meta env db i NDB_NOTE_META_REACTION (Some r) (ndb_note_meta_reaction_set 1 r) bump_aux = Some (True, db1)"
      "tracked (Suc n) env db [(i, add_reaction r)] db1"
    using tracked_step[of "\<lambda>db i. update_meta env db i NDB_NOTE_META_REACTION (Some r) (ndb_note_meta_reaction_set 1 r) bump_aux", OF reaction_step[of db] ready]
      stats_ready_one[OF ready] by blast
  then have r1: "stats_ready (Suc n) env db1" by (simp add: tracked_def)
  obtain db2 where 2: "ndb_increment_total_reactions env db1 i = Some (True, db2)" "tracked n env db1 [(i, add_total_reaction)] db2"
    using tracked_step[of "ndb_increment_total_reactions env", OF counters_step(5)[of db1] r1] stats_ready_one[OF r1] by blast
  have "ndb_write_reaction_stats env db tags content after = Some (True, db2)"
    using Some 1(1) 2(1) key by (simp add: ndb_write_reaction_stats_def ndb_process_reaction_def)
  then show ?thesis using tracked_append[OF 1(2) 2(2)] Some by auto
qed

lemma parse_zap_total: "\<exists>r. ndb_parse_zap_bolt11 tags = Some r"
proof -
  have "\<exists>r. (do { inv \<leftarrow> bolt11_decode_minimal s; case inv of Inl e \<Rightarrow> Some None
      | Inr b \<Rightarrow> Some (Some (case b11_msat b of None \<Rightarrow> 0 | Some x \<Rightarrow> x)) }) = Some r" for s
  proof -
    obtain inv where "bolt11_decode_minimal s = Some inv" using bolt11_decode_ok[of s] by (auto simp: ok_iff)
    then show ?thesis by (cases inv) simp_all
  qed
  then show ?thesis
    by (cases "ndb_note_find_tag_str tags (str ''bolt11'')"; cases "the (ndb_note_find_tag_str tags (str ''bolt11''))") (simp_all add: ndb_parse_zap_bolt11_def Let_def)
qed

lemma zap_tracked:
  assumes ready: "stats_ready (Suc n) env db"
  shows "\<exists>b db'. ndb_write_unverified_zap_stats env db tags = Some (b, db') \<and>
    tracked n env db (case ndb_parse_zap_bolt11 tags of Some (Some msats) \<Rightarrow>
      (case ndb_note_last_id_tag 101 tags None of None \<Rightarrow> [] | Some i \<Rightarrow> [(i, add_zap_of msats)]) | _ \<Rightarrow> []) db'"
proof -
  obtain p where p: "ndb_parse_zap_bolt11 tags = Some p" using parse_zap_total by blast
  have none: "tracked n env db [] db" by (rule tracked_none[OF ready]) simp
  show ?thesis
  proof (cases "ndb_note_last_id_tag 101 tags None")
    case (Some i)
    show ?thesis
    proof (cases p)
      case (Some msats)
      obtain db1 where 1: "update_meta env db i NDB_NOTE_META_ZAP_UNVERIFIED None (ndb_note_meta_zap_unverified_set 1 msats) (add_zap msats) = Some (True, db1)"
          "tracked n env db [(i, add_zap_of msats)] db1"
        using tracked_step[of "\<lambda>db i. update_meta env db i NDB_NOTE_META_ZAP_UNVERIFIED None (ndb_note_meta_zap_unverified_set 1 msats) (add_zap msats)", OF zap_step[of db] ready]
          stats_ready_one[OF ready] by blast
      show ?thesis using 1 p Some \<open>ndb_note_last_id_tag 101 tags None = Some i\<close> by (auto simp: ndb_write_unverified_zap_stats_def)
    qed (use none p Some in \<open>auto simp: ndb_write_unverified_zap_stats_def\<close>)
  qed (use none p in \<open>auto simp: ndb_write_unverified_zap_stats_def split: option.splits\<close>)
qed

lemma write_stats_tracked:
  assumes ready: "stats_ready (Suc (Suc (Suc n))) env db" and key: "nt_kind x = 7 \<Longrightarrow> reaction_key content after \<noteq> None"
  shows "\<exists>db'. write_stats env no_stats db x content after = Some db' \<and> tracked n env db (note_updates no_stats x content after) db'"
proof -
  have r1: "stats_ready (Suc n) env db" and r2: "stats_ready (Suc (Suc n)) env db" and none: "tracked n env db [] db"
    using stats_ready_mono[OF ready] tracked_none[OF ready] by simp_all
  consider "nt_kind x = 1 \<or> nt_kind x = 30023" | "nt_kind x = 7" "\<not> no_stats" | "nt_kind x = 6 \<or> nt_kind x = 16"
    | "nt_kind x = 9735" "\<not> no_stats" | "\<not> (nt_kind x = 1 \<or> nt_kind x = 30023)" "\<not> (nt_kind x = 7 \<and> \<not> no_stats)"
        "\<not> (nt_kind x = 6 \<or> nt_kind x = 16)" "\<not> (nt_kind x = 9735 \<and> \<not> no_stats)" by blast
  then show ?thesis
  proof cases
    case 1
    then show ?thesis using process_note_stats_tracked[OF ready 1] by (simp add: write_stats_def)
  next
    case 2
    obtain r where r: "reaction_key content after = Some r" using key 2(1) by blast
    show ?thesis using process_reaction_tracked[OF r2 r, of "nt_tags x"] 2 r
      by (cases "ndb_note_last_id_tag 101 (nt_tags x) None") (auto simp: write_stats_def note_updates_def)
  next
    case 3
    have "\<exists>db'. ndb_process_repost_stats env db (nt_tags x) = Some db' \<and>
        tracked n env db (case ndb_note_first_tag_id 101 (nt_tags x) of None \<Rightarrow> [] | Some i \<Rightarrow> [(i, add_repost)]) db'"
      unfolding ndb_process_repost_stats_def
      using tracked_opt[of _ "ndb_increment_repost_metadata env", OF counters_step(4)[of db] r1] stats_ready_one[OF r1] by blast
    then show ?thesis using 3 by (auto simp: write_stats_def note_updates_def)
  next
    case 4
    then show ?thesis using zap_tracked[OF r1, of "nt_tags x"] by (auto simp: write_stats_def note_updates_def Let_def)
  next
    case 5
    then show ?thesis using none unfolding write_stats_def note_updates_def Let_def if_not_P[OF 5(1)] if_not_P[OF 5(2)] if_not_P[OF 5(3)] if_not_P[OF 5(4)] by blast
  qed
qed

section \<open>The counters are right\<close>

text \<open>A sequence of notes with their contents and what lies behind those in memory.\<close>

fun write_all_stats :: "stats_env \<Rightarrow> bool \<Rightarrow> meta_db \<Rightarrow> (ndb_note \<times> u8 list \<times> u8 list) list \<Rightarrow> meta_db option" where
  "write_all_stats env no_stats db [] = Some db"
| "write_all_stats env no_stats db ((x, content, after) # xs) = do {
     db \<leftarrow> write_stats env no_stats db x content after;
     write_all_stats env no_stats db xs }"

lemma write_all_stats_tracked:
  assumes "stats_ready (3 * length xs) env db" "\<forall>(x, content, after)\<in>set xs. nt_kind x = 7 \<longrightarrow> reaction_key content after \<noteq> None"
  shows "\<exists>db'. write_all_stats env no_stats db xs = Some db' \<and>
    db_stats db' = foldl apply_update (db_stats db) (concat (map (\<lambda>(x, content, after). note_updates no_stats x content after) xs))"
  using assms
proof (induction xs arbitrary: db)
  case (Cons y ys)
  obtain x content after where y: "y = (x, content, after)" by (cases y) auto
  have "stats_ready (Suc (Suc (Suc (3 * length ys)))) env db" using Cons.prems(1) by (simp add: eval_nat_numeral)
  then obtain db1 where 1: "write_stats env no_stats db x content after = Some db1"
      "tracked (3 * length ys) env db (note_updates no_stats x content after) db1"
    using write_stats_tracked[of "3 * length ys" env db x content after no_stats] Cons.prems(2) y by auto
  then have "stats_ready (3 * length ys) env db1" by (simp add: tracked_def)
  then obtain db' where "write_all_stats env no_stats db1 ys = Some db'"
      "db_stats db' = foldl apply_update (db_stats db1) (concat (map (\<lambda>(x, content, after). note_updates no_stats x content after) ys))"
    using Cons.IH[of db1] Cons.prems(2) by auto
  then show ?case using 1 y by (simp add: tracked_def)
qed simp

text \<open>A note that reacts to the note \<open>i\<close> with the text \<open>r\<close>.\<close>

definition reacts :: "bool \<Rightarrow> u8 list \<Rightarrow> reaction_str \<Rightarrow> ndb_note \<times> u8 list \<times> u8 list \<Rightarrow> bool" where
  "reacts no_stats i r = (\<lambda>(x, content, after). nt_kind x = 7 \<and> \<not> no_stats \<and>
     ndb_note_last_id_tag 101 (nt_tags x) None = Some i \<and> reaction_key content after = Some r)"

lemma reactions_kept:
  "ns_reactions (add_quote s) = ns_reactions s" "ns_reactions (add_direct_reply s) = ns_reactions s"
  "ns_reactions (add_thread_reply s) = ns_reactions s" "ns_reactions (add_repost s) = ns_reactions s"
  "ns_reactions (add_total_reaction s) = ns_reactions s" "ns_reactions (add_zap_of m s) = ns_reactions s"
  by (simp_all add: add_defs add_zap_of_def)

lemma one_update: "(\<forall>(j, g)\<in>set (case x of None \<Rightarrow> [] | Some i \<Rightarrow> [(i, h)]). P g) \<longleftrightarrow> (x \<noteq> None \<longrightarrow> P h)"
  by (cases x) auto

lemma reactions_of_note:
  "ns_reactions (foldl apply_update st (note_updates no_stats x content after) i) r =
     ns_reactions (st i) r + (if reacts no_stats i r (x, content, after) then 1 else 0)"
proof (cases "nt_kind x = 7 \<and> \<not> no_stats")
  case True
  then show ?thesis
    by (cases "reaction_key content after"; cases "ndb_note_last_id_tag 101 (nt_tags x) None")
      (auto simp: note_updates_def Let_def reacts_def reactions_kept add_reaction_def)
next
  case False
  have k: "ns_reactions (foldl apply_update st us i) r = ns_reactions (st i) r" if "\<forall>(j, g)\<in>set us. \<forall>s. ns_reactions (g s) = ns_reactions s" for us
    using that by (induction us arbitrary: st) (auto simp: fun_upd_def)
  have "ns_reactions (g s) = ns_reactions s" if "(j, g) \<in> set (note_updates no_stats x content after)" for j g s
    using that False unfolding note_updates_def Let_def by (simp only: split: if_split_asm) (auto simp: reactions_kept split: option.split_asm)

  then have "\<forall>(j, g)\<in>set (note_updates no_stats x content after). \<forall>s. ns_reactions (g s) = ns_reactions s" by blast
  then show ?thesis using k False by (simp add: reacts_def)
qed

lemma reactions_of_notes:
  "ns_reactions (foldl apply_update st (concat (map (\<lambda>(x, content, after). note_updates no_stats x content after) xs)) i) r =
     ns_reactions (st i) r + of_nat (length (filter (reacts no_stats i r) xs))"
  by (induction xs arbitrary: st) (auto simp: reactions_of_note split: prod.splits)



section \<open>Reactions and their text\<close>

text \<open>The components of an emoji are found again by their hash.\<close>

definition components_known :: "hash_table \<Rightarrow> u32 list \<Rightarrow> bool" where
  "components_known table cs \<longleftrightarrow> cs = [] \<or> 0 \<notin> set cs \<and> crc32 cs \<noteq> 0 \<and> map_of table (crc32 cs) = Some cs"

lemma set_str_loop_fits: "0 \<notin> set s \<Longrightarrow> set_str_loop n s out = (True, cs) \<Longrightarrow> cs = out @ s @ [0] \<and> length s < n"
proof (induction n s out rule: set_str_loop.induct)
  case (2 n s out)
  show ?case
  proof (cases s)
    case (Cons c s')
    then show ?thesis using 2 by (auto simp: Let_def split: if_splits)
  qed (use 2 in auto)
qed simp

lemma parse_wf: "binmoji_parse s = Some bj \<Longrightarrow> components_known table (bj_component_list bj) \<Longrightarrow> binmoji_wf table bj \<and> bj_flags bj = 0"
  using parse_codepoints_wf[of s binmoji_zero]
  by (auto simp: binmoji_parse_def binmoji_wf_def components_known_def binmoji_zero_def crc32_def)

lemma packed_reaction:
  assumes "0 \<notin> set s" "ndb_reaction_set_str s = Some (True, r)"
  shows "ndb_reaction_to_str table r = s"
proof -
  have z: "le_bytes 8 (binmoji_set_user_flag 0 True) = [8, 0, 0, 0, 0, 0, 0, 0]"
    by code_simp
  obtain cs where cs: "set_str_loop 7 s [] = (True, cs)" and r: "r = le_word (8 # cs @ drop (length cs) [0, 0, 0, 0, 0, 0, 0])"
    using assms(2) by (auto simp: ndb_reaction_set_str_def Let_def packed_flag_byte_def packed_chars_def z split: prod.splits)
  have c: "cs = s @ [0]" "length s < 7" using set_str_loop_fits[OF assms(1) cs] by simp_all
  define bs where "bs = 8 # cs @ drop (length cs) [0, 0, 0, 0, 0, 0, 0 :: u8]"
  have l: "length bs = 8" using c by (simp add: bs_def)
  have b: "le_bytes 8 r = bs" unfolding r bs_def[symmetric] using l by (simp add: le_bytes_le_word)
  have "bit r 3" unfolding r bs_def[symmetric] bit_le_word using l by (simp add: bs_def bit_simps)
  moreover have "bit USER_FLAG_MASK n \<longleftrightarrow> n = 3" for n
    unfolding USER_FLAG_MASK_def bit_push_bit_iff bit_1_iff by auto
  ultimately have "binmoji_get_user_flag r" unfolding binmoji_get_user_flag_def by (intro bit_word_eqI) (auto simp: bit_and_iff)
  then show ?thesis using c assms(1) by (simp add: ndb_reaction_to_str_def ndb_reaction_str_is_emoji_def packed_chars_def b bs_def takeWhile_append)
qed

text \<open>
  A reaction is stored in eight bytes, as an emoji or as a short text. What is stored is read back as
  the text of the reaction, when the table knows the components of the emoji.
\<close>

lemma reaction_roundtrip:
  assumes s: "0 \<notin> set s" "length s < 128" and set: "ndb_reaction_set s after = Some (True, r)"
    and known: "\<And>bj. binmoji_parse (s @ 0 # after) = Some bj \<Longrightarrow> components_known table (bj_component_list bj)"
  shows "ndb_reaction_to_str table r = s"
proof -
  obtain bj where bj: "binmoji_parse (s @ 0 # after) = Some bj" using set by (cases "binmoji_parse (s @ 0 # after)") (auto simp: ndb_reaction_set_def)
  show ?thesis
  proof (cases "strcmp (binmoji_to_string bj 136) s = 0")
    case True
    then have t: "binmoji_to_string bj 136 = s" by (simp add: strcmp_eq_0)
    have r: "r = binmoji_encode bj" using set bj True by (simp add: ndb_reaction_set_def)
    have w: "binmoji_wf table bj" "bj_flags bj = 0" using parse_wf[OF bj known[OF bj]] by simp_all
    have "binmoji_to_string bj 128 = s" using to_string_size[of 128 136 bj] t s(2) known[OF bj] by (auto simp: components_known_def)
    then show ?thesis using encode_user_flag[of bj] w by (simp add: ndb_reaction_to_str_def ndb_reaction_str_is_emoji_def r decode_encode)
  next
    case False
    then show ?thesis using packed_reaction[OF s(1)] set bj by (simp add: ndb_reaction_set_def)
  qed
qed

text \<open>Without the components in the table, two different reactions become one.\<close>

lemma reaction_loses_components:
  "\<exists>r. ndb_reaction_set [97, 0xE2, 0x80, 0x8D, 98] [] = Some (True, r) \<and> ndb_reaction_to_str [] r = [97]"
proof -
  define bj where "bj = binmoji_zero\<lparr>bj_primary_codepoint := 97, bj_component_list := [98], bj_component_hash := crc32 [98]\<rparr>"
  have p: "binmoji_parse [97, 0xE2, 0x80, 0x8D, 98, 0] = Some bj"
    by (simp add: binmoji_parse_def parse_codepoints.simps codepoint_at_def binmoji_add_def is_base_emoji_def low6_def binmoji_zero_def bj_def)
  have "binmoji_to_string bj 136 = [97, 0xE2, 0x80, 0x8D, 98]"
    by (simp add: binmoji_to_string_def bj_def binmoji_zero_def append_utf8_def utf8_bytes_def Let_def)
  then have s: "ndb_reaction_set [97, 0xE2, 0x80, 0x8D, 98] [] = Some (True, binmoji_encode bj)"
    by (simp add: ndb_reaction_set_def p strcmp_eq_0)
  let ?d = "binmoji_decode [] (binmoji_encode bj)"
  have d: "bj_component_list ?d = []" by (simp add: binmoji_decode_def lookup_binmoji_by_hash_def Let_def)
  have f: "bj_primary_codepoint ?d = 97" "bj_skin_tone1 ?d = 0" "bj_skin_tone2 ?d = 0"
    unfolding decode_encode_fields by (simp_all add: bj_def binmoji_zero_def mask_eq_exp_minus_1)
  have "binmoji_to_string ?d 128 = [97]" by (simp add: binmoji_to_string_def d f append_utf8_def utf8_bytes_def Let_def)
  moreover have "ndb_reaction_str_is_emoji (binmoji_encode bj)"
    unfolding ndb_reaction_str_is_emoji_def by (rule encode_user_flag) (simp add: bj_def binmoji_zero_def)
  ultimately have "ndb_reaction_to_str [] (binmoji_encode bj) = [97]" by (simp add: ndb_reaction_to_str_def)
  then show ?thesis using s by blast
qed

end
