(* ===== verification/Spec2Isabelle.thy ===== *)
theory Spec2Isabelle
  imports Content_Parser Threadpool Query Json_Parse Subscriptions Note_Meta
begin

text \<open>
  nostrdb: a model of the core of the library and its correctness

  The program. nostrdb is an embedded database for nostr events ("notes"). Text arrives as JSON and is
  parsed into notes in a compact binary layout; the content of a note is parsed into blocks (text,
  hashtags, links, mentions, invoices); notes are stored in LMDB together with several indices; clients
  build filters, run queries against the indices or subscribe and are notified of new notes.
  The parts and their theories, in the order of their dependence:

  \<^item> \<open>Prelude\<close>: machine types, byte-addressed memory, undefined behaviour, little-endian
    integers, and the rules for reasoning about results (\<open>ok\<close>, \<open>part\<close>).
  \<^item> \<open>Cursor\<close>, \<open>Varint\<close>, \<open>Cursor_Text\<close>: the bounded cursor of \<open>src/src/cursor.h\<close>,
    with its variable-length integers and its text scanners. Everything that reads or writes
    a buffer goes through it.
  \<^item> \<open>Hex\<close> (\<open>src/src/hex.h\<close>), \<open>Bech32\<close> (\<open>src/src/bolt11/bech32.c\<close>),
    \<open>Nostr_Bech32\<close> (\<open>src/src/nostr_bech32.c\<close>), \<open>Bolt11\<close> (\<open>src/src/bolt11/bolt11.c\<close>, with the UTF-8
    decoder of \<open>src/ccan/ccan/utf8/utf8.c\<close>): the text encodings.
  \<^item> \<open>Blocks\<close> (\<open>src/src/block.c\<close>, \<open>src/src/invoice.c\<close>, \<open>src/src/str_block.h\<close>) and
    \<open>Content_Parser\<close> (\<open>src/src/content_parser.c\<close>): the encoded blocks, their iterator, and the parser
    that writes them.
  \<^item> \<open>Queue\<close> (\<open>src/src/protected_queue.h\<close>) and \<open>Threadpool\<close> (\<open>src/src/threadpool.h\<close>): what the
    threads of the library exchange messages with.
  \<^item> \<open>Index_Keys\<close>, \<open>Merger\<close>, \<open>Note_Filter\<close>, \<open>Query\<close>, \<open>Note_Store\<close>, \<open>Note_Json\<close>,
    \<open>Json_Parse\<close>, \<open>Subscriptions\<close>: the parts of \<open>src/src/nostrdb.c\<close>, namely the keys of the indices
    and their orders, the backward scans over an index, filters, query plans, the layout of a note
    and its builder, JSON output and input, and the monitor of subscriptions.

  Conventions. An outer \<open>None\<close> is undefined behaviour: a read or write outside of allocated memory, a
  failed assertion, signed overflow. A failure the code reports is a value: a C result of 0 is
  \<open>False\<close>, or an inner \<open>None\<close> where an out parameter would be left unset. Pointers are integers and
  memory is a partial map from pointers to bytes; where a buffer is only appended to and read back by
  offset (filters, notes, JSON output) it is given by its contents and its capacity. Machine integers
  are words of their width, and a conversion to \<open>int\<close> or \<open>char\<close> is written out. What a call gets
  from the outside is an argument: whether an allocation succeeded, what a hash or a signature check
  returned, the tokens of the tokenizer, the sorted entries of an index. Operations that
  hold a lock throughout are single functions; the interleavings of threads are sequences of such calls.

  Loops are structural recursions or functions with a measure (the bytes left in the buffer, the
  elements left, the distance to the end of the heap), so every definition is total and termination is
  proved; no fuel is used except in the loops over type-length-value entries and over the tags of an
  invoice, where the fuel is the length of the buffer and every round consumes a byte.

  What the lemmas show.
  \<^item> The cursor never leaves its buffer, what is pushed is pulled back, and the scanners only move forward
    (\<open>cursor_writer\<close>, \<open>cursor_reader\<close>, \<open>cursor_codec\<close> and \<open>scanner\<close> are the interfaces, interpreted
    for each pair of operations).
  \<^item> Encodings: varints, bech32, keys, blocks and invoices round-trip; corrupted or short input is
    reported and read within bounds, apart from the places listed below.
  \<^item> \<open>ndb_parse_content\<close> stays inside its content and its output and succeeds or reports an error; the
    iterator yields what was encoded.
  \<^item> The queue is first in, first out under every interleaving (\<open>bounded_fifo\<close>), and dispatch is round
    robin.
  \<^item> The comparison functions of the indices are linear orders (\<open>key_comparator\<close>, interpreted for
    each of them, for the elements of filters, for scans and for results), so that lookups, binary
    search and sorting do what they should. The merger refines the specification "the newest
    n entries of the groups, newest first".
  \<^item> Building a filter keeps it well formed and it then accepts what was asked for; queries return the
    matching notes, newest first, within their limits.
  \<^item> A built note reads back, its JSON is well formed, and its id hashes the serialisation of NIP-01.
  \<^item> The monitor is a system of mailboxes (\<open>mailboxes\<close>): a subscriber gets the keys of the notes it
    asked for, in order, at most once, and none is lost as long as its inbox has room.

  Where the code departs from what it means to do, the model departs with it and a theorem shows it:
  \<open>nprofile_prefix_overflow\<close>, \<open>bolt11_rejects_trailing_text\<close>, \<open>failed_invoice_counts_twice\<close>,
  \<open>push_str_block_hides_overflow\<close>, \<open>invoice_hash_at_end_unreadable\<close>, \<open>bech32_mention_size_unchecked\<close>,
  \<open>invoice_amount_wraps\<close>, \<open>is_punctuation_low_byte\<close>, \<open>long_relay_truncated\<close>, \<open>filter_eq_ignores_tag_letter\<close>,
  \<open>empty_ids_field_aborts\<close>, \<open>eleventh_field_overflows\<close>, \<open>second_tag_field_ignored\<close>, \<open>reply_markers_ignored\<close>,
  \<open>builder_init_header_overlap\<close>, \<open>single_escape_kept\<close>, \<open>commitment_time_negative\<close>, \<open>filter_json_cuts_numbers\<close>,
  \<open>custom_field_leaves_comma\<close>, \<open>content_taken_for_key\<close>, \<open>relay_filter_read_as_empty\<close>,
  \<open>short_event_reads_past_tokens\<close> and \<open>relay_subscription_aborts\<close>.

  Not modelled. LMDB, the flatbuffers runtime, libsodium and secp256k1 are libraries: a database is the
  sorted list of its entries, hashes and signatures are arguments. The tokenizer jsmn is vendored. The threads that
  ingest and write notes, the transactions, the migrations and the pruning of the database are calls
  into LMDB around the operations modelled here. Encryption (NIP-44, gift wraps), the configuration,
  the command line tool, the statistics and debug printers and the bindings are left out.
\<close>

end
